(* ===== verification/Prelude.thy ===== *)
theory Prelude
  imports Main
begin

text \<open>
  The prelude of the development: the collections of simplification rules, the
  error-propagating composition that models early returns, and the generic lemmas on
  lists and on counting over a finite range of thread numbers that the components share.
\<close>

section \<open>Collections of rules\<close>

named_theorems cstr_simps \<open>equations of the C string functions\<close>
named_theorems step_simps \<open>definitions unfolded to evaluate one step of a machine\<close>
named_theorems inv_defs \<open>definitions of the invariants\<close>

section \<open>Errors as values\<close>

text \<open>
  A C function that can fail or run into undefined behaviour returns a sum: \<open>Inl\<close> for
  the failure, \<open>Inr\<close> for the result. \<open>ebind\<close> runs the rest of a function body
  only when what came before succeeded.
\<close>

fun ebind :: "'e + 'a \<Rightarrow> ('a \<Rightarrow> 'e + 'b) \<Rightarrow> 'e + 'b" where
  "ebind (Inl e) f = Inl e"
| "ebind (Inr x) f = f x"

lemma ebind_Inr_iff: "ebind m f = Inr y \<longleftrightarrow> (\<exists>x. m = Inr x \<and> f x = Inr y)"
  by (cases m) auto

lemma ebind_Inl_iff: "ebind m f = Inl e \<longleftrightarrow> m = Inl e \<or> (\<exists>x. m = Inr x \<and> f x = Inl e)"
  by (cases m) auto

lemma ebind_cong [fundef_cong]:
  "m = m' \<Longrightarrow> (\<And>x. m' = Inr x \<Longrightarrow> f x = g x) \<Longrightarrow> ebind m f = ebind m' g"
  by (cases m') auto

section \<open>Lists\<close>

lemma takeWhile_all_eq: "\<forall>x\<in>set xs. P x \<Longrightarrow> takeWhile P xs = xs"
  by (simp add: takeWhile_eq_all_conv)

lemma dropWhile_all_eq: "\<forall>x\<in>set xs. P x \<Longrightarrow> dropWhile P xs = []"
  by simp

lemma takeWhile_append_stop:
  "\<forall>x\<in>set xs. P x \<Longrightarrow> \<not> P y \<Longrightarrow> takeWhile P (xs @ y # ys) = xs"
  by (simp add: takeWhile_tail)

lemma dropWhile_append_stop:
  "\<forall>x\<in>set xs. P x \<Longrightarrow> \<not> P y \<Longrightarrow> dropWhile P (xs @ y # ys) = y # ys"
  by (simp add: dropWhile_append3)

lemma length_dropWhile_less: "dropWhile P xs = y # ys \<Longrightarrow> length ys < length xs"
  by (metis Suc_le_lessD length_Cons length_dropWhile_le)

lemma takeWhile_nonempty: "xs \<noteq> [] \<Longrightarrow> P (hd xs) \<Longrightarrow> takeWhile P xs \<noteq> []"
  by (cases xs) auto

lemma nth_list_update_if: "xs[i := x] ! j = (if i = j \<and> j < length xs then x else xs ! j)"
  by (metis list_update_beyond linorder_not_less nth_list_update_eq nth_list_update_neq)

lemma last_replicate_append: "0 < n \<Longrightarrow> last (xs @ replicate n c) = c"
  by (cases n) (simp_all add: last_append)

section \<open>Counting over a range of threads\<close>

text \<open>
  \<open>cnt P f n\<close> is the number of \<open>i < n\<close> whose \<open>f i\<close> satisfies \<open>P\<close>:
  how many of the first \<open>n\<close> threads are at a given place of their program.
\<close>

primrec cnt :: "('a \<Rightarrow> bool) \<Rightarrow> (nat \<Rightarrow> 'a) \<Rightarrow> nat \<Rightarrow> nat" where
  "cnt P f 0 = 0"
| "cnt P f (Suc n) = cnt P f n + (if P (f n) then 1 else 0)"

lemma cnt_upd_out [simp]: "n \<le> i \<Longrightarrow> cnt P (f(i := x)) n = cnt P f n"
  by (induction n) auto

lemma cnt_upd:
  "i < n \<Longrightarrow> cnt P (f(i := x)) n + (if P (f i) then 1 else 0)
     = cnt P f n + (if P x then 1 else 0)"
proof (induction n)
  case 0
  then show ?case by simp
next
  case (Suc n)
  show ?case
  proof (cases "i = n")
    case True
    have "cnt P (f(n := x)) n = cnt P f n" by (rule cnt_upd_out) simp
    then show ?thesis unfolding True cnt.simps fun_upd_same by simp
  next
    case False
    with Suc show ?thesis by auto
  qed
qed

lemma cnt_set: "i < n \<Longrightarrow> cnt P (f(i := x)) n = cnt P f n + of_bool (P x) - of_bool (P (f i))"
  using cnt_upd [of i n P f x] by auto

lemma cnt_upd_same: "i < n \<Longrightarrow> P (f i) = P x \<Longrightarrow> cnt P (f(i := x)) n = cnt P f n"
  using cnt_upd [of i n P f x] by auto

lemma cnt_upd_in: "i < n \<Longrightarrow> \<not> P (f i) \<Longrightarrow> P x \<Longrightarrow> cnt P (f(i := x)) n = Suc (cnt P f n)"
  using cnt_upd [of i n P f x] by auto

lemma cnt_upd_del: "i < n \<Longrightarrow> P (f i) \<Longrightarrow> \<not> P x \<Longrightarrow> Suc (cnt P (f(i := x)) n) = cnt P f n"
  using cnt_upd [of i n P f x] by auto

lemma cnt_le: "cnt P f n \<le> n"
  by (induction n) auto

lemma cnt_0_iff: "cnt P f n = 0 \<longleftrightarrow> (\<forall>i<n. \<not> P (f i))"
  by (induction n) (auto simp: less_Suc_eq)

lemma cnt_all_iff: "cnt P f n = n \<longleftrightarrow> (\<forall>i<n. P (f i))"
proof (induction n)
  case 0
  then show ?case by simp
next
  case (Suc n)
  have "cnt P f n \<le> n" by (rule cnt_le)
  with Suc show ?case by (auto simp: less_Suc_eq)
qed

lemma cnt_less: "i < n \<Longrightarrow> \<not> P (f i) \<Longrightarrow> cnt P f n < n"
  using cnt_le [of P f n] cnt_all_iff [of P f n] by auto

lemma cnt_pos: "i < n \<Longrightarrow> P (f i) \<Longrightarrow> 0 < cnt P f n"
  using cnt_0_iff [of P f n] by auto

lemma cnt_pos_ex: "0 < cnt P f n \<Longrightarrow> \<exists>i<n. P (f i)"
  using cnt_0_iff [of P f n] by auto

lemma cnt_two:
  assumes "i < n" "j < n" "i \<noteq> j" "P (f i)" "P (f j)"
  shows "2 \<le> cnt P f n"
  using assms
proof (induction n)
  case 0
  then show ?case by simp
next
  case (Suc n)
  show ?case
  proof (cases "i = n \<or> j = n")
    case True
    then have "0 < cnt P f n" and "P (f n)"
      using Suc.prems cnt_pos [of i n P f] cnt_pos [of j n P f] by (auto simp: less_Suc_eq)
    then show ?thesis by simp
  next
    case False
    with Suc show ?thesis by (auto simp: less_Suc_eq)
  qed
qed

lemma cnt_cong: "(\<And>i. i < n \<Longrightarrow> P (f i) = Q (g i)) \<Longrightarrow> cnt P f n = cnt Q g n"
  by (induction n) auto

lemma cnt_const: "cnt P (\<lambda>_. x) n = (if P x then n else 0)"
  by (induction n) auto

lemma cnt_disj:
  "(\<And>x. \<not> (P x \<and> Q x)) \<Longrightarrow> cnt (\<lambda>x. P x \<or> Q x) f n = cnt P f n + cnt Q f n"
  by (induction n) auto

text \<open>Sums over the threads, for measures and for what the threads hold.\<close>

lemma sum_upd:
  fixes f :: "nat \<Rightarrow> 'a::comm_monoid_add"
  assumes "i < n"
  shows "(\<Sum>j<n. (f(i := x)) j) + f i = (\<Sum>j<n. f j) + x"
proof -
  have "(\<Sum>j<n. g j) = g i + (\<Sum>j\<in>{..<n} - {i}. g j)" for g :: "nat \<Rightarrow> 'a"
    using assms by (simp add: sum.remove)
  from this [of f] this [of "f(i := x)"] show ?thesis by (simp add: ac_simps)
qed

lemma sum_change:
  fixes f g :: "nat \<Rightarrow> 'a::comm_monoid_add"
  assumes "i < n" "\<And>j. j < n \<Longrightarrow> j \<noteq> i \<Longrightarrow> g j = f j"
  shows "(\<Sum>j<n. g j) + f i = (\<Sum>j<n. f j) + g i"
proof -
  have "(\<Sum>j<n. g j) = (\<Sum>j<n. (f(i := g i)) j)" using assms(2) by (intro sum.cong) auto
  then show ?thesis using sum_upd [OF assms(1), of f "g i"] by simp
qed

lemma sum_same:
  fixes f g :: "nat \<Rightarrow> 'a::comm_monoid_add"
  shows "(\<And>j. j < n \<Longrightarrow> g j = f j) \<Longrightarrow> (\<Sum>j<n. g j) = (\<Sum>j<n. f j)"
  by (intro sum.cong) auto

end
