(* ===== verification/CString.thy ===== *)
theory CString
  imports Prelude
begin

text \<open>
  The C string functions of the standard library that the shell calls. A NUL-terminated
  buffer is the list of its characters before the terminator; a function that writes
  into its argument returns the new contents. Where the code looks at the byte before a
  pointer into a buffer, that byte is carried along as a value.
\<close>

section \<open>Undefined behaviour\<close>

text \<open>
  What a C expression that leaves its object, reads memory nobody wrote or follows a null
  pointer does is not defined; the model stops with one of these.
\<close>

datatype ub = OOBRead | OOBWrite | ArgvOverflow | TasksOverflow | UninitRead | NullDeref

section \<open>Characters\<close>

abbreviation NUL :: char where "NUL \<equiv> CHR 0x00"
abbreviation SPACE :: char where "SPACE \<equiv> CHR 0x20"
abbreviation DQUOTE :: char where "DQUOTE \<equiv> CHR 0x22"
abbreviation SQUOTE :: char where "SQUOTE \<equiv> CHR 0x27"

text \<open>\<open>isspace\<close> in the C locale.\<close>

definition isspace :: "char \<Rightarrow> bool" where
  "isspace c \<longleftrightarrow> c = SPACE \<or> c = CHR 0x09 \<or> c = CHR 0x0A \<or> c = CHR 0x0B
     \<or> c = CHR 0x0C \<or> c = CHR 0x0D"

definition isdigit :: "char \<Rightarrow> bool" where
  "isdigit c \<longleftrightarrow> 48 \<le> (of_char c :: nat) \<and> (of_char c :: nat) \<le> 57"

lemma isspace_simps [simp]:
  "isspace SPACE" "\<not> isspace DQUOTE" "\<not> isspace SQUOTE" "\<not> isspace (CHR ''|'')"
  "\<not> isspace (CHR ''<'')" "\<not> isspace (CHR ''>'')" "\<not> isspace (CHR ''&'')" "\<not> isspace NUL"
  by (simp_all add: isspace_def)

section \<open>strtok\_r\<close>

text \<open>
  \<open>strtok_r d prev s\<close> models one call of \<open>strtok_r\<close> with the delimiter set \<open>d\<close>
  on the part \<open>s\<close> of a buffer that \<open>prev\<close> precedes. It returns the token, the
  byte before the token, and the saved position: the byte before the rest (the
  terminator written over the delimiter) and the rest.
\<close>

definition last_or :: "char \<Rightarrow> string \<Rightarrow> char" where
  "last_or p s = (if s = [] then p else last s)"

definition strtok_r ::
  "(char \<Rightarrow> bool) \<Rightarrow> char \<Rightarrow> string \<Rightarrow> (string \<times> char \<times> char \<times> string) option" where
  "strtok_r d prev s =
     (let skipped = takeWhile d s; t = dropWhile d s
      in if t = [] then None
         else (let tok = takeWhile (\<lambda>c. \<not> d c) t; rest = dropWhile (\<lambda>c. \<not> d c) t
               in Some (tok, last_or prev skipped,
                        (case rest of [] \<Rightarrow> (last tok, []) | _ # r \<Rightarrow> (NUL, r)))))"

lemma strtok_r_less:
  assumes "strtok_r d prev s = Some (tok, p, prev', s')"
  shows "length s' < length s"
proof -
  have "dropWhile d s \<noteq> []" using assms by (auto simp: strtok_r_def simp del: dropWhile_eq_Nil_conv)
  then obtain y ys where t: "dropWhile d s = y # ys" by (cases "dropWhile d s") auto
  then have ny: "\<not> d y" by (metis hd_dropWhile list.distinct(1) list.sel(1))
  have "length ys < length s" using t by (rule length_dropWhile_less)
  moreover have "length s' \<le> length ys"
    using assms t ny length_dropWhile_le [of "\<lambda>c. \<not> d c" ys]
    by (auto simp: strtok_r_def Let_def split: list.splits if_splits)
  ultimately show ?thesis by simp
qed

lemma strtok_r_Some:
  assumes "strtok_r d prev s = Some (tok, p, prev', s')"
  shows "dropWhile d s \<noteq> []" "tok = takeWhile (\<lambda>c. \<not> d c) (dropWhile d s)"
    and "s' = (case dropWhile (\<lambda>c. \<not> d c) (dropWhile d s) of [] \<Rightarrow> [] | _ # r \<Rightarrow> r)"
proof -
  show ne: "dropWhile d s \<noteq> []"
    using assms by (auto simp: strtok_r_def Let_def simp del: dropWhile_eq_Nil_conv)
  show "tok = takeWhile (\<lambda>c. \<not> d c) (dropWhile d s)"
    "s' = (case dropWhile (\<lambda>c. \<not> d c) (dropWhile d s) of [] \<Rightarrow> [] | _ # r \<Rightarrow> r)"
    using assms ne
    by (auto simp: strtok_r_def Let_def simp del: dropWhile_eq_Nil_conv split: list.splits)
qed

lemma strtok_r_None: "strtok_r d prev s = None \<longleftrightarrow> (\<forall>c\<in>set s. d c)"
  by (auto simp: strtok_r_def Let_def)

lemma strtok_r_nil [simp]: "strtok_r d prev [] = None"
  by (simp add: strtok_r_def)

lemma strtok_r_last:
  assumes "s \<noteq> []" "\<forall>c\<in>set s. \<not> d c"
  shows "strtok_r d prev s = Some (s, prev, last s, [])"
proof -
  have "takeWhile d s = []" using assms by (cases s) auto
  moreover have "dropWhile d s = s" using assms by (cases s) auto
  ultimately show ?thesis using assms
    by (simp add: strtok_r_def Let_def last_or_def takeWhile_all_eq dropWhile_all_eq)
qed

lemma strtok_r_step:
  assumes "s \<noteq> []" "\<forall>c\<in>set s. \<not> d c" "d y"
  shows "strtok_r d prev (s @ y # r) = Some (s, prev, NUL, r)"
proof -
  have "takeWhile d (s @ y # r) = []" using assms by (cases s) auto
  moreover have "dropWhile d (s @ y # r) = s @ y # r" using assms by (cases s) auto
  ultimately show ?thesis using assms
    by (simp add: strtok_r_def Let_def last_or_def takeWhile_append_stop dropWhile_append_stop)
qed

section \<open>atoi\<close>

text \<open>
  \<open>atoi\<close>: optional white space, an optional sign, then as many digits as there are; 0
  when there is none. Values outside the range of \<open>int\<close> are undefined in C; the model
  keeps the mathematical value.
\<close>

fun digits_val :: "int \<Rightarrow> string \<Rightarrow> int" where
  "digits_val acc [] = acc"
| "digits_val acc (c # s) =
     (if isdigit c then digits_val (10 * acc + (of_char c - 48)) s else acc)"

definition atoi :: "string \<Rightarrow> int" where
  "atoi s =
     (case dropWhile isspace s of
        [] \<Rightarrow> 0
      | c # r \<Rightarrow> if c = CHR ''-'' then - digits_val 0 r
                else if c = CHR ''+'' then digits_val 0 r
                else digits_val 0 (c # r))"

end
