(* ===== verification/Parse.thy ===== *)
theory Parse
  imports CString
begin

text \<open>
  The command line parser of the shell (pssh\_v2/parse.c and parse.h): the trimming and
  scanning helpers, the parser of one pipeline unit, and the parser of the whole line.
  Buffers that the code edits in place are passed through; \<open>b0\<close> is the byte that
  precedes the buffer returned by \<open>readline\<close>, which the code reads in two places.
  The slots of a malloc'ed argument vector are either not yet written, null, or a string.
\<close>

section \<open>Data\<close>

datatype slot = Uninit | Null | Ptr string

record task =
  cmd :: "string option"
  argv :: "slot list option"

record parse =
  tasks :: "task list"
  ntasks :: nat
  infile :: "string option"
  outfile :: "string option"
  background :: bool
  invalid_syntax :: bool

record cunit =
  u_cmd :: slot
  u_argv :: "slot list option"
  input_fn :: "string option"
  output_fn :: "string option"

definition ops :: "char list" where
  "ops = [CHR ''>'', CHR ''<'', CHR ''|'']"

section \<open>Helpers\<close>

fun trim_end :: "string \<Rightarrow> nat \<Rightarrow> nat" where
  "trim_end s 0 = 0"
| "trim_end s (Suc e) = (if isspace (s ! e) then trim_end s e else Suc e)"

definition trim :: "string \<Rightarrow> string" where
  "trim s =
     (let start = length (takeWhile isspace s); fin = length s
      in if start < length s
         then take (trim_end s fin - start) (drop start s)
         else take (fin - start) s)"

definition is_background :: "char \<Rightarrow> string \<Rightarrow> ub + (bool \<times> string)" where
  "is_background b0 cmdline =
     (let s = trim cmdline
      in if s = [] then (if b0 = CHR ''&'' then Inl OOBWrite else Inr (False, s))
         else if s ! (length s - 1) = CHR ''&'' then Inr (True, take (length s - 1) s)
         else Inr (False, s))"

definition is_empty :: "string option \<Rightarrow> bool \<times> string option" where
  "is_empty cmdline =
     (let c = map_option trim cmdline
      in (case c of None \<Rightarrow> True | Some s \<Rightarrow> length s = 0, c))"

definition is_op :: "char \<Rightarrow> bool" where
  "is_op c \<longleftrightarrow> c \<in> set ops"

definition has_trailing :: "char \<Rightarrow> char \<Rightarrow> string \<Rightarrow> bool \<times> string" where
  "has_trailing b0 needle haystack =
     (let s = trim haystack
      in ((case s of [] \<Rightarrow> NUL | c # _ \<Rightarrow> c) = needle
            \<or> (if s = [] then b0 else s ! (length s - 1)) = needle, s))"

fun count_char :: "char \<Rightarrow> string \<Rightarrow> nat" where
  "count_char needle [] = 0"
| "count_char needle (c # s) = (if c = needle then 1 else 0) + count_char needle s"

text \<open>
  The loop of \<open>count_args\<close>; the argument is what is left of the unit. White space at the
  very end makes the loop step over the terminator, and so does a quoted argument that is
  never closed.
\<close>

fun count_args_loop :: "string \<Rightarrow> nat \<Rightarrow> ub + nat"
  and skip_quoted :: "char \<Rightarrow> string \<Rightarrow> nat \<Rightarrow> ub + nat" where
  "count_args_loop [] n = Inr n"
| "count_args_loop (c # s) n =
     (if isspace c then
        (case s of
           [] \<Rightarrow> Inl OOBRead
         | d # s' \<Rightarrow>
             if d = DQUOTE then skip_quoted DQUOTE s' n
             else if d = SQUOTE then skip_quoted SQUOTE s' n
             else if \<not> isspace d then count_args_loop s' (n + 1)
             else count_args_loop s' n)
      else count_args_loop s n)"
| "skip_quoted q [] n = Inl OOBRead"
| "skip_quoted q (c # s) n =
     (if c = q then count_args_loop s (n + 1) else skip_quoted q s n)"

definition count_args :: "string \<Rightarrow> ub + nat" where
  "count_args unit = count_args_loop unit 0"

section \<open>Parsing one unit of the pipeline\<close>

definition valid_syntax :: "parse \<Rightarrow> cunit option \<Rightarrow> nat \<Rightarrow> ub + bool" where
  "valid_syntax P U i =
     (case U of
        None \<Rightarrow> Inr False
      | Some u \<Rightarrow>
          if input_fn u \<noteq> None \<and> (i \<noteq> 0 \<or> fst (is_empty (input_fn u))) then Inr False
          else if output_fn u \<noteq> None
               \<and> (int i \<noteq> int (ntasks P) - 1 \<or> fst (is_empty (output_fn u))) then Inr False
          else (case u_cmd u of
                  Uninit \<Rightarrow> Inl UninitRead
                | Null \<Rightarrow> Inr False
                | Ptr s \<Rightarrow> Inr (s \<noteq> [])))"

definition parse_unary :: "char \<Rightarrow> string \<Rightarrow> string option \<times> string" where
  "parse_unary op unit =
     (case dropWhile (\<lambda>c. c \<noteq> op) unit of
        [] \<Rightarrow> (None, unit)
      | _ # start \<Rightarrow>
          (let arg = takeWhile (\<lambda>c. \<not> is_op c) start;
               rest = dropWhile (\<lambda>c. \<not> is_op c) start
           in (Some (trim arg),
               takeWhile (\<lambda>c. c \<noteq> op) unit @ replicate (length arg + 1) SPACE @ rest)))"

text \<open>
  \<open>argtok prev str\<close>: the token, and the saved position with the byte before it.
\<close>

definition argskip :: "char \<Rightarrow> bool" where
  "argskip c \<longleftrightarrow> c = SPACE \<or> c = DQUOTE \<or> c = SQUOTE"

definition argstop :: "char \<Rightarrow> char" where
  "argstop p = (if p = DQUOTE then DQUOTE else if p = SQUOTE then SQUOTE else SPACE)"

definition cut_at :: "char \<Rightarrow> string \<Rightarrow> string \<times> char \<times> string" where
  "cut_at stop s =
     (takeWhile (\<lambda>c. c \<noteq> stop) s,
      (case dropWhile (\<lambda>c. c \<noteq> stop) s of [] \<Rightarrow> (last s, []) | _ # r \<Rightarrow> (NUL, r)))"

definition argtok :: "char \<Rightarrow> string \<Rightarrow> (string \<times> char \<times> string) option" where
  "argtok prev str =
     (let s = dropWhile argskip str; p = last_or prev (takeWhile argskip str)
      in if s = [] then None else Some (cut_at (argstop p) s))"

lemma argstop_skip: "argskip (argstop p)"
  by (simp add: argstop_def argskip_def)

lemma cut_at_less:
  assumes "cut_at stop (y # ys) = (tok, p, s')" and "y \<noteq> stop"
  shows "length s' \<le> length ys"
proof (cases "dropWhile (\<lambda>c. c \<noteq> stop) ys")
  case Nil
  with assms show ?thesis by (simp add: cut_at_def)
next
  case (Cons a r)
  with assms have "s' = r" by (simp add: cut_at_def)
  with Cons show ?thesis using length_dropWhile_less by fastforce
qed

lemma argtok_less:
  assumes "argtok prev s = Some (tok, p, s')"
  shows "length s' < length s"
proof (cases "dropWhile argskip s")
  case Nil
  with assms show ?thesis by (simp add: argtok_def)
next
  case (Cons y ys)
  let ?stop = "argstop (last_or prev (takeWhile argskip s))"
  have "\<not> argskip y" using Cons by (metis hd_dropWhile list.distinct(1) list.sel(1))
  then have "y \<noteq> ?stop" using argstop_skip by metis
  moreover have "cut_at ?stop (y # ys) = (tok, p, s')" using assms Cons by (simp add: argtok_def)
  ultimately have "length s' \<le> length ys" by (blast intro: cut_at_less)
  with Cons show ?thesis using length_dropWhile_less [of argskip s y ys] by simp
qed

function argv_fill :: "slot list \<Rightarrow> nat \<Rightarrow> char \<Rightarrow> string \<Rightarrow> ub + slot list" where
  "argv_fill av n prev str =
     (case argtok prev str of
        None \<Rightarrow> Inr av
      | Some (tok, p, str') \<Rightarrow>
          if n < length av then argv_fill (av[n := Ptr tok]) (n + 1) p str' else Inl ArgvOverflow)"
  by pat_completeness auto
termination
  by (relation "measure (\<lambda>(av, n, prev, str). length str)") (auto dest: argtok_less)

declare argv_fill.simps [simp del]

definition parse_command :: "cunit \<Rightarrow> char \<Rightarrow> string \<Rightarrow> ub + cunit" where
  "parse_command U prev unit =
     (let s = trim unit
      in ebind (count_args s) (\<lambda>k.
         let argc = k + 1
         in ebind (argv_fill ((replicate (argc + 1) Uninit)[argc := Null]) 0 prev s) (\<lambda>av.
              Inr (U\<lparr>u_argv := Some av, u_cmd := av ! 0\<rparr>))))"

definition parse_unit :: "char \<Rightarrow> string \<Rightarrow> ub + cunit option" where
  "parse_unit prev unit =
     (let infiles = count_char CHR ''<'' unit; outfiles = count_char CHR ''>'' unit
      in if infiles > 1 \<or> outfiles > 1 then Inr None
         else if odd (count_char SQUOTE unit) then Inr None
         else if odd (count_char DQUOTE unit) then Inr None
         else (let (i, s1) = (if infiles \<noteq> 0 then parse_unary CHR ''<'' unit else (None, unit));
                   (out, s2) = (if outfiles \<noteq> 0 then parse_unary CHR ''>'' s1 else (None, s1))
               in ebind (parse_command
                           \<lparr>u_cmd = Null, u_argv = None, input_fn = i, output_fn = out\<rparr> prev s2)
                    (\<lambda>U. Inr (Some U))))"

text \<open>
  Freeing or counting an argument vector walks it up to the terminating null; the strings
  passed on the way are returned in order.
\<close>

fun argv_walk :: "slot list \<Rightarrow> ub + string list" where
  "argv_walk [] = Inl OOBRead"
| "argv_walk (Uninit # av) = Inl UninitRead"
| "argv_walk (Null # av) = Inr []"
| "argv_walk (Ptr s # av) = ebind (argv_walk av) (\<lambda>ss. Inr (s # ss))"

definition opt_list :: "'a option \<Rightarrow> 'a list" where
  "opt_list x = (case x of None \<Rightarrow> [] | Some a \<Rightarrow> [a])"

definition unit_destroy :: "cunit option \<Rightarrow> ub + string list" where
  "unit_destroy U =
     (case U of
        None \<Rightarrow> Inr []
      | Some u \<Rightarrow>
          ebind (case u_argv u of None \<Rightarrow> Inr [] | Some av \<Rightarrow> argv_walk av) (\<lambda>fs.
            Inr (opt_list (input_fn u) @ opt_list (output_fn u) @ fs)))"

section \<open>Parsing the line\<close>

definition store_task :: "parse \<Rightarrow> cunit \<Rightarrow> nat \<Rightarrow> parse" where
  "store_task P u i =
     P\<lparr>tasks := (tasks P)[i := (tasks P ! i)
          \<lparr>cmd := (case u_cmd u of Ptr s \<Rightarrow> Some s | _ \<Rightarrow> None),
           argv := (case u_argv u of None \<Rightarrow> argv (tasks P ! i) | Some av \<Rightarrow> Some av)\<rparr>],
       infile := (if input_fn u \<noteq> None \<and> i = 0 then input_fn u else infile P),
       outfile := (if output_fn u \<noteq> None \<and> int i = int (ntasks P) - 1
                   then output_fn u else outfile P)\<rparr>"

definition drop_taken :: "parse \<Rightarrow> cunit \<Rightarrow> nat \<Rightarrow> cunit" where
  "drop_taken P u i =
     u\<lparr>u_argv := None,
       input_fn := (if i = 0 then None else input_fn u),
       output_fn := (if int i = int (ntasks P) - 1 then None else output_fn u)\<rparr>"

definition parse_add_unit :: "parse \<Rightarrow> cunit option \<Rightarrow> nat \<Rightarrow> ub + parse" where
  "parse_add_unit P U i =
     ebind (valid_syntax P U i) (\<lambda>ok.
       if \<not> ok then
         ebind (unit_destroy U) (\<lambda>_. Inr (P\<lparr>invalid_syntax := True\<rparr>))
       else if length (tasks P) \<le> i then Inl TasksOverflow
       else ebind (unit_destroy (Some (drop_taken P (the U) i))) (\<lambda>_.
              Inr (store_task P (the U) i)))"

definition parse_new :: parse where
  "parse_new = \<lparr>tasks = [], ntasks = 0, infile = None, outfile = None,
                background = False, invalid_syntax = False\<rparr>"

definition parse_init :: "char \<Rightarrow> parse \<Rightarrow> string \<Rightarrow> ub + (parse \<times> string)" where
  "parse_init b0 P cmdline =
     ebind (is_background b0 cmdline) (\<lambda>(bg, s).
       let P1 = P\<lparr>background := bg\<rparr>
       in if count_char CHR ''&'' s \<noteq> 0 then Inr (P1\<lparr>invalid_syntax := True\<rparr>, s)
          else (let (tr, s') = has_trailing b0 CHR ''|'' s
                in if tr then Inr (P1\<lparr>invalid_syntax := True\<rparr>, s')
                   else (let n = count_char CHR ''|'' s' + 1
                         in Inr (P1\<lparr>ntasks := n,
                                    tasks := replicate n \<lparr>cmd = None, argv = None\<rparr>\<rparr>, s'))))"

fun task_free :: "task list \<Rightarrow> ub + string list" where
  "task_free [] = Inr []"
| "task_free (t # ts) =
     ebind (case argv t of None \<Rightarrow> Inr [] | Some av \<Rightarrow> argv_walk av) (\<lambda>fs.
       ebind (task_free ts) (\<lambda>gs. Inr (fs @ gs)))"

definition parse_destroy :: "parse option \<Rightarrow> ub + string list" where
  "parse_destroy P =
     (case P of
        None \<Rightarrow> Inr []
      | Some p \<Rightarrow>
          ebind (task_free (tasks p)) (\<lambda>fs.
            Inr (opt_list (infile p) @ opt_list (outfile p) @ fs)))"

function units_loop :: "char \<Rightarrow> string \<Rightarrow> nat \<Rightarrow> parse \<Rightarrow> ub + parse" where
  "units_loop prev str i P =
     (if invalid_syntax P then Inr P
      else case strtok_r (\<lambda>c. c = CHR ''|'') prev str of
        None \<Rightarrow> Inr P
      | Some (token, p, prev', str') \<Rightarrow>
          ebind (parse_unit p token) (\<lambda>U.
            ebind (parse_add_unit P U i) (\<lambda>P'. units_loop prev' str' (i + 1) P')))"
  by pat_completeness auto
termination
  by (relation "measure (\<lambda>(prev, str, i, P). length str)") (auto dest: strtok_r_less)

declare units_loop.simps [simp del]

definition parse_cmdline :: "char \<Rightarrow> string \<Rightarrow> ub + parse option" where
  "parse_cmdline b0 cmdline =
     (case is_empty (Some cmdline) of
        (emp, c) \<Rightarrow>
          if emp then Inr None
          else ebind (parse_init b0 parse_new (the c)) (\<lambda>(P, s).
                 ebind (units_loop b0 s 0 P) (\<lambda>P'. Inr (Some P'))))"

end
