(* ===== verification/Jobs.thy ===== *)
theory Jobs
  imports Parse
begin

text \<open>
  The job table of the shell (pssh\_v2/jobs.c and jobs.h): a fixed array of jobs, each with
  the process ids of its pipeline. An index outside the array is an out-of-bounds access.
  The terminal output is a list of messages, one constructor per format string of the
  shell's \<open>printf\<close> calls. The source's status \<open>TERM\<close> is \<open>TERM_JOB\<close> here.
\<close>

section \<open>Data\<close>

datatype job_status = STOPPED | TERM_JOB | BG | FG

record job =
  job_name :: "string option"
  pids :: "int list"
  npids :: nat
  pgrp :: int
  status :: job_status

datatype msg =
    MStarted nat "int list"
  | MSuspended int string
  | MContinued int string
  | MDone int string
  | MJob int job_status string
  | MUsage string
  | MInvalidJob string
  | MInvalidPid string
  | MWhich string
  | MWhichBuiltin string
  | MNotImplemented string
  | MNotFound string
  | MNoFile string
  | MDenied string
  | MSyntax

definition MAX_JOBS :: nat where
  "MAX_JOBS = 100"

section \<open>Operations\<close>

definition jobs_init :: "job list \<Rightarrow> job list" where
  "jobs_init J = map (\<lambda>j. j\<lparr>job_name := None, pids := [], npids := 0, status := STOPPED\<rparr>) J"

text \<open>The first slot without a name, counted from \<open>i\<close>.\<close>

fun free_slot :: "job list \<Rightarrow> nat \<Rightarrow> nat" where
  "free_slot [] i = i"
| "free_slot (j # J) i = (if job_name j = None then i else free_slot J (i + 1))"

definition job_add ::
  "job list \<Rightarrow> int list \<Rightarrow> string \<Rightarrow> parse \<Rightarrow> ub + (bool \<times> job list \<times> msg list)" where
  "job_add J ps cmdline P =
     (let i = free_slot J 0
      in if i = length J then Inr (False, J, [])
         else if ps = [] then Inl OOBRead
         else (let j = \<lparr>job_name = Some cmdline, pids = ps, npids = ntasks P, pgrp = ps ! 0,
                        status = (if background P then BG else FG)\<rparr>
               in Inr (True, J[i := j],
                       if status j = BG then [MStarted i (take (ntasks P) ps)] else [])))"

fun job_find :: "job list \<Rightarrow> nat \<Rightarrow> int \<Rightarrow> int" where
  "job_find [] i pid = -1"
| "job_find (j # J) i pid =
     (if pid \<in> set (take (npids j) (pids j)) then int i else job_find J (i + 1) pid)"

definition job_get_number :: "job list \<Rightarrow> int \<Rightarrow> int" where
  "job_get_number J pid = job_find J 0 pid"

definition job_at :: "job list \<Rightarrow> int \<Rightarrow> ub + job" where
  "job_at J jnum = (if 0 \<le> jnum \<and> jnum < int (length J) then Inr (J ! nat jnum) else Inl OOBRead)"

definition job_get_name :: "job list \<Rightarrow> int \<Rightarrow> ub + string" where
  "job_get_name J jnum =
     ebind (job_at J jnum) (\<lambda>j. case job_name j of None \<Rightarrow> Inl NullDeref | Some n \<Rightarrow> Inr n)"

definition job_get_pgrp :: "job list \<Rightarrow> int \<Rightarrow> ub + int" where
  "job_get_pgrp J jnum = ebind (job_at J jnum) (\<lambda>j. Inr (pgrp j))"

definition zero_pid :: "int \<Rightarrow> nat \<Rightarrow> int list \<Rightarrow> int list" where
  "zero_pid pid n ps = map (\<lambda>p. if p = pid then 0 else p) (take n ps) @ drop n ps"

definition job_remove_pid :: "job list \<Rightarrow> int \<Rightarrow> job list" where
  "job_remove_pid J pid =
     (let jnum = job_get_number J pid
      in if jnum < 0 then J
         else (let j = J ! nat jnum
               in J[nat jnum := j\<lparr>pids := zero_pid pid (npids j) (pids j)\<rparr>]))"

definition job_is_done :: "job list \<Rightarrow> int \<Rightarrow> ub + bool" where
  "job_is_done J jnum =
     ebind (job_at J jnum) (\<lambda>j. Inr (list_all (\<lambda>p. p = 0) (take (npids j) (pids j))))"

definition job_delete :: "job list \<Rightarrow> int \<Rightarrow> ub + job list" where
  "job_delete J jnum =
     ebind (job_at J jnum) (\<lambda>j. Inr (J[nat jnum := j\<lparr>npids := 0, pids := [], job_name := None\<rparr>]))"

definition job_exists :: "job list \<Rightarrow> int \<Rightarrow> ub + bool" where
  "job_exists J jnum = ebind (job_at J jnum) (\<lambda>j. Inr (job_name j \<noteq> None))"

text \<open>\<open>job_kill\<close> returns the calls of \<open>kill\<close> it makes.\<close>

definition job_kill :: "job list \<Rightarrow> int \<Rightarrow> int \<Rightarrow> ub + (int \<times> int) list" where
  "job_kill J jnum sig =
     ebind (job_exists J jnum) (\<lambda>ex.
       if \<not> ex then Inr [] else Inr [(-1 * pgrp (J ! nat jnum), sig)])"

definition job_set_status :: "job list \<Rightarrow> int \<Rightarrow> job_status \<Rightarrow> ub + job list" where
  "job_set_status J jnum st =
     ebind (job_exists J jnum) (\<lambda>ex.
       if \<not> ex then Inr J else Inr (J[nat jnum := (J ! nat jnum)\<lparr>status := st\<rparr>]))"

definition get_job_status :: "job list \<Rightarrow> int \<Rightarrow> ub + job_status" where
  "get_job_status J jnum =
     ebind (job_exists J jnum) (\<lambda>ex. if \<not> ex then Inr TERM_JOB else Inr (status (J ! nat jnum)))"

definition job_print :: "job list \<Rightarrow> int \<Rightarrow> ub + msg list" where
  "job_print J jnum =
     ebind (job_exists J jnum) (\<lambda>ex.
       if \<not> ex then Inr []
       else (let j = J ! nat jnum in Inr [MJob jnum (status j) (the (job_name j))]))"

fun jobs_print_from :: "job list \<Rightarrow> nat list \<Rightarrow> ub + msg list" where
  "jobs_print_from J [] = Inr []"
| "jobs_print_from J (i # is) =
     ebind (if job_name (J ! i) \<noteq> None \<and> job_name (J ! i) \<noteq> Some ''jobs''
            then job_print J (int i) else Inr [])
       (\<lambda>ms. ebind (jobs_print_from J is) (\<lambda>ns. Inr (ms @ ns)))"

definition jobs_print :: "job list \<Rightarrow> ub + msg list" where
  "jobs_print J = jobs_print_from J [0..<length J]"

section \<open>Well-formed tables\<close>

text \<open>
  The process ids of a slot in use are as many as it says, and a free slot has none. A live
  process id (one that is not 0) belongs to one slot only.
\<close>

definition live_pids :: "job \<Rightarrow> int set" where
  "live_pids j = set (take (npids j) (pids j)) - {0}"

definition wf_job :: "job \<Rightarrow> bool" where
  "wf_job j \<longleftrightarrow> npids j = length (pids j) \<and> (job_name j = None \<longleftrightarrow> npids j = 0)"

definition wf_jobs :: "job list \<Rightarrow> bool" where
  "wf_jobs J \<longleftrightarrow> length J = MAX_JOBS \<and> list_all wf_job J
     \<and> (\<forall>i<length J. \<forall>k<length J. \<forall>p\<in>live_pids (J ! i). p \<in> live_pids (J ! k) \<longrightarrow> i = k)"

lemma wf_jobs_length: "wf_jobs J \<Longrightarrow> length J = MAX_JOBS"
  by (simp add: wf_jobs_def)

lemma wf_jobs_nth: "wf_jobs J \<Longrightarrow> i < length J \<Longrightarrow> wf_job (J ! i)"
  by (simp add: wf_jobs_def list_all_length)

lemma wf_jobs_unique:
  "wf_jobs J \<Longrightarrow> i < length J \<Longrightarrow> k < length J \<Longrightarrow> p \<in> live_pids (J ! i) \<Longrightarrow>
     p \<in> live_pids (J ! k) \<Longrightarrow> i = k"
  unfolding wf_jobs_def by blast

text \<open>Replacing one slot keeps a table well formed when its live ids are new or were there.\<close>

lemma wf_jobs_update:
  assumes "wf_jobs J" "i < length J" "wf_job j"
    and "\<And>k p. k < length J \<Longrightarrow> p \<in> live_pids j \<Longrightarrow> p \<in> live_pids (J ! k) \<Longrightarrow> k = i"
  shows "wf_jobs (J[i := j])"
proof -
  have "a = b" if "a < length J" "b < length J" "p \<in> live_pids (J[i := j] ! a)"
    "p \<in> live_pids (J[i := j] ! b)" for a b p
    by (metis that assms(2,4) wf_jobs_unique [OF assms(1)] nth_list_update_eq nth_list_update_neq)
  moreover have "length J = MAX_JOBS" "list_all wf_job (J[i := j])"
    using assms(1-3) by (simp_all add: wf_jobs_def list_all_length nth_list_update)
  ultimately show ?thesis unfolding wf_jobs_def length_list_update by blast
qed

lemma wf_jobs_update_sub:
  assumes "wf_jobs J" "i < length J" "wf_job j" "live_pids j \<subseteq> live_pids (J ! i)"
  shows "wf_jobs (J[i := j])"
  using assms(1-3)
proof (rule wf_jobs_update)
  fix k p
  assume "k < length J" "p \<in> live_pids j" "p \<in> live_pids (J ! k)"
  then show "k = i" using assms(2,4) wf_jobs_unique [OF assms(1), of k i p] by auto
qed

section \<open>What the operations do\<close>

lemma jobs_init_wf: "length J = MAX_JOBS \<Longrightarrow> wf_jobs (jobs_init J)"
  by (auto simp: wf_jobs_def jobs_init_def list_all_iff wf_job_def live_pids_def)

lemma free_slot_bounds: "i \<le> free_slot J i \<and> free_slot J i \<le> i + length J"
  by (induction J i rule: free_slot.induct) auto

lemma free_slot_free:
  "free_slot J i < i + length J \<Longrightarrow> job_name (J ! (free_slot J i - i)) = None"
proof (induction J i rule: free_slot.induct)
  case (2 j J i)
  then show ?case using free_slot_bounds [of "i + 1" J] by (auto simp: nth_Cons' split: if_splits)
qed simp

lemma free_slot_full: "free_slot J i = i + length J \<longleftrightarrow> (\<forall>j\<in>set J. job_name j \<noteq> None)"
proof (induction J i rule: free_slot.induct)
  case (2 j J i)
  then show ?case using free_slot_bounds [of "i + 1" J] by auto
qed simp

lemma job_find_cases:
  "(job_find J i p = -1 \<and> (\<forall>j\<in>set J. p \<notin> set (take (npids j) (pids j)))) \<or>
   (\<exists>k<length J. job_find J i p = int (i + k) \<and> p \<in> set (take (npids (J ! k)) (pids (J ! k))))"
proof (induction J i p rule: job_find.induct)
  case (2 j J i pid)
  show ?case
  proof (cases "pid \<in> set (take (npids j) (pids j))")
    case True
    then show ?thesis by (auto intro!: exI [of _ 0])
  next
    case False
    with 2 show ?thesis by (fastforce intro: exI [of _ "Suc k" for k])
  qed
qed simp

lemma job_get_number_none:
  "job_get_number J p = -1 \<longleftrightarrow> (\<forall>j\<in>set J. p \<notin> set (take (npids j) (pids j)))"
  using job_find_cases [of J 0 p] by (force simp: job_get_number_def)

lemma job_get_number_some:
  "job_get_number J p \<noteq> -1 \<Longrightarrow> \<exists>k<length J. job_get_number J p = int k
     \<and> p \<in> set (take (npids (J ! k)) (pids (J ! k)))"
  using job_find_cases [of J 0 p] by (auto simp: job_get_number_def)

lemma job_get_number_live:
  assumes "wf_jobs J" "k < length J" "p \<in> live_pids (J ! k)"
  shows "job_get_number J p = int k"
proof -
  have p: "p \<noteq> 0" "p \<in> set (take (npids (J ! k)) (pids (J ! k)))"
    using assms(3) by (auto simp: live_pids_def)
  then have "job_get_number J p \<noteq> -1"
    using assms(2) by (auto simp: job_get_number_none)
  then obtain i where i: "i < length J" "job_get_number J p = int i"
    "p \<in> set (take (npids (J ! i)) (pids (J ! i)))"
    using job_get_number_some by blast
  then have "p \<in> live_pids (J ! i)" using p by (simp add: live_pids_def)
  then have "i = k" using wf_jobs_unique [OF assms(1) i(1) assms(2)] assms(3) by blast
  with i show ?thesis by simp
qed

lemma length_zero_pid [simp]: "length (zero_pid p n ps) = length ps"
  by (simp add: zero_pid_def)

lemma live_zero_pid:
  "wf_job j \<Longrightarrow> p \<noteq> 0 \<Longrightarrow> live_pids (j\<lparr>pids := zero_pid p (npids j) (pids j)\<rparr>) = live_pids j - {p}"
  by (auto simp: live_pids_def zero_pid_def wf_job_def)

lemma wf_zero_pid: "wf_job j \<Longrightarrow> wf_job (j\<lparr>pids := zero_pid p (npids j) (pids j)\<rparr>)"
  by (simp add: wf_job_def)

lemma job_is_done_live:
  "wf_jobs J \<Longrightarrow> k < length J \<Longrightarrow> job_is_done J (int k) = Inr (live_pids (J ! k) = {})"
  by (auto simp: job_is_done_def job_at_def live_pids_def list_all_iff)

definition used :: "job list \<Rightarrow> nat \<Rightarrow> bool" where
  "used J k \<longleftrightarrow> k < length J \<and> job_name (J ! k) \<noteq> None"

definition live :: "job list \<Rightarrow> nat \<Rightarrow> int set" where
  "live J k = (if k < length J then live_pids (J ! k) else {})"

lemma live_used: "wf_jobs J \<Longrightarrow> p \<in> live J k \<Longrightarrow> used J k"
  using wf_jobs_nth [of J k]
  by (auto simp: live_def used_def live_pids_def wf_job_def split: if_splits)

lemma number_live: "wf_jobs J \<Longrightarrow> p \<in> live J k \<Longrightarrow> job_get_number J p = int k"
  by (auto simp: live_def job_get_number_live split: if_splits)

lemma remove_pid_upd:
  assumes "wf_jobs J" "p \<in> live J k"
  shows "job_remove_pid J p = J[k := (J ! k)\<lparr>pids := zero_pid p (npids (J ! k)) (pids (J ! k))\<rparr>]"
  using number_live [OF assms] by (simp add: job_remove_pid_def Let_def)

lemma remove_pid_wf:
  assumes "wf_jobs J" "p \<in> live J k"
  shows "wf_jobs (job_remove_pid J p)"
proof -
  have k: "k < length J" "p \<noteq> 0" using assms(2) by (auto simp: live_def live_pids_def split: if_splits)
  note j = wf_jobs_nth [OF assms(1) k(1)]
  show ?thesis unfolding remove_pid_upd [OF assms]
    using assms(1) k(1) wf_zero_pid [OF j]
    by (rule wf_jobs_update_sub) (use live_zero_pid [OF j k(2)] in auto)
qed

lemma remove_pid_live:
  assumes "wf_jobs J" "p \<in> live J k"
  shows "live (job_remove_pid J p) i = (if i = k then live J k - {p} else live J i)"
proof -
  have k: "k < length J" "p \<noteq> 0" using assms(2) by (auto simp: live_def live_pids_def split: if_splits)
  note z = live_zero_pid [OF wf_jobs_nth [OF assms(1) k(1)] k(2)]
  show ?thesis unfolding remove_pid_upd [OF assms]
    by (cases "i = k") (simp_all add: live_def k z)
qed

lemma remove_pid_fields:
  assumes "wf_jobs J" "p \<in> live J k"
  shows "length (job_remove_pid J p) = length J"
    and "job_name (job_remove_pid J p ! i) = job_name (J ! i)"
    and "status (job_remove_pid J p ! i) = status (J ! i)"
    and "pgrp (job_remove_pid J p ! i) = pgrp (J ! i)"
  unfolding remove_pid_upd [OF assms]
  by (simp_all add: nth_list_update_if)

lemma done_live: "wf_jobs J \<Longrightarrow> used J k \<Longrightarrow> job_is_done J (int k) = Inr (live J k = {})"
  by (simp add: used_def job_is_done_live live_def)

section \<open>The job table as an interface\<close>

text \<open>
  What the signal handler relies on: a live process id leads to its job, removing it takes
  it from that job only, and a job is done when no live id is left. The client lemma: a job
  is done exactly when all of its processes have been reaped, whatever the order and
  whatever processes of other jobs are reaped in between.
\<close>

locale job_table =
  fixes wf :: "'j \<Rightarrow> bool"
    and alive :: "'j \<Rightarrow> nat \<Rightarrow> int set"
    and in_use :: "'j \<Rightarrow> nat \<Rightarrow> bool"
    and number :: "'j \<Rightarrow> int \<Rightarrow> int"
    and remove :: "'j \<Rightarrow> int \<Rightarrow> 'j"
    and is_done :: "'j \<Rightarrow> int \<Rightarrow> ub + bool"
  assumes in_use_alive: "wf J \<Longrightarrow> p \<in> alive J k \<Longrightarrow> in_use J k"
    and number_alive: "wf J \<Longrightarrow> p \<in> alive J k \<Longrightarrow> number J p = int k"
    and wf_remove: "wf J \<Longrightarrow> p \<in> alive J k \<Longrightarrow> wf (remove J p)"
    and alive_remove: "wf J \<Longrightarrow> p \<in> alive J k \<Longrightarrow>
      alive (remove J p) i = (if i = k then alive J k - {p} else alive J i)"
    and in_use_remove: "wf J \<Longrightarrow> p \<in> alive J k \<Longrightarrow> in_use (remove J p) i = in_use J i"
    and is_done_alive: "wf J \<Longrightarrow> in_use J k \<Longrightarrow> is_done J (int k) = Inr (alive J k = {})"
begin

lemma alive_unique: "wf J \<Longrightarrow> p \<in> alive J i \<Longrightarrow> p \<in> alive J k \<Longrightarrow> i = k"
  using number_alive [of J p i] number_alive [of J p k] by simp

lemma reap_all:
  "wf J \<Longrightarrow> distinct ps \<Longrightarrow> (\<forall>p\<in>set ps. \<exists>k. p \<in> alive J k) \<Longrightarrow>
     wf (fold (\<lambda>p J. remove J p) ps J)
     \<and> (\<forall>i. alive (fold (\<lambda>p J. remove J p) ps J) i = alive J i - set ps)
     \<and> (\<forall>i. in_use (fold (\<lambda>p J. remove J p) ps J) i = in_use J i)"
proof (induction ps arbitrary: J)
  case Nil
  then show ?case by simp
next
  case (Cons p ps)
  obtain k where k: "p \<in> alive J k" using Cons.prems by auto
  let ?J = "remove J p"
  have wf: "wf ?J" using Cons.prems(1) k by (rule wf_remove)
  have al: "alive ?J i = alive J i - {p}" for i
    using alive_remove [OF Cons.prems(1) k] alive_unique [OF Cons.prems(1) k] by auto
  have "\<forall>q\<in>set ps. \<exists>k. q \<in> alive ?J k" using Cons.prems(2,3) al by auto
  moreover have "distinct ps" using Cons.prems(2) by simp
  moreover have "alive J i - {p} - set ps = alive J i - set (p # ps)" for i by auto
  ultimately show ?case using Cons.IH [OF wf]
    by (simp add: al in_use_remove [OF Cons.prems(1) k])
qed

lemma done_when_reaped:
  assumes "wf J" "distinct ps" "\<forall>p\<in>set ps. \<exists>k. p \<in> alive J k" "in_use J k"
  shows "is_done (fold (\<lambda>p J. remove J p) ps J) (int k) = Inr (alive J k \<subseteq> set ps)"
  using reap_all [OF assms(1-3)] is_done_alive assms(4) by (auto simp: Diff_eq_empty_iff)

end

interpretation jt: job_table wf_jobs live used job_get_number job_remove_pid job_is_done
proof
  fix J p k i
  assume J: "wf_jobs J" and p: "p \<in> live J k"
  show "used J k" using J p by (rule live_used)
  show "job_get_number J p = int k" using J p by (rule number_live)
  show "wf_jobs (job_remove_pid J p)" using J p by (rule remove_pid_wf)
  show "live (job_remove_pid J p) i = (if i = k then live J k - {p} else live J i)"
    using J p by (rule remove_pid_live)
  show "used (job_remove_pid J p) i = used J i"
    using remove_pid_fields(1,2) [OF J p] by (simp add: used_def)
next
  fix J k
  assume "wf_jobs J" "used J k"
  then show "job_is_done J (int k) = Inr (live J k = {})" by (rule done_live)
qed

section \<open>A sample table\<close>

text \<open>The table with one foreground job of two processes.\<close>

definition no_jobs :: "job list" where
  "no_jobs = replicate MAX_JOBS \<lparr>job_name = None, pids = [], npids = 0, pgrp = 0, status = STOPPED\<rparr>"

definition sample_jobs :: "job list" where
  "sample_jobs = no_jobs[0 := \<lparr>job_name = Some ''sleep 5 | cat'', pids = [7, 8], npids = 2, pgrp = 7, status = FG\<rparr>]"

lemma no_jobs_wf: "wf_jobs no_jobs"
  by (auto simp: wf_jobs_def no_jobs_def list_all_iff wf_job_def live_pids_def)

lemma no_jobs_length: "length no_jobs = 100"
  by (simp add: no_jobs_def MAX_JOBS_def)

lemma no_jobs_live [simp]: "live no_jobs k = {}"
  by (simp add: live_def no_jobs_def live_pids_def)

lemma sample_jobs_wf: "wf_jobs sample_jobs"
  unfolding sample_jobs_def
proof (rule wf_jobs_update [OF no_jobs_wf])
  show "0 < length no_jobs" by (simp add: no_jobs_length)
  show "wf_job \<lparr>job_name = Some ''sleep 5 | cat'', pids = [7, 8], npids = 2, pgrp = 7, status = FG\<rparr>"
    by (simp add: wf_job_def)
  fix k p
  assume "k < length no_jobs" "p \<in> live_pids (no_jobs ! k)"
  then have "p \<in> live no_jobs k" by (simp add: live_def)
  then show "k = 0" by simp
qed

lemma sample_jobs_length: "length sample_jobs = 100"
  by (simp add: sample_jobs_def no_jobs_length)

lemma sample_jobs_nth: "sample_jobs ! 0 = \<lparr>job_name = Some ''sleep 5 | cat'', pids = [7, 8], npids = 2, pgrp = 7, status = FG\<rparr>"
  by (simp add: sample_jobs_def no_jobs_length)

lemma sample_jobs_live: "live sample_jobs 0 = {7, 8}"
  unfolding live_def sample_jobs_length by (auto simp: sample_jobs_nth live_pids_def)

lemma sample_jobs_used: "used sample_jobs 0"
  unfolding used_def sample_jobs_length by (simp add: sample_jobs_nth)

end
