(* ===== verification/Builtin.thy ===== *)
theory Builtin
  imports Jobs
begin

text \<open>
  The built-in commands of the shell (pssh\_v2/builtin.c) and the search of the command path
  they share with the shell proper. The answers of the operating system (\<open>access\<close>,
  \<open>kill\<close>, \<open>getenv\<close>) are fields of an environment record.
\<close>

section \<open>The shell's state and its environment\<close>

record env =
  file_exists :: "string \<Rightarrow> bool"
  can_exec :: "string \<Rightarrow> bool"
  can_read :: "string \<Rightarrow> bool"
  can_create :: "string \<Rightarrow> bool"
  path_var :: "string option"
  kill_ok :: "int \<Rightarrow> int \<Rightarrow> bool"

record shell =
  jobs :: "job list"
  term_fg :: int
  kills :: "(int \<times> int) list"
  out :: "msg list"

definition SIGINT :: int where "SIGINT = 2"
definition SIGCONT :: int where "SIGCONT = 18"
definition PATH_MAX :: nat where "PATH_MAX = 4096"

definition say :: "msg list \<Rightarrow> shell \<Rightarrow> shell" where
  "say ms sh = sh\<lparr>out := out sh @ ms\<rparr>"

definition send :: "(int \<times> int) list \<Rightarrow> shell \<Rightarrow> shell" where
  "send ks sh = sh\<lparr>kills := kills sh @ ks\<rparr>"

text \<open>
  \<open>set_fg_process_group\<close> of pssh.c: SIGTTOU is ignored around the two calls of
  \<open>tcsetpgrp\<close>, so they go through.
\<close>

definition set_fg_process_group :: "int \<Rightarrow> shell \<Rightarrow> shell" where
  "set_fg_process_group pgid sh = sh\<lparr>term_fg := pgid\<rparr>"

section \<open>Names of built-ins and the command path\<close>

definition builtin :: "string list" where
  "builtin = [''exit'', ''which'', ''jobs'', ''kill'', ''bg'', ''fg'']"

definition is_builtin :: "string option \<Rightarrow> ub + bool" where
  "is_builtin c = (case c of None \<Rightarrow> Inl NullDeref | Some s \<Rightarrow> Inr (s \<in> set builtin))"

text \<open>
  The loop over the directories of \<open>PATH\<close>: \<open>strcpy\<close> and two \<open>strcat\<close> into a buffer of
  \<open>PATH_MAX\<close> bytes, whose bound limits the piece that is added and not the whole.
\<close>

function path_probe ::
  "(string \<Rightarrow> bool) \<Rightarrow> string \<Rightarrow> char \<Rightarrow> string \<Rightarrow> ub + string option" where
  "path_probe ok c prev p =
     (case strtok_r (\<lambda>x. x = CHR '':'') prev p of
        None \<Rightarrow> Inr None
      | Some (dir, q, prev', p') \<Rightarrow>
          if PATH_MAX \<le> length dir + 1 + length c then Inl OOBWrite
          else if ok (dir @ ''/'' @ c) then Inr (Some (dir @ ''/'' @ c))
          else path_probe ok c prev' p')"
  by pat_completeness auto
termination
  by (relation "measure (\<lambda>(ok, c, prev, p). length p)") (auto dest: strtok_r_less)

declare path_probe.simps [simp del]

definition command_found :: "env \<Rightarrow> string \<Rightarrow> ub + bool" where
  "command_found E c =
     (if can_exec E c then Inr True
      else case path_var E of
        None \<Rightarrow> Inl NullDeref
      | Some p \<Rightarrow> ebind (path_probe (can_exec E) c NUL p) (\<lambda>r. Inr (r \<noteq> None)))"

section \<open>The built-in commands\<close>

definition task_args :: "task \<Rightarrow> ub + string list" where
  "task_args T = (case argv T of None \<Rightarrow> Inl NullDeref | Some av \<Rightarrow> argv_walk av)"

definition after_first :: "string \<Rightarrow> ub + string" where
  "after_first s = (case s of [] \<Rightarrow> Inl OOBRead | _ # r \<Rightarrow> Inr r)"

definition builtin_bg :: "task \<Rightarrow> shell \<Rightarrow> ub + shell" where
  "builtin_bg T sh =
     ebind (task_args T) (\<lambda>av.
       if length av \<noteq> 2 then Inr (say [MUsage ''bg %<job number>''] sh)
       else ebind (after_first (av ! 1)) (\<lambda>a.
         let jnum = atoi a
         in ebind (job_exists (jobs sh) jnum) (\<lambda>ex.
              if ex then ebind (job_kill (jobs sh) jnum SIGCONT) (\<lambda>ks. Inr (send ks sh))
              else Inr (say [MInvalidJob a] sh))))"

definition builtin_fg :: "task \<Rightarrow> shell \<Rightarrow> ub + shell" where
  "builtin_fg T sh =
     ebind (task_args T) (\<lambda>av.
       if length av \<noteq> 2 then Inr (say [MUsage ''fg %<job number>''] sh)
       else ebind (after_first (av ! 1)) (\<lambda>a.
         let jnum = atoi a
         in ebind (job_exists (jobs sh) jnum) (\<lambda>ex.
              if ex then
                ebind (job_set_status (jobs sh) jnum FG) (\<lambda>J.
                ebind (job_get_pgrp J jnum) (\<lambda>pg.
                ebind (job_kill J jnum SIGCONT) (\<lambda>ks.
                  Inr (send ks (set_fg_process_group pg (sh\<lparr>jobs := J\<rparr>))))))
              else Inr (say [MInvalidJob a] sh))))"

definition builtin_jobs :: "task \<Rightarrow> shell \<Rightarrow> ub + shell" where
  "builtin_jobs T sh = ebind (jobs_print (jobs sh)) (\<lambda>ms. Inr (say ms sh))"

fun kill_loop :: "env \<Rightarrow> int \<Rightarrow> string list \<Rightarrow> shell \<Rightarrow> ub + shell" where
  "kill_loop E sig [] sh = Inr sh"
| "kill_loop E sig (a # as) sh =
     ebind
       (case a of
          [] \<Rightarrow> Inr (if kill_ok E (atoi a) sig then send [(atoi a, sig)] sh
                    else say [MInvalidPid a] sh)
        | c # r \<Rightarrow>
            if c = CHR ''%'' then
              ebind (job_exists (jobs sh) (atoi r)) (\<lambda>ex.
                if ex then ebind (job_kill (jobs sh) (atoi r) sig) (\<lambda>ks. Inr (send ks sh))
                else Inr (say [MInvalidJob r] sh))
            else Inr (if kill_ok E (atoi a) sig then send [(atoi a, sig)] sh
                      else say [MInvalidPid a] sh))
       (\<lambda>sh'. kill_loop E sig as sh')"

definition builtin_kill :: "env \<Rightarrow> task \<Rightarrow> shell \<Rightarrow> ub + shell" where
  "builtin_kill E T sh =
     ebind (task_args T) (\<lambda>av.
       if length av < 2 then Inr (say [MUsage ''kill [-s <signal>] <pid> ...''] sh)
       else if av ! 1 = ''-s'' then
         (if length av = 2 then Inl NullDeref
          else kill_loop E (atoi (av ! 2)) (drop 3 av) sh)
       else kill_loop E SIGINT (drop 1 av) sh)"

text \<open>\<open>builtin_which\<close> ends the process: its result is the exit status (0 is success).\<close>

definition builtin_which :: "env \<Rightarrow> task \<Rightarrow> ub + (nat \<times> msg list)" where
  "builtin_which E T =
     (case argv T of
        None \<Rightarrow> Inr (1, [])
      | Some av \<Rightarrow>
          ebind (argv_walk av) (\<lambda>ws.
            if length ws = 0 then Inl OOBRead
            else if length ws = 1 then Inr (1, [])
            else (let c = ws ! 1
                  in if file_exists E c then Inr (0, [MWhich c])
                     else if c \<in> set builtin then Inr (0, [MWhichBuiltin c])
                     else (case path_var E of
                             None \<Rightarrow> Inl NullDeref
                           | Some p \<Rightarrow>
                               ebind (path_probe (can_exec E) c NUL p) (\<lambda>r.
                                 Inr (case r of None \<Rightarrow> (1, []) | Some q \<Rightarrow> (0, [MWhich q])))))))"

datatype run_result =
    Exited nat "msg list"
  | Exec string "slot list option"
  | Returned "msg list"

definition builtin_execute :: "env \<Rightarrow> task \<Rightarrow> ub + run_result" where
  "builtin_execute E T =
     (case cmd T of
        None \<Rightarrow> Inl NullDeref
      | Some c \<Rightarrow>
          if c = ''which'' then ebind (builtin_which E T) (\<lambda>(st, ms). Inr (Exited st ms))
          else Inr (Returned [MNotImplemented c]))"

section \<open>The path search is a search through the directories\<close>

fun path_dirs :: "string \<Rightarrow> string \<Rightarrow> string list" where
  "path_dirs acc [] = (if acc = [] then [] else [acc])"
| "path_dirs acc (c # s) =
     (if c = CHR '':'' then (if acc = [] then [] else [acc]) @ path_dirs [] s
      else path_dirs (acc @ [c]) s)"

definition fits :: "string \<Rightarrow> string \<Rightarrow> bool" where
  "fits c d \<longleftrightarrow> length d + 1 + length c < PATH_MAX"

lemma path_dirs_acc:
  "\<forall>c\<in>set s. c \<noteq> CHR '':'' \<Longrightarrow> path_dirs acc (s @ r) = path_dirs (acc @ s) r"
  by (induction s arbitrary: acc) auto

lemma path_dirs_skip: "\<forall>c\<in>set s. c = CHR '':'' \<Longrightarrow> path_dirs [] (s @ r) = path_dirs [] r"
  by (induction s) auto

lemma path_dirs_end: "acc \<noteq> [] \<Longrightarrow> path_dirs acc [] = acc # path_dirs [] []"
  "acc \<noteq> [] \<Longrightarrow> path_dirs acc (CHR '':'' # r) = acc # path_dirs [] r"
  by simp_all

lemma path_dirs_parts:
  assumes "\<forall>c\<in>set sk. c = CHR '':''" "\<forall>c\<in>set tok. c \<noteq> CHR '':''" "tok \<noteq> []"
  shows "path_dirs [] (sk @ tok) = tok # path_dirs [] []"
    and "path_dirs [] (sk @ tok @ CHR '':'' # r) = tok # path_dirs [] r"
  using path_dirs_skip [OF assms(1)] path_dirs_acc [OF assms(2), of "[]" "[]"]
    path_dirs_acc [OF assms(2), of "[]" "CHR '':'' # r"] path_dirs_end [OF assms(3)]
  by simp_all

lemma path_dirs_tok:
  assumes "strtok_r (\<lambda>x. x = CHR '':'') prev p = Some (dir, q, prev', p')"
  shows "path_dirs [] p = dir # path_dirs [] p'"
proof -
  define d where "d = (\<lambda>x. x = CHR '':'')"
  define sk t where "sk = takeWhile d p" and "t = dropWhile d p"
  define rest where "rest = dropWhile (\<lambda>x. \<not> d x) t"
  note tk = strtok_r_Some [OF assms [folded d_def], folded t_def, folded rest_def]
  have p: "p = sk @ dir @ rest" by (simp add: sk_def rest_def tk(2) t_def)
  have "\<not> d (hd t)" using tk(1) unfolding t_def by (rule hd_dropWhile)
  then have ne: "dir \<noteq> []" unfolding tk(2) by (rule takeWhile_nonempty [OF tk(1)])
  have sk: "\<forall>c\<in>set sk. c = CHR '':''" unfolding sk_def d_def by (blast dest: set_takeWhileD)
  have dir: "\<forall>c\<in>set dir. c \<noteq> CHR '':''" unfolding tk(2) d_def by (blast dest: set_takeWhileD)
  show ?thesis
  proof (cases rest)
    case Nil
    then show ?thesis using path_dirs_parts(1) [OF sk dir ne] tk(3) p by simp
  next
    case (Cons c r)
    then have "rest \<noteq> []" by simp
    then have "\<not> \<not> d (hd rest)" unfolding rest_def by (rule hd_dropWhile)
    then have "c = CHR '':''" using Cons by (simp add: d_def)
    then show ?thesis using path_dirs_parts(2) [OF sk dir ne, of r] tk(3) p Cons by simp
  qed
qed

lemma path_probe_find:
  "list_all (fits c) (path_dirs [] p) \<Longrightarrow>
     path_probe ok c prev p = Inr (find ok (map (\<lambda>d. d @ ''/'' @ c) (path_dirs [] p)))"
proof (induction ok c prev p rule: path_probe.induct)
  case (1 ok c prev p)
  show ?case
  proof (cases "strtok_r (\<lambda>x. x = CHR '':'') prev p")
    case None
    then have "\<forall>x\<in>set p. x = CHR '':''" by (simp add: strtok_r_None)
    then have "path_dirs [] p = []" using path_dirs_skip [of p "[]"] by simp
    then show ?thesis using None by (subst path_probe.simps) simp
  next
    case (Some t)
    obtain dir q prev' p' where t: "t = (dir, q, prev', p')" by (cases t)
    note d = path_dirs_tok [OF Some [unfolded t]]
    then have "\<not> PATH_MAX \<le> length dir + 1 + length c"
      using "1.prems" by (simp add: fits_def)
    then show ?thesis using "1.IH" [OF Some [unfolded t] refl refl refl] "1.prems" d Some t
      by (subst path_probe.simps) (auto split: if_splits)
  qed
qed

end
