(* ===== verification/Pssh.thy ===== *)
theory Pssh
  imports Builtin
begin

text \<open>
  The shell proper (pssh\_v2/pssh.c): redirection on a table of file descriptors, the checks
  before a pipeline runs, the loop that forks and connects its processes, the SIGCHLD
  handler and the read-parse-execute loop.
\<close>

section \<open>File descriptors\<close>

datatype ofile = Tty | InFile string | OutFile string | PipeR nat | PipeW nat

type_synonym fdtab = "ofile option list"

definition fd_get :: "fdtab \<Rightarrow> int \<Rightarrow> ofile option" where
  "fd_get ft fd = (if 0 \<le> fd \<and> fd < int (length ft) then ft ! nat fd else None)"

definition fd_close :: "fdtab \<Rightarrow> int \<Rightarrow> fdtab" where
  "fd_close ft fd = (if 0 \<le> fd \<and> fd < int (length ft) then ft[nat fd := None] else ft)"

fun first_free :: "fdtab \<Rightarrow> nat" where
  "first_free [] = 0"
| "first_free (None # ft) = 0"
| "first_free (Some f # ft) = Suc (first_free ft)"

text \<open>A new descriptor is the lowest one that is free.\<close>

definition fd_open :: "fdtab \<Rightarrow> ofile \<Rightarrow> int \<times> fdtab" where
  "fd_open ft f =
     (let k = first_free ft
      in (int k, if k < length ft then ft[k := Some f] else ft @ [Some f]))"

definition dup2 :: "fdtab \<Rightarrow> int \<Rightarrow> int \<Rightarrow> fdtab" where
  "dup2 ft src dst =
     (if fd_get ft src = None \<or> dst < 0 \<or> int (length ft) \<le> dst then ft
      else ft[nat dst := fd_get ft src])"

definition redirect :: "int \<Rightarrow> int \<Rightarrow> fdtab \<Rightarrow> fdtab" where
  "redirect fd_old fd_new ft =
     (if fd_new \<noteq> fd_old then fd_close (dup2 ft fd_new fd_old) fd_new else ft)"

definition close_safe :: "int \<Rightarrow> fdtab \<Rightarrow> fdtab" where
  "close_safe fd ft = (if fd \<noteq> 0 \<and> fd \<noteq> 1 then fd_close ft fd else ft)"

section \<open>Checks before running\<close>

fun commands_exist :: "env \<Rightarrow> task list \<Rightarrow> ub + (bool \<times> msg list)" where
  "commands_exist E [] = Inr (True, [])"
| "commands_exist E (T # Ts) =
     ebind (is_builtin (cmd T)) (\<lambda>b.
       if b then commands_exist E Ts
       else ebind (command_found E (the (cmd T))) (\<lambda>f.
              if f then commands_exist E Ts else Inr (False, [MNotFound (the (cmd T))])))"

definition is_possible :: "env \<Rightarrow> parse \<Rightarrow> ub + (bool \<times> msg list)" where
  "is_possible E P =
     ebind (commands_exist E (take (ntasks P) (tasks P))) (\<lambda>(ok, ms).
       if \<not> ok then Inr (False, ms)
       else if infile P \<noteq> None \<and> \<not> can_read E (the (infile P))
            then Inr (False, [MNoFile (the (infile P))])
       else if outfile P \<noteq> None \<and> \<not> can_create E (the (outfile P))
            then Inr (False, [MDenied (the (outfile P))])
       else Inr (True, []))"

datatype control = Quit | Handled shell | NotControl

definition job_control :: "env \<Rightarrow> parse \<Rightarrow> shell \<Rightarrow> ub + control" where
  "job_control E P sh =
     (case tasks P of
        [] \<Rightarrow> Inl NullDeref
      | T # _ \<Rightarrow>
          (case cmd T of
             None \<Rightarrow> Inl NullDeref
           | Some c \<Rightarrow>
               if c = ''exit'' then Inr Quit
               else if c = ''fg'' then ebind (builtin_fg T sh) (\<lambda>s. Inr (Handled s))
               else if c = ''bg'' then ebind (builtin_bg T sh) (\<lambda>s. Inr (Handled s))
               else if c = ''jobs'' then ebind (builtin_jobs T sh) (\<lambda>s. Inr (Handled s))
               else if c = ''kill'' then ebind (builtin_kill E T sh) (\<lambda>s. Inr (Handled s))
               else Inr NotControl))"

section \<open>Running a pipeline\<close>

text \<open>
  A child process as it is when it starts its task: its number in the pipeline, its
  descriptors after the redirections, the group it joins (its own when it is the leader),
  the group it puts in the foreground (the last child of a foreground job only), and what
  running the task does.
\<close>

record child =
  c_index :: nat
  c_fds :: fdtab
  c_pgid :: int
  c_setfg :: "int option"
  c_run :: "ub + run_result"

definition run_task :: "env \<Rightarrow> task \<Rightarrow> ub + run_result" where
  "run_task E T =
     ebind (is_builtin (cmd T)) (\<lambda>b.
       if b then builtin_execute E T
       else ebind (command_found E (the (cmd T))) (\<lambda>f.
              Inr (if f then Exec (the (cmd T)) (argv T) else Returned [])))"

definition run_fds :: "int \<Rightarrow> int \<Rightarrow> fdtab \<Rightarrow> fdtab" where
  "run_fds inp outp ft = redirect 1 outp (redirect 0 inp ft)"

definition get_infile :: "env \<Rightarrow> parse \<Rightarrow> fdtab \<Rightarrow> int \<times> fdtab" where
  "get_infile E P ft =
     (case infile P of
        None \<Rightarrow> (0, ft)
      | Some f \<Rightarrow> if can_read E f then fd_open ft (InFile f) else (-1, ft))"

definition get_outfile :: "env \<Rightarrow> parse \<Rightarrow> fdtab \<Rightarrow> int \<times> fdtab" where
  "get_outfile E P ft =
     (case outfile P of
        None \<Rightarrow> (1, ft)
      | Some f \<Rightarrow> if can_create E f then fd_open ft (OutFile f) else (-1, ft))"

text \<open>
  The process id that the \<open>t\<close>-th \<open>fork\<close> of the pipeline returns to the parent is
  \<open>pidf t\<close>; the child sees 0 in its place. Both sides call \<open>setpgid\<close>; in the first child
  the group asked for is 0, which stands for the child's own id.
\<close>

definition child_pgid :: "(nat \<Rightarrow> int) \<Rightarrow> nat \<Rightarrow> int" where
  "child_pgid pidf t = (let g = (if t = 0 then 0 else pidf 0) in if g = 0 then pidf t else g)"

text \<open>
  One turn of the loop for task \<open>t\<close>: \<open>pipe\<close>, \<open>fork\<close>, the child's side, the parent's
  side. Pipe \<open>t\<close> is the one made in turn \<open>t\<close>.
\<close>

definition spawn_step ::
  "env \<Rightarrow> parse \<Rightarrow> (nat \<Rightarrow> int) \<Rightarrow> nat \<Rightarrow> int \<times> fdtab \<Rightarrow> child \<times> int \<times> fdtab" where
  "spawn_step E P pidf t s =
     (case s of (inp, ft) \<Rightarrow>
        let (r, ft1) = fd_open ft (PipeR t);
            (w, ft2) = fd_open ft1 (PipeW t);
            ch = \<lparr>c_index = t, c_fds = run_fds inp w (fd_close ft2 r),
                  c_pgid = child_pgid pidf t, c_setfg = None, c_run = run_task E (tasks P ! t)\<rparr>
        in (ch, r, close_safe inp (fd_close ft2 w)))"

fun spawn_loop ::
  "env \<Rightarrow> parse \<Rightarrow> (nat \<Rightarrow> int) \<Rightarrow> nat list \<Rightarrow> int \<times> fdtab \<Rightarrow> child list \<times> int \<times> fdtab" where
  "spawn_loop E P pidf [] s = ([], s)"
| "spawn_loop E P pidf (t # ts) s =
     (let (ch, s1) = spawn_step E P pidf t s; (chs, s2) = spawn_loop E P pidf ts s1
      in (ch # chs, s2))"

definition spawn_all ::
  "env \<Rightarrow> parse \<Rightarrow> (nat \<Rightarrow> int) \<Rightarrow> fdtab \<Rightarrow> child list \<times> fdtab" where
  "spawn_all E P pidf ft =
     (let (inp0, ft0) = get_infile E P ft;
          (chs, inp, ft1) = spawn_loop E P pidf [0..<ntasks P - 1] (inp0, ft0);
          (outp, ft2) = get_outfile E P ft1;
          t = ntasks P - 1;
          lst = \<lparr>c_index = t, c_fds = run_fds inp outp ft2, c_pgid = child_pgid pidf t,
                 c_setfg = (if background P then None else Some (if t = 0 then 0 else pidf 0)),
                 c_run = run_task E (tasks P ! t)\<rparr>
      in (chs @ [lst], close_safe outp (close_safe inp ft2)))"

datatype exec_result = ExecQuit | ExecDone shell "child list" fdtab

definition execute_tasks ::
  "env \<Rightarrow> (nat \<Rightarrow> int) \<Rightarrow> parse \<Rightarrow> string \<Rightarrow> shell \<Rightarrow> fdtab \<Rightarrow> ub + exec_result" where
  "execute_tasks E pidf P name sh ft =
     ebind (is_possible E P) (\<lambda>(ok, ms).
       if \<not> ok then Inr (ExecDone (say ms sh) [] ft)
       else ebind (job_control E P sh) (\<lambda>c.
         case c of
           Quit \<Rightarrow> Inr ExecQuit
         | Handled sh' \<Rightarrow> Inr (ExecDone sh' [] ft)
         | NotControl \<Rightarrow>
             (let (chs, ft') = spawn_all E P pidf ft;
                  ps = map pidf [0..<ntasks P];
                  sh1 = (if background P then sh else set_fg_process_group (pidf 0) sh)
              in ebind (job_add (jobs sh1) ps name P) (\<lambda>(_, J, ms).
                   Inr (ExecDone (say ms (sh1\<lparr>jobs := J\<rparr>)) chs ft')))))"

section \<open>The SIGCHLD handler\<close>

datatype wait_status = WStopped | WContinued | WEnded

definition handle_child :: "int \<Rightarrow> int \<times> wait_status \<Rightarrow> shell \<Rightarrow> ub + shell" where
  "handle_child pssh_pgrp ev sh =
     (case ev of (chld, st) \<Rightarrow>
        let jnum = job_get_number (jobs sh) chld
        in (case st of
              WStopped \<Rightarrow>
                ebind (get_job_status (jobs sh) jnum) (\<lambda>s.
                  if s \<noteq> STOPPED then
                    ebind (job_set_status (jobs sh) jnum STOPPED) (\<lambda>J.
                    ebind (job_get_name J jnum) (\<lambda>name.
                      Inr (say [MSuspended jnum name]
                             (set_fg_process_group pssh_pgrp (sh\<lparr>jobs := J\<rparr>)))))
                  else Inr sh)
            | WContinued \<Rightarrow>
                ebind (get_job_status (jobs sh) jnum) (\<lambda>s.
                  if s = STOPPED then
                    ebind (job_get_name (jobs sh) jnum) (\<lambda>name.
                    ebind (job_set_status (jobs sh) jnum BG) (\<lambda>J.
                      Inr ((say [MContinued jnum name] sh)\<lparr>jobs := J\<rparr>)))
                  else Inr sh)
            | WEnded \<Rightarrow>
                (let J = job_remove_pid (jobs sh) chld
                 in ebind (job_is_done J jnum) (\<lambda>d.
                      if \<not> d then Inr (sh\<lparr>jobs := J\<rparr>)
                      else ebind (job_get_name J jnum) (\<lambda>name.
                           ebind (get_job_status J jnum) (\<lambda>s.
                             let sh1 = (if s \<noteq> FG then say [MDone jnum name] sh
                                        else set_fg_process_group pssh_pgrp sh)
                             in ebind (job_delete J jnum) (\<lambda>J'. Inr (sh1\<lparr>jobs := J'\<rparr>))))))))"

text \<open>
  The loop of the handler over what \<open>waitpid\<close> reports until it has no more to report.
\<close>

fun handle_sigchld :: "int \<Rightarrow> (int \<times> wait_status) list \<Rightarrow> shell \<Rightarrow> ub + shell" where
  "handle_sigchld g [] sh = Inr sh"
| "handle_sigchld g (ev # evs) sh =
     (if fst ev \<le> 0 then Inr sh
      else ebind (handle_child g ev sh) (\<lambda>sh'. handle_sigchld g evs sh'))"

text \<open>
  SIGTTOU and SIGTTIN: wait until the terminal's foreground group is the shell's. The
  argument lists what \<open>tcgetpgrp\<close> returns at each turn; \<open>None\<close> is "still waiting".
\<close>

fun wait_foreground :: "int \<Rightarrow> int list \<Rightarrow> nat option" where
  "wait_foreground g [] = None"
| "wait_foreground g (t # ts) = (if t \<noteq> g then map_option Suc (wait_foreground g ts) else Some 0)"

datatype signal = Sigttou "int list" | Sigttin "int list" | Sigchld "(int \<times> wait_status) list"

definition handler :: "int \<Rightarrow> signal \<Rightarrow> shell \<Rightarrow> (ub + shell) option" where
  "handler g sig sh =
     (case sig of
        Sigttou ts \<Rightarrow> map_option (\<lambda>_. Inr sh) (wait_foreground g ts)
      | Sigttin ts \<Rightarrow> map_option (\<lambda>_. Inr sh) (wait_foreground g ts)
      | Sigchld evs \<Rightarrow> Some (handle_sigchld g evs sh))"

section \<open>The main loop\<close>

text \<open>
  The shell between two system calls that block: it reads a line, or the handler runs on a
  batch of child events. The numbers of the processes that a line starts come with it.
\<close>

datatype input = Line string "nat \<Rightarrow> int" | Eof | Children "(int \<times> wait_status) list"

datatype shell_result = Terminated | Running shell fdtab "child list list"

definition main_step :: "env \<Rightarrow> int \<Rightarrow> char \<Rightarrow> input \<Rightarrow> shell \<Rightarrow> fdtab \<Rightarrow> ub + exec_result" where
  "main_step E g b0 i sh ft =
     (case i of
        Eof \<Rightarrow> Inr ExecQuit
      | Children evs \<Rightarrow> ebind (handle_sigchld g evs sh) (\<lambda>sh'. Inr (ExecDone sh' [] ft))
      | Line l pidf \<Rightarrow>
          ebind (parse_cmdline b0 l) (\<lambda>P.
            ebind (case P of
                     None \<Rightarrow> Inr (ExecDone sh [] ft)
                   | Some p \<Rightarrow>
                       if invalid_syntax p then Inr (ExecDone (say [MSyntax] sh) [] ft)
                       else execute_tasks E pidf p l sh ft)
              (\<lambda>r. case r of
                     ExecQuit \<Rightarrow> Inr ExecQuit
                   | ExecDone sh' chs ft' \<Rightarrow>
                       ebind (parse_destroy P) (\<lambda>_. Inr (ExecDone sh' chs ft')))))"

fun main_loop ::
  "env \<Rightarrow> int \<Rightarrow> char \<Rightarrow> input list \<Rightarrow> shell \<Rightarrow> fdtab \<Rightarrow> ub + shell_result" where
  "main_loop E g b0 [] sh ft = Inr (Running sh ft [])"
| "main_loop E g b0 (i # is) sh ft =
     ebind (main_step E g b0 i sh ft) (\<lambda>r.
       case r of
         ExecQuit \<Rightarrow> Inr Terminated
       | ExecDone sh' chs ft' \<Rightarrow>
           ebind (main_loop E g b0 is sh' ft') (\<lambda>q.
             case q of
               Terminated \<Rightarrow> Inr Terminated
             | Running sh2 ft2 cc \<Rightarrow> Inr (Running sh2 ft2 (chs # cc))))"

definition shell_start :: "int \<Rightarrow> job list \<Rightarrow> shell" where
  "shell_start g J = \<lparr>jobs = jobs_init J, term_fg = g, kills = [], out = []\<rparr>"

end
