(* ===== verification/Pssh_Props.thy ===== *)
theory Pssh_Props
  imports Pssh
begin

text \<open>
  Properties of the shell proper: how a pipeline is wired and that no descriptor leaks, how
  the SIGCHLD handler moves jobs through their states, and the inputs on which the shell
  leaves its arrays.
\<close>

section \<open>Descriptor tables as functions\<close>

lemma first_free_le: "first_free ft \<le> length ft"
  by (induction ft rule: first_free.induct) auto

lemma first_free_None: "first_free ft < length ft \<Longrightarrow> ft ! first_free ft = None"
  by (induction ft rule: first_free.induct) auto

lemma fd_get_close: "fd_get (fd_close ft fd) = (fd_get ft)(fd := None)"
  by (auto simp: fd_get_def fd_close_def fun_eq_iff nth_list_update_if nat_eq_iff)

lemma fd_get_open:
  assumes "fd_open ft f = (k, ft')"
  shows "0 \<le> k" "fd_get ft k = None" "fd_get ft' = (fd_get ft)(k := Some f)"
proof -
  have k: "k = int (first_free ft)" using assms by (simp add: fd_open_def Let_def)
  show "0 \<le> k" using k by simp
  show "fd_get ft k = None" using k first_free_None [of ft] by (simp add: fd_get_def)
  have ft': "ft' = (if first_free ft < length ft then ft[first_free ft := Some f] else ft @ [Some f])"
    using assms by (simp add: fd_open_def Let_def split: if_splits)
  show "fd_get ft' = (fd_get ft)(k := Some f)"
  proof (cases "first_free ft < length ft")
    case True
    then show ?thesis unfolding ft' k
      by (auto simp: fd_get_def fun_eq_iff nth_list_update_if nat_eq_iff)
  next
    case False
    then have "first_free ft = length ft" using first_free_le [of ft] by simp
    then show ?thesis unfolding ft' k
      by (auto simp: fd_get_def fun_eq_iff nth_append nat_less_iff nat_eq_iff)
  qed
qed

lemma fd_get_dup2:
  assumes "fd_get ft src = Some f" "fd_get ft dst \<noteq> None"
  shows "fd_get (dup2 ft src dst) = (fd_get ft)(dst := Some f)"
proof -
  have "0 \<le> dst" "dst < int (length ft)" using assms(2) by (auto simp: fd_get_def split: if_splits)
  then show ?thesis using assms(1)
    by (auto simp: dup2_def fd_get_def fun_eq_iff nth_list_update_if nat_eq_iff split: if_splits)
qed

lemma fd_get_redirect:
  assumes "fd_get ft n = Some f" "fd_get ft old \<noteq> None" "n \<noteq> old"
  shows "fd_get (redirect old n ft) = (fd_get ft)(old := Some f, n := None)"
  using assms by (simp add: redirect_def fd_get_close fd_get_dup2)

text \<open>
  A process that holds the descriptors \<open>B\<close> and one more, \<open>n\<close>, for the file \<open>X\<close>; when \<open>n\<close>
  is one of \<open>B\<close>'s own standard descriptors nothing is added.
\<close>

definition holds :: "(int \<Rightarrow> ofile option) \<Rightarrow> int \<Rightarrow> int \<Rightarrow> ofile \<Rightarrow> fdtab \<Rightarrow> bool" where
  "holds B std n X ft \<longleftrightarrow>
     (n = std \<and> fd_get ft = B \<and> B std = Some X)
     \<or> (n \<noteq> 0 \<and> n \<noteq> 1 \<and> B n = None \<and> fd_get ft = B(n := Some X))"

definition std_open :: "(int \<Rightarrow> ofile option) \<Rightarrow> bool" where
  "std_open B \<longleftrightarrow> B 0 \<noteq> None \<and> B 1 \<noteq> None"

lemma holds_open:
  assumes "std_open B" "fd_get ft = B" "fd_open ft f = (k, ft')"
  shows "holds B s k f ft'"
  using fd_get_open [OF assms(3)] assms(1,2) by (auto simp: holds_def std_open_def)

lemma run_fds_child:
  assumes "std_open B"
    and "fd_get ft = B(i := Some X, w := Some W) \<and> i \<noteq> 0 \<and> B i = None \<or> i = 0 \<and> B 0 = Some X \<and> fd_get ft = B(w := Some W)"
    and "w \<noteq> 1 \<and> B w = None \<or> w = 1 \<and> W = the (B 1)" "w \<noteq> 0" "i \<noteq> 1" "i \<noteq> w"
  shows "fd_get (run_fds i w ft) = B(0 := Some X, 1 := Some W)"
proof -
  have r0: "fd_get (redirect 0 i ft) = B(0 := Some X, w := Some W)"
  proof (cases "i = 0")
    case True
    then show ?thesis using assms by (auto simp: redirect_def fun_eq_iff)
  next
    case False
    then show ?thesis using assms fd_get_redirect [of ft i X 0]
      by (auto simp: std_open_def fun_eq_iff)
  qed
  show ?thesis
  proof (cases "w = 1")
    case True
    then show ?thesis using r0 by (simp add: run_fds_def redirect_def)
  next
    case False
    then show ?thesis using assms r0 fd_get_redirect [of "redirect 0 i ft" w W 1]
      by (auto simp: run_fds_def std_open_def fun_eq_iff)
  qed
qed

section \<open>The wiring of a pipeline\<close>

lemma spawn_step_holds:
  assumes B: "std_open B" and h: "holds B 0 i X ft"
    and st: "spawn_step E P pidf t (i, ft) = (ch, i', ft')"
  shows "holds B 0 i' (PipeR t) ft'" "fd_get (c_fds ch) = B(0 := Some X, 1 := Some (PipeW t))"
    and "c_index ch = t" "c_pgid ch = child_pgid pidf t" "c_run ch = run_task E (tasks P ! t)"
proof -
  obtain r ft1 where o1: "fd_open ft (PipeR t) = (r, ft1)" by fastforce
  obtain w ft2 where o2: "fd_open ft1 (PipeW t) = (w, ft2)" by fastforce
  note g1 = fd_get_open [OF o1] and g2 = fd_get_open [OF o2]
  have ch: "ch = \<lparr>c_index = t, c_fds = run_fds i w (fd_close ft2 r), c_pgid = child_pgid pidf t,
      c_setfg = None, c_run = run_task E (tasks P ! t)\<rparr>"
    and i': "i' = r" and ft': "ft' = close_safe i (fd_close ft2 w)"
    using st o1 o2 by (auto simp: spawn_step_def Let_def)
  have std: "B 0 \<noteq> None" "B 1 \<noteq> None" using B by (auto simp: std_open_def)
  have r: "r \<noteq> 0" "r \<noteq> 1" "B r = None" "r \<noteq> i"
    using h g1(2) std by (auto simp: holds_def split: if_splits)
  have w: "w \<noteq> 0" "w \<noteq> 1" "B w = None" "w \<noteq> i" "w \<noteq> r"
    using h g1 g2(2) std r by (auto simp: holds_def split: if_splits)
  have i: "i \<noteq> 1" using h by (auto simp: holds_def)
  have f2: "fd_get ft2 = (fd_get ft)(r := Some (PipeR t), w := Some (PipeW t))"
    using g1(3) g2(3) by simp
  show "holds B 0 i' (PipeR t) ft'"
    using h r w f2 unfolding i' ft'
    by (auto simp: holds_def close_safe_def fd_get_close fun_eq_iff)
  have "fd_get (run_fds i w (fd_close ft2 r)) = B(0 := Some X, 1 := Some (PipeW t))"
    by (rule run_fds_child [OF B]) (use h r w i f2 in \<open>auto simp: holds_def fd_get_close fun_eq_iff\<close>)
  then show "fd_get (c_fds ch) = B(0 := Some X, 1 := Some (PipeW t))" by (simp add: ch)
  show "c_index ch = t" "c_pgid ch = child_pgid pidf t" "c_run ch = run_task E (tasks P ! t)"
    by (simp_all add: ch)
qed

lemma spawn_loop_wiring:
  assumes "std_open B"
  shows "k \<le> m \<Longrightarrow> holds B 0 i X ft \<Longrightarrow> spawn_loop E P pidf [k..<m] (i, ft) = (chs, i', ft') \<Longrightarrow>
     length chs = m - k \<and> holds B 0 i' (if m = k then X else PipeR (m - 1)) ft' \<and>
     (\<forall>j<m - k. fd_get (c_fds (chs ! j))
          = B(0 := Some (if j = 0 then X else PipeR (k + j - 1)), 1 := Some (PipeW (k + j)))
        \<and> c_index (chs ! j) = k + j \<and> c_pgid (chs ! j) = child_pgid pidf (k + j)
        \<and> c_run (chs ! j) = run_task E (tasks P ! (k + j)))"
proof (induction "m - k" arbitrary: k i X ft chs i' ft')
  case 0
  then show ?case by auto
next
  case (Suc d)
  then have km: "k < m" by simp
  obtain ch i1 ft1 where st: "spawn_step E P pidf k (i, ft) = (ch, i1, ft1)" by (metis prod_cases3)
  obtain cs where cs: "spawn_loop E P pidf [Suc k..<m] (i1, ft1) = (cs, i', ft')" "chs = ch # cs"
    using Suc.prems(3) st km by (auto simp: upt_conv_Cons split: prod.splits)
  note s = spawn_step_holds [OF assms Suc.prems(2) st]
  have IH: "length cs = m - Suc k \<and> holds B 0 i' (if m = Suc k then PipeR k else PipeR (m - 1)) ft' \<and>
     (\<forall>j<m - Suc k. fd_get (c_fds (cs ! j))
          = B(0 := Some (if j = 0 then PipeR k else PipeR (Suc k + j - 1)), 1 := Some (PipeW (Suc k + j)))
        \<and> c_index (cs ! j) = Suc k + j \<and> c_pgid (cs ! j) = child_pgid pidf (Suc k + j)
        \<and> c_run (cs ! j) = run_task E (tasks P ! (Suc k + j)))"
    using Suc.hyps km by (intro Suc.hyps(1) [OF _ _ s(1) cs(1)]) auto
  have "fd_get (c_fds (chs ! j))
          = B(0 := Some (if j = 0 then X else PipeR (k + j - 1)), 1 := Some (PipeW (k + j)))
        \<and> c_index (chs ! j) = k + j \<and> c_pgid (chs ! j) = child_pgid pidf (k + j)
        \<and> c_run (chs ! j) = run_task E (tasks P ! (k + j))" if "j < m - k" for j
  proof (cases j)
    case 0
    then show ?thesis using s cs by simp
  next
    case (Suc l)
    then have "l < m - Suc k" using that by simp
    then show ?thesis using IH cs Suc by (cases l) auto
  qed
  moreover have "length chs = m - k" using IH cs km by simp
  moreover have "holds B 0 i' (if m = k then X else PipeR (m - 1)) ft'"
    using IH km by (cases "m = Suc k") auto
  ultimately show ?case by blast
qed

definition stdin_of :: "(int \<Rightarrow> ofile option) \<Rightarrow> parse \<Rightarrow> nat \<Rightarrow> ofile option" where
  "stdin_of B P t =
     (if t = 0 then (case infile P of None \<Rightarrow> B 0 | Some f \<Rightarrow> Some (InFile f)) else Some (PipeR (t - 1)))"

definition stdout_of :: "(int \<Rightarrow> ofile option) \<Rightarrow> parse \<Rightarrow> nat \<Rightarrow> ofile option" where
  "stdout_of B P t =
     (if Suc t = ntasks P then (case outfile P of None \<Rightarrow> B 1 | Some f \<Rightarrow> Some (OutFile f))
      else Some (PipeW t))"

definition files_ok :: "env \<Rightarrow> parse \<Rightarrow> bool" where
  "files_ok E P \<longleftrightarrow> (case infile P of None \<Rightarrow> True | Some f \<Rightarrow> can_read E f)
     \<and> (case outfile P of None \<Rightarrow> True | Some f \<Rightarrow> can_create E f)"

lemma get_infile_holds:
  assumes "std_open (fd_get ft)" "files_ok E P" "get_infile E P ft = (i, ft0)"
  shows "\<exists>X. stdin_of (fd_get ft) P 0 = Some X \<and> holds (fd_get ft) 0 i X ft0"
proof (cases "infile P")
  case None
  then show ?thesis using assms
    by (auto simp: get_infile_def stdin_of_def holds_def std_open_def)
next
  case (Some f)
  then have "fd_open ft (InFile f) = (i, ft0)" using assms by (simp add: get_infile_def files_ok_def)
  then show ?thesis using Some holds_open [OF assms(1) refl] by (simp add: stdin_of_def)
qed

lemma get_outfile_holds:
  assumes "std_open B" "holds B 0 i X ft" "files_ok E P" "get_outfile E P ft = (w, ft')"
  shows "\<exists>W. (case outfile P of None \<Rightarrow> B 1 | Some f \<Rightarrow> Some (OutFile f)) = Some W
    \<and> (w = 1 \<and> B 1 = Some W \<and> ft' = ft
        \<or> w \<noteq> 0 \<and> w \<noteq> 1 \<and> w \<noteq> i \<and> B w = None \<and> fd_get ft' = (fd_get ft)(w := Some W))"
proof (cases "outfile P")
  case None
  then show ?thesis using assms by (auto simp: get_outfile_def std_open_def)
next
  case (Some f)
  then have o: "fd_open ft (OutFile f) = (w, ft')" using assms by (simp add: get_outfile_def files_ok_def)
  have "w \<noteq> 0 \<and> w \<noteq> 1 \<and> w \<noteq> i \<and> B w = None"
    using fd_get_open(2) [OF o] assms(1,2) by (auto simp: holds_def std_open_def split: if_splits)
  then show ?thesis using fd_get_open(3) [OF o] Some by auto
qed

lemma last_child_fds:
  assumes B: "std_open B" and h: "holds B 0 i X ft" and fo: "files_ok E P"
    and out: "get_outfile E P ft = (w, ft')" and n: "Suc t = ntasks P"
  shows "fd_get (run_fds i w ft') = B(0 := Some X, 1 := stdout_of B P t)"
    and "fd_get (close_safe w (close_safe i ft')) = B"
proof -
  obtain W where W: "stdout_of B P t = Some W"
    "w = 1 \<and> B 1 = Some W \<and> ft' = ft
        \<or> w \<noteq> 0 \<and> w \<noteq> 1 \<and> w \<noteq> i \<and> B w = None \<and> fd_get ft' = (fd_get ft)(w := Some W)"
    using get_outfile_holds [OF B h fo out] n by (auto simp: stdout_of_def)
  have "fd_get (run_fds i w ft') = B(0 := Some X, 1 := Some W)"
    by (rule run_fds_child [OF B]) (use W(2) h in \<open>auto simp: holds_def fun_eq_iff\<close>)
  then show "fd_get (run_fds i w ft') = B(0 := Some X, 1 := stdout_of B P t)" by (simp add: W(1))
  show "fd_get (close_safe w (close_safe i ft')) = B"
    using W(2) h by (auto simp: holds_def close_safe_def fd_get_close fun_eq_iff)
qed

lemma spawn_all_wiring:
  assumes "std_open (fd_get ft)" "files_ok E P" "0 < ntasks P" "pidf 0 \<noteq> 0"
    and "spawn_all E P pidf ft = (chs, ft')"
  shows "length chs = ntasks P \<and> fd_get ft' = fd_get ft \<and>
    (\<forall>t<ntasks P. c_index (chs ! t) = t \<and> c_pgid (chs ! t) = pidf 0
       \<and> c_run (chs ! t) = run_task E (tasks P ! t)
       \<and> fd_get (c_fds (chs ! t))
           = (fd_get ft)(0 := stdin_of (fd_get ft) P t, 1 := stdout_of (fd_get ft) P t))"
proof -
  let ?B = "fd_get ft" and ?n = "ntasks P"
  obtain i0 ft0 where in0: "get_infile E P ft = (i0, ft0)" by fastforce
  obtain cs i ft1 where loop: "spawn_loop E P pidf [0..<?n - 1] (i0, ft0) = (cs, i, ft1)"
    by (metis prod_cases3)
  obtain w ft2 where out: "get_outfile E P ft1 = (w, ft2)" by fastforce
  obtain X0 where X0: "stdin_of ?B P 0 = Some X0" "holds ?B 0 i0 X0 ft0"
    using get_infile_holds [OF assms(1,2) in0] by blast
  let ?X = "if ?n - 1 = 0 then X0 else PipeR (?n - 1 - 1)"
  have L: "length cs = ?n - 1" "holds ?B 0 i ?X ft1"
    and C: "\<And>j. j < ?n - 1 \<Longrightarrow> fd_get (c_fds (cs ! j))
          = ?B(0 := Some (if j = 0 then X0 else PipeR (j - 1)), 1 := Some (PipeW j))
        \<and> c_index (cs ! j) = j \<and> c_pgid (cs ! j) = child_pgid pidf j
        \<and> c_run (cs ! j) = run_task E (tasks P ! j)"
    using spawn_loop_wiring [OF assms(1) _ X0(2) loop] by simp_all
  have n: "Suc (?n - 1) = ?n" using assms(3) by simp
  note lst = last_child_fds [OF assms(1) L(2) assms(2) out n]
  have X: "Some ?X = stdin_of ?B P (?n - 1)" using X0(1) by (auto simp: stdin_of_def)
  have pg: "child_pgid pidf t = pidf 0" for t using assms(4) by (simp add: child_pgid_def Let_def)
  let ?l = "\<lparr>c_index = ?n - 1, c_fds = run_fds i w ft2, c_pgid = child_pgid pidf (?n - 1),
      c_setfg = (if background P then None else Some (if ?n - 1 = 0 then 0 else pidf 0)),
      c_run = run_task E (tasks P ! (?n - 1))\<rparr>"
  have chs: "chs = cs @ [?l]" and ft': "ft' = close_safe w (close_safe i ft2)"
    using assms(5) in0 loop out by (auto simp: spawn_all_def Let_def)
  have "c_index (chs ! t) = t \<and> c_pgid (chs ! t) = pidf 0
       \<and> c_run (chs ! t) = run_task E (tasks P ! t)
       \<and> fd_get (c_fds (chs ! t)) = ?B(0 := stdin_of ?B P t, 1 := stdout_of ?B P t)"
    if "t < ?n" for t
  proof (cases "t < ?n - 1")
    case True
    then show ?thesis using C [OF True] X0(1) L(1)
      by (auto simp: chs nth_append pg stdin_of_def stdout_of_def)
  next
    case False
    then have t: "t = ?n - 1" using that by simp
    have "chs ! t = ?l" using L(1) t by (simp add: chs nth_append)
    then show ?thesis using lst(1) X t pg by simp
  qed
  moreover have "length chs = ?n" using L(1) n by (simp add: chs)
  ultimately show ?thesis using lst(2) ft' by simp
qed

text \<open>
  C2: the wiring of a pipeline. From a table with standard input and output open, every
  child reads the previous pipe (the first: the input file or the shell's input), writes the
  next one (the last: the output file or the shell's output), has no other descriptor than
  the shell's own, joins the group of the first child and runs its own task; and the shell
  is left with exactly the descriptors it had.
\<close>

theorem pipeline_wiring:
  assumes "std_open (fd_get ft)" "files_ok E P" "0 < ntasks P" "pidf 0 \<noteq> 0"
    and "spawn_all E P pidf ft = (chs, ft')"
  shows "length chs = ntasks P \<and> fd_get ft' = fd_get ft \<and>
    (\<forall>t<ntasks P. c_index (chs ! t) = t \<and> c_pgid (chs ! t) = pidf 0
       \<and> c_run (chs ! t) = run_task E (tasks P ! t)
       \<and> fd_get (c_fds (chs ! t))
           = (fd_get ft)(0 := stdin_of (fd_get ft) P t, 1 := stdout_of (fd_get ft) P t))"
  using assms by (rule spawn_all_wiring)

section \<open>The handler\<close>

lemma job_at_nat: "k < length J \<Longrightarrow> job_at J (int k) = Inr (J ! k)"
  by (simp add: job_at_def)

lemma job_exists_used: "used J k \<Longrightarrow> job_exists J (int k) = Inr True"
  by (simp add: job_exists_def used_def job_at_nat)

lemma get_job_status_used: "used J k \<Longrightarrow> get_job_status J (int k) = Inr (status (J ! k))"
  by (simp add: get_job_status_def job_exists_used)

lemma job_set_status_used:
  "used J k \<Longrightarrow> job_set_status J (int k) st = Inr (J[k := (J ! k)\<lparr>status := st\<rparr>])"
  by (simp add: job_set_status_def job_exists_used)

lemma job_get_name_used: "used J k \<Longrightarrow> job_get_name J (int k) = Inr (the (job_name (J ! k)))"
  by (auto simp: job_get_name_def used_def job_at_nat)

lemma used_upd: "used (J[k := (J ! k)\<lparr>status := st\<rparr>]) i = used J i"
  by (auto simp: used_def nth_list_update_if)

lemma live_upd: "live (J[k := (J ! k)\<lparr>status := st\<rparr>]) i = live J i"
  by (auto simp: live_def live_pids_def nth_list_update_if)

lemma wf_upd: "wf_jobs J \<Longrightarrow> k < length J \<Longrightarrow> wf_jobs (J[k := (J ! k)\<lparr>status := st\<rparr>])"
  by (rule wf_jobs_update_sub) (use wf_jobs_nth [of J k] in \<open>auto simp: wf_job_def live_pids_def\<close>)

lemma used_length: "used J k \<Longrightarrow> k < length J"
  by (simp add: used_def)

lemmas job_used = job_exists_used get_job_status_used job_set_status_used job_get_name_used

text \<open>The three kinds of report about a live process of job \<open>k\<close>.\<close>

lemma handle_stopped:
  assumes "wf_jobs (jobs sh)" "p \<in> live (jobs sh) k"
  shows "handle_child g (p, WStopped) sh =
    (if status (jobs sh ! k) = STOPPED then Inr sh
     else Inr (say [MSuspended (int k) (the (job_name (jobs sh ! k)))]
                 (sh\<lparr>jobs := (jobs sh)[k := (jobs sh ! k)\<lparr>status := STOPPED\<rparr>], term_fg := g\<rparr>)))"
proof -
  have u: "used (jobs sh) k" using assms by (rule jt.in_use_alive)
  note n = jt.number_alive [OF assms]
  show ?thesis using u used_length [OF u]
    by (simp add: handle_child_def n job_used used_upd set_fg_process_group_def)
qed

lemma handle_continued:
  assumes "wf_jobs (jobs sh)" "p \<in> live (jobs sh) k"
  shows "handle_child g (p, WContinued) sh =
    (if status (jobs sh ! k) = STOPPED
     then Inr ((say [MContinued (int k) (the (job_name (jobs sh ! k)))] sh)
                 \<lparr>jobs := (jobs sh)[k := (jobs sh ! k)\<lparr>status := BG\<rparr>]\<rparr>)
     else Inr sh)"
  using jt.in_use_alive [OF assms] jt.number_alive [OF assms]
  by (simp add: handle_child_def job_used)

definition finish_job :: "int \<Rightarrow> nat \<Rightarrow> int \<Rightarrow> shell \<Rightarrow> shell" where
  "finish_job g k p sh =
     (let J = job_remove_pid (jobs sh) p
      in (if status (jobs sh ! k) = FG then sh\<lparr>term_fg := g\<rparr>
          else say [MDone (int k) (the (job_name (jobs sh ! k)))] sh)
           \<lparr>jobs := J[k := (J ! k)\<lparr>npids := 0, pids := [], job_name := None\<rparr>]\<rparr>)"

lemma handle_ended:
  assumes "wf_jobs (jobs sh)" "p \<in> live (jobs sh) k"
  shows "handle_child g (p, WEnded) sh =
    (if live (jobs sh) k = {p} then Inr (finish_job g k p sh)
     else Inr (sh\<lparr>jobs := job_remove_pid (jobs sh) p\<rparr>))"
proof -
  let ?J = "job_remove_pid (jobs sh) p"
  have u: "used ?J k" using jt.in_use_alive [OF assms] jt.in_use_remove [OF assms] by simp
  have d: "job_is_done ?J (int k) = Inr (live (jobs sh) k - {p} = {})"
    using jt.is_done_alive [OF jt.wf_remove [OF assms] u] jt.alive_remove [OF assms, of k] by simp
  have e: "live (jobs sh) k \<subseteq> {p} \<longleftrightarrow> live (jobs sh) k = {p}" using assms(2) by auto
  note f = remove_pid_fields [OF assms]
  have k: "k < length ?J" using u by (rule used_length)
  show ?thesis using u k
    by (simp add: handle_child_def jt.number_alive [OF assms] d e job_used f
        finish_job_def job_delete_def job_at_nat set_fg_process_group_def Let_def)
qed

text \<open>A process that is in no job: the handler indexes the table with -1.\<close>

lemma handle_unknown:
  assumes "\<forall>k<length (jobs sh). p \<notin> set (take (npids (jobs sh ! k)) (pids (jobs sh ! k)))"
  shows "handle_child g (p, st) sh = Inl OOBRead"
proof -
  have "\<forall>j\<in>set (jobs sh). p \<notin> set (take (npids j) (pids j))"
    using assms by (metis in_set_conv_nth)
  then have "job_get_number (jobs sh) p = -1" by (simp add: job_get_number_none)
  then show ?thesis
    by (cases st) (simp_all add: handle_child_def get_job_status_def job_exists_def job_at_def
        job_is_done_def job_remove_pid_def Let_def)
qed

lemma known_live:
  assumes "p \<noteq> 0" "\<not> (\<forall>k<length J. p \<notin> set (take (npids (J ! k)) (pids (J ! k))))"
  shows "\<exists>k. p \<in> live J k"
  using assms by (auto simp: live_def live_pids_def)

subsection \<open>Slots after a job ends\<close>

lemma finish_job_jobs:
  "jobs (finish_job g k p sh) =
     (job_remove_pid (jobs sh) p)[k := (job_remove_pid (jobs sh) p ! k)\<lparr>npids := 0, pids := [], job_name := None\<rparr>]"
  by (simp add: finish_job_def Let_def)

lemma finish_job_wf:
  assumes "wf_jobs (jobs sh)" "p \<in> live (jobs sh) k"
  shows "wf_jobs (jobs (finish_job g k p sh))"
proof -
  have "used (job_remove_pid (jobs sh) p) k"
    using jt.in_use_alive [OF assms] jt.in_use_remove [OF assms] by simp
  then show ?thesis unfolding finish_job_jobs
    using jt.wf_remove [OF assms]
    by (intro wf_jobs_update_sub) (auto simp: used_length wf_job_def live_pids_def)
qed

lemma slot_upd_other:
  "i \<noteq> k \<Longrightarrow> used (J[k := j]) i = used J i" "i \<noteq> k \<Longrightarrow> live (J[k := j]) i = live J i"
  by (simp_all add: used_def live_def)

lemma finish_job_slots:
  assumes "wf_jobs (jobs sh)" "p \<in> live (jobs sh) k"
  shows "\<not> used (jobs (finish_job g k p sh)) k"
    and "i \<noteq> k \<Longrightarrow> used (jobs (finish_job g k p sh)) i = used (jobs sh) i"
    and "i \<noteq> k \<Longrightarrow> live (jobs (finish_job g k p sh)) i = live (jobs sh) i"
  using jt.in_use_remove [OF assms, of i] jt.alive_remove [OF assms, of i]
  by (simp_all add: finish_job_jobs slot_upd_other) (simp add: used_def)

lemma handle_child_wf:
  assumes "wf_jobs (jobs sh)" "0 < p" "handle_child g (p, st) sh = Inr sh'"
  shows "wf_jobs (jobs sh')"
proof -
  obtain k where k: "p \<in> live (jobs sh) k"
    using handle_unknown [of sh p g st] known_live [of p "jobs sh"] assms(2,3) by fastforce
  have kl: "k < length (jobs sh)" using used_length [OF jt.in_use_alive [OF assms(1) k]] .
  show ?thesis
  proof (cases st)
    case WStopped
    then show ?thesis using handle_stopped [OF assms(1) k] assms(1,3) wf_upd [OF assms(1) kl]
      by (auto simp: say_def split: if_splits)
  next
    case WContinued
    then show ?thesis using handle_continued [OF assms(1) k] assms(1,3) wf_upd [OF assms(1) kl]
      by (auto simp: say_def split: if_splits)
  next
    case WEnded
    then show ?thesis using handle_ended [OF assms(1) k] assms(3) finish_job_wf [OF assms(1) k]
        jt.wf_remove [OF assms(1) k]
      by (auto split: if_splits)
  qed
qed

text \<open>
  C5: the SIGCHLD handler keeps the job table well formed, whatever batch of reports it
  works through, as long as it does not leave the table.
\<close>

theorem handler_keeps_jobs:
  assumes "wf_jobs (jobs sh)" "handle_sigchld g evs sh = Inr sh'"
  shows "wf_jobs (jobs sh')"
  using assms
proof (induction evs arbitrary: sh)
  case Nil
  then show ?case by simp
next
  case (Cons ev evs)
  show ?case
  proof (cases "fst ev \<le> 0")
    case True
    then show ?thesis using Cons.prems by simp
  next
    case False
    then obtain sh1 where "handle_child g ev sh = Inr sh1" "handle_sigchld g evs sh1 = Inr sh'"
      using Cons.prems(2) by (auto simp: ebind_Inr_iff)
    then show ?thesis
      using Cons.IH [of sh1] handle_child_wf [of sh "fst ev" g "snd ev" sh1] Cons.prems(1) False by simp
  qed
qed

text \<open>
  A report about a process that is in no job of the table (a child that ends before
  \<open>job_add\<close> has recorded it, or one whose pipeline found the table full) makes the handler
  read outside the table.
\<close>

theorem handler_unknown_pid:
  assumes "0 < p" "\<forall>k<length (jobs sh). p \<notin> set (take (npids (jobs sh ! k)) (pids (jobs sh ! k)))"
  shows "handle_sigchld g ((p, st) # evs) sh = Inl OOBRead"
  using handle_unknown [OF assms(2)] assms(1) by simp

text \<open>
  When several processes of a pipeline stop, the suspension is reported and the terminal
  taken back once: the second report changes nothing.
\<close>

theorem stop_reported_once:
  assumes "wf_jobs (jobs sh)" "p \<in> live (jobs sh) k" "q \<in> live (jobs sh) k" "0 < p" "0 < q"
  shows "handle_sigchld g [(p, WStopped), (q, WStopped)] sh = handle_sigchld g [(p, WStopped)] sh"
proof (cases "status (jobs sh ! k) = STOPPED")
  case True
  then show ?thesis
    using handle_stopped [OF assms(1,2)] handle_stopped [OF assms(1,3)] assms(4,5) by simp
next
  case False
  let ?J = "(jobs sh)[k := (jobs sh ! k)\<lparr>status := STOPPED\<rparr>]"
  let ?sh = "say [MSuspended (int k) (the (job_name (jobs sh ! k)))] (sh\<lparr>jobs := ?J, term_fg := g\<rparr>)"
  have kl: "k < length (jobs sh)" using used_length [OF jt.in_use_alive [OF assms(1,2)]] .
  have q: "q \<in> live (jobs ?sh) k" using assms(3) by (simp add: say_def live_upd)
  have w: "wf_jobs (jobs ?sh)" using wf_upd [OF assms(1) kl] by (simp add: say_def)
  have "handle_child g (q, WStopped) ?sh = Inr ?sh"
    using handle_stopped [OF w q] kl by (simp add: say_def)
  then show ?thesis using handle_stopped [OF assms(1,2)] assms(4,5) False by simp
qed

section \<open>Witnesses\<close>

definition sample_env :: env where
  "sample_env = \<lparr>file_exists = (\<lambda>_. False), can_exec = (\<lambda>_. True), can_read = (\<lambda>_. True), can_create = (\<lambda>_. True),
     path_var = Some ''/bin:/usr/bin'', kill_ok = (\<lambda>_ _. True)\<rparr>"

definition sample_shell :: shell where
  "sample_shell = \<lparr>jobs = sample_jobs, term_fg = 7, kills = [], out = []\<rparr>"

definition idle_shell :: shell where
  "idle_shell = \<lparr>jobs = no_jobs, term_fg = 1, kills = [], out = []\<rparr>"

definition tty_fds :: fdtab where
  "tty_fds = [Some Tty, Some Tty, Some Tty]"

lemma tty_fds_open: "std_open (fd_get tty_fds)"
  by (simp add: std_open_def fd_get_def tty_fds_def)

definition sample_parse :: parse where
  "sample_parse = \<lparr>tasks = [\<lparr>cmd = Some ''cat'', argv = Some [Ptr ''cat'', Null]\<rparr>, \<lparr>cmd = Some ''wc'', argv = Some [Ptr ''wc'', Null]\<rparr>],
     ntasks = 2, infile = Some ''in'', outfile = None, background = False, invalid_syntax = False\<rparr>"

theorem pipeline_wiring_witness:
  "fd_get (snd (spawn_all sample_env sample_parse (\<lambda>t. 10 + int t) tty_fds)) = fd_get tty_fds"
proof -
  have "files_ok sample_env sample_parse" "0 < ntasks sample_parse"
    by (simp_all add: files_ok_def sample_env_def sample_parse_def)
  from pipeline_wiring [OF tty_fds_open this, of "\<lambda>t. 10 + int t"] show ?thesis
    by (cases "spawn_all sample_env sample_parse (\<lambda>t. 10 + int t) tty_fds") simp
qed

theorem handler_keeps_jobs_witness:
  "\<exists>sh'. handle_sigchld 1 [(7, WEnded)] sample_shell = Inr sh' \<and> wf_jobs (jobs sh')"
proof -
  have w: "wf_jobs (jobs sample_shell)" by (simp add: sample_shell_def sample_jobs_wf)
  have "7 \<in> live (jobs sample_shell) 0" by (simp add: sample_shell_def sample_jobs_live)
  from handle_ended [OF w this] obtain sh' where "handle_sigchld 1 [(7, WEnded)] sample_shell = Inr sh'"
    by (cases "live (jobs sample_shell) 0 = {7}") auto
  with handler_keeps_jobs [OF w this] show ?thesis by blast
qed

theorem handler_unknown_pid_witness: "handle_sigchld 1 [(42, WEnded)] idle_shell = Inl OOBRead"
  using handler_unknown_pid [of 42 idle_shell 1 WEnded "[]"] by (simp add: idle_shell_def no_jobs_def)

theorem stop_reported_once_witness:
  "handle_sigchld 1 [(7, WStopped), (8, WStopped)] sample_shell = handle_sigchld 1 [(7, WStopped)] sample_shell"
  using stop_reported_once [of sample_shell 7 0 8 1]
  by (simp add: sample_shell_def sample_jobs_wf sample_jobs_live)

end
