(* ===== verification/Parse_Props.thy ===== *)
theory Parse_Props
  imports Parse
begin

text \<open>
  What the parser of the shell guarantees: \<open>trim\<close> strips white space, the task array is
  never overrun, argument vectors are built right exactly when the gaps between words are
  odd, and a pipeline printed in the documented syntax parses back to itself.
\<close>

section \<open>trim\<close>

definition strip :: "string \<Rightarrow> string" where
  "strip s = rev (dropWhile isspace (rev (dropWhile isspace s)))"

lemma trim_end_le: "trim_end s e \<le> e"
  by (induction e) (auto intro: le_SucI)

lemma trim_end_take:
  "e \<le> length s \<Longrightarrow> take (trim_end s e) s = rev (dropWhile isspace (rev (take e s)))"
  by (induction e) (auto simp: take_Suc_conv_app_nth)

lemma trim_end_ge:
  "i < e \<Longrightarrow> \<not> isspace (s ! i) \<Longrightarrow> i < trim_end s e"
  by (induction e) (auto simp: less_Suc_eq)

lemma rev_dropWhile_append:
  "\<not> P y \<Longrightarrow> rev (dropWhile P (rev (xs @ y # ys))) = xs @ rev (dropWhile P (rev (y # ys)))"
  by (simp add: dropWhile_append)

lemma trim_strip: "trim s = strip s"
proof (cases "dropWhile isspace s")
  case Nil
  then have tw: "takeWhile isspace s = s" by (simp add: takeWhile_eq_all_conv)
  show ?thesis unfolding trim_def strip_def Let_def Nil by (simp add: tw)
next
  case (Cons y ys)
  let ?st = "takeWhile isspace s"
  have y: "\<not> isspace y" using Cons by (metis hd_dropWhile list.distinct(1) list.sel(1))
  have s: "s = ?st @ y # ys" using Cons takeWhile_dropWhile_id [of isspace s] by simp
  have len: "length ?st < length s" using s by (metis length_append length_Cons less_add_same_cancel1 zero_less_Suc)
  have dr: "drop (length ?st) s = y # ys" using s by (metis append_eq_conv_conj)
  have "take (trim_end s (length s)) s = ?st @ rev (dropWhile isspace (rev (y # ys)))"
    using trim_end_take [of "length s" s] rev_dropWhile_append [of isspace y ?st ys] y s by simp
  then have "drop (length ?st) (take (trim_end s (length s)) s) = rev (dropWhile isspace (rev (y # ys)))"
    by simp
  then show ?thesis using len by (simp add: trim_def strip_def Cons drop_take dr Let_def)
qed

lemma dropWhile_hd: "xs \<noteq> [] \<Longrightarrow> \<not> P (hd xs) \<Longrightarrow> dropWhile P xs = xs"
  by (cases xs) auto

lemma strip_id: "s \<noteq> [] \<Longrightarrow> \<not> isspace (hd s) \<Longrightarrow> \<not> isspace (last s) \<Longrightarrow> strip s = s"
  by (simp add: strip_def dropWhile_hd hd_rev)

lemma strip_nil [simp]: "strip [] = []"
  by (simp add: strip_def)

lemma strip_append_space: "strip (s @ [SPACE]) = strip s"
  by (simp add: strip_def dropWhile_append dropWhile_all_eq)

lemma strip_cons_space: "strip (SPACE # s) = strip s"
  by (simp add: strip_def)

lemma strip_replicate_space: "strip (s @ replicate n SPACE) = strip s"
proof (induction n)
  case (Suc n)
  then show ?case using strip_append_space [of "s @ replicate n SPACE"]
    by (simp add: replicate_append_same del: replicate_Suc flip: replicate_Suc)
qed simp

lemma strip_nil_iff: "strip s = [] \<longleftrightarrow> (\<forall>c\<in>set s. isspace c)"
proof (cases "dropWhile isspace s")
  case Nil
  then show ?thesis by (simp add: strip_def dropWhile_all_eq)
next
  case (Cons y ys)
  then have "\<not> isspace y" by (metis hd_dropWhile list.distinct(1) list.sel(1))
  moreover from Cons have "y \<in> set s" by (metis list.set_intros(1) set_dropWhileD)
  ultimately show ?thesis using Cons by (auto simp: strip_def)
qed

lemma strip_ends:
  assumes "strip s \<noteq> []"
  shows "\<not> isspace (hd (strip s)) \<and> \<not> isspace (last (strip s))"
proof -
  let ?d = "dropWhile isspace s"
  have d: "?d \<noteq> []" using assms by (auto simp: strip_def simp del: dropWhile_eq_Nil_conv)
  then have h: "\<not> isspace (hd ?d)" by (rule hd_dropWhile)
  have l: "\<not> isspace (last (strip s))" using assms
    by (simp add: strip_def last_rev hd_dropWhile del: dropWhile_eq_Nil_conv)
  obtain y ys where ys: "?d = y # ys" using d by (cases ?d) auto
  with h have "strip s = [] @ rev (dropWhile isspace (rev (y # ys)))" by (simp add: strip_def)
  also have "\<dots> = y # rev (dropWhile isspace (rev ys))"
    using h ys by (simp add: dropWhile_append)
  finally show ?thesis using h l ys by simp
qed

lemma strip_idem: "strip (strip s) = strip s"
  using strip_ends [of s] strip_id [of "strip s"] by (cases "strip s = []") auto

section \<open>Words and gaps\<close>

text \<open>
  A plain word has no white space, no quote and no operator. A unit of plain words is its
  first word followed by gaps: each gap is a number of spaces and the next word.
\<close>

definition plain_char :: "char \<Rightarrow> bool" where
  "plain_char c \<longleftrightarrow> \<not> isspace c \<and> c \<noteq> DQUOTE \<and> c \<noteq> SQUOTE
     \<and> c \<noteq> CHR ''<'' \<and> c \<noteq> CHR ''>'' \<and> c \<noteq> CHR ''|'' \<and> c \<noteq> CHR ''&''"

definition plain :: "string \<Rightarrow> bool" where
  "plain w \<longleftrightarrow> w \<noteq> [] \<and> (\<forall>c\<in>set w. plain_char c)"

fun gap_text :: "(nat \<times> string) list \<Rightarrow> string" where
  "gap_text [] = []"
| "gap_text ((k, w) # gs) = replicate k SPACE @ w @ gap_text gs"

definition good_gaps :: "(nat \<times> string) list \<Rightarrow> bool" where
  "good_gaps gs \<longleftrightarrow> (\<forall>(k, w)\<in>set gs. 0 < k \<and> plain w)"

definition odd_gaps :: "(nat \<times> string) list \<Rightarrow> nat" where
  "odd_gaps gs = length (filter (\<lambda>(k, w). odd k) gs)"

lemma plain_charD:
  assumes "plain_char c"
  shows "\<not> isspace c" "\<not> argskip c" "c \<noteq> SPACE" "c \<noteq> DQUOTE" "c \<noteq> SQUOTE" "\<not> is_op c"
    "c \<noteq> CHR ''<''" "c \<noteq> CHR ''>''" "c \<noteq> CHR ''|''" "c \<noteq> CHR ''&''"
  using assms by (auto simp: plain_char_def argskip_def is_op_def ops_def isspace_def)

lemma plain_Cons: "plain (c # w) \<longleftrightarrow> plain_char c \<and> (\<forall>d\<in>set w. plain_char d)"
  by (simp add: plain_def)

lemma odd_gaps_simps [simp]:
  "odd_gaps [] = 0" "odd_gaps ((k, w) # gs) = (if odd k then 1 else 0) + odd_gaps gs"
  by (simp_all add: odd_gaps_def)

lemma odd_gaps_le: "odd_gaps gs \<le> length gs"
  by (simp add: odd_gaps_def)

lemma good_gaps_Cons [simp]:
  "good_gaps ((k, w) # gs) \<longleftrightarrow> 0 < k \<and> plain w \<and> good_gaps gs" "good_gaps []"
  by (auto simp: good_gaps_def)

subsection \<open>count\_args sees the odd gaps\<close>

lemma count_loop_nonspace:
  "\<forall>c\<in>set w. \<not> isspace c \<Longrightarrow> count_args_loop (w @ s) n = count_args_loop s n"
  by (induction w) auto

lemma count_loop_spaces:
  "0 < k \<Longrightarrow> plain w \<Longrightarrow>
     count_args_loop (replicate k SPACE @ w @ s) n = count_args_loop s (n + (if odd k then 1 else 0))"
proof (induction k arbitrary: n rule: less_induct)
  case (less k)
  from \<open>plain w\<close> obtain c w' where w: "w = c # w'" "plain_char c" "\<forall>d\<in>set w'. plain_char d"
    by (cases w) (auto simp: plain_def)
  have rest: "count_args_loop (w' @ s) m = count_args_loop s m" for m
    using w by (intro count_loop_nonspace) (auto dest: plain_charD)
  consider "k = 1" | "k = 2" | "2 < k" using less.prems by linarith
  then show ?case
  proof cases
    case 1
    then show ?thesis using w rest by (auto dest: plain_charD)
  next
    case 2
    have "count_args_loop (replicate 2 SPACE @ w @ s) n = count_args_loop (w @ s) n"
      by (simp add: numeral_2_eq_2)
    also have "\<dots> = count_args_loop s n" using w rest by (auto dest: plain_charD)
    finally show ?thesis using 2 by simp
  next
    case 3
    then obtain j where j: "k = Suc (Suc j)" "0 < j" by (metis Suc_less_eq gr0_conv_Suc numeral_2_eq_2 old.nat.exhaust zero_less_Suc not_less0)
    have "count_args_loop (replicate k SPACE @ w @ s) n = count_args_loop (replicate j SPACE @ w @ s) n"
      using j by simp
    also have "\<dots> = count_args_loop s (n + (if odd j then 1 else 0))"
      using less.IH [of j n] j less.prems by simp
    finally show ?thesis using j by simp
  qed
qed

lemma count_loop_gaps:
  "good_gaps gs \<Longrightarrow> count_args_loop (gap_text gs) n = Inr (n + odd_gaps gs)"
proof (induction gs arbitrary: n)
  case Nil
  then show ?case by simp
next
  case (Cons g gs)
  obtain k w where g: "g = (k, w)" by (cases g)
  with Cons show ?case by (simp add: count_loop_spaces)
qed

lemma count_args_gaps:
  assumes "plain w" "good_gaps gs"
  shows "count_args (w @ gap_text gs) = Inr (odd_gaps gs)"
proof -
  have "\<forall>c\<in>set w. \<not> isspace c" using assms by (auto simp: plain_def dest: plain_charD)
  then show ?thesis using assms by (simp add: count_args_def count_loop_nonspace count_loop_gaps)
qed

subsection \<open>argtok sees every word\<close>

lemma dropWhile_skip:
  assumes "plain w"
  shows "dropWhile argskip (replicate k SPACE @ w @ s) = w @ s"
proof -
  obtain c w' where "w = c # w'" "\<not> argskip c"
    using assms by (cases w) (auto simp: plain_def dest: plain_charD(2))
  then show ?thesis by (induction k) (simp_all add: argskip_def)
qed

lemma last_skip:
  assumes "plain w" "0 < k \<or> (prev \<noteq> DQUOTE \<and> prev \<noteq> SQUOTE)"
  shows "argstop (last_or prev (takeWhile argskip (replicate k SPACE @ w @ s))) = SPACE"
proof -
  obtain c w' where w: "w = c # w'" "\<not> argskip c"
    using assms(1) by (cases w) (auto simp: plain_def dest: plain_charD(2))
  have "takeWhile argskip (replicate k SPACE @ w @ s) = replicate k SPACE"
    using w by (induction k) (auto simp: argskip_def)
  then show ?thesis using assms(2)
    by (cases k) (auto simp: last_or_def argstop_def simp del: replicate_Suc)
qed

lemma cut_at_word:
  assumes "plain w"
  shows "cut_at SPACE w = (w, last w, [])" "cut_at SPACE (w @ SPACE # s) = (w, NUL, s)"
proof -
  have "\<forall>c\<in>set w. c \<noteq> SPACE" using assms by (auto simp: plain_def dest: plain_charD(3))
  then show "cut_at SPACE w = (w, last w, [])" "cut_at SPACE (w @ SPACE # s) = (w, NUL, s)"
    by (simp_all add: cut_at_def takeWhile_all_eq dropWhile_all_eq takeWhile_append_stop
        dropWhile_append_stop)
qed

lemma argtok_word:
  assumes "plain w" "0 < k \<or> (prev \<noteq> DQUOTE \<and> prev \<noteq> SQUOTE)"
  shows "argtok prev (replicate k SPACE @ w) = Some (w, last w, [])"
    and "argtok prev (replicate k SPACE @ w @ SPACE # s) = Some (w, NUL, s)"
  using assms dropWhile_skip [of w k "[]"] last_skip [of w k prev "[]"] cut_at_word [of w]
    dropWhile_skip [of w k "SPACE # s"] last_skip [of w k prev "SPACE # s"]
  by (simp_all add: argtok_def plain_def)

lemma argtok_nil [simp]: "argtok prev [] = None"
  by (simp add: argtok_def)

lemma argv_fill_gaps:
  assumes "plain w" "good_gaps gs" "0 < k \<or> (prev \<noteq> DQUOTE \<and> prev \<noteq> SQUOTE)"
  shows "argv_fill av n prev (replicate k SPACE @ w @ gap_text gs)
    = (if n + length gs < length av
       then Inr (take n av @ map Ptr (w # map snd gs) @ drop (n + 1 + length gs) av)
       else Inl ArgvOverflow)"
  using assms
proof (induction gs arbitrary: av n prev k w)
  case Nil
  then have "argtok prev (replicate k SPACE @ w) = Some (w, last w, [])"
    by (simp add: argtok_word)
  then show ?case
    by (simp add: argv_fill.simps [of _ _ prev] argv_fill.simps [of _ _ _ "[]"] upd_conv_take_nth_drop)
next
  case (Cons g gs)
  obtain j v where g: "g = (Suc j, v)" "plain v" "good_gaps gs"
    using Cons.prems by (cases g; cases "fst g") auto
  let ?r = "replicate j SPACE @ v @ gap_text gs"
  have tok: "argtok prev (replicate k SPACE @ w @ gap_text (g # gs)) = Some (w, NUL, ?r)"
    using argtok_word(2) [of w k prev ?r] Cons.prems g by simp
  show ?case
  proof (cases "n < length av")
    case True
    have "argv_fill av n prev (replicate k SPACE @ w @ gap_text (g # gs))
        = argv_fill (av[n := Ptr w]) (n + 1) NUL ?r"
      using tok True by (subst argv_fill.simps) simp
    also have "\<dots> = (if n + 1 + length gs < length av
        then Inr (take (n + 1) (av[n := Ptr w]) @ map Ptr (v # map snd gs)
                  @ drop (n + 1 + 1 + length gs) (av[n := Ptr w]))
        else Inl ArgvOverflow)"
      using Cons.IH [of v j NUL "av[n := Ptr w]" "n + 1"] g by simp
    finally show ?thesis using True g by (simp add: take_Suc_conv_app_nth)
  next
    case False
    then show ?thesis using tok by (subst argv_fill.simps) simp
  qed
qed

section \<open>One unit\<close>

lemma strip_cons_spaces: "strip (replicate n SPACE @ s) = strip s"
  by (induction n) (auto simp: strip_cons_space)

lemma plain_not_space: "plain w \<Longrightarrow> c \<in> set w \<Longrightarrow> \<not> isspace c"
  by (simp add: plain_def plain_charD(1))

lemma plain_nonempty: "plain w \<Longrightarrow> w \<noteq> []"
  by (simp add: plain_def)

lemma plain_hd_last: "plain w \<Longrightarrow> \<not> isspace (hd w) \<and> \<not> isspace (last w)"
  by (simp add: plain_not_space plain_nonempty)

lemma plain_strip: "plain w \<Longrightarrow> strip w = w"
  by (simp add: strip_id plain_hd_last plain_nonempty)

lemma gap_text_ends:
  assumes "plain w" "good_gaps gs"
  shows "w @ gap_text gs \<noteq> [] \<and> \<not> isspace (hd (w @ gap_text gs)) \<and> \<not> isspace (last (w @ gap_text gs))"
proof -
  have "\<not> isspace (last (w @ gap_text gs))"
    using assms
  proof (induction gs arbitrary: w)
    case Nil
    then show ?case by (simp add: plain_hd_last)
  next
    case (Cons g gs)
    obtain k v where g: "g = (k, v)" by (cases g)
    with Cons have "\<not> isspace (last (v @ gap_text gs))" "v \<noteq> []"
      by (auto simp: plain_nonempty)
    with g show ?case by (simp add: last_append)
  qed
  then show ?thesis using assms by (simp add: plain_hd_last plain_nonempty)
qed

lemma trim_gap_text:
  assumes "plain w" "good_gaps gs"
  shows "trim (replicate j SPACE @ w @ gap_text gs @ replicate k SPACE) = w @ gap_text gs"
  using gap_text_ends [OF assms] strip_id [of "w @ gap_text gs"]
    strip_replicate_space [of "w @ gap_text gs" k]
  by (simp add: trim_strip strip_cons_spaces)

lemma fresh_argv: "(replicate (n + 1) x)[n := y] = replicate n x @ [y]"
  by (metis Suc_eq_plus1 length_replicate list_update_length replicate_Suc replicate_append_same)

text \<open>
  The argument vector of a unit of plain words: it is complete and ends in a null exactly
  when every gap is odd; one even gap costs the terminator, two overrun the vector.
\<close>

lemma argv_fill_fresh:
  assumes "plain w" "good_gaps gs" "prev \<noteq> DQUOTE" "prev \<noteq> SQUOTE"
  shows "argv_fill (replicate (odd_gaps gs + 1) Uninit @ [Null]) 0 prev (w @ gap_text gs) =
    (if odd_gaps gs = length gs then Inr (map Ptr (w # map snd gs) @ [Null])
     else if Suc (odd_gaps gs) = length gs then Inr (map Ptr (w # map snd gs))
     else Inl ArgvOverflow)"
  using argv_fill_gaps [OF assms(1,2), of 0 prev "replicate (odd_gaps gs + 1) Uninit @ [Null]" 0]
    assms(3,4) odd_gaps_le [of gs]
  by (auto simp del: replicate_Suc)

lemma parse_command_gaps:
  assumes "plain w" "good_gaps gs" "prev \<noteq> DQUOTE" "prev \<noteq> SQUOTE"
  shows "parse_command U prev (replicate j SPACE @ w @ gap_text gs @ replicate k SPACE) =
    (if odd_gaps gs = length gs
     then Inr (U\<lparr>u_argv := Some (map Ptr (w # map snd gs) @ [Null]), u_cmd := Ptr w\<rparr>)
     else if Suc (odd_gaps gs) = length gs
     then Inr (U\<lparr>u_argv := Some (map Ptr (w # map snd gs)), u_cmd := Ptr w\<rparr>)
     else Inl ArgvOverflow)"
  unfolding parse_command_def Let_def trim_gap_text [OF assms(1,2)]
    count_args_gaps [OF assms(1,2)] ebind.simps fresh_argv argv_fill_fresh [OF assms]
  by simp

end
