(* ===== verification/Parse_Roundtrip.thy ===== *)
theory Parse_Roundtrip
  imports Parse_Props
begin

text \<open>
  Printing a pipeline in the syntax that the header of parse.c documents, and the proof
  that \<open>parse_cmdline\<close> reads back exactly what was printed.
\<close>

section \<open>Pipelines and their text\<close>

record pipeline =
  stages :: "(string \<times> string list) list"
  p_in :: "string option"
  p_out :: "string option"
  p_bg :: bool

definition show_stage :: "string \<times> string list \<Rightarrow> string" where
  "show_stage s = fst s @ gap_text (map (Pair (Suc 0)) (snd s))"

definition show_redir :: "char \<Rightarrow> string option \<Rightarrow> string" where
  "show_redir op f = (case f of None \<Rightarrow> [] | Some g \<Rightarrow> SPACE # op # SPACE # g)"

fun show_rest :: "(string \<times> string list) list \<Rightarrow> string option \<Rightarrow> string" where
  "show_rest [] out = show_redir CHR ''>'' out"
| "show_rest (s # ss) out = SPACE # CHR ''|'' # SPACE # show_stage s @ show_rest ss out"

definition show_body :: "pipeline \<Rightarrow> string" where
  "show_body p = show_stage (hd (stages p)) @ show_redir CHR ''<'' (p_in p)
     @ show_rest (tl (stages p)) (p_out p)"

definition show_pipeline :: "pipeline \<Rightarrow> string" where
  "show_pipeline p = show_body p @ (if p_bg p then [SPACE, CHR ''&''] else [])"

definition plain_stage :: "string \<times> string list \<Rightarrow> bool" where
  "plain_stage s \<longleftrightarrow> plain (fst s) \<and> list_all plain (snd s)"

definition plain_opt :: "string option \<Rightarrow> bool" where
  "plain_opt f = (case f of None \<Rightarrow> True | Some g \<Rightarrow> plain g)"

definition wf_pipeline :: "pipeline \<Rightarrow> bool" where
  "wf_pipeline p \<longleftrightarrow> stages p \<noteq> [] \<and> list_all plain_stage (stages p)
     \<and> plain_opt (p_in p) \<and> plain_opt (p_out p)"

definition task_of :: "string \<times> string list \<Rightarrow> task" where
  "task_of s = \<lparr>cmd = Some (fst s), argv = Some (map Ptr (fst s # snd s) @ [Null])\<rparr>"

definition parse_of :: "pipeline \<Rightarrow> parse" where
  "parse_of p = \<lparr>tasks = map task_of (stages p), ntasks = length (stages p),
     infile = p_in p, outfile = p_out p, background = p_bg p, invalid_syntax = False\<rparr>"

section \<open>Counting characters of the text\<close>

lemma count_char_append [simp]: "count_char c (s @ t) = count_char c s + count_char c t"
  by (induction s) auto

lemma count_char_replicate [simp]: "count_char c (replicate n d) = (if c = d then n else 0)"
  by (induction n) auto

lemma count_char_0_iff: "count_char c s = 0 \<longleftrightarrow> c \<notin> set s"
  by (induction s) auto

definition special :: "char \<Rightarrow> bool" where
  "special c \<longleftrightarrow> \<not> plain_char c \<and> c \<noteq> SPACE"

lemma special_simps [simp]:
  "special CHR ''<''" "special CHR ''>''" "special CHR ''|''" "special CHR ''&''"
  "special DQUOTE" "special SQUOTE" "\<not> special SPACE"
  by (simp_all add: special_def plain_char_def)

lemma plain_no_special: "special c \<Longrightarrow> plain w \<Longrightarrow> c \<notin> set w"
  by (auto simp: special_def plain_def)

lemma gap_text_no_special: "special c \<Longrightarrow> good_gaps gs \<Longrightarrow> c \<notin> set (gap_text gs)"
proof (induction gs)
  case Nil
  then show ?case by simp
next
  case (Cons g gs)
  obtain k w where "g = (k, w)" by (cases g)
  with Cons show ?case using plain_no_special [of c w] by auto
qed

lemma good_gaps_args: "list_all plain as \<Longrightarrow> good_gaps (map (Pair (Suc 0)) as)"
  by (auto simp: good_gaps_def list_all_iff)

lemma odd_gaps_args [simp]: "odd_gaps (map (Pair (Suc 0)) as) = length as"
  by (induction as) auto

lemma map_snd_args [simp]: "map snd (map (Pair (Suc 0)) as) = as"
  by (induction as) auto

lemma stage_no_special: "special c \<Longrightarrow> plain_stage s \<Longrightarrow> c \<notin> set (show_stage s)"
  by (auto simp: show_stage_def plain_stage_def plain_no_special
      dest: gap_text_no_special [OF _ good_gaps_args])

lemma stage_count [simp]: "special c \<Longrightarrow> plain_stage s \<Longrightarrow> count_char c (show_stage s) = 0"
  by (simp add: count_char_0_iff stage_no_special)

lemma plain_count [simp]: "special c \<Longrightarrow> plain w \<Longrightarrow> count_char c w = 0"
  by (simp add: count_char_0_iff plain_no_special)

lemma redir_count [simp]:
  "special c \<Longrightarrow> plain_opt f \<Longrightarrow>
     count_char c (show_redir op f) = (if f \<noteq> None \<and> op = c then 1 else 0)"
  by (auto simp: show_redir_def plain_opt_def split: option.splits)

lemma rest_count_bar:
  "list_all plain_stage ss \<Longrightarrow> plain_opt out \<Longrightarrow> count_char CHR ''|'' (show_rest ss out) = length ss"
  by (induction ss) auto

lemma rest_count_amp:
  "list_all plain_stage ss \<Longrightarrow> plain_opt out \<Longrightarrow> count_char CHR ''&'' (show_rest ss out) = 0"
  by (induction ss) auto

section \<open>One unit\<close>

lemma takeWhile_until_op:
  assumes "\<forall>c\<in>set s. \<not> is_op c" "tail = [] \<or> is_op (hd tail)"
  shows "takeWhile (\<lambda>c. \<not> is_op c) (s @ tail) = s" "dropWhile (\<lambda>c. \<not> is_op c) (s @ tail) = tail"
  using assms by (cases tail; simp add: takeWhile_append_stop dropWhile_append_stop)+

lemma parse_unary_redir:
  assumes "op \<notin> set pre" "plain f" "tail = [] \<or> is_op (hd tail)"
  shows "parse_unary op (pre @ op # SPACE # f @ replicate k SPACE @ tail)
    = (Some f, pre @ replicate (length f + k + 2) SPACE @ tail)"
proof -
  let ?a = "SPACE # f @ replicate k SPACE"
  have pre: "\<forall>c\<in>set pre. c \<noteq> op" using assms(1) by auto
  have "\<forall>c\<in>set f. \<not> is_op c" using assms(2) by (meson plain_def plain_charD(6))
  moreover have "\<not> is_op SPACE" by (simp add: is_op_def ops_def)
  ultimately have na: "\<forall>c\<in>set ?a. \<not> is_op c" by auto
  have "trim ?a = f"
    using strip_cons_space [of "f @ replicate k SPACE"] strip_replicate_space [of f k]
    by (simp add: trim_strip plain_strip assms(2))
  moreover have "dropWhile (\<lambda>c. c \<noteq> op) (pre @ op # ?a @ tail) = op # ?a @ tail"
    "takeWhile (\<lambda>c. c \<noteq> op) (pre @ op # ?a @ tail) = pre"
    using pre by (simp_all add: takeWhile_append_stop dropWhile_append_stop)
  moreover note takeWhile_until_op [OF na assms(3)]
  ultimately show ?thesis by (simp add: parse_unary_def Let_def)
qed

definition unit_text ::
  "nat \<Rightarrow> string \<times> string list \<Rightarrow> string option \<Rightarrow> string option \<Rightarrow> nat \<Rightarrow> string" where
  "unit_text j s fin fout k =
     replicate j SPACE @ show_stage s @ show_redir CHR ''<'' fin @ show_redir CHR ''>'' fout
       @ replicate k SPACE"

lemma unit_text_count:
  assumes "special c" "plain_stage s" "plain_opt fin" "plain_opt fout"
  shows "count_char c (unit_text j s fin fout k)
    = (if fin \<noteq> None \<and> c = CHR ''<'' then 1 else 0) + (if fout \<noteq> None \<and> c = CHR ''>'' then 1 else 0)"
  using assms by (auto simp: unit_text_def special_def)

lemma unary_in:
  assumes "plain_stage s" "plain_opt fin" "plain_opt fout"
  shows "\<exists>m. (if fin \<noteq> None then parse_unary CHR ''<'' (unit_text j s fin fout k)
              else (None, unit_text j s fin fout k))
    = (fin, replicate j SPACE @ show_stage s @ replicate m SPACE
              @ (case fout of None \<Rightarrow> [] | Some g \<Rightarrow> CHR ''>'' # SPACE # g @ replicate k SPACE))"
proof (cases fin)
  case None
  then show ?thesis
    by (cases fout) (auto simp: unit_text_def show_redir_def intro: exI [of _ k] exI [of _ 1])
next
  case (Some f)
  let ?pre = "replicate j SPACE @ show_stage s @ [SPACE]"
  have pre: "CHR ''<'' \<notin> set ?pre" using stage_no_special [of "CHR ''<''" s] assms(1) by auto
  have f: "plain f" using assms(2) Some by (simp add: plain_opt_def)
  show ?thesis
  proof (cases fout)
    case None
    have "unit_text j s fin fout k = ?pre @ CHR ''<'' # SPACE # f @ replicate k SPACE @ []"
      by (simp add: unit_text_def show_redir_def Some None)
    then show ?thesis using parse_unary_redir [OF pre f, of "[]" k] Some None
      by (intro exI [of _ "1 + (length f + k + 2)"]) (simp add: replicate_add)
  next
    case (Some g)
    let ?t = "CHR ''>'' # SPACE # g @ replicate k SPACE"
    have "unit_text j s fin fout k = ?pre @ CHR ''<'' # SPACE # f @ replicate 1 SPACE @ ?t"
      by (simp add: unit_text_def show_redir_def Some \<open>fin = Some f\<close>)
    then show ?thesis using parse_unary_redir [OF pre f, of ?t 1] Some \<open>fin = Some f\<close>
      by (intro exI [of _ "1 + (length f + 1 + 2)"]) (simp add: is_op_def ops_def replicate_add)
  qed
qed

lemma unary_out:
  assumes "plain_stage s" "plain_opt fout"
    and t: "t = replicate j SPACE @ show_stage s @ replicate m SPACE
              @ (case fout of None \<Rightarrow> [] | Some g \<Rightarrow> CHR ''>'' # SPACE # g @ replicate k SPACE)"
  shows "\<exists>m'. (if fout \<noteq> None then parse_unary CHR ''>'' t else (None, t))
    = (fout, replicate j SPACE @ show_stage s @ replicate m' SPACE)"
proof (cases fout)
  case None
  then show ?thesis using t by auto
next
  case (Some g)
  let ?pre = "replicate j SPACE @ show_stage s @ replicate m SPACE"
  have pre: "CHR ''>'' \<notin> set ?pre" using stage_no_special [of "CHR ''>''" s] assms(1) by auto
  have g: "plain g" using assms(2) Some by (simp add: plain_opt_def)
  have "t = ?pre @ CHR ''>'' # SPACE # g @ replicate k SPACE @ []" using t Some by simp
  then show ?thesis using parse_unary_redir [OF pre g, of "[]" k] Some
    by (intro exI [of _ "m + (length g + k + 2)"]) (simp only: replicate_add, simp)
qed

lemma parse_unit_text:
  assumes "plain_stage s" "plain_opt fin" "plain_opt fout" "prev \<noteq> DQUOTE" "prev \<noteq> SQUOTE"
  shows "parse_unit prev (unit_text j s fin fout k) =
    Inr (Some \<lparr>u_cmd = Ptr (fst s), u_argv = Some (map Ptr (fst s # snd s) @ [Null]),
               input_fn = fin, output_fn = fout\<rparr>)"
proof -
  let ?u = "unit_text j s fin fout k"
  have cnt: "count_char CHR ''<'' ?u = (if fin \<noteq> None then 1 else 0)"
    "count_char CHR ''>'' ?u = (if fout \<noteq> None then 1 else 0)"
    "count_char SQUOTE ?u = 0" "count_char DQUOTE ?u = 0"
    using assms by (simp_all add: unit_text_count)
  obtain m where m: "(if fin \<noteq> None then parse_unary CHR ''<'' ?u else (None, ?u))
    = (fin, replicate j SPACE @ show_stage s @ replicate m SPACE
              @ (case fout of None \<Rightarrow> [] | Some g \<Rightarrow> CHR ''>'' # SPACE # g @ replicate k SPACE))"
    (is "_ = (fin, ?t)")
    using unary_in [OF assms(1-3)] by blast
  obtain m' where m': "(if fout \<noteq> None then parse_unary CHR ''>'' ?t else (None, ?t))
    = (fout, replicate j SPACE @ show_stage s @ replicate m' SPACE)"
    using unary_out [OF assms(1,3) refl] by blast
  have st: "plain (fst s)" "good_gaps (map (Pair (Suc 0)) (snd s))"
    using assms(1) by (simp_all add: plain_stage_def good_gaps_args)
  have "parse_unit prev ?u = ebind (parse_command
      \<lparr>u_cmd = Null, u_argv = None, input_fn = fin, output_fn = fout\<rparr> prev
      (replicate j SPACE @ show_stage s @ replicate m' SPACE)) (\<lambda>U. Inr (Some U))"
    using m m' cnt unfolding parse_unit_def Let_def
    by (cases "fin = None"; cases "fout = None") (simp_all only: cnt, simp_all)
  then show ?thesis
    using parse_command_gaps [OF st assms(4,5), of _ j m'] by (simp add: show_stage_def)
qed

section \<open>The loop over the units\<close>

abbreviation empty_task :: task where "empty_task \<equiv> \<lparr>cmd = None, argv = None\<rparr>"

text \<open>Adding the unit of stage \<open>i\<close> of a line with \<open>n\<close> stages.\<close>

lemma parse_add_stage:
  assumes "plain_stage s" "plain_opt fin" "plain_opt fout"
    and "tasks P ! i = empty_task" "i < length (tasks P)" "length (tasks P) = ntasks P"
    and "fin \<noteq> None \<Longrightarrow> i = 0" "fout \<noteq> None \<Longrightarrow> Suc i = ntasks P"
  shows "parse_add_unit P (Some \<lparr>u_cmd = Ptr (fst s), u_argv = Some (map Ptr (fst s # snd s) @ [Null]),
            input_fn = fin, output_fn = fout\<rparr>) i
    = Inr (P\<lparr>tasks := (tasks P)[i := task_of s],
             infile := (if fin \<noteq> None then fin else infile P),
             outfile := (if fout \<noteq> None then fout else outfile P)\<rparr>)"
proof -
  have ne: "\<not> fst (is_empty f)" if "f \<noteq> None" "plain_opt f" for f
    using that by (auto simp: is_empty_def plain_opt_def trim_strip plain_strip plain_nonempty)
  have i: "fin = None \<or> i = 0" and o: "fout = None \<or> int i = int (ntasks P) - 1"
    using assms(7,8) by (cases fin; cases fout; simp)+
  have "valid_syntax P (Some \<lparr>u_cmd = Ptr (fst s),
      u_argv = Some (map Ptr (fst s # snd s) @ [Null]), input_fn = fin, output_fn = fout\<rparr>) i = Inr True"
    using i o ne [OF _ assms(2)] ne [OF _ assms(3)] assms(1)
    by (auto simp: valid_syntax_def plain_stage_def plain_nonempty)
  then show ?thesis using i o assms(4,5)
    by (auto simp: parse_add_unit_def unit_destroy_def drop_taken_def store_task_def task_of_def
        opt_list_def split: option.splits)
qed

lemma units_loop_nil: "units_loop prev [] i P = Inr P"
  by (subst units_loop.simps) simp

lemma units_loop_step:
  assumes "\<not> invalid_syntax P"
    and "strtok_r (\<lambda>c. c = CHR ''|'') prev str = Some (token, p, prev', str')"
    and "parse_unit p token = Inr U" and "parse_add_unit P U i = Inr P'"
  shows "units_loop prev str i P = units_loop prev' str' (Suc i) P'"
  using assms by (subst units_loop.simps) simp

text \<open>The text of a unit and what follows it.\<close>

lemma unit_text_no_bar:
  assumes "plain_stage s" "plain_opt fin" "plain_opt fout"
  shows "unit_text j s fin fout k \<noteq> [] \<and> (\<forall>c\<in>set (unit_text j s fin fout k). c \<noteq> CHR ''|'')"
proof
  show "unit_text j s fin fout k \<noteq> []"
    using assms(1) by (simp add: unit_text_def show_stage_def plain_stage_def plain_nonempty)
  have "count_char CHR ''|'' (unit_text j s fin fout k) = 0"
    using assms by (simp add: unit_text_count)
  then show "\<forall>c\<in>set (unit_text j s fin fout k). c \<noteq> CHR ''|''"
    by (auto simp: count_char_0_iff)
qed

lemma stage_text_rest:
  "replicate j SPACE @ show_stage s @ show_redir CHR ''<'' fin @ show_rest [] out
     = unit_text j s fin out 0"
  "replicate j SPACE @ show_stage s @ show_redir CHR ''<'' fin @ show_rest (t # ts) out
     = unit_text j s fin None 1 @ CHR ''|'' # (replicate 1 SPACE @ show_stage t
         @ show_redir CHR ''<'' None @ show_rest ts out)"
  by (simp_all add: unit_text_def show_redir_def)

lemma units_loop_stages:
  assumes "plain_stage s" "list_all plain_stage ss" "plain_opt fin" "plain_opt out"
    and "prev \<noteq> DQUOTE" "prev \<noteq> SQUOTE" "\<not> invalid_syntax P"
    and "tasks P = map task_of done @ replicate (Suc (length ss)) empty_task"
    and "ntasks P = length (tasks P)" "i = length done" "fin \<noteq> None \<Longrightarrow> i = 0"
  shows "units_loop prev (replicate j SPACE @ show_stage s @ show_redir CHR ''<'' fin @ show_rest ss out) i P
    = Inr (P\<lparr>tasks := map task_of (done @ s # ss),
             infile := (if fin \<noteq> None then fin else infile P),
             outfile := (if out \<noteq> None then out else outfile P)\<rparr>)"
  using assms
proof (induction ss arbitrary: s j fin prev P i "done")
  case Nil
  let ?txt = "unit_text j s fin out 0"
  have tok: "strtok_r (\<lambda>c. c = CHR ''|'') prev ?txt = Some (?txt, prev, last ?txt, [])"
    using unit_text_no_bar [of s fin out j 0] Nil.prems by (intro strtok_r_last) auto
  have add: "parse_add_unit P (Some \<lparr>u_cmd = Ptr (fst s),
      u_argv = Some (map Ptr (fst s # snd s) @ [Null]), input_fn = fin, output_fn = out\<rparr>) i
    = Inr (P\<lparr>tasks := (tasks P)[i := task_of s],
             infile := (if fin \<noteq> None then fin else infile P),
             outfile := (if out \<noteq> None then out else outfile P)\<rparr>)"
    using Nil.prems by (intro parse_add_stage) (auto simp: nth_append)
  have upd: "(tasks P)[i := task_of s] = map task_of (done @ [s])"
    using Nil.prems by (simp add: list_update_append)
  show ?case
    unfolding stage_text_rest
      units_loop_step [OF Nil.prems(7) tok parse_unit_text [OF Nil.prems(1,3,4,5,6)] add]
      units_loop_nil upd ..
next
  case (Cons t ts)
  let ?txt = "unit_text j s fin None 1"
  let ?rest = "replicate 1 SPACE @ show_stage t @ show_redir CHR ''<'' None @ show_rest ts out"
  let ?P = "P\<lparr>tasks := (tasks P)[i := task_of s], infile := (if fin \<noteq> None then fin else infile P),
             outfile := (if None \<noteq> (None :: string option) then None else outfile P)\<rparr>"
  have none: "plain_opt None" by (simp add: plain_opt_def)
  have tok: "strtok_r (\<lambda>c. c = CHR ''|'') prev (?txt @ CHR ''|'' # ?rest) = Some (?txt, prev, NUL, ?rest)"
    using unit_text_no_bar [of s fin None j 1] Cons.prems none by (intro strtok_r_step) auto
  have add: "parse_add_unit P (Some \<lparr>u_cmd = Ptr (fst s),
      u_argv = Some (map Ptr (fst s # snd s) @ [Null]), input_fn = fin, output_fn = None\<rparr>) i = Inr ?P"
    using Cons.prems none by (intro parse_add_stage) (auto simp: nth_append)
  have upd: "(tasks P)[i := task_of s] = map task_of (done @ [s]) @ replicate (Suc (length ts)) empty_task"
    using Cons.prems by (simp add: list_update_append)
  have "units_loop NUL ?rest (Suc i) ?P
      = Inr (?P\<lparr>tasks := map task_of ((done @ [s]) @ t # ts),
             infile := (if None \<noteq> (None :: string option) then None else infile ?P),
             outfile := (if out \<noteq> None then out else outfile ?P)\<rparr>)"
    using Cons.prems none upd by (intro Cons.IH) auto
  then show ?case
    unfolding stage_text_rest
      units_loop_step [OF Cons.prems(7) tok parse_unit_text [OF Cons.prems(1,3) none Cons.prems(5,6)] add]
    by simp
qed

section \<open>The whole line\<close>

definition ends_plain :: "string \<Rightarrow> bool" where
  "ends_plain s \<longleftrightarrow> s \<noteq> [] \<and> plain_char (last s)"

lemma plain_ends: "plain w \<Longrightarrow> ends_plain (a @ w)"
  by (simp add: ends_plain_def plain_def)

lemma gap_ends: "good_gaps gs \<Longrightarrow> ends_plain a \<Longrightarrow> ends_plain (a @ gap_text gs)"
proof (induction gs arbitrary: a)
  case Nil
  then show ?case by simp
next
  case (Cons g gs)
  obtain k w where g: "g = (k, w)" by (cases g)
  with Cons.prems have "ends_plain ((a @ replicate k SPACE) @ w)" by (intro plain_ends) simp
  then show ?case using Cons.IH [of "(a @ replicate k SPACE) @ w"] Cons.prems g by simp
qed

lemma stage_ends: "plain_stage s \<Longrightarrow> ends_plain (a @ show_stage s)"
  using gap_ends [OF good_gaps_args, of "snd s" "a @ fst s"] plain_ends [of "fst s" a]
  by (simp add: show_stage_def plain_stage_def)

lemma redir_ends: "plain_opt f \<Longrightarrow> ends_plain a \<Longrightarrow> ends_plain (a @ show_redir op f)"
  using plain_ends [of "the f" "a @ [SPACE, op, SPACE]"]
  by (auto simp: show_redir_def plain_opt_def split: option.splits)

lemma rest_ends:
  "list_all plain_stage ss \<Longrightarrow> plain_opt out \<Longrightarrow> ends_plain a \<Longrightarrow> ends_plain (a @ show_rest ss out)"
proof (induction ss arbitrary: a)
  case Nil
  then show ?case by (simp add: redir_ends)
next
  case (Cons s ss)
  then have "ends_plain ((a @ [SPACE, CHR ''|'', SPACE]) @ show_stage s)" by (intro stage_ends) simp
  then show ?case
    using Cons.IH [of "(a @ [SPACE, CHR ''|'', SPACE]) @ show_stage s"] Cons.prems by simp
qed

lemma body_ends:
  assumes "wf_pipeline p"
  shows "ends_plain (show_body p)" "plain_char (hd (show_body p))"
proof -
  obtain s ss where st: "stages p = s # ss" "plain_stage s" "list_all plain_stage ss"
    using assms by (cases "stages p") (auto simp: wf_pipeline_def)
  have "ends_plain ([] @ show_stage s)" using st by (intro stage_ends)
  then have "ends_plain (show_stage s @ show_redir CHR ''<'' (p_in p))"
    using assms by (intro redir_ends) (auto simp: wf_pipeline_def)
  then show "ends_plain (show_body p)"
    using rest_ends [of ss "p_out p" "show_stage s @ show_redir CHR ''<'' (p_in p)"] st assms
    by (simp add: show_body_def wf_pipeline_def)
  show "plain_char (hd (show_body p))" using st
    by (cases "fst s") (auto simp: show_body_def show_stage_def plain_stage_def plain_def)
qed

lemma body_counts:
  assumes "wf_pipeline p"
  shows "count_char CHR ''&'' (show_body p) = 0"
    and "count_char CHR ''|'' (show_body p) + 1 = length (stages p)"
  using assms
  by (cases "stages p"; simp add: show_body_def wf_pipeline_def rest_count_bar rest_count_amp)+

lemma trim_ends: "ends_plain s \<Longrightarrow> plain_char (hd s) \<Longrightarrow> trim s = s"
  by (simp add: trim_strip strip_id ends_plain_def plain_charD(1))

lemma trim_show:
  assumes "wf_pipeline p"
  shows "trim (show_pipeline p) = show_pipeline p" "show_pipeline p \<noteq> []"
proof -
  note b = body_ends [OF assms]
  have ne: "show_body p \<noteq> []" using b(1) by (simp add: ends_plain_def)
  show "show_pipeline p \<noteq> []" using ne by (simp add: show_pipeline_def)
  show "trim (show_pipeline p) = show_pipeline p"
    using b ne by (cases "p_bg p") (simp_all add: show_pipeline_def trim_strip strip_id plain_charD(1) ends_plain_def)
qed

lemma is_background_show:
  assumes "wf_pipeline p"
  shows "is_background b0 (show_pipeline p)
    = Inr (p_bg p, show_body p @ (if p_bg p then [SPACE] else []))"
proof -
  note b = body_ends [OF assms]
  have "last (show_body p) \<noteq> CHR ''&''" using b(1) by (simp add: ends_plain_def plain_charD(10))
  then have "\<not> p_bg p \<Longrightarrow> show_pipeline p ! (length (show_pipeline p) - 1) \<noteq> CHR ''&''"
    using b(1) by (simp add: show_pipeline_def last_conv_nth ends_plain_def)
  then show ?thesis using trim_show [OF assms]
    by (auto simp: is_background_def show_pipeline_def Let_def nth_append)
qed

lemma has_trailing_no:
  assumes "trim s = s" "s \<noteq> []" "hd s \<noteq> c" "last s \<noteq> c"
  shows "has_trailing b0 c s = (False, s)"
proof -
  have "s ! (length s - 1) \<noteq> c" using assms(2,4) by (simp add: last_conv_nth)
  moreover have "(case s of [] \<Rightarrow> NUL | c # _ \<Rightarrow> c) = hd s" using assms(2) by (cases s) auto
  ultimately show ?thesis using assms(1-3) by (simp add: has_trailing_def)
qed

lemma has_trailing_show:
  assumes "wf_pipeline p"
  shows "has_trailing b0 CHR ''|'' (show_body p @ replicate k SPACE) = (False, show_body p)"
proof -
  note b = body_ends [OF assms]
  have ne: "show_body p \<noteq> []" using b(1) by (simp add: ends_plain_def)
  have "last (show_body p) \<noteq> CHR ''|''" "hd (show_body p) \<noteq> CHR ''|''"
    using b by (auto simp: ends_plain_def dest: plain_charD(9))
  moreover have "trim (show_body p @ replicate k SPACE) = show_body p"
    using trim_ends [OF b] by (simp add: trim_strip strip_replicate_space)
  ultimately show ?thesis using ne
    by (auto simp: has_trailing_def last_conv_nth neq_Nil_conv)
qed

lemma parse_init_show:
  assumes "wf_pipeline p"
  shows "parse_init b0 parse_new (show_pipeline p)
    = Inr (parse_new\<lparr>background := p_bg p, ntasks := length (stages p),
                     tasks := replicate (length (stages p)) empty_task\<rparr>, show_body p)"
proof -
  have ht: "has_trailing b0 CHR ''|'' (show_body p @ (if p_bg p then [SPACE] else [])) = (False, show_body p)"
    using has_trailing_show [OF assms, of b0 0] has_trailing_show [OF assms, of b0 1] by simp
  show ?thesis
    unfolding parse_init_def is_background_show [OF assms] body_counts(2) [OF assms, symmetric]
    using body_counts(1) [OF assms] ht by (simp add: Let_def)
qed

lemma units_loop_body:
  assumes "wf_pipeline p" "prev \<noteq> DQUOTE" "prev \<noteq> SQUOTE"
  shows "units_loop prev (show_body p) 0 (parse_new\<lparr>background := p_bg p,
      ntasks := length (stages p), tasks := replicate (length (stages p)) empty_task\<rparr>)
    = Inr (parse_of p)"
proof -
  obtain s ss where st: "stages p = s # ss" "plain_stage s" "list_all plain_stage ss"
    using assms by (cases "stages p") (auto simp: wf_pipeline_def)
  show ?thesis
    using units_loop_stages [of s ss "p_in p" "p_out p" prev "parse_new\<lparr>background := p_bg p,
      ntasks := length (stages p), tasks := replicate (length (stages p)) empty_task\<rparr>" "[]" 0 0]
      st assms
    by (auto simp: show_body_def parse_of_def parse_new_def wf_pipeline_def)
qed

lemma parse_cmdline_show:
  assumes "wf_pipeline p" "b0 \<noteq> DQUOTE" "b0 \<noteq> SQUOTE"
  shows "parse_cmdline b0 (show_pipeline p) = Inr (Some (parse_of p))"
  using trim_show [OF assms(1)] parse_init_show [OF assms(1)] units_loop_body [OF assms]
  by (simp add: parse_cmdline_def is_empty_def)

text \<open>C1: a pipeline printed in the documented syntax parses back to itself.\<close>

theorem parse_cmdline_roundtrip:
  assumes "wf_pipeline p" "b0 \<noteq> DQUOTE" "b0 \<noteq> SQUOTE"
  shows "parse_cmdline b0 (show_pipeline p) = Inr (Some (parse_of p))"
  using assms by (rule parse_cmdline_show)

definition example_pipeline :: pipeline where
  "example_pipeline = \<lparr>stages = [(''cat'', [''-n'']), (''sort'', []), (''uniq'', [''-c''])],
     p_in = Some ''in.txt'', p_out = Some ''out.txt'', p_bg = True\<rparr>"

lemma example_wf: "wf_pipeline example_pipeline"
  by code_simp

theorem parse_cmdline_roundtrip_witness:
  "parse_cmdline NUL (show_pipeline example_pipeline) = Inr (Some (parse_of example_pipeline))"
  using parse_cmdline_roundtrip [OF example_wf, of NUL] by simp

end
