(* ===== verification/Parse_Safety.thy ===== *)
theory Parse_Safety
  imports Parse_Roundtrip
begin

text \<open>
  Bounds of the parser: the task array is never overrun whatever the line, what a parse
  without syntax error looks like, and the lines of plain words for which the argument
  vector is built wrong.
\<close>

section \<open>The task array is never overrun\<close>

definition bar :: "char \<Rightarrow> bool" where
  "bar c \<longleftrightarrow> c = CHR ''|''"

definition token_bound :: "string \<Rightarrow> nat" where
  "token_bound s = (if \<forall>c\<in>set s. bar c then 0 else count_char CHR ''|'' s + 1)"

lemma bar_eta: "(\<lambda>c. c = CHR ''|'') = bar"
  by (auto simp: bar_def)

lemma token_bound_step:
  assumes "strtok_r bar prev s = Some (tok, p, prev', s')"
  shows "Suc (token_bound s') \<le> token_bound s"
proof -
  let ?t = "dropWhile bar s"
  have ne: "\<not> (\<forall>c\<in>set s. bar c)" using assms by (metis option.distinct(1) strtok_r_None)
  let ?rest = "dropWhile (\<lambda>c. \<not> bar c) ?t"
  have s: "s = takeWhile bar s @ takeWhile (\<lambda>c. \<not> bar c) ?t @ ?rest" by simp
  note s' = strtok_r_Some(3) [OF assms]
  show ?thesis
  proof (cases ?rest)
    case Nil
    have "s' = []" unfolding s' Nil by (rule list.case(1))
    then show ?thesis using ne by (simp add: token_bound_def)
  next
    case (Cons d r)
    then have "bar d" by (metis hd_dropWhile list.distinct(1) list.sel(1))
    then have "count_char CHR ''|'' ?rest = Suc (count_char CHR ''|'' r)"
      unfolding Cons by (simp add: bar_def)
    then have "Suc (count_char CHR ''|'' r) \<le> count_char CHR ''|'' s"
      using arg_cong [OF s, of "count_char CHR ''|''"] unfolding count_char_append by linarith
    then show ?thesis using s' Cons ne by (simp add: token_bound_def)
  qed
qed

text \<open>Which errors each part can raise.\<close>

lemma count_args_loop_err:
  "count_args_loop s n = Inl e \<Longrightarrow> e = OOBRead" "skip_quoted q s n = Inl e \<Longrightarrow> e = OOBRead"
  by (induction s n and q s n rule: count_args_loop_skip_quoted.induct)
     (auto split: if_splits list.splits)

lemma argv_fill_err: "argv_fill av n prev s = Inl e \<Longrightarrow> e = ArgvOverflow"
proof (induction av n prev s rule: argv_fill.induct)
  case (1 av n prev s)
  then show ?case
    by (subst (asm) (2) argv_fill.simps) (auto split: option.splits prod.splits if_splits)
qed

lemma argv_walk_err: "argv_walk av = Inl e \<Longrightarrow> e = OOBRead \<or> e = UninitRead"
  by (induction av rule: argv_walk.induct) (auto simp: ebind_Inl_iff)

lemma unit_destroy_err: "unit_destroy U = Inl e \<Longrightarrow> e = OOBRead \<or> e = UninitRead"
  by (auto simp: unit_destroy_def ebind_Inl_iff dest: argv_walk_err split: option.splits)

lemma valid_syntax_err: "valid_syntax P U i = Inl e \<Longrightarrow> e = UninitRead"
  by (auto simp: valid_syntax_def split: option.splits if_splits slot.splits)

lemma parse_command_err: "parse_command U prev s = Inl e \<Longrightarrow> e = OOBRead \<or> e = ArgvOverflow"
  by (auto simp: parse_command_def Let_def count_args_def ebind_Inl_iff
      dest: count_args_loop_err argv_fill_err)

lemma parse_unit_err: "parse_unit prev s = Inl e \<Longrightarrow> e = OOBRead \<or> e = ArgvOverflow"
  by (auto simp: parse_unit_def Let_def ebind_Inl_iff dest: parse_command_err
      split: if_splits prod.splits)

lemma parse_add_unit_err:
  assumes "parse_add_unit P U i = Inl e" "i < length (tasks P)"
  shows "e = OOBRead \<or> e = UninitRead"
  using assms
  by (auto simp: parse_add_unit_def ebind_Inl_iff dest: valid_syntax_err unit_destroy_err split: if_splits)

lemma parse_add_unit_length:
  "parse_add_unit P U i = Inr P' \<Longrightarrow> length (tasks P') = length (tasks P) \<and> ntasks P' = ntasks P"
  by (auto simp: parse_add_unit_def ebind_Inr_iff store_task_def split: if_splits)

lemma units_loop_err:
  "units_loop prev s i P = Inl e \<Longrightarrow> i + token_bound s \<le> length (tasks P) \<Longrightarrow>
     e = OOBRead \<or> e = UninitRead \<or> e = ArgvOverflow"
proof (induction prev s i P rule: units_loop.induct)
  case (1 prev s i P)
  have ni: "\<not> invalid_syntax P" using "1.prems"(1) by (subst (asm) units_loop.simps) (auto split: if_splits)
  show ?case
  proof (cases "strtok_r bar prev s")
    case None
    then show ?thesis using "1.prems"(1) ni by (subst (asm) units_loop.simps) (simp add: bar_eta)
  next
    case (Some t)
    obtain tok p prev' s' where t: "t = (tok, p, prev', s')" by (cases t)
    note tb = token_bound_step [OF Some [unfolded t]]
    have run: "ebind (parse_unit p tok) (\<lambda>U. ebind (parse_add_unit P U i)
        (\<lambda>P'. units_loop prev' s' (i + 1) P')) = Inl e"
      using "1.prems"(1) ni Some t by (subst (asm) units_loop.simps) (simp add: bar_eta)
    show ?thesis
    proof (cases "parse_unit p tok")
      case (Inl a)
      then show ?thesis using run parse_unit_err [of p tok a] by auto
    next
      case U: (Inr U)
      show ?thesis
      proof (cases "parse_add_unit P U i")
        case (Inl a)
        then show ?thesis using run U parse_add_unit_err [of P U i a] "1.prems"(2) tb by auto
      next
        case (Inr P')
        then have "units_loop prev' s' (i + 1) P' = Inl e" using run U by simp
        moreover have "i + 1 + token_bound s' \<le> length (tasks P')"
          using parse_add_unit_length [OF Inr] "1.prems"(2) tb by simp
        ultimately show ?thesis
          using "1.IH" [OF ni _ _ refl refl U Inr] Some t by (simp add: bar_eta)
      qed
    qed
  qed
qed

lemma trim_idem: "trim (trim s) = trim s"
  by (simp add: trim_strip strip_idem)

lemma parse_init_ok:
  assumes "s \<noteq> []" "trim s = s" "parse_init b0 parse_new s = r"
  shows "\<exists>P t. r = Inr (P, t) \<and>
    (invalid_syntax P \<or> (length (tasks P) = ntasks P \<and> ntasks P = count_char CHR ''|'' t + 1))"
  using assms by (auto simp: parse_init_def is_background_def Let_def split: prod.splits)

lemma token_bound_le: "token_bound s \<le> count_char CHR ''|'' s + 1"
  by (simp add: token_bound_def)


section \<open>What is freed\<close>

lemma argv_walk_ptrs: "argv_walk (map Ptr ws @ [Null]) = Inr ws"
  by (induction ws) auto

lemma argv_walk_no_null: "argv_walk (map Ptr ws) = Inl OOBRead"
  by (induction ws) auto

lemma task_free_stages:
  "task_free (map task_of ss) = Inr (concat (map (\<lambda>s. fst s # snd s) ss))"
  by (induction ss) (simp_all add: task_of_def argv_walk_ptrs [of "_ # _", simplified])

text \<open>
  Destroying the parse of a printed pipeline frees exactly the strings it holds: the
  two redirection names and every word, once each and in order.
\<close>

theorem parse_destroy_roundtrip:
  assumes "wf_pipeline p" "b0 \<noteq> DQUOTE" "b0 \<noteq> SQUOTE"
  shows "ebind (parse_cmdline b0 (show_pipeline p)) parse_destroy
    = Inr (opt_list (p_in p) @ opt_list (p_out p) @ concat (map (\<lambda>s. fst s # snd s) (stages p)))"
  using parse_cmdline_show [OF assms] by (simp add: parse_destroy_def parse_of_def task_free_stages)

section \<open>Blank lines\<close>

text \<open>The parser returns no parse exactly for the lines of white space.\<close>

theorem parse_cmdline_None:
  "parse_cmdline b0 line = Inr None \<longleftrightarrow> list_all isspace line"
proof (cases "trim line = []")
  case True
  then show ?thesis by (simp add: parse_cmdline_def is_empty_def trim_strip strip_nil_iff list_all_iff)
next
  case False
  obtain P t where init: "parse_init b0 parse_new (trim line) = Inr (P, t)"
    using parse_init_ok [OF False trim_idem refl] by blast
  then have "parse_cmdline b0 line = ebind (units_loop b0 t 0 P) (\<lambda>P'. Inr (Some P'))"
    using False by (simp add: parse_cmdline_def is_empty_def)
  then have "parse_cmdline b0 line \<noteq> Inr None" by (simp add: ebind_Inr_iff)
  then show ?thesis using False by (simp add: trim_strip strip_nil_iff list_all_iff)
qed

section \<open>Words separated by several spaces\<close>

lemma gap_ends_plain:
  assumes "plain w" "good_gaps gs"
  shows "ends_plain (w @ gap_text gs)" "plain_char (hd (w @ gap_text gs))"
  using gap_ends [OF assms(2), of w] plain_ends [of w "[]"] assms(1)
  by (simp_all add: plain_def)

lemma gap_count: "special c \<Longrightarrow> plain w \<Longrightarrow> good_gaps gs \<Longrightarrow> count_char c (w @ gap_text gs) = 0"
  by (simp add: count_char_0_iff gap_text_no_special)

lemma parse_init_words:
  assumes "plain w" "good_gaps gs"
  shows "parse_init b0 parse_new (w @ gap_text gs)
    = Inr (parse_new\<lparr>ntasks := 1, tasks := [empty_task]\<rparr>, w @ gap_text gs)"
proof -
  let ?l = "w @ gap_text gs"
  note e = gap_ends_plain [OF assms]
  have t: "trim ?l = ?l" "?l \<noteq> []" using trim_ends [OF e] e(1) by (auto simp: ends_plain_def)
  have a: "last ?l \<noteq> CHR ''&''" "last ?l \<noteq> CHR ''|''" "hd ?l \<noteq> CHR ''|''"
    using e by (auto simp: ends_plain_def dest: plain_charD(9,10))
  have "is_background b0 ?l = Inr (False, ?l)"
    using t a by (simp add: is_background_def last_conv_nth del: append_is_Nil_conv)
  moreover have "has_trailing b0 CHR ''|'' ?l = (False, ?l)"
    using t a by (intro has_trailing_no)
  ultimately show ?thesis using gap_count [OF _ assms]
    by (simp add: parse_init_def Let_def parse_new_def del: count_char_append)
qed

lemma parse_unit_words:
  assumes "plain w" "good_gaps gs" "prev \<noteq> DQUOTE" "prev \<noteq> SQUOTE"
  shows "parse_unit prev (w @ gap_text gs) =
    (if odd_gaps gs = length gs
     then Inr (Some \<lparr>u_cmd = Ptr w, u_argv = Some (map Ptr (w # map snd gs) @ [Null]),
                     input_fn = None, output_fn = None\<rparr>)
     else if Suc (odd_gaps gs) = length gs
     then Inr (Some \<lparr>u_cmd = Ptr w, u_argv = Some (map Ptr (w # map snd gs)),
                     input_fn = None, output_fn = None\<rparr>)
     else Inl ArgvOverflow)"
  using parse_command_gaps [OF assms, of _ 0 0] gap_count [OF _ assms(1,2)]
  by (simp add: parse_unit_def Let_def del: count_char_append)

text \<open>
  How the argument vector of a command line of plain words depends on the number of
  spaces between them. With an odd number everywhere the vector is complete and ends in a
  null; with one even gap it has no terminating null; with two or more the parser writes
  past the end of the vector.
\<close>

theorem parse_cmdline_words:
  assumes "plain w" "good_gaps gs" "b0 \<noteq> DQUOTE" "b0 \<noteq> SQUOTE"
  shows "parse_cmdline b0 (w @ gap_text gs) =
    (let P = (\<lambda>av. Inr (Some \<lparr>tasks = [\<lparr>cmd = Some w, argv = Some av\<rparr>], ntasks = 1, infile = None,
                outfile = None, background = False, invalid_syntax = False\<rparr>));
         ws = w # map snd gs
     in if odd_gaps gs = length gs then P (map Ptr ws @ [Null])
        else if Suc (odd_gaps gs) = length gs then P (map Ptr ws)
        else Inl ArgvOverflow)"
proof -
  let ?l = "w @ gap_text gs" and ?P = "parse_new\<lparr>ntasks := 1, tasks := [empty_task]\<rparr>"
  note e = gap_ends_plain [OF assms(1,2)]
  have t: "trim ?l = ?l" "?l \<noteq> []" using trim_ends [OF e] e(1) by (auto simp: ends_plain_def)
  have "count_char CHR ''|'' ?l = 0" using gap_count [of "CHR ''|''"] assms by simp
  then have "strtok_r (\<lambda>c. c = CHR ''|'') b0 ?l = Some (?l, b0, last ?l, [])"
    using t by (intro strtok_r_last) (auto simp: count_char_0_iff)
  then have loop: "units_loop b0 ?l 0 ?P = ebind (parse_unit b0 ?l) (\<lambda>U.
      ebind (parse_add_unit ?P U 0) (\<lambda>P'. Inr P'))"
    by (subst units_loop.simps) (simp add: parse_new_def ext [OF units_loop_nil])
  have add: "parse_add_unit ?P (Some \<lparr>u_cmd = Ptr w, u_argv = Some av, input_fn = None, output_fn = None\<rparr>) 0
      = Inr (?P\<lparr>tasks := [\<lparr>cmd = Some w, argv = Some av\<rparr>]\<rparr>)" for av
    using plain_nonempty [OF assms(1)]
    by (simp add: parse_add_unit_def valid_syntax_def unit_destroy_def drop_taken_def store_task_def
        opt_list_def parse_new_def)
  have "parse_cmdline b0 ?l = ebind (units_loop b0 ?l 0 ?P) (\<lambda>P'. Inr (Some P'))"
    using t parse_init_words [OF assms(1,2), of b0]
    by (simp add: parse_cmdline_def is_empty_def plain_nonempty [OF assms(1)])
  then show ?thesis
    unfolding loop parse_unit_words [OF assms] Let_def
    by (simp add: add [unfolded parse_new_def, simplified] parse_new_def)
qed

theorem parse_destroy_roundtrip_witness:
  "ebind (parse_cmdline NUL (show_pipeline example_pipeline)) parse_destroy
    = Inr [''in.txt'', ''out.txt'', ''cat'', ''-n'', ''sort'', ''uniq'', ''-c'']"
  using parse_destroy_roundtrip [OF example_wf, of NUL]
  by (simp add: example_pipeline_def opt_list_def)

theorem parse_cmdline_words_witness:
  "parse_cmdline NUL (''ls'' @ gap_text [(2, ''-l''), (2, ''-a'')]) = Inl ArgvOverflow"
proof -
  have "plain ''ls''" "good_gaps [(2, ''-l''), (2, ''-a'')]" by code_simp+
  from parse_cmdline_words [OF this, of NUL] show ?thesis by simp
qed

end
