(* ===== verification/Pssh_Main.thy ===== *)
theory Pssh_Main
  imports Pssh_Props Parse_Safety
begin

text \<open>
  Properties that run through several parts of the shell: a job from the line that starts it
  to the end of its last process, job control commands, and the lines that bring the shell
  down.
\<close>

section \<open>A job until its last process\<close>

lemma handle_ends:
  assumes "wf_jobs (jobs sh)" "distinct ps" "set ps = live (jobs sh) k" "ps \<noteq> []" "\<forall>p\<in>set ps. 0 < p"
  shows "\<exists>sh'. handle_sigchld g (map (\<lambda>p. (p, WEnded)) ps) sh = Inr sh' \<and> \<not> used (jobs sh') k
    \<and> (\<forall>i. i \<noteq> k \<longrightarrow> used (jobs sh') i = used (jobs sh) i \<and> live (jobs sh') i = live (jobs sh) i)
    \<and> (if status (jobs sh ! k) = FG then term_fg sh' = g \<and> out sh' = out sh
       else term_fg sh' = term_fg sh \<and> out sh' = out sh @ [MDone (int k) (the (job_name (jobs sh ! k)))])"
  using assms
proof (induction ps arbitrary: sh)
  case Nil
  then show ?case by simp
next
  case (Cons p ps)
  have p: "p \<in> live (jobs sh) k" "0 < p" using Cons.prems by auto
  note h = handle_ended [OF Cons.prems(1) p(1), of g]
  show ?case
  proof (cases "ps = []")
    case True
    then have "live (jobs sh) k = {p}" using Cons.prems(3) by simp
    then show ?thesis using h True p(2) finish_job_slots [OF Cons.prems(1) p(1)]
      by (auto simp: finish_job_def Let_def say_def)
  next
    case False
    let ?sh = "sh\<lparr>jobs := job_remove_pid (jobs sh) p\<rparr>"
    have ne: "live (jobs sh) k \<noteq> {p}" using False Cons.prems(2,3) by (cases ps) auto
    have l: "live (jobs ?sh) i = (if i = k then live (jobs sh) k - {p} else live (jobs sh) i)" for i
      using jt.alive_remove [OF Cons.prems(1) p(1)] by simp
    have u: "used (jobs ?sh) i = used (jobs sh) i" for i
      using jt.in_use_remove [OF Cons.prems(1) p(1)] by simp
    have s: "set ps = live (jobs ?sh) k" using Cons.prems(2,3) l by auto
    obtain sh' where IH: "handle_sigchld g (map (\<lambda>p. (p, WEnded)) ps) ?sh = Inr sh'" "\<not> used (jobs sh') k"
      "\<forall>i. i \<noteq> k \<longrightarrow> used (jobs sh') i = used (jobs ?sh) i \<and> live (jobs sh') i = live (jobs ?sh) i"
      "if status (jobs ?sh ! k) = FG then term_fg sh' = g \<and> out sh' = out ?sh
       else term_fg sh' = term_fg ?sh \<and> out sh' = out ?sh @ [MDone (int k) (the (job_name (jobs ?sh ! k)))]"
      using Cons.IH [of ?sh] jt.wf_remove [OF Cons.prems(1) p(1)] Cons.prems(2,5) s False by auto
    have "handle_sigchld g (map (\<lambda>p. (p, WEnded)) (p # ps)) sh = Inr sh'"
      using h ne p(2) IH(1) by simp
    then show ?thesis using IH(2-4) l u remove_pid_fields [OF Cons.prems(1) p(1)] by auto
  qed
qed

text \<open>
  C4: when all live processes of a job end, in whatever order, the slot of the job becomes
  free, the other jobs are untouched, and either the terminal goes back to the shell (a
  foreground job) or the job is reported as done (any other).
\<close>

theorem job_ends:
  assumes "wf_jobs (jobs sh)" "distinct ps" "set ps = live (jobs sh) k" "ps \<noteq> []" "\<forall>p\<in>set ps. 0 < p"
  shows "\<exists>sh'. handle_sigchld g (map (\<lambda>p. (p, WEnded)) ps) sh = Inr sh' \<and> \<not> used (jobs sh') k
    \<and> (\<forall>i. i \<noteq> k \<longrightarrow> used (jobs sh') i = used (jobs sh) i \<and> live (jobs sh') i = live (jobs sh) i)
    \<and> (if status (jobs sh ! k) = FG then term_fg sh' = g \<and> out sh' = out sh
       else term_fg sh' = term_fg sh \<and> out sh' = out sh @ [MDone (int k) (the (job_name (jobs sh ! k)))])"
  using assms by (rule handle_ends)

section \<open>Recording a job\<close>

lemma job_add_records:
  assumes "wf_jobs J" "\<exists>j\<in>set J. job_name j = None" "ps \<noteq> []" "length ps = ntasks P"
    and "\<forall>k<length J. \<forall>p\<in>live J k. p \<notin> set ps" "0 \<notin> set ps"
  shows "\<exists>i J'. job_add J ps name P = Inr (True, J', if background P then [MStarted i ps] else [])
    \<and> \<not> used J i \<and> i < length J \<and> wf_jobs J' \<and> used J' i \<and> live J' i = set ps
    \<and> J' ! i = \<lparr>job_name = Some name, pids = ps, npids = ntasks P, pgrp = ps ! 0,
                status = (if background P then BG else FG)\<rparr>
    \<and> (\<forall>k. k \<noteq> i \<longrightarrow> used J' k = used J k \<and> live J' k = live J k)"
proof -
  let ?i = "free_slot J 0"
  let ?j = "\<lparr>job_name = Some name, pids = ps, npids = ntasks P, pgrp = ps ! 0,
                status = (if background P then BG else FG)\<rparr>"
  have i: "?i < length J"
    using assms(2) free_slot_full [of J 0] free_slot_bounds [of 0 J] by auto
  then have nu: "\<not> used J ?i" using free_slot_free [of J 0] by (simp add: used_def)
  have add: "job_add J ps name P = Inr (True, J[?i := ?j], if background P then [MStarted ?i ps] else [])"
    using i assms(3,4) by (simp add: job_add_def Let_def)
  have lj: "live_pids ?j = set ps" using assms(4,6) by (auto simp: live_pids_def)
  have "0 < ntasks P" using assms(3,4) by (metis length_greater_0_conv)
  then have wj: "wf_job ?j" using assms(4) by (simp add: wf_job_def)
  have "wf_jobs (J[?i := ?j])"
  proof (rule wf_jobs_update [OF assms(1) i wj])
    fix k p
    assume "k < length J" "p \<in> live_pids ?j" "p \<in> live_pids (J ! k)"
    then show "k = ?i" using assms(5) lj by (auto simp: live_def)
  qed
  moreover have "used (J[?i := ?j]) ?i" "live (J[?i := ?j]) ?i = set ps" "J[?i := ?j] ! ?i = ?j"
    using i lj by (simp_all add: used_def live_def)
  ultimately show ?thesis using add nu i slot_upd_other
    by (intro exI [of _ ?i] exI [of _ "J[?i := ?j]"]) auto
qed

section \<open>A line from the prompt to its processes\<close>

definition runnable :: "env \<Rightarrow> pipeline \<Rightarrow> bool" where
  "runnable E p \<longleftrightarrow> wf_pipeline p \<and> files_ok E (parse_of p)
     \<and> list_all (\<lambda>s. fst s \<notin> set builtin \<and> can_exec E (fst s)) (stages p)"

lemma commands_exist_stages:
  "list_all (\<lambda>s. fst s \<notin> set builtin \<and> can_exec E (fst s)) ss \<Longrightarrow>
     commands_exist E (map task_of ss) = Inr (True, [])"
  by (induction ss) (auto simp: task_of_def is_builtin_def command_found_def)

lemma is_possible_runnable: "runnable E p \<Longrightarrow> is_possible E (parse_of p) = Inr (True, [])"
  using commands_exist_stages [of E "stages p"]
  by (auto simp: is_possible_def runnable_def parse_of_def files_ok_def split: option.splits)

lemma job_control_runnable: "runnable E p \<Longrightarrow> job_control E (parse_of p) sh = Inr NotControl"
  by (cases "stages p")
     (auto simp: job_control_def runnable_def parse_of_def wf_pipeline_def task_of_def builtin_def)

lemma run_task_stage:
  "fst s \<notin> set builtin \<Longrightarrow> can_exec E (fst s) \<Longrightarrow>
     run_task E (task_of s) = Inr (Exec (fst s) (Some (map Ptr (fst s # snd s) @ [Null])))"
  by (simp add: run_task_def task_of_def is_builtin_def command_found_def)

lemma destroy_parse_of: "\<exists>fs. parse_destroy (Some (parse_of p)) = Inr fs"
  by (simp add: parse_destroy_def parse_of_def task_free_stages)


section \<open>Job control commands\<close>

lemma job_exists_range: "jnum < 0 \<or> int (length J) \<le> jnum \<Longrightarrow> job_exists J jnum = Inl OOBRead"
  by (auto simp: job_exists_def job_at_def)

definition two_words :: "task \<Rightarrow> string \<Rightarrow> bool" where
  "two_words T a \<longleftrightarrow> (\<exists>w c. argv T = Some [Ptr w, Ptr (c # a), Null])"

lemma task_args_two: "two_words T a \<Longrightarrow> \<exists>w c. task_args T = Inr [w, c # a]"
  by (auto simp: two_words_def task_args_def)

text \<open>
  C28: \<open>fg\<close> on a job in use makes it the foreground job: its status is FG, the terminal is
  its group's, and the group is sent SIGCONT; the reports that its processes continue
  then change nothing.
\<close>

theorem fg_resumes_job:
  assumes "wf_jobs (jobs sh)" "used (jobs sh) k" "two_words T a" "atoi a = int k"
  shows "\<exists>sh'. builtin_fg T sh = Inr sh' \<and> status (jobs sh' ! k) = FG
    \<and> term_fg sh' = pgrp (jobs sh ! k) \<and> kills sh' = kills sh @ [(- pgrp (jobs sh ! k), SIGCONT)]
    \<and> (\<forall>p\<in>live (jobs sh) k. handle_child g (p, WContinued) sh' = Inr sh')"
proof -
  let ?J = "(jobs sh)[k := (jobs sh ! k)\<lparr>status := FG\<rparr>]"
  let ?sh = "send [(- pgrp (jobs sh ! k), SIGCONT)] (set_fg_process_group (pgrp (jobs sh ! k)) (sh\<lparr>jobs := ?J\<rparr>))"
  note kl = used_length [OF assms(2)]
  obtain w c where "task_args T = Inr [w, c # a]" using task_args_two [OF assms(3)] by blast
  moreover have "job_get_pgrp ?J (int k) = Inr (pgrp (jobs sh ! k))"
    using kl by (simp add: job_get_pgrp_def job_at_nat)
  moreover have "job_kill ?J (int k) SIGCONT = Inr [(- pgrp (jobs sh ! k), SIGCONT)]"
    using assms(2) kl by (simp add: job_kill_def job_exists_used used_upd)
  ultimately have "builtin_fg T sh = Inr ?sh"
    using assms(2,4) by (simp add: builtin_fg_def after_first_def job_used)
  moreover have "handle_child g (p, WContinued) ?sh = Inr ?sh" if "p \<in> live (jobs sh) k" for p
    using handle_continued [of ?sh p k g] wf_upd [OF assms(1) kl] that kl
    by (simp add: send_def set_fg_process_group_def live_upd)
  ultimately show ?thesis using kl
    by (intro exI [of _ ?sh]) (simp add: send_def set_fg_process_group_def)
qed

text \<open>
  A job number outside the table given to \<open>fg\<close> or \<open>bg\<close> is not rejected: the shell reads
  outside its job array.
\<close>

theorem job_number_unchecked:
  assumes "wf_jobs (jobs sh)" "two_words T a" "atoi a < 0 \<or> 100 \<le> atoi a"
  shows "builtin_fg T sh = Inl OOBRead \<and> builtin_bg T sh = Inl OOBRead"
proof -
  have "job_exists (jobs sh) (atoi a) = Inl OOBRead"
    using assms(1,3) by (intro job_exists_range) (auto simp: wf_jobs_length MAX_JOBS_def)
  then show ?thesis using task_args_two [OF assms(2)]
    by (auto simp: builtin_fg_def builtin_bg_def after_first_def)
qed

section \<open>Lines that bring the shell down\<close>

lemma show_single: "plain a \<Longrightarrow> unit_text 0 (a, []) None None 0 = a"
  by (simp add: unit_text_def show_stage_def show_redir_def)

lemma parse_double_bar:
  assumes "plain a" "plain b" "b0 \<noteq> DQUOTE" "b0 \<noteq> SQUOTE"
  shows "parse_cmdline b0 (a @ ''||'' @ b) = Inr (Some
    \<lparr>tasks = [task_of (a, []), task_of (b, []), empty_task], ntasks = 3, infile = None,
     outfile = None, background = False, invalid_syntax = False\<rparr>)"
proof -
  let ?l = "a @ ''||'' @ b"
  let ?P = "\<lparr>tasks = replicate 3 empty_task, ntasks = 3, infile = None, outfile = None,
     background = False, invalid_syntax = False\<rparr>"
  let ?P1 = "?P\<lparr>tasks := [task_of (a, []), empty_task, empty_task]\<rparr>"
  let ?U = "\<lambda>w. Some \<lparr>u_cmd = Ptr w, u_argv = Some (map Ptr [w] @ [Null]), input_fn = None, output_fn = None\<rparr>"
  have ne: "a \<noteq> []" "b \<noteq> []" using assms by (simp_all add: plain_nonempty)
  have ends: "ends_plain ?l" "plain_char (hd ?l)"
    using plain_ends [OF assms(2), of "a @ ''||''"] assms(1) by (auto simp: plain_def)
  have t: "trim ?l = ?l" by (rule trim_ends [OF ends])
  have nospec: "CHR ''|'' \<notin> set a" "CHR ''|'' \<notin> set b"
    using assms plain_no_special by force+
  have l: "last ?l \<noteq> CHR ''&''" "last ?l \<noteq> CHR ''|''" "hd ?l \<noteq> CHR ''|''" "last ?l = ?l ! (length ?l - 1)"
    using ends by (auto simp: ends_plain_def last_conv_nth dest: plain_charD(9,10))
  have init: "parse_init b0 parse_new ?l = Inr (?P, ?l)"
  proof -
    have "is_background b0 ?l = Inr (False, ?l)"
      using t l ne by (simp add: is_background_def Let_def del: append_assoc)
    moreover have "has_trailing b0 CHR ''|'' ?l = (False, ?l)"
      using t l ne by (intro has_trailing_no) auto
    ultimately show ?thesis using assms
      by (simp add: parse_init_def Let_def parse_new_def numeral_3_eq_3)
  qed
  have st: "plain_stage (a, [])" "plain_stage (b, [])" "plain_opt None"
    using assms by (simp_all add: plain_stage_def plain_opt_def)
  have tok1: "strtok_r (\<lambda>c. c = CHR ''|'') b0 ?l = Some (a, b0, NUL, CHR ''|'' # b)"
    using strtok_r_step [of a "\<lambda>c. c = CHR ''|''" "CHR ''|''" b0 "CHR ''|'' # b"] ne nospec by auto
  have tok2: "strtok_r (\<lambda>c. c = CHR ''|'') NUL (CHR ''|'' # b) = Some (b, CHR ''|'', last b, [])"
  proof -
    have "\<forall>c\<in>set b. c \<noteq> CHR ''|''" using nospec by auto
    then have "takeWhile (\<lambda>c. c = CHR ''|'') b = []" "dropWhile (\<lambda>c. c = CHR ''|'') b = b"
      "takeWhile (\<lambda>c. c \<noteq> CHR ''|'') b = b" "dropWhile (\<lambda>c. c \<noteq> CHR ''|'') b = []"
      using ne by (cases b; auto simp: takeWhile_all_eq dropWhile_all_eq)+
    then show ?thesis using ne by (simp add: strtok_r_def last_or_def Let_def takeWhile_all_eq dropWhile_all_eq)
  qed
  have u1: "parse_unit b0 a = Inr (?U a)"
    using parse_unit_text [OF st(1) st(3) st(3) assms(3,4), of 0 0] show_single [OF assms(1)] by simp
  have u2: "parse_unit CHR ''|'' b = Inr (?U b)"
    using parse_unit_text [OF st(2) st(3) st(3), of "CHR ''|''" 0 0] show_single [OF assms(2)] by simp
  have a1: "parse_add_unit ?P (?U a) 0 = Inr ?P1"
    using parse_add_stage [OF st(1) st(3) st(3), of ?P 0] by (simp add: numeral_3_eq_3)
  have a2: "parse_add_unit ?P1 (?U b) 1 = Inr (?P1\<lparr>tasks := [task_of (a, []), task_of (b, []), empty_task]\<rparr>)"
    using parse_add_stage [OF st(2) st(3) st(3), of ?P1 1] by simp
  have "units_loop b0 ?l 0 ?P = Inr (?P1\<lparr>tasks := [task_of (a, []), task_of (b, []), empty_task]\<rparr>)"
    using units_loop_step [OF _ tok1 u1 a1] units_loop_step [OF _ tok2 u2, of _ 1] a2 units_loop_nil
    by simp
  then show ?thesis using t ne init by (simp add: parse_cmdline_def is_empty_def)
qed

text \<open>
  With an empty stage between two bars the parser reports no syntax error but leaves a
  task without a command, and the shell follows the null command when it looks it up.
\<close>

theorem empty_stage_crashes:
  assumes "plain a" "plain b" "b0 \<noteq> DQUOTE" "b0 \<noteq> SQUOTE" "can_exec E a" "can_exec E b"
  shows "main_step E g b0 (Line (a @ ''||'' @ b) pidf) sh ft = Inl NullDeref"
proof -
  let ?P = "\<lparr>tasks = [task_of (a, []), task_of (b, []), empty_task], ntasks = 3, infile = None,
     outfile = None, background = False, invalid_syntax = False\<rparr>"
  have "commands_exist E (tasks ?P) = Inl NullDeref"
    using assms(5,6) by (simp add: task_of_def is_builtin_def command_found_def)
  then have "execute_tasks E pidf ?P (a @ ''||'' @ b) sh ft = Inl NullDeref"
    by (simp add: execute_tasks_def is_possible_def)
  then show ?thesis using parse_double_bar [OF assms(1-4)] by (simp add: main_step_def)
qed

text \<open>
  The line with a single ampersand passes the parser as one task without a command and
  crashes the shell in the same way.
\<close>

theorem lone_ampersand_crashes:
  assumes "b0 \<noteq> CHR ''|''"
  shows "main_step E g b0 (Line ''&'' pidf) sh ft = Inl NullDeref"
  using assms
  by (simp add: main_step_def parse_cmdline_def is_empty_def trim_def parse_init_def is_background_def
      has_trailing_def parse_new_def units_loop.simps execute_tasks_def is_possible_def is_builtin_def)

text \<open>
  A built-in other than \<open>which\<close> that is not handled by job control (any later stage of
  a pipeline) returns from \<open>run\<close> in the child, which then goes on as a second copy of the
  shell instead of ending.
\<close>

theorem builtin_child_returns:
  assumes "c \<in> set builtin" "c \<noteq> ''which''" "cmd T = Some c"
  shows "run_task E T = Inr (Returned [MNotImplemented c])"
  using assms by (simp add: run_task_def is_builtin_def builtin_execute_def)

text \<open>
  The search of the command path: when every candidate fits the buffer, a command is
  found exactly if it can be executed as given or under one of the directories of PATH.
\<close>

theorem command_found_iff:
  assumes "path_var E = Some p" "list_all (fits c) (path_dirs [] p)"
  shows "command_found E c = Inr (can_exec E c \<or> (\<exists>d\<in>set (path_dirs [] p). can_exec E (d @ ''/'' @ c)))"
proof -
  have "find (can_exec E) (map (\<lambda>d. d @ ''/'' @ c) (path_dirs [] p)) \<noteq> None
      \<longleftrightarrow> (\<exists>d\<in>set (path_dirs [] p). can_exec E (d @ ''/'' @ c))"
    by (simp add: find_None_iff)
  then show ?thesis using assms(1) path_probe_find [OF assms(2), of "can_exec E" NUL]
    by (simp add: command_found_def del: append_Cons append_Nil)
qed

section \<open>Witnesses\<close>

theorem job_ends_witness:
  "\<exists>sh'. handle_sigchld 1 [(8, WEnded), (7, WEnded)] sample_shell = Inr sh' \<and> \<not> used (jobs sh') 0 \<and> term_fg sh' = 1"
  using job_ends [of sample_shell "[8, 7]" 0 1] by (auto simp: sample_shell_def sample_jobs_wf sample_jobs_live sample_jobs_nth)


definition sample_task :: "string \<Rightarrow> string \<Rightarrow> task" where
  "sample_task c a = \<lparr>cmd = Some c, argv = Some [Ptr c, Ptr a, Null]\<rparr>"

lemma sample_task_two: "two_words (sample_task c (x # a)) a"
  by (auto simp: two_words_def sample_task_def)

theorem fg_resumes_job_witness:
  "\<exists>sh'. builtin_fg (sample_task ''fg'' ''%0'') sample_shell = Inr sh' \<and> kills sh' = [(-7, SIGCONT)] \<and> term_fg sh' = 7"
proof -
  have "atoi ''0'' = int 0" by code_simp
  from fg_resumes_job [OF _ _ sample_task_two this, of sample_shell "''fg''" "CHR ''%''" 1] show ?thesis
    by (auto simp: sample_shell_def sample_jobs_wf sample_jobs_used sample_jobs_nth)
qed

theorem job_number_unchecked_witness:
  "builtin_fg (sample_task ''fg'' ''%100'') sample_shell = Inl OOBRead"
proof -
  have "atoi ''100'' < 0 \<or> 100 \<le> atoi ''100''" by code_simp
  from job_number_unchecked [OF _ sample_task_two this, of sample_shell "''fg''" "CHR ''%''"] show ?thesis
    by (simp add: sample_shell_def sample_jobs_wf)
qed

theorem empty_stage_crashes_witness:
  "main_step sample_env 1 NUL (Line ''ls||wc'' int) idle_shell tty_fds = Inl NullDeref"
proof -
  have "plain ''ls''" "plain ''wc''" by code_simp+
  from empty_stage_crashes [OF this, of NUL sample_env 1 int idle_shell tty_fds] show ?thesis
    by (simp add: sample_env_def)
qed

theorem lone_ampersand_crashes_witness:
  "main_step sample_env 1 NUL (Line ''&'' (\<lambda>_. 5)) idle_shell tty_fds = Inl NullDeref"
  by (rule lone_ampersand_crashes) simp

theorem builtin_child_returns_witness:
  "run_task sample_env (sample_task ''jobs'' ''x'') = Inr (Returned [MNotImplemented ''jobs''])"
  by (rule builtin_child_returns) (simp_all add: builtin_def sample_task_def)

theorem command_found_iff_witness:
  "command_found \<lparr>file_exists = (\<lambda>_. False), can_exec = (\<lambda>f. f = ''/usr/bin/wc''), can_read = (\<lambda>_. False),
     can_create = (\<lambda>_. False), path_var = Some ''/bin:/usr/bin'', kill_ok = (\<lambda>_ _. False)\<rparr> ''wc'' = Inr True"
proof -
  let ?E = "\<lparr>file_exists = (\<lambda>_. False), can_exec = (\<lambda>f. f = ''/usr/bin/wc''), can_read = (\<lambda>_. False),
     can_create = (\<lambda>_. False), path_var = Some ''/bin:/usr/bin'', kill_ok = (\<lambda>_ _. False)\<rparr>"
  have d: "path_dirs [] ''/bin:/usr/bin'' = [''/bin'', ''/usr/bin'']" by code_simp
  have "list_all (fits ''wc'') (path_dirs [] ''/bin:/usr/bin'')"
    unfolding d by (simp add: fits_def PATH_MAX_def)
  from command_found_iff [of ?E, OF _ this] show ?thesis by (simp add: d)
qed

end
