(* ===== verification/Threads.thy ===== *)
theory Threads
  imports Prelude
begin

text \<open>
  Concurrent programs as machines. A state holds the shared variables and every thread's
  place in its program; an event names the thread that moves (and what the environment
  chooses for it); a step is partial, and a step that is not defined is a thread that
  blocks. This theory has the runs of a machine, the interfaces through which the
  components prove their invariants and their termination, and the synchronisation
  primitives of pthreads and of semaphores.
\<close>

section \<open>Runs\<close>

fun run :: "('s \<Rightarrow> 'e \<Rightarrow> 's option) \<Rightarrow> 's \<Rightarrow> 'e list \<Rightarrow> 's option" where
  "run step s [] = Some s"
| "run step s (e # es) = (case step s e of None \<Rightarrow> None | Some t \<Rightarrow> run step t es)"

inductive reach :: "('s \<Rightarrow> 'e \<Rightarrow> 's option) \<Rightarrow> 's \<Rightarrow> 's \<Rightarrow> bool" for step s where
  reach_start: "reach step s s"
| reach_step: "reach step s t \<Longrightarrow> step t e = Some u \<Longrightarrow> reach step s u"

inductive_cases reachE: "reach step s t"

lemma run_append:
  "run step s (es @ fs) = (case run step s es of None \<Rightarrow> None | Some t \<Rightarrow> run step t fs)"
  by (induction es arbitrary: s) (auto split: option.splits)

lemma run_reach: "run step s es = Some t \<Longrightarrow> reach step s t"
proof (induction es arbitrary: t rule: rev_induct)
  case Nil
  then show ?case by (simp add: reach_start)
next
  case (snoc e es)
  then show ?case by (auto simp: run_append split: option.splits intro: reach_step)
qed

lemma reach_run: "reach step s t \<Longrightarrow> \<exists>es. run step s es = Some t"
proof (induction rule: reach.induct)
  case reach_start
  show ?case by (intro exI [of _ "[]"]) simp
next
  case (reach_step t e u)
  then obtain es where "run step s es = Some t" by blast
  with reach_step(2) show ?case by (intro exI [of _ "es @ [e]"]) (simp add: run_append)
qed

text \<open>A schedule that goes through is an example of a reachable state.\<close>

lemma run_example:
  "(case run step s es of None \<Rightarrow> False | Some t \<Rightarrow> P t) \<Longrightarrow> \<exists>t. reach step s t \<and> P t"
  by (auto split: option.splits dest: run_reach)

section \<open>Invariants\<close>

locale machine_inv =
  fixes step :: "'s \<Rightarrow> 'e \<Rightarrow> 's option"
    and start :: 's
    and inv :: "'s \<Rightarrow> bool"
  assumes inv_start: "inv start"
    and inv_step: "inv s \<Longrightarrow> step s e = Some t \<Longrightarrow> inv t"
begin

lemma reach_inv: "reach step start s \<Longrightarrow> inv s"
  by (induction rule: reach.induct) (auto intro: inv_start inv_step)

lemma run_inv: "run step start es = Some s \<Longrightarrow> inv s"
  by (rule reach_inv) (rule run_reach)

end

text \<open>
  A machine that always comes to its end: some steps (those in \<open>prog\<close>, the moves of the
  program itself as opposed to spurious wake-ups) lower a measure, and a state that is not
  final can always make one of them.
\<close>

locale machine_term = machine_inv +
  fixes prog :: "'e \<Rightarrow> bool"
    and final :: "'s \<Rightarrow> bool"
    and mu :: "'s \<Rightarrow> nat"
  assumes mu_step: "inv s \<Longrightarrow> step s e = Some t \<Longrightarrow> prog e \<Longrightarrow> mu t < mu s"
    and progress: "inv s \<Longrightarrow> \<not> final s \<Longrightarrow> \<exists>e t. prog e \<and> step s e = Some t"
begin

lemma run_mu:
  "inv s \<Longrightarrow> list_all prog es \<Longrightarrow> run step s es = Some t \<Longrightarrow> mu t + length es \<le> mu s"
proof (induction es arbitrary: s)
  case Nil
  then show ?case by simp
next
  case (Cons e es)
  then obtain u where u: "step s e = Some u" "run step u es = Some t"
    by (auto split: option.splits)
  have "mu t + length es \<le> mu u" using Cons u inv_step by auto
  moreover have "mu u < mu s" using Cons.prems u by (auto intro: mu_step)
  ultimately show ?case by simp
qed

lemma runs_bounded:
  "list_all prog es \<Longrightarrow> run step start es = Some t \<Longrightarrow> length es \<le> mu start"
  using run_mu [OF inv_start] by fastforce

lemma stuck_final:
  "reach step start s \<Longrightarrow> (\<And>e. prog e \<Longrightarrow> step s e = None) \<Longrightarrow> final s"
  using progress [OF reach_inv] by force

lemma completes:
  "inv s \<Longrightarrow> \<exists>es t. list_all prog es \<and> run step s es = Some t \<and> final t"
proof (induction "mu s" arbitrary: s rule: less_induct)
  case less
  show ?case
  proof (cases "final s")
    case True
    then show ?thesis by (intro exI [of _ "[]"]) simp
  next
    case False
    then obtain e u where e: "prog e" "step s e = Some u" using progress less.prems by blast
    obtain es t where "list_all prog es" "run step u es = Some t" "final t"
      using less.hyps [of u] mu_step [OF less.prems e(2,1)] inv_step [OF less.prems e(2)] by blast
    then show ?thesis using e by (intro exI [of _ "e # es"]) auto
  qed
qed

lemma completes_from_start: "\<exists>es t. list_all prog es \<and> run step start es = Some t \<and> final t"
  by (rule completes) (rule inv_start)

end

text \<open>What only some of the events keep holds after the runs that are made of them.\<close>

lemma run_all_inv:
  assumes "\<And>s e t. I s \<Longrightarrow> P e \<Longrightarrow> step s e = Some t \<Longrightarrow> I t"
    and "I s" "list_all P es" "run step s es = Some t"
  shows "I t"
  using assms(2-4) by (induction es arbitrary: s) (auto split: option.splits intro: assms(1))

lemma run_length:
  assumes "\<And>s e t. step s e = Some t \<Longrightarrow> mu t < (mu s :: nat)" "run step s es = Some t"
  shows "mu t + length es \<le> mu s"
  using assms(2)
proof (induction es arbitrary: s)
  case (Cons e es)
  then obtain u where u: "step s e = Some u" "run step u es = Some t" by (auto split: option.splits)
  then show ?case using Cons.IH [OF u(2)] assms(1) [OF u(1)] by simp
qed simp

lemma run_all_length:
  assumes "\<And>s e t. I s \<Longrightarrow> P e \<Longrightarrow> step s e = Some t \<Longrightarrow> I t \<and> mu t < (mu s :: nat)"
    and "I s" "list_all P es" "run step s es = Some t"
  shows "mu t + length es \<le> mu s"
  using assms(2-4)
proof (induction es arbitrary: s)
  case (Cons e es)
  then obtain u where u: "step s e = Some u" "run step u es = Some t" by (auto split: option.splits)
  then show ?case using Cons.IH [of u] Cons.prems assms(1) [OF Cons.prems(1) _ u(1)] by simp
qed simp

section \<open>Small machines\<close>

text \<open>
  A machine with few states and events is explored: a list of states that holds the first one
  and every successor of its states holds all that can be reached. \<open>explore\<close> makes the list;
  the proofs check that it is closed.
\<close>

fun explore :: "('s \<Rightarrow> 'e::enum \<Rightarrow> 's option) \<Rightarrow> nat \<Rightarrow> 's list \<Rightarrow> 's list \<Rightarrow> 's list" where
  "explore step 0 seen todo = seen"
| "explore step (Suc k) seen [] = seen"
| "explore step (Suc k) seen (s # todo) =
     (if s \<in> set seen then explore step k seen todo
      else explore step k (s # seen) (List.map_filter (step s) enum_class.enum @ todo))"

definition each_step :: "('s \<Rightarrow> 'e::enum \<Rightarrow> 's option) \<Rightarrow> ('s \<Rightarrow> 's \<Rightarrow> bool) \<Rightarrow> 's list \<Rightarrow> bool" where
  "each_step step P S \<longleftrightarrow>
     list_all (\<lambda>s. list_all (\<lambda>e. case step s e of None \<Rightarrow> True | Some t \<Rightarrow> P s t) enum_class.enum) S"

lemma each_stepD: "each_step step P S \<Longrightarrow> s \<in> set S \<Longrightarrow> step s e = Some t \<Longrightarrow> P s t"
  using in_enum [of e] by (fastforce simp: each_step_def list_all_iff)

definition closed_under :: "('s \<Rightarrow> 'e::enum \<Rightarrow> 's option) \<Rightarrow> 's list \<Rightarrow> bool" where
  "closed_under step S \<longleftrightarrow> each_step step (\<lambda>s t. t \<in> set S) S"

lemma closed_step: "closed_under step S \<Longrightarrow> s \<in> set S \<Longrightarrow> step s e = Some t \<Longrightarrow> t \<in> set S"
  unfolding closed_under_def by (rule each_stepD)

definition moves_unless :: "('s \<Rightarrow> 'e::enum \<Rightarrow> 's option) \<Rightarrow> ('s \<Rightarrow> bool) \<Rightarrow> 's list \<Rightarrow> bool" where
  "moves_unless step F S \<longleftrightarrow> list_all (\<lambda>s. F s \<or> list_ex (\<lambda>e. step s e \<noteq> None) enum_class.enum) S"

lemma moves_unlessD: "moves_unless step F S \<Longrightarrow> s \<in> set S \<Longrightarrow> \<not> F s \<Longrightarrow> \<exists>e t. step s e = Some t"
  by (fastforce simp: moves_unless_def list_all_iff list_ex_iff)

section \<open>Semaphores\<close>

text \<open>
  The interface of a counting semaphore, whatever keeps its value: a wait takes one from a
  positive value and blocks otherwise, a post adds one. The client lemma is the balance of a
  semaphore over a sequence of operations that went through.
\<close>

locale counting_sem =
  fixes val :: "'m \<Rightarrow> nat"
    and wait :: "'m \<Rightarrow> 'm option"
    and post :: "'m \<Rightarrow> 'm"
  assumes wait_blocks: "wait m = None \<longleftrightarrow> val m = 0"
    and wait_val: "wait m = Some m' \<Longrightarrow> Suc (val m') = val m"
    and post_val: "val (post m) = Suc (val m)"
begin

fun ops_run :: "bool list \<Rightarrow> 'm \<Rightarrow> 'm option" where
  "ops_run [] m = Some m"
| "ops_run (True # bs) m = ops_run bs (post m)"
| "ops_run (False # bs) m = (case wait m of None \<Rightarrow> None | Some m' \<Rightarrow> ops_run bs m')"

lemma balance:
  "ops_run bs m = Some m' \<Longrightarrow>
     val m' + length (filter Not bs) = val m + length (filter id bs)"
proof (induction bs m rule: ops_run.induct)
  case (3 bs m)
  then obtain k where "wait m = Some k" "ops_run bs k = Some m'" by (auto split: option.splits)
  then show ?case using 3 wait_val [of m k] by auto
qed (auto simp: post_val)

lemma waits_bounded:
  "ops_run bs m = Some m' \<Longrightarrow> length (filter Not bs) \<le> val m + length (filter id bs)"
  using balance [of bs m m'] by simp

end

text \<open>POSIX semaphores: \<open>sem_wait\<close> and \<open>sem_post\<close> on the value.\<close>

definition sem_wait :: "nat \<Rightarrow> nat option" where
  "sem_wait v = (if v = 0 then None else Some (v - 1))"

definition sem_post :: "nat \<Rightarrow> nat" where
  "sem_post v = v + 1"

interpretation posix_sem: counting_sem "\<lambda>v. v" sem_wait sem_post
  by unfold_locales (auto simp: sem_wait_def sem_post_def split: if_splits)

lemma sem_wait_Some [step_simps]: "sem_wait v = Some w \<longleftrightarrow> v = Suc w"
  by (auto simp: sem_wait_def)

lemma sem_wait_None [step_simps]: "sem_wait v = None \<longleftrightarrow> v = 0"
  by (simp add: sem_wait_def)

section \<open>Mutexes\<close>

text \<open>
  A pthread mutex is the thread that owns it, if any. The programs unlock only mutexes they
  own.
\<close>

type_synonym mutex = "nat option"

definition mutex_lock :: "mutex \<Rightarrow> nat \<Rightarrow> mutex option" where
  "mutex_lock m i = (case m of None \<Rightarrow> Some (Some i) | Some _ \<Rightarrow> None)"

definition mutex_unlock :: "mutex \<Rightarrow> mutex" where
  "mutex_unlock m = None"

lemma mutex_lock_Some [step_simps]: "mutex_lock m i = Some m' \<longleftrightarrow> m = None \<and> m' = Some i"
  by (auto simp: mutex_lock_def split: option.splits)

lemma mutex_lock_None [step_simps]: "mutex_lock m i = None \<longleftrightarrow> m \<noteq> None"
  by (auto simp: mutex_lock_def split: option.splits)

lemma mutex_unlock_simps [simp]: "mutex_unlock m = None"
  by (simp add: mutex_unlock_def)

end
