(* ===== verification/Queues.thy ===== *)
theory Queues
  imports Prelude
begin

text \<open>
  The contract of the queues that the producer and consumer programs share: what an
  insertion and a removal do to the sequence of items a queue holds. The circular buffer
  and the linked list of work items each give an instance.
\<close>

text \<open>
  The specification of a bounded queue: a list. An operation is an insertion, \<open>Some x\<close>, which
  is not possible when the list is full, or a removal, \<open>None\<close>, which is not possible when it is
  empty; the run collects what was removed.
\<close>

fun list_run :: "nat \<Rightarrow> 'a option list \<Rightarrow> 'a list \<Rightarrow> ('a list \<times> 'a list) option" where
  "list_run cap [] xs = Some ([], xs)"
| "list_run cap (Some x # os) xs = (if length xs < cap then list_run cap os (xs @ [x]) else None)"
| "list_run cap (None # os) xs =
     (case xs of
        [] \<Rightarrow> None
      | x # xs' \<Rightarrow> map_option (\<lambda>(ys, r). (x # ys, r)) (list_run cap os xs'))"

locale fifo =
  fixes wf_q :: "'q \<Rightarrow> bool"
    and items :: "'q \<Rightarrow> 'a list"
    and room :: "'q \<Rightarrow> 'a \<Rightarrow> bool"
    and enq :: "'q \<Rightarrow> 'a \<Rightarrow> 'q"
    and deq :: "'q \<Rightarrow> ('a \<times> 'q) option"
  assumes enq_wf: "wf_q q \<Longrightarrow> room q x \<Longrightarrow> wf_q (enq q x)"
    and enq_items: "wf_q q \<Longrightarrow> room q x \<Longrightarrow> items (enq q x) = items q @ [x]"
    and deq_wf: "wf_q q \<Longrightarrow> deq q = Some (x, q') \<Longrightarrow> wf_q q'"
    and deq_items: "wf_q q \<Longrightarrow> deq q = Some (x, q') \<Longrightarrow> items q = x # items q'"
    and deq_None: "wf_q q \<Longrightarrow> deq q = None \<longleftrightarrow> items q = []"
begin

text \<open>A client: a sequence of insertions and removals, with the items that came out.\<close>

fun ops_run :: "'a option list \<Rightarrow> 'q \<Rightarrow> ('a list \<times> 'q) option" where
  "ops_run [] q = Some ([], q)"
| "ops_run (Some x # os) q = (if room q x then ops_run os (enq q x) else None)"
| "ops_run (None # os) q =
     (case deq q of
        None \<Rightarrow> None
      | Some (x, q') \<Rightarrow> map_option (\<lambda>(xs, r). (x # xs, r)) (ops_run os q'))"

definition inserted :: "'a option list \<Rightarrow> 'a list" where
  "inserted os = concat (map (\<lambda>oo. case oo of None \<Rightarrow> [] | Some x \<Rightarrow> [x]) os)"

lemma inserted_simps [simp]:
  "inserted [] = []" "inserted (Some x # os) = x # inserted os" "inserted (None # os) = inserted os"
  by (simp_all add: inserted_def)

lemma ops_run_fifo:
  "wf_q q \<Longrightarrow> ops_run os q = Some (xs, r) \<Longrightarrow> wf_q r \<and> items q @ inserted os = xs @ items r"
proof (induction os q arbitrary: xs rule: ops_run.induct)
  case (1 q)
  then show ?case by simp
next
  case (2 x os q)
  then show ?case by (auto simp: enq_wf enq_items split: if_splits)
next
  case (3 os q)
  then obtain x q' ys where d: "deq q = Some (x, q')" "ops_run os q' = Some (ys, r)" "xs = x # ys"
    by (auto split: option.splits)
  then show ?case using 3 deq_wf [OF 3(2) d(1)] deq_items [OF 3(2) d(1)] by auto
qed

lemma ops_run_order:
  "wf_q q \<Longrightarrow> items q = [] \<Longrightarrow> ops_run os q = Some (xs, r) \<Longrightarrow> xs = take (length xs) (inserted os)"
  using ops_run_fifo [of q os xs r] by simp

end

locale bounded_fifo = fifo +
  fixes cap :: nat
  assumes room_iff: "wf_q q \<Longrightarrow> room q x \<longleftrightarrow> length (items q) < cap"
    and items_bound: "wf_q q \<Longrightarrow> length (items q) \<le> cap"
begin

lemma ops_run_bound:
  "wf_q q \<Longrightarrow> ops_run os q = Some (xs, r) \<Longrightarrow> length (inserted os) \<le> length xs + cap"
proof -
  assume a: "wf_q q" "ops_run os q = Some (xs, r)"
  then have "length (items q) + length (inserted os) = length xs + length (items r)"
    using ops_run_fifo [OF a] by (metis length_append)
  then show ?thesis using ops_run_fifo [OF a] items_bound [of r] by linarith
qed

text \<open>A bounded queue does exactly what the list does, the operations that block included.\<close>

lemma ops_run_refines:
  "wf_q q \<Longrightarrow> map_option (map_prod id items) (ops_run os q) = list_run cap os (items q)"
proof (induction os q rule: ops_run.induct)
  case (1 q)
  then show ?case by simp
next
  case (2 x os q)
  then show ?case by (simp add: enq_wf enq_items room_iff)
next
  case (3 os q)
  show ?case
  proof (cases "deq q")
    case None
    then have "items q = []" using deq_None [OF 3(2)] by blast
    then show ?thesis using None by simp
  next
    case (Some a)
    obtain x q' where a: "deq q = Some (x, q')" using Some by (cases a) simp
    have "map_option (map_prod id items) (ops_run os q') = list_run cap os (items q')"
      by (rule 3(1) [OF a refl deq_wf [OF 3(2) a]])
    then show ?thesis using a deq_items [OF 3(2) a]
      by (cases "ops_run os q'"; cases "list_run cap os (items q')") auto
  qed
qed

lemma full_not_empty: "wf_q q \<Longrightarrow> 0 < cap \<Longrightarrow> \<not> room q x \<Longrightarrow> deq q \<noteq> None"
  by (auto simp: room_iff deq_None)

end

end
