(* ===== verification/ProdCons.thy ===== *)
theory ProdCons
  imports Threads Queues
begin

text \<open>
  The bounded buffer of thr/producer\_consumer.c: the circular queue with its two flags, and
  the producer and the consumer with their mutex and condition variables. The numbers that
  the producer draws are the argument \<open>ud\<close>, one per item.
\<close>

section \<open>The circular queue\<close>

definition QUEUE_SIZE :: nat where "QUEUE_SIZE = 5"
definition NUM_ITEMS :: nat where "NUM_ITEMS = 10"

record queue =
  buffer :: "int list"
  head :: nat
  tail :: nat
  full_flag :: bool
  empty_flag :: bool

text \<open>\<open>malloc\<close> leaves the buffer as it finds it: its five cells are the argument.\<close>

definition create_queue :: "int list \<Rightarrow> queue" where
  "create_queue buf =
     \<lparr>buffer = buf, head = 0, tail = 0, full_flag = False, empty_flag = True\<rparr>"

definition add_to_queue :: "queue \<Rightarrow> int \<Rightarrow> queue" where
  "add_to_queue q item =
     (let b = (buffer q)[tail q := item];
          t = (if tail q + 1 = QUEUE_SIZE then 0 else tail q + 1)
      in q\<lparr>buffer := b, tail := t,
           full_flag := (if t = head q then True else full_flag q), empty_flag := False\<rparr>)"

definition remove_from_queue :: "queue \<Rightarrow> int \<times> queue" where
  "remove_from_queue q =
     (let item = buffer q ! head q;
          h = (if head q + 1 = QUEUE_SIZE then 0 else head q + 1)
      in (item, q\<lparr>head := h, empty_flag := (if h = tail q then True else empty_flag q),
                  full_flag := False\<rparr>))"

text \<open>What the queue holds, oldest first.\<close>

definition wf_queue :: "queue \<Rightarrow> bool" where
  "wf_queue q \<longleftrightarrow> length (buffer q) = QUEUE_SIZE \<and> head q < QUEUE_SIZE \<and> tail q < QUEUE_SIZE
     \<and> (head q = tail q \<longleftrightarrow> full_flag q \<or> empty_flag q) \<and> \<not> (full_flag q \<and> empty_flag q)"

definition q_size :: "queue \<Rightarrow> nat" where
  "q_size q =
     (if full_flag q then QUEUE_SIZE
      else if head q \<le> tail q then tail q - head q else QUEUE_SIZE + tail q - head q)"

definition contents :: "queue \<Rightarrow> int list" where
  "contents q = map (\<lambda>k. buffer q ! ((head q + k) mod QUEUE_SIZE)) [0..<q_size q]"

definition deq_queue :: "queue \<Rightarrow> (int \<times> queue) option" where
  "deq_queue q = (if empty_flag q then None else Some (remove_from_queue q))"

lemma create_queue_wf: "length b = QUEUE_SIZE \<Longrightarrow> wf_queue (create_queue b)"
  by (simp add: wf_queue_def create_queue_def QUEUE_SIZE_def)

lemma create_queue_contents: "contents (create_queue b) = []"
  by (simp add: contents_def q_size_def create_queue_def)

lemma length_contents: "length (contents q) = q_size q"
  by (simp add: contents_def)

lemma q_size_empty: "wf_queue q \<Longrightarrow> empty_flag q \<longleftrightarrow> q_size q = 0"
  by (auto simp: wf_queue_def q_size_def QUEUE_SIZE_def)

lemma q_size_full: "wf_queue q \<Longrightarrow> full_flag q \<longleftrightarrow> q_size q = QUEUE_SIZE"
  by (auto simp: wf_queue_def q_size_def QUEUE_SIZE_def split: if_splits)

lemma q_size_le: "wf_queue q \<Longrightarrow> q_size q \<le> QUEUE_SIZE"
  by (auto simp: wf_queue_def q_size_def QUEUE_SIZE_def)

lemma contents_Nil: "wf_queue q \<Longrightarrow> contents q = [] \<longleftrightarrow> empty_flag q"
  using q_size_empty [of q] length_contents [of q] by (metis length_0_conv)

lemma add_wf: "wf_queue q \<Longrightarrow> \<not> full_flag q \<Longrightarrow> wf_queue (add_to_queue q x)"
  by (auto simp: wf_queue_def add_to_queue_def QUEUE_SIZE_def Let_def)

lemma add_size: "wf_queue q \<Longrightarrow> \<not> full_flag q \<Longrightarrow> q_size (add_to_queue q x) = Suc (q_size q)"
  by (cases "head q = tail q"; cases "tail q < head q";
      simp add: wf_queue_def add_to_queue_def q_size_def QUEUE_SIZE_def Let_def; arith)

lemma add_cell:
  assumes "wf_queue q" "\<not> full_flag q" "k < q_size q"
  shows "(head q + k) mod QUEUE_SIZE \<noteq> tail q"
proof -
  have l: "head q < 5" "tail q < 5" "k < 5"
    using assms q_size_le [OF assms(1)] by (auto simp: wf_queue_def QUEUE_SIZE_def)
  then have "(head q + k) mod 5 = (if head q + k < 5 then head q + k else head q + k - 5)"
    by (simp add: le_mod_geq)
  then show ?thesis using assms(2,3) l by (simp add: q_size_def QUEUE_SIZE_def split: if_splits)
qed

lemma add_tail:
  assumes "wf_queue q" "\<not> full_flag q"
  shows "(head q + q_size q) mod QUEUE_SIZE = tail q"
  using assms by (auto simp: wf_queue_def q_size_def QUEUE_SIZE_def)

lemma add_contents:
  assumes "wf_queue q" "\<not> full_flag q"
  shows "contents (add_to_queue q x) = contents q @ [x]"
proof -
  have b: "buffer (add_to_queue q x) = (buffer q)[tail q := x]" "head (add_to_queue q x) = head q"
    by (simp_all add: add_to_queue_def Let_def)
  have "tail q < length (buffer q)" using assms(1) by (simp add: wf_queue_def)
  then show ?thesis unfolding contents_def add_size [OF assms] b
    using add_cell [OF assms] add_tail [OF assms] by (auto simp: nth_list_update_neq neq_commute)
qed

lemma remove_wf: "wf_queue q \<Longrightarrow> \<not> empty_flag q \<Longrightarrow> wf_queue (snd (remove_from_queue q))"
  by (auto simp: wf_queue_def remove_from_queue_def QUEUE_SIZE_def Let_def)

lemma remove_size:
  "wf_queue q \<Longrightarrow> \<not> empty_flag q \<Longrightarrow> q_size q = Suc (q_size (snd (remove_from_queue q)))"
  by (cases "head q = tail q"; cases "tail q < head q";
      simp add: wf_queue_def remove_from_queue_def q_size_def QUEUE_SIZE_def Let_def; arith)

lemma remove_contents:
  assumes "wf_queue q" "\<not> empty_flag q"
  shows "contents q = fst (remove_from_queue q) # contents (snd (remove_from_queue q))"
proof -
  define r where "r = snd (remove_from_queue q)"
  have b: "buffer r = buffer q" "head r = (head q + 1) mod QUEUE_SIZE"
    and h: "fst (remove_from_queue q) = buffer q ! (head q mod QUEUE_SIZE)"
    using assms(1) by (auto simp: r_def remove_from_queue_def Let_def wf_queue_def QUEUE_SIZE_def)
  have "((head q + 1) mod QUEUE_SIZE + k) mod QUEUE_SIZE = (head q + Suc k) mod QUEUE_SIZE" for k
    by (simp add: mod_simps)
  then have "contents r = map (\<lambda>k. buffer q ! ((head q + Suc k) mod QUEUE_SIZE)) [0..<q_size r]"
    by (simp add: contents_def b)
  then show ?thesis unfolding contents_def [of q] remove_size [OF assms, folded r_def] h r_def [symmetric]
    by (subst upt_conv_Cons) (simp_all add: map_Suc_upt [symmetric] del: upt_Suc)
qed

interpretation circ: bounded_fifo wf_queue contents "\<lambda>q _. \<not> full_flag q" add_to_queue deq_queue QUEUE_SIZE
proof unfold_locales
  fix q x q'
  assume "wf_queue q" "deq_queue q = Some (x, q')"
  then have e: "wf_queue q" "\<not> empty_flag q" "remove_from_queue q = (x, q')"
    by (auto simp: deq_queue_def split: if_splits)
  show "wf_queue q'" "contents q = x # contents q'"
    using remove_wf [OF e(1,2)] remove_contents [OF e(1,2)] e(3) by simp_all
qed (use q_size_le q_size_full in \<open>auto simp: add_wf add_contents deq_queue_def contents_Nil length_contents
      le_neq_implies_less\<close>)


section \<open>The two threads\<close>

text \<open>
  Thread 0 is the producer and thread 1 the consumer. A thread asleep in
  \<open>pthread_cond_wait\<close> has released the mutex; a signal, or a spurious wake-up, makes it
  one that has to take the mutex again (\<open>PWake\<close>, \<open>CWake\<close>) and then to test its condition
  once more.
\<close>

datatype ppc = PLock | PTest | PWait | PWake | PAdd | PUnlock | PSignal | PDone
datatype cpc = CLock | CTest | CWait | CWake | CRemove | CUnlock | CSignal | CDone
datatype event = Producer | Consumer | SpuriousP | SpuriousC

record pc_state =
  this_queue :: queue
  lock :: mutex
  ppc :: ppc
  p_i :: nat
  cpc :: cpc
  c_i :: nat
  consumed :: "int list"

definition pc_start :: "int list \<Rightarrow> pc_state" where
  "pc_start buf = \<lparr>this_queue = create_queue buf, lock = None, ppc = PLock, p_i = 0, cpc = CLock, c_i = 0,
                   consumed = []\<rparr>"

definition producer :: "(nat \<Rightarrow> int) \<Rightarrow> pc_state \<Rightarrow> pc_state option" where
  "producer ud s =
     (case ppc s of
        PLock \<Rightarrow> map_option (\<lambda>m. s\<lparr>lock := m, ppc := PTest\<rparr>) (mutex_lock (lock s) 0)
      | PTest \<Rightarrow> Some (if full_flag (this_queue s) then s\<lparr>lock := mutex_unlock (lock s), ppc := PWait\<rparr>
                      else s\<lparr>ppc := PAdd\<rparr>)
      | PWait \<Rightarrow> None
      | PWake \<Rightarrow> map_option (\<lambda>m. s\<lparr>lock := m, ppc := PTest\<rparr>) (mutex_lock (lock s) 0)
      | PAdd \<Rightarrow> Some (s\<lparr>this_queue := add_to_queue (this_queue s) (ud (p_i s)), ppc := PUnlock\<rparr>)
      | PUnlock \<Rightarrow> Some (s\<lparr>lock := mutex_unlock (lock s), ppc := PSignal\<rparr>)
      | PSignal \<Rightarrow> Some (s\<lparr>cpc := (if cpc s = CWait then CWake else cpc s), p_i := p_i s + 1,
                          ppc := (if p_i s + 1 < NUM_ITEMS then PLock else PDone)\<rparr>)
      | PDone \<Rightarrow> None)"

definition consumer :: "pc_state \<Rightarrow> pc_state option" where
  "consumer s =
     (case cpc s of
        CLock \<Rightarrow> map_option (\<lambda>m. s\<lparr>lock := m, cpc := CTest\<rparr>) (mutex_lock (lock s) 1)
      | CTest \<Rightarrow> Some (if empty_flag (this_queue s) then s\<lparr>lock := mutex_unlock (lock s), cpc := CWait\<rparr>
                      else s\<lparr>cpc := CRemove\<rparr>)
      | CWait \<Rightarrow> None
      | CWake \<Rightarrow> map_option (\<lambda>m. s\<lparr>lock := m, cpc := CTest\<rparr>) (mutex_lock (lock s) 1)
      | CRemove \<Rightarrow> (case remove_from_queue (this_queue s) of (item, q') \<Rightarrow>
                     Some (s\<lparr>this_queue := q', consumed := consumed s @ [item], cpc := CUnlock\<rparr>))
      | CUnlock \<Rightarrow> Some (s\<lparr>lock := mutex_unlock (lock s), cpc := CSignal\<rparr>)
      | CSignal \<Rightarrow> Some (s\<lparr>ppc := (if ppc s = PWait then PWake else ppc s), c_i := c_i s + 1,
                          cpc := (if c_i s + 1 < NUM_ITEMS then CLock else CDone)\<rparr>)
      | CDone \<Rightarrow> None)"

definition pc_step :: "(nat \<Rightarrow> int) \<Rightarrow> pc_state \<Rightarrow> event \<Rightarrow> pc_state option" where
  "pc_step ud s e =
     (case e of
        Producer \<Rightarrow> producer ud s
      | Consumer \<Rightarrow> consumer s
      | SpuriousP \<Rightarrow> if ppc s = PWait then Some (s\<lparr>ppc := PWake\<rparr>) else None
      | SpuriousC \<Rightarrow> if cpc s = CWait then Some (s\<lparr>cpc := CWake\<rparr>) else None)"

definition joined :: "pc_state \<Rightarrow> bool" where
  "joined s \<longleftrightarrow> ppc s = PDone \<and> cpc s = CDone"

section \<open>Invariant\<close>

text \<open>The places where a thread owns the mutex, and those between its update and its signal.\<close>

fun p_owns :: "ppc \<Rightarrow> bool" where
  "p_owns PTest = True" | "p_owns PAdd = True" | "p_owns PUnlock = True" | "p_owns _ = False"

fun c_owns :: "cpc \<Rightarrow> bool" where
  "c_owns CTest = True" | "c_owns CRemove = True" | "c_owns CUnlock = True" | "c_owns _ = False"

fun p_will_signal :: "ppc \<Rightarrow> bool" where
  "p_will_signal PUnlock = True" | "p_will_signal PSignal = True" | "p_will_signal _ = False"

fun c_will_signal :: "cpc \<Rightarrow> bool" where
  "c_will_signal CUnlock = True" | "c_will_signal CSignal = True" | "c_will_signal _ = False"

definition added :: "pc_state \<Rightarrow> nat" where
  "added s = p_i s + (if p_will_signal (ppc s) then 1 else 0)"

definition taken :: "pc_state \<Rightarrow> nat" where
  "taken s = c_i s + (if c_will_signal (cpc s) then 1 else 0)"

definition lock_inv :: "pc_state \<Rightarrow> bool" where
  "lock_inv s \<longleftrightarrow> \<not> (p_owns (ppc s) \<and> c_owns (cpc s))
     \<and> lock s = (if p_owns (ppc s) then Some 0 else if c_owns (cpc s) then Some 1 else None)"

definition queue_inv :: "pc_state \<Rightarrow> bool" where
  "queue_inv s \<longleftrightarrow> wf_queue (this_queue s) \<and> (ppc s = PAdd \<longrightarrow> \<not> full_flag (this_queue s))
     \<and> (cpc s = CRemove \<longrightarrow> \<not> empty_flag (this_queue s))"

definition data_inv :: "(nat \<Rightarrow> int) \<Rightarrow> pc_state \<Rightarrow> bool" where
  "data_inv ud s \<longleftrightarrow> consumed s @ contents (this_queue s) = map ud [0..<added s] \<and> length (consumed s) = taken s"

definition count_inv :: "pc_state \<Rightarrow> bool" where
  "count_inv s \<longleftrightarrow> (if ppc s = PDone then p_i s = NUM_ITEMS else p_i s < NUM_ITEMS)
     \<and> (if cpc s = CDone then c_i s = NUM_ITEMS else c_i s < NUM_ITEMS)"

definition wait_inv :: "pc_state \<Rightarrow> bool" where
  "wait_inv s \<longleftrightarrow> (ppc s = PWait \<longrightarrow> full_flag (this_queue s) \<or> c_will_signal (cpc s))
     \<and> (cpc s = CWait \<longrightarrow> empty_flag (this_queue s) \<or> p_will_signal (ppc s))"

definition pc_inv :: "(nat \<Rightarrow> int) \<Rightarrow> pc_state \<Rightarrow> bool" where
  "pc_inv ud s \<longleftrightarrow> lock_inv s \<and> queue_inv s \<and> data_inv ud s \<and> count_inv s \<and> wait_inv s"

lemmas pc_inv_defs = lock_inv_def queue_inv_def data_inv_def count_inv_def wait_inv_def added_def taken_def

lemma pc_stepE:
  assumes "pc_step ud s e = Some t"
  obtains "e = Producer" "producer ud s = Some t" | "e = Consumer" "consumer s = Some t"
  | "e = SpuriousP" "ppc s = PWait" "t = s\<lparr>ppc := PWake\<rparr>"
  | "e = SpuriousC" "cpc s = CWait" "t = s\<lparr>cpc := CWake\<rparr>"
  using assms by (cases e) (auto simp: pc_step_def split: if_splits)

lemma remove_fields:
  "remove_from_queue q = (x, q') \<Longrightarrow> \<not> full_flag q' \<and> buffer q' = buffer q \<and> tail q' = tail q"
  by (auto simp: remove_from_queue_def Let_def)

lemma add_not_empty: "\<not> empty_flag (add_to_queue q x)"
  by (simp add: add_to_queue_def Let_def)

lemma lock_inv_step: "lock_inv s \<Longrightarrow> pc_step ud s e = Some t \<Longrightarrow> lock_inv t"
  by (erule pc_stepE, (cases "ppc s"; auto simp: lock_inv_def producer_def consumer_def step_simps
      split: if_splits)[1], (cases "cpc s"; auto simp: lock_inv_def producer_def consumer_def step_simps
      split: if_splits prod.splits)[1]) (auto simp: lock_inv_def producer_def consumer_def step_simps)


lemma queue_inv_step:
  "lock_inv s \<Longrightarrow> queue_inv s \<Longrightarrow> pc_step ud s e = Some t \<Longrightarrow> queue_inv t"
  by (erule pc_stepE, (cases "ppc s"; auto simp: lock_inv_def queue_inv_def producer_def consumer_def add_wf step_simps
      split: if_splits dest: remove_wf)[1], (cases "cpc s"; auto simp: lock_inv_def queue_inv_def producer_def consumer_def add_wf step_simps
      split: if_splits prod.splits dest: remove_wf)[1]) (auto simp: lock_inv_def queue_inv_def producer_def consumer_def add_wf step_simps)

lemma count_inv_step: "count_inv s \<Longrightarrow> pc_step ud s e = Some t \<Longrightarrow> count_inv t"
  by (erule pc_stepE, (cases "ppc s"; auto simp: count_inv_def producer_def consumer_def step_simps
      split: if_splits)[1], (cases "cpc s"; auto simp: count_inv_def producer_def consumer_def step_simps
      split: if_splits prod.splits)[1]) (auto simp: count_inv_def producer_def consumer_def step_simps)

lemma wait_inv_step: "lock_inv s \<Longrightarrow> wait_inv s \<Longrightarrow> pc_step ud s e = Some t \<Longrightarrow> wait_inv t"
  by (erule pc_stepE, (cases "ppc s"; auto simp: lock_inv_def wait_inv_def producer_def consumer_def step_simps
      split: if_splits)[1], (cases "cpc s"; auto simp: lock_inv_def wait_inv_def producer_def consumer_def step_simps
      split: if_splits prod.splits)[1]) (auto simp: lock_inv_def wait_inv_def producer_def consumer_def step_simps)

lemma data_inv_producer:
  assumes "queue_inv s" "data_inv ud s" "producer ud s = Some t"
  shows "data_inv ud t"
proof (cases "ppc s = PAdd")
  case True
  then show ?thesis using assms add_contents [of "this_queue s" "ud (p_i s)"]
    by (simp add: producer_def queue_inv_def data_inv_def added_def taken_def append_assoc [symmetric]
      del: append_assoc) (auto simp: added_def taken_def)
next
  case False
  then show ?thesis using assms(2,3)
    by (cases "ppc s") (auto simp: producer_def data_inv_def added_def taken_def step_simps split: if_splits)
qed

lemma data_inv_consumer:
  assumes "queue_inv s" "data_inv ud s" "consumer s = Some t"
  shows "data_inv ud t"
proof (cases "cpc s = CRemove")
  case True
  then have "contents (this_queue s)
      = fst (remove_from_queue (this_queue s)) # contents (snd (remove_from_queue (this_queue s)))"
    using assms(1) by (simp add: queue_inv_def remove_contents)
  with True show ?thesis using assms(2,3)
    by (auto simp: consumer_def data_inv_def added_def taken_def split: prod.splits)
next
  case False
  then show ?thesis using assms(2,3)
    by (cases "cpc s") (auto simp: consumer_def data_inv_def added_def taken_def step_simps split: if_splits)
qed

lemma data_inv_step:
  "queue_inv s \<Longrightarrow> data_inv ud s \<Longrightarrow> pc_step ud s e = Some t \<Longrightarrow> data_inv ud t"
  by (erule pc_stepE)
    (auto dest: data_inv_producer data_inv_consumer simp: data_inv_def added_def taken_def)

lemma pc_inv_start: "length buf = QUEUE_SIZE \<Longrightarrow> pc_inv ud (pc_start buf)"
  by (simp add: pc_inv_def pc_inv_defs pc_start_def create_queue_wf create_queue_contents NUM_ITEMS_def)

lemma pc_inv_step: "pc_inv ud s \<Longrightarrow> pc_step ud s e = Some t \<Longrightarrow> pc_inv ud t"
  unfolding pc_inv_def
  using lock_inv_step queue_inv_step count_inv_step wait_inv_step data_inv_step by blast

section \<open>Termination\<close>

fun p_weight :: "ppc \<Rightarrow> nat" where
  "p_weight PLock = 13" | "p_weight PTest = 11" | "p_weight PWait = 7" | "p_weight PWake = 12"
| "p_weight PAdd = 10" | "p_weight PUnlock = 9" | "p_weight PSignal = 8" | "p_weight PDone = 0"

fun c_weight :: "cpc \<Rightarrow> nat" where
  "c_weight CLock = 13" | "c_weight CTest = 11" | "c_weight CWait = 7" | "c_weight CWake = 12"
| "c_weight CRemove = 10" | "c_weight CUnlock = 9" | "c_weight CSignal = 8" | "c_weight CDone = 0"

definition pc_mu :: "pc_state \<Rightarrow> nat" where
  "pc_mu s = 20 * (NUM_ITEMS - p_i s) + p_weight (ppc s) + 20 * (NUM_ITEMS - c_i s) + c_weight (cpc s)"

definition own_step :: "event \<Rightarrow> bool" where
  "own_step e \<longleftrightarrow> e = Producer \<or> e = Consumer"

lemma pc_mu_step:
  "count_inv s \<Longrightarrow> pc_step ud s e = Some t \<Longrightarrow> own_step e \<Longrightarrow> pc_mu t < pc_mu s"
  by (erule pc_stepE, (cases "ppc s"; auto simp: count_inv_def pc_mu_def own_step_def producer_def consumer_def step_simps
      split: if_splits)[1], (cases "cpc s"; auto simp: count_inv_def pc_mu_def own_step_def producer_def consumer_def step_simps
      split: if_splits prod.splits)[1]) (auto simp: count_inv_def pc_mu_def own_step_def producer_def consumer_def step_simps)

lemma producer_blocked:
  "producer ud s = None \<Longrightarrow> ppc s \<in> {PWait, PDone} \<or> ppc s \<in> {PLock, PWake} \<and> lock s \<noteq> None"
  by (cases "ppc s") (auto simp: producer_def step_simps split: if_splits)

lemma consumer_blocked:
  "consumer s = None \<Longrightarrow> cpc s \<in> {CWait, CDone} \<or> cpc s \<in> {CLock, CWake} \<and> lock s \<noteq> None"
  by (cases "cpc s") (auto simp: consumer_def step_simps split: if_splits prod.splits)

lemma both_blocked:
  assumes "lock_inv s" "producer ud s = None" "consumer s = None"
  shows "ppc s \<in> {PWait, PDone}" "cpc s \<in> {CWait, CDone}"
  using assms(1) producer_blocked [OF assms(2)] consumer_blocked [OF assms(3)]
  by (auto simp: lock_inv_def)

lemma data_inv_length:
  assumes "data_inv ud s"
  shows "length (consumed s) = taken s" "taken s + q_size (this_queue s) = added s"
proof -
  show l: "length (consumed s) = taken s" using assms by (simp add: data_inv_def)
  have "length (consumed s @ contents (this_queue s)) = added s"
    using assms unfolding data_inv_def by simp
  then show "taken s + q_size (this_queue s) = added s" by (simp add: l length_contents)
qed

lemma no_deadlock:
  assumes "pc_inv ud s" "\<not> joined s"
  shows "producer ud s \<noteq> None \<or> consumer s \<noteq> None"
proof (rule ccontr)
  assume b: "\<not> ?thesis"
  have l: "ppc s \<in> {PWait, PDone}" "cpc s \<in> {CWait, CDone}"
    using both_blocked [of s ud] assms(1) b by (auto simp: pc_inv_def)
  have n: "taken s + q_size (this_queue s) = added s"
    using assms(1) by (auto simp: pc_inv_def dest: data_inv_length(2))
  have w: "wf_queue (this_queue s)" "wait_inv s" "count_inv s"
    using assms(1) by (auto simp: pc_inv_def queue_inv_def)
  consider "ppc s = PWait" "cpc s = CWait" | "ppc s = PWait" "cpc s = CDone" | "ppc s = PDone" "cpc s = CWait"
    using l assms(2) by (auto simp: joined_def)
  then show False
  proof cases
    case 1
    then show False using w by (auto simp: wait_inv_def wf_queue_def)
  next
    case 2
    then show False using n w by (auto simp: added_def taken_def count_inv_def)
  next
    case 3
    then show False using n w q_size_empty [OF w(1)]
      by (auto simp: added_def taken_def count_inv_def wait_inv_def)
  qed
qed

text \<open>The cells that \<open>malloc\<close> returned may hold anything.\<close>

definition fresh_cells :: "(nat \<Rightarrow> int) \<Rightarrow> int list" where
  "fresh_cells g = map g [0..<QUEUE_SIZE]"

interpretation pc: machine_term "pc_step ud" "pc_start (fresh_cells g)" "pc_inv ud" own_step joined pc_mu
  for ud g
proof unfold_locales
  fix s
  assume "pc_inv ud s" "\<not> joined s"
  then show "\<exists>e t. own_step e \<and> pc_step ud s e = Some t"
    using no_deadlock [of ud s] by (fastforce simp: own_step_def pc_step_def)
next
  fix s e t
  assume "pc_inv ud s" "pc_step ud s e = Some t" "own_step e"
  then show "pc_mu t < pc_mu s" by (simp add: pc_inv_def pc_mu_step)
qed (simp_all add: pc_inv_start pc_inv_step fresh_cells_def)

lemma pc_mu_bound: "pc_mu s \<le> 426"
  by (cases "ppc s"; cases "cpc s"; simp add: pc_mu_def NUM_ITEMS_def)

lemma joined_all:
  assumes "pc_inv ud s" "joined s"
  shows "consumed s = map ud [0..<NUM_ITEMS] \<and> contents (this_queue s) = []"
proof -
  have d: "data_inv ud s" "count_inv s" using assms(1) by (auto simp: pc_inv_def)
  then have "added s = NUM_ITEMS" "taken s = NUM_ITEMS"
    using assms(2) by (simp_all add: joined_def count_inv_def added_def taken_def)
  then show ?thesis using d(1) data_inv_length [OF d(1)] length_contents [of "this_queue s"]
    by (simp add: data_inv_def)
qed

section \<open>Properties\<close>



text \<open>
  C7: the exchange always completes: from every reachable state the two threads make at
  most 426 steps of their own, and when neither can make another both have returned, all ten
  items were consumed in order and the queue is empty.
\<close>

theorem pc_completes:
  assumes "reach (pc_step ud) (pc_start (fresh_cells g)) s"
    and "run (pc_step ud) s es = Some t" "list_all own_step es"
  shows "length es \<le> 426 \<and> (producer ud t = None \<and> consumer t = None \<longrightarrow>
    joined t \<and> consumed t = map ud [0..<NUM_ITEMS] \<and> contents (this_queue t) = [])"
proof -
  have i: "pc_inv ud s" using assms(1) by (rule pc.reach_inv)
  then have "length es \<le> 426" using pc.run_mu [OF i assms(3,2)] pc_mu_bound [of s] by linarith
  moreover have "pc_inv ud t" using assms(2) i
    by (induction es arbitrary: s) (auto split: option.splits dest: pc_inv_step)
  ultimately show ?thesis using no_deadlock [of ud t] joined_all [of ud t] by blast
qed

theorem pc_completes_witness:
  "\<exists>t. run (pc_step int) (pc_start (fresh_cells int))
      (concat (replicate 10 (replicate 5 Producer @ replicate 5 Consumer))) = Some t
    \<and> joined t \<and> consumed t = map int [0..<NUM_ITEMS]"
proof -
  define es where "es = concat (replicate 10 (replicate 5 Producer @ replicate 5 Consumer))"
  have "case run (pc_step int) (pc_start (fresh_cells int)) es of
      None \<Rightarrow> False | Some t \<Rightarrow> producer int t = None \<and> consumer t = None"
    unfolding es_def by code_simp
  moreover have "list_all own_step es" unfolding es_def by code_simp
  ultimately show ?thesis using pc_completes [OF reach_start, of int int es] unfolding es_def
    by (auto split: option.splits)
qed

text \<open>
  C8: the circular queue with its head, tail and flags refines a list of at most \<open>QUEUE_SIZE\<close> items: any
  sequence of insertions and removals gives the same items, leaves the same contents and
  blocks at the same operation. The empty queue that the program creates is the empty list.
\<close>

theorem queue_refines_list:
  assumes "length cells = QUEUE_SIZE"
  shows "map_option (map_prod id contents) (circ.ops_run os (create_queue cells)) = list_run QUEUE_SIZE os []"
  using circ.ops_run_refines [OF create_queue_wf [OF assms], of os] by (simp add: create_queue_contents)

theorem queue_refines_list_witness:
  "map_option (map_prod id contents) (circ.ops_run [Some 4, Some 5, None, Some 6] (create_queue (replicate QUEUE_SIZE 0)))
     = Some ([4], [5, 6])"
  by (subst queue_refines_list) (simp_all add: QUEUE_SIZE_def)

end
