(* ===== verification/Crew.thy ===== *)
theory Crew
  imports Threads Queues "HOL-Library.Multiset"
begin

text \<open>
  The work crew of thr\_sync/work\_queue.c: a contractor that queues work items, workers
  that take them off the queue, a counting semaphore for the work available, a binary one
  for the queue, and the cancellation of the workers at the end. The queue is a linked list
  on an explicit heap: an address holds an item or is free.
\<close>

section \<open>The linked list of work items\<close>

definition NUM_ITEMS :: nat where "NUM_ITEMS = 6"
definition NUM_THREADS :: nat where "NUM_THREADS = 2"

record item =
  id_of :: nat
  work :: int
  next_item :: "nat option"

record queue =
  heap :: "nat \<Rightarrow> item option"
  head :: "nat option"
  tail :: "nat option"
  num_items :: int

datatype crash = NullItem | FreedItem

definition remove_item :: "queue \<Rightarrow> crash + (nat option \<times> queue)" where
  "remove_item q =
     (case head q of
        None \<Rightarrow> Inr (None, q)
      | Some a \<Rightarrow>
          (case heap q a of
             None \<Rightarrow> Inl FreedItem
           | Some it \<Rightarrow> Inr (Some a, q\<lparr>head := next_item it, num_items := num_items q - 1\<rparr>)))"

definition add_item :: "queue \<Rightarrow> nat \<Rightarrow> crash + queue" where
  "add_item q a =
     (if head q = None then Inr (q\<lparr>head := Some a, tail := Some a, num_items := num_items q + 1\<rparr>)
      else case tail q of
        None \<Rightarrow> Inl NullItem
      | Some t \<Rightarrow>
          (case heap q t of
             None \<Rightarrow> Inl FreedItem
           | Some it \<Rightarrow> Inr (q\<lparr>heap := (heap q)(t \<mapsto> it\<lparr>next_item := Some a\<rparr>), tail := Some a,
                              num_items := num_items q + 1\<rparr>)))"

text \<open>The addresses on the list, and the list that a queue stands for.\<close>

fun lseg :: "(nat \<Rightarrow> item option) \<Rightarrow> nat option \<Rightarrow> nat list \<Rightarrow> bool" where
  "lseg h p [] \<longleftrightarrow> p = None"
| "lseg h p (a # as) \<longleftrightarrow> p = Some a \<and> (\<exists>it. h a = Some it \<and> lseg h (next_item it) as)"

fun walk :: "(nat \<Rightarrow> item option) \<Rightarrow> nat option \<Rightarrow> nat \<Rightarrow> nat list" where
  "walk h None k = []"
| "walk h (Some a) 0 = []"
| "walk h (Some a) (Suc k) = (case h a of None \<Rightarrow> [] | Some it \<Rightarrow> a # walk h (next_item it) k)"

definition addrs :: "queue \<Rightarrow> nat list" where
  "addrs q = walk (heap q) (head q) (nat (num_items q))"

definition rep :: "queue \<Rightarrow> nat list \<Rightarrow> bool" where
  "rep q as \<longleftrightarrow> lseg (heap q) (head q) as \<and> distinct as
     \<and> (as \<noteq> [] \<longrightarrow> tail q = Some (last as)) \<and> num_items q = int (length as)"

definition wf_queue :: "queue \<Rightarrow> bool" where
  "wf_queue q \<longleftrightarrow> rep q (addrs q)"

lemma lseg_walk: "lseg h p as \<Longrightarrow> walk h p (length as) = as"
  by (induction as arbitrary: p) auto

lemma rep_addrs: "rep q as \<Longrightarrow> addrs q = as"
  by (simp add: rep_def addrs_def lseg_walk)

lemma rep_wf: "rep q as \<Longrightarrow> wf_queue q"
  by (simp add: wf_queue_def rep_addrs)

lemma wf_num_items: "wf_queue q \<Longrightarrow> num_items q = int (length (addrs q))"
  by (simp add: wf_queue_def rep_def)

lemma lseg_in: "lseg h p as \<Longrightarrow> a \<in> set as \<Longrightarrow> h a \<noteq> None"
  by (induction as arbitrary: p) auto

lemma lseg_frame: "(\<And>a. a \<in> set as \<Longrightarrow> h' a = h a) \<Longrightarrow> lseg h' p as = lseg h p as"
  by (induction as arbitrary: p) auto

lemma lseg_snoc:
  "lseg h p as \<Longrightarrow> as \<noteq> [] \<Longrightarrow> distinct as \<Longrightarrow> h (last as) = Some it \<Longrightarrow> h b = Some jt \<Longrightarrow>
     next_item jt = None \<Longrightarrow> b \<notin> set as \<Longrightarrow>
     lseg (h(last as \<mapsto> it\<lparr>next_item := Some b\<rparr>)) p (as @ [b])"
proof (induction as arbitrary: p)
  case Nil
  then show ?case by simp
next
  case (Cons a as)
  obtain at where at: "p = Some a" "h a = Some at" "lseg h (next_item at) as"
    using Cons.prems(1) by auto
  show ?case
  proof (cases "as = []")
    case True
    then show ?thesis using Cons.prems at by auto
  next
    case False
    then have "lseg (h(last as \<mapsto> it\<lparr>next_item := Some b\<rparr>)) (next_item at) (as @ [b])"
      using Cons.prems at by (intro Cons.IH) auto
    moreover have "a \<noteq> last as" using Cons.prems(3) False by auto
    ultimately show ?thesis using at False by (simp add: fun_upd_def)
  qed
qed

lemma remove_item_rep:
  assumes "rep q (a # as)"
  shows "\<exists>it. heap q a = Some it
    \<and> remove_item q = Inr (Some a, q\<lparr>head := next_item it, num_items := num_items q - 1\<rparr>)
    \<and> rep (q\<lparr>head := next_item it, num_items := num_items q - 1\<rparr>) as"
  using assms by (auto simp: rep_def remove_item_def split: if_splits)

lemma remove_item_empty: "rep q [] \<Longrightarrow> remove_item q = Inr (None, q)"
  by (simp add: rep_def remove_item_def)

text \<open>The items keep what they hold when one is added: only the link of the last one changes.\<close>

definition same_items :: "(nat \<Rightarrow> item option) \<Rightarrow> (nat \<Rightarrow> item option) \<Rightarrow> bool" where
  "same_items h h' \<longleftrightarrow> (\<forall>a. map_option (\<lambda>it. (id_of it, work it)) (h' a) = map_option (\<lambda>it. (id_of it, work it)) (h a))"

lemma same_items_None: "same_items h h' \<Longrightarrow> h' a = None \<longleftrightarrow> h a = None"
  unfolding same_items_def by (drule spec [of _ a]) (cases "h' a"; cases "h a"; simp)

lemma add_item_rep:
  assumes "rep q as" "heap q a = Some it" "next_item it = None" "a \<notin> set as"
  shows "\<exists>q'. add_item q a = Inr q' \<and> rep q' (as @ [a]) \<and> same_items (heap q) (heap q')
    \<and> (\<forall>b. b \<notin> set as \<longrightarrow> heap q' b = heap q b)"
proof (cases "as = []")
  case True
  then show ?thesis using assms by (auto simp: rep_def add_item_def same_items_def)
next
  case False
  then have t: "head q \<noteq> None" "tail q = Some (last as)"
    using assms(1) by (auto simp: rep_def neq_Nil_conv)
  obtain lt where lt: "heap q (last as) = Some lt"
    using assms(1) False lseg_in [of "heap q" "head q" as "last as"] by (auto simp: rep_def)
  have "lseg ((heap q)(last as \<mapsto> lt\<lparr>next_item := Some a\<rparr>)) (head q) (as @ [a])"
    using lseg_snoc [of "heap q" "head q" as lt a it] assms False lt by (auto simp: rep_def)
  then show ?thesis using assms t lt False by (auto simp: rep_def add_item_def same_items_def)
qed

definition enq_item :: "queue \<Rightarrow> nat \<Rightarrow> queue" where
  "enq_item q a = (case add_item q a of Inl _ \<Rightarrow> q | Inr q' \<Rightarrow> q')"

definition deq_item :: "queue \<Rightarrow> (nat \<times> queue) option" where
  "deq_item q = (case remove_item q of Inr (Some a, q') \<Rightarrow> Some (a, q') | _ \<Rightarrow> None)"

definition linkable :: "queue \<Rightarrow> nat \<Rightarrow> bool" where
  "linkable q a \<longleftrightarrow> (case heap q a of None \<Rightarrow> False | Some it \<Rightarrow> next_item it = None) \<and> a \<notin> set (addrs q)"

lemma deq_item_rep:
  assumes "wf_queue q" "deq_item q = Some (a, q')"
  shows "rep q (a # addrs q') \<and> rep q' (addrs q')"
proof (cases "addrs q")
  case Nil
  then show ?thesis using assms remove_item_empty [of q] by (simp add: wf_queue_def deq_item_def)
next
  case (Cons b bs)
  then show ?thesis using assms remove_item_rep [of q b bs] rep_addrs
    by (auto simp: wf_queue_def deq_item_def)
qed

interpretation linked: fifo wf_queue addrs linkable enq_item deq_item
proof unfold_locales
  fix q x
  assume "wf_queue q" "linkable q x"
  then obtain it where "rep q (addrs q)" "heap q x = Some it" "next_item it = None" "x \<notin> set (addrs q)"
    by (auto simp: wf_queue_def linkable_def split: option.splits)
  from add_item_rep [OF this] show "wf_queue (enq_item q x)" "addrs (enq_item q x) = addrs q @ [x]"
    by (auto simp: enq_item_def rep_wf rep_addrs)
next
  fix q x q'
  assume "wf_queue q" "deq_item q = Some (x, q')"
  from deq_item_rep [OF this] show "wf_queue q'" "addrs q = x # addrs q'"
    by (auto simp: rep_wf dest: rep_addrs)
next
  fix q
  assume w: "wf_queue q"
  show "deq_item q = None \<longleftrightarrow> addrs q = []"
  proof (cases "addrs q")
    case Nil
    then show ?thesis using w by (simp add: wf_queue_def deq_item_def remove_item_empty)
  next
    case (Cons b bs)
    then show ?thesis using w remove_item_rep [of q b bs] by (auto simp: wf_queue_def deq_item_def)
  qed
qed

section \<open>The contractor and the workers\<close>

text \<open>
  A worker that is asked to cancel ends at its next cancellation point: the two
  \<open>sem_wait\<close> and \<open>pthread_testcancel\<close>; while it works on an item the request stays
  pending. \<open>CPoll\<close> to \<open>CYield\<close> is the loop in which the contractor looks at the length of
  the queue; it leaves it without giving the lock back.
\<close>

datatype wpc = WAvail | WLock | WRemove | WUnlock | WBusy | WTest | WDead
datatype cpc = CMake | CLock | CAdd | CUnlock | CPost | CPoll | CTest | CYield | CCancel | CJoin | CExit

record worker_rec =
  wpc :: wpc
  this_item :: "nat option"

record crew =
  work_queue :: queue
  work_available :: nat
  work_queue_lock :: nat
  workers :: "nat \<Rightarrow> worker_rec"
  cancelled :: "nat \<Rightarrow> bool"
  cpc :: cpc
  ci :: nat
  new_item :: nat
  removed :: "nat list"
  processed :: "nat list"
  crashed :: "crash option"

datatype event = Contractor nat | Spin | Worker nat

definition crew_start :: crew where
  "crew_start = \<lparr>work_queue = \<lparr>heap = (\<lambda>_. None), head = None, tail = None, num_items = 0\<rparr>,
     work_available = 0, work_queue_lock = 1, workers = (\<lambda>_. \<lparr>wpc = WAvail, this_item = None\<rparr>),
     cancelled = (\<lambda>_. False), cpc = CMake, ci = 0, new_item = 0, removed = [], processed = [],
     crashed = None\<rparr>"

text \<open>
  The contractor. \<open>malloc\<close> gives it the free address \<open>a\<close>, and the processing time of item
  \<open>i\<close> is \<open>time i\<close>. A turn of the polling loop that finds work left is the event \<open>Spin\<close>
  at its lock; the other steps are \<open>Contractor\<close>.
\<close>

definition put_item :: "(nat \<Rightarrow> int) \<Rightarrow> nat \<Rightarrow> crew \<Rightarrow> crew option" where
  "put_item time a s =
     (if heap (work_queue s) a \<noteq> None then None
      else Some (s\<lparr>work_queue := (work_queue s)\<lparr>heap := (heap (work_queue s))
                     (a \<mapsto> \<lparr>id_of = ci s, work = time (ci s), next_item = None\<rparr>)\<rparr>,
                   new_item := a, cpc := CLock\<rparr>))"

definition contractor :: "(nat \<Rightarrow> int) \<Rightarrow> bool \<Rightarrow> nat \<Rightarrow> crew \<Rightarrow> crew option" where
  "contractor time spin a s =
     (case cpc s of
        CMake \<Rightarrow> put_item time a s
      | CLock \<Rightarrow> map_option (\<lambda>v. s\<lparr>work_queue_lock := v, cpc := CAdd\<rparr>) (sem_wait (work_queue_lock s))
      | CAdd \<Rightarrow> (case add_item (work_queue s) (new_item s) of
                   Inl c \<Rightarrow> Some (s\<lparr>crashed := Some c\<rparr>)
                 | Inr q \<Rightarrow> Some (s\<lparr>work_queue := q, cpc := CUnlock\<rparr>))
      | CUnlock \<Rightarrow> Some (s\<lparr>work_queue_lock := sem_post (work_queue_lock s), cpc := CPost\<rparr>)
      | CPost \<Rightarrow> Some (s\<lparr>work_available := sem_post (work_available s), ci := ci s + 1,
                         cpc := (if ci s + 1 < NUM_ITEMS then CMake else CPoll)\<rparr>)
      | CPoll \<Rightarrow> if spin = (num_items (work_queue s) > 0)
                 then map_option (\<lambda>v. s\<lparr>work_queue_lock := v, cpc := CTest\<rparr>) (sem_wait (work_queue_lock s))
                 else None
      | CTest \<Rightarrow> if num_items (work_queue s) > 0 then Some (s\<lparr>cpc := CYield\<rparr>)
                 else Some (s\<lparr>cpc := CCancel, ci := 0\<rparr>)
      | CYield \<Rightarrow> Some (s\<lparr>work_queue_lock := sem_post (work_queue_lock s), cpc := CPoll\<rparr>)
      | CCancel \<Rightarrow> Some (s\<lparr>cancelled := (cancelled s)(ci s := True), cpc := CJoin\<rparr>)
      | CJoin \<Rightarrow> if wpc (workers s (ci s)) = WDead
                 then Some (s\<lparr>ci := ci s + 1,
                              cpc := (if ci s + 1 < NUM_THREADS then CCancel else CExit)\<rparr>)
                 else None
      | CExit \<Rightarrow> None)"

definition set_worker :: "nat \<Rightarrow> worker_rec \<Rightarrow> crew \<Rightarrow> crew" where
  "set_worker i w s = s\<lparr>workers := (workers s)(i := w)\<rparr>"

definition worker :: "nat \<Rightarrow> crew \<Rightarrow> crew option" where
  "worker i s =
     (let w = workers s i
      in case wpc w of
        WAvail \<Rightarrow> if cancelled s i then Some (set_worker i (w\<lparr>wpc := WDead\<rparr>) s)
                  else map_option (\<lambda>v. set_worker i (w\<lparr>wpc := WLock\<rparr>) (s\<lparr>work_available := v\<rparr>))
                         (sem_wait (work_available s))
      | WLock \<Rightarrow> if cancelled s i then Some (set_worker i (w\<lparr>wpc := WDead\<rparr>) s)
                 else map_option (\<lambda>v. set_worker i (w\<lparr>wpc := WRemove\<rparr>) (s\<lparr>work_queue_lock := v\<rparr>))
                        (sem_wait (work_queue_lock s))
      | WRemove \<Rightarrow> (case remove_item (work_queue s) of
                      Inl c \<Rightarrow> Some (s\<lparr>crashed := Some c\<rparr>)
                    | Inr (a, q) \<Rightarrow>
                        Some (set_worker i (w\<lparr>wpc := WUnlock, this_item := a\<rparr>)
                          (s\<lparr>work_queue := q, removed := removed s @
                             (case a of None \<Rightarrow> [] | Some b \<Rightarrow> [id_of (the (heap (work_queue s) b))])\<rparr>)))
      | WUnlock \<Rightarrow> Some (set_worker i (w\<lparr>wpc := WBusy\<rparr>)
                     (s\<lparr>work_queue_lock := sem_post (work_queue_lock s)\<rparr>))
      | WBusy \<Rightarrow> (case this_item w of
                    None \<Rightarrow> Some (s\<lparr>crashed := Some NullItem\<rparr>)
                  | Some a \<Rightarrow>
                      (case heap (work_queue s) a of
                         None \<Rightarrow> Some (s\<lparr>crashed := Some FreedItem\<rparr>)
                       | Some it \<Rightarrow>
                           Some (set_worker i (w\<lparr>wpc := WTest\<rparr>)
                             (s\<lparr>work_queue := (work_queue s)\<lparr>heap := (heap (work_queue s))(a := None)\<rparr>,
                                processed := processed s @ [id_of it]\<rparr>))))
      | WTest \<Rightarrow> Some (set_worker i (w\<lparr>wpc := (if cancelled s i then WDead else WAvail)\<rparr>) s)
      | WDead \<Rightarrow> None)"

definition crew_step :: "(nat \<Rightarrow> int) \<Rightarrow> crew \<Rightarrow> event \<Rightarrow> crew option" where
  "crew_step time s e =
     (if crashed s \<noteq> None then None
      else case e of
        Contractor a \<Rightarrow> contractor time False a s
      | Spin \<Rightarrow> if cpc s = CPoll then contractor time True 0 s else None
      | Worker i \<Rightarrow> if i < NUM_THREADS then worker i s else None)"

section \<open>Invariant\<close>

fun w_locks :: "wpc \<Rightarrow> bool" where
  "w_locks WRemove = True" | "w_locks WUnlock = True" | "w_locks _ = False"

fun w_claims :: "wpc \<Rightarrow> bool" where
  "w_claims WLock = True" | "w_claims WRemove = True" | "w_claims _ = False"

fun w_holds :: "wpc \<Rightarrow> bool" where
  "w_holds WUnlock = True" | "w_holds WBusy = True" | "w_holds _ = False"

fun c_locks :: "cpc \<Rightarrow> bool" where
  "c_locks CAdd = True" | "c_locks CUnlock = True" | "c_locks CTest = True" | "c_locks CYield = True"
| "c_locks CCancel = True" | "c_locks CJoin = True" | "c_locks CExit = True" | "c_locks _ = False"

fun c_owes :: "cpc \<Rightarrow> bool" where
  "c_owes CUnlock = True" | "c_owes CPost = True" | "c_owes _ = False"

fun c_new :: "cpc \<Rightarrow> bool" where
  "c_new CLock = True" | "c_new CAdd = True" | "c_new _ = False"

fun c_over :: "cpc \<Rightarrow> bool" where
  "c_over CCancel = True" | "c_over CJoin = True" | "c_over CExit = True" | "c_over _ = False"

fun c_polls :: "cpc \<Rightarrow> bool" where
  "c_polls CPoll = True" | "c_polls CTest = True" | "c_polls CYield = True" | "c_polls _ = False"

definition queued :: "crew \<Rightarrow> nat list" where
  "queued s = addrs (work_queue s)"

definition count_w :: "(wpc \<Rightarrow> bool) \<Rightarrow> crew \<Rightarrow> nat" where
  "count_w P s = cnt (\<lambda>w. P (wpc w)) (workers s) NUM_THREADS"

definition lock_inv :: "crew \<Rightarrow> bool" where
  "lock_inv s \<longleftrightarrow> work_queue_lock s + count_w w_locks s + (if c_locks (cpc s) then 1 else 0) = 1"

definition avail_inv :: "crew \<Rightarrow> bool" where
  "avail_inv s \<longleftrightarrow> wf_queue (work_queue s)
     \<and> length (queued s) = work_available s + count_w w_claims s + (if c_owes (cpc s) then 1 else 0)"

definition made :: "crew \<Rightarrow> nat" where
  "made s = (if c_over (cpc s) \<or> c_polls (cpc s) then NUM_ITEMS
             else ci s + (if c_owes (cpc s) then 1 else 0))"

text \<open>How many workers were asked to cancel, and how many were joined.\<close>

definition asked :: "crew \<Rightarrow> nat" where
  "asked s = (if c_over (cpc s) then ci s + (if cpc s = CJoin then 1 else 0) else 0)"

definition reaped :: "crew \<Rightarrow> nat" where
  "reaped s = (if c_over (cpc s) then ci s else 0)"

definition index_inv :: "crew \<Rightarrow> bool" where
  "index_inv s \<longleftrightarrow>
     (if c_over (cpc s) then queued s = []
        \<and> (if cpc s = CExit then ci s = NUM_THREADS else ci s < NUM_THREADS)
      else c_polls (cpc s) \<or> ci s < NUM_ITEMS)"

definition cancel_inv :: "crew \<Rightarrow> bool" where
  "cancel_inv s \<longleftrightarrow> (\<forall>i. cancelled s i \<longleftrightarrow> i < asked s)
     \<and> (\<forall>i<NUM_THREADS. wpc (workers s i) = WDead \<longrightarrow> cancelled s i)
     \<and> (\<forall>i<reaped s. wpc (workers s i) = WDead)"

definition over_inv :: "crew \<Rightarrow> bool" where
  "over_inv s \<longleftrightarrow> index_inv s \<and> cancel_inv s"

text \<open>Where each allocated item is: on the list, in the hands of one worker, or just made.\<close>

definition held :: "crew \<Rightarrow> nat \<Rightarrow> nat option" where
  "held s i = (if w_holds (wpc (workers s i)) then this_item (workers s i) else None)"

text \<open>
  The cells in use, with multiplicity: those on the list, the one the contractor just made
  and those the workers hold. Every allocated cell is in use in exactly one place, and only
  allocated cells are.
\<close>

definition option_list :: "'a option \<Rightarrow> 'a list" where
  "option_list x = (case x of None \<Rightarrow> [] | Some a \<Rightarrow> [a])"

lemma option_list_simps [simp]: "option_list None = []" "option_list (Some a) = [a]"
  by (simp_all add: option_list_def)

definition cells :: "crew \<Rightarrow> nat multiset" where
  "cells s = mset (queued s) + (if c_new (cpc s) then {#new_item s#} else {#})
     + (\<Sum>i<NUM_THREADS. mset (option_list (held s i)))"

definition new_inv :: "crew \<Rightarrow> bool" where
  "new_inv s \<longleftrightarrow> (c_new (cpc s) \<longrightarrow>
     (\<exists>it. heap (work_queue s) (new_item s) = Some it \<and> next_item it = None \<and> id_of it = ci s))"

definition heap_inv :: "crew \<Rightarrow> bool" where
  "heap_inv s \<longleftrightarrow> (\<forall>a. count (cells s) a = (if heap (work_queue s) a = None then 0 else 1))
     \<and> (\<forall>i<NUM_THREADS. w_holds (wpc (workers s i)) \<longrightarrow> held s i \<noteq> None) \<and> new_inv s"

definition ident :: "crew \<Rightarrow> nat \<Rightarrow> nat" where
  "ident s a = id_of (the (heap (work_queue s) a))"

definition hand :: "crew \<Rightarrow> nat \<Rightarrow> nat multiset" where
  "hand s i = mset (map (ident s) (option_list (held s i)))"

definition data_inv :: "crew \<Rightarrow> bool" where
  "data_inv s \<longleftrightarrow> removed s @ map (ident s) (queued s) = [0..<made s]
     \<and> mset (removed s) = mset (processed s) + (\<Sum>i<NUM_THREADS. hand s i)"

definition crew_inv :: "crew \<Rightarrow> bool" where
  "crew_inv s \<longleftrightarrow> lock_inv s \<and> avail_inv s \<and> over_inv s \<and> heap_inv s \<and> data_inv s \<and> crashed s = None"

section \<open>Each step keeps it\<close>

lemma set_worker_fields [simp]:
  "workers (set_worker i w s) = (workers s)(i := w)" "work_queue (set_worker i w s) = work_queue s"
  "work_available (set_worker i w s) = work_available s"
  "work_queue_lock (set_worker i w s) = work_queue_lock s" "cancelled (set_worker i w s) = cancelled s"
  "cpc (set_worker i w s) = cpc s" "ci (set_worker i w s) = ci s" "new_item (set_worker i w s) = new_item s"
  "removed (set_worker i w s) = removed s" "processed (set_worker i w s) = processed s"
  "crashed (set_worker i w s) = crashed s" "queued (set_worker i w s) = queued s"
  "made (set_worker i w s) = made s" "ident (set_worker i w s) = ident s"
  by (simp_all add: set_worker_def queued_def made_def ident_def fun_eq_iff)

lemma count_w_set [simp]:
  "i < NUM_THREADS \<Longrightarrow> count_w P (set_worker i w s)
     = count_w P s + of_bool (P (wpc w)) - of_bool (P (wpc (workers s i)))"
  by (simp add: count_w_def cnt_set)

lemma count_w_pos: "i < NUM_THREADS \<Longrightarrow> P (wpc (workers s i)) \<Longrightarrow> 0 < count_w P s"
  unfolding count_w_def by (rule cnt_pos)

lemma count_w_fields [simp]:
  "count_w P (s\<lparr>work_queue := x0\<rparr>) = count_w P s" "count_w P (s\<lparr>work_available := x1\<rparr>) = count_w P s"
  "count_w P (s\<lparr>work_queue_lock := x2\<rparr>) = count_w P s" "count_w P (s\<lparr>cancelled := x3\<rparr>) = count_w P s"
  "count_w P (s\<lparr>cpc := x4\<rparr>) = count_w P s" "count_w P (s\<lparr>ci := x5\<rparr>) = count_w P s"
  "count_w P (s\<lparr>new_item := x6\<rparr>) = count_w P s" "count_w P (s\<lparr>removed := x7\<rparr>) = count_w P s"
  "count_w P (s\<lparr>processed := x8\<rparr>) = count_w P s" "count_w P (s\<lparr>crashed := x9\<rparr>) = count_w P s"
  by (simp_all add: count_w_def)

lemma queued_fields [simp]:
  "queued (s\<lparr>work_available := x0\<rparr>) = queued s" "queued (s\<lparr>work_queue_lock := x1\<rparr>) = queued s"
  "queued (s\<lparr>cancelled := x2\<rparr>) = queued s" "queued (s\<lparr>cpc := x3\<rparr>) = queued s"
  "queued (s\<lparr>ci := x4\<rparr>) = queued s" "queued (s\<lparr>new_item := x5\<rparr>) = queued s"
  "queued (s\<lparr>removed := x6\<rparr>) = queued s" "queued (s\<lparr>processed := x7\<rparr>) = queued s"
  "queued (s\<lparr>crashed := x8\<rparr>) = queued s"
  by (simp_all add: queued_def)

lemma ident_fields [simp]:
  "ident (s\<lparr>work_available := x0\<rparr>) = ident s" "ident (s\<lparr>work_queue_lock := x1\<rparr>) = ident s"
  "ident (s\<lparr>cancelled := x2\<rparr>) = ident s" "ident (s\<lparr>cpc := x3\<rparr>) = ident s"
  "ident (s\<lparr>ci := x4\<rparr>) = ident s" "ident (s\<lparr>new_item := x5\<rparr>) = ident s"
  "ident (s\<lparr>removed := x6\<rparr>) = ident s" "ident (s\<lparr>processed := x7\<rparr>) = ident s"
  "ident (s\<lparr>crashed := x8\<rparr>) = ident s"
  by (simp_all add: ident_def fun_eq_iff)

lemma held_fields [simp]:
  "held (s\<lparr>work_queue := x0\<rparr>) = held s" "held (s\<lparr>work_available := x1\<rparr>) = held s"
  "held (s\<lparr>work_queue_lock := x2\<rparr>) = held s" "held (s\<lparr>cancelled := x3\<rparr>) = held s"
  "held (s\<lparr>cpc := x4\<rparr>) = held s" "held (s\<lparr>ci := x5\<rparr>) = held s"
  "held (s\<lparr>new_item := x6\<rparr>) = held s" "held (s\<lparr>removed := x7\<rparr>) = held s"
  "held (s\<lparr>processed := x8\<rparr>) = held s" "held (s\<lparr>crashed := x9\<rparr>) = held s"
  by (simp_all add: held_def fun_eq_iff)

lemma held_set:
  "held (set_worker i w s) = (held s)(i := (if w_holds (wpc w) then this_item w else None))"
  by (simp add: held_def fun_eq_iff)

lemma avail_rep: "avail_inv s \<Longrightarrow> rep (work_queue s) (queued s)"
  by (simp add: avail_inv_def wf_queue_def queued_def)

lemma rep_frame:
  "rep q as \<Longrightarrow> (\<And>a. a \<in> set as \<Longrightarrow> h a = heap q a) \<Longrightarrow> rep (q\<lparr>heap := h\<rparr>) as"
  using lseg_frame [of as h "heap q" "head q"] by (simp add: rep_def)

text \<open>The steps on the queue, as the invariant sees them.\<close>

lemma worker_remove:
  assumes "avail_inv s" "i < NUM_THREADS" "wpc (workers s i) = WRemove"
  shows "\<exists>a as q'. queued s = a # as \<and> rep q' as \<and> heap q' = heap (work_queue s)
    \<and> worker i s = Some (set_worker i ((workers s i)\<lparr>wpc := WUnlock, this_item := Some a\<rparr>)
        (s\<lparr>work_queue := q', removed := removed s @ [ident s a]\<rparr>))"
proof -
  have "0 < length (queued s)"
    using assms(1) count_w_pos [OF assms(2), of w_claims s] assms(3) by (simp add: avail_inv_def)
  then obtain a as where q: "queued s = a # as" by (cases "queued s") auto
  obtain it where it: "heap (work_queue s) a = Some it"
    "remove_item (work_queue s) = Inr (Some a, (work_queue s)\<lparr>head := next_item it,
       num_items := num_items (work_queue s) - 1\<rparr>)"
    "rep ((work_queue s)\<lparr>head := next_item it, num_items := num_items (work_queue s) - 1\<rparr>) as"
    using remove_item_rep [of "work_queue s" a as] avail_rep [OF assms(1)] q by auto
  show ?thesis
    by (rule exI [of _ a], rule exI [of _ as],
      rule exI [of _ "(work_queue s)\<lparr>head := next_item it, num_items := num_items (work_queue s) - 1\<rparr>"])
      (simp add: q it worker_def ident_def assms(3))
qed

lemma cells_queued: "a \<in> set (queued s) \<Longrightarrow> 1 \<le> count (mset (queued s)) a"
  by (simp add: Suc_le_eq)

lemma cells_held:
  assumes "i < NUM_THREADS" "held s i = Some a"
  shows "1 \<le> count (\<Sum>i<NUM_THREADS. mset (option_list (held s i))) a"
proof -
  have "(\<Sum>j<NUM_THREADS. mset (option_list (held s j)))
      = mset (option_list (held s i)) + (\<Sum>j\<in>{..<NUM_THREADS} - {i}. mset (option_list (held s j)))"
    using assms(1) by (simp add: sum.remove)
  then show ?thesis using assms(2) by (simp add: option_list_def)
qed

lemma count_cells:
  "count (cells s) a = count (mset (queued s)) a + (if c_new (cpc s) \<and> a = new_item s then 1 else 0)
     + count (\<Sum>i<NUM_THREADS. mset (option_list (held s i))) a"
  by (simp add: cells_def)

lemma heap_inv_held:
  assumes "heap_inv s" "i < NUM_THREADS" "held s i = Some a"
  shows "heap (work_queue s) a \<noteq> None \<and> a \<notin> set (queued s)"
proof -
  have "count (cells s) a \<le> 1" "count (cells s) a \<noteq> 0 \<longrightarrow> heap (work_queue s) a \<noteq> None"
    using assms(1) by (auto simp: heap_inv_def)
  then show ?thesis
    using cells_held [OF assms(2,3)] cells_queued [of a s] count_cells [of s a] by linarith
qed

lemma heap_inv_new:
  assumes "heap_inv s" "c_new (cpc s)"
  shows "new_item s \<notin> set (queued s)"
proof -
  have "count (cells s) (new_item s) \<le> 1" using assms(1) by (auto simp: heap_inv_def)
  then show ?thesis
    using cells_queued [of "new_item s" s] count_cells [of s "new_item s"] assms(2) by auto
qed

lemma worker_busy:
  assumes "avail_inv s" "heap_inv s" "i < NUM_THREADS" "wpc (workers s i) = WBusy"
  shows "\<exists>a q'. held s i = Some a \<and> rep q' (queued s) \<and> heap q' = (heap (work_queue s))(a := None)
    \<and> worker i s = Some (set_worker i ((workers s i)\<lparr>wpc := WTest\<rparr>)
        (s\<lparr>work_queue := q', processed := processed s @ [ident s a]\<rparr>))"
proof -
  obtain a where h: "held s i = Some a" using assms(2-4) by (auto simp: heap_inv_def)
  obtain it where a: "held s i = Some a" "heap (work_queue s) a = Some it" "a \<notin> set (queued s)"
    using heap_inv_held [OF assms(2,3) h] h by auto
  then have "rep ((work_queue s)\<lparr>heap := (heap (work_queue s))(a := None)\<rparr>) (queued s)"
    using avail_rep [OF assms(1)] by (intro rep_frame) auto
  then show ?thesis using a assms(4)
    by (intro exI conjI) (auto simp: worker_def held_def ident_def)
qed

lemma contractor_make:
  assumes "avail_inv s" "cpc s = CMake" "contractor time sp a s = Some t"
  shows "\<exists>q'. rep q' (queued s) \<and> heap (work_queue s) a = None
    \<and> heap q' = (heap (work_queue s))(a \<mapsto> \<lparr>id_of = ci s, work = time (ci s), next_item = None\<rparr>)
    \<and> t = s\<lparr>work_queue := q', new_item := a, cpc := CLock\<rparr>"
proof -
  have h: "heap (work_queue s) a = None"
    using assms(2,3) by (auto simp: contractor_def put_item_def split: if_splits)
  then have "a \<notin> set (queued s)"
    using avail_rep [OF assms(1)] lseg_in [of "heap (work_queue s)" "head (work_queue s)" "queued s" a]
    by (auto simp: rep_def)
  then have "rep ((work_queue s)\<lparr>heap := (heap (work_queue s))
      (a \<mapsto> \<lparr>id_of = ci s, work = time (ci s), next_item = None\<rparr>)\<rparr>) (queued s)"
    using avail_rep [OF assms(1)] by (intro rep_frame) auto
  then show ?thesis using h assms(2,3) by (intro exI conjI) (auto simp: contractor_def put_item_def)
qed

lemma contractor_add:
  assumes "avail_inv s" "heap_inv s" "cpc s = CAdd"
  shows "\<exists>q'. rep q' (queued s @ [new_item s]) \<and> same_items (heap (work_queue s)) (heap q')
    \<and> (\<forall>b. b \<notin> set (queued s) \<longrightarrow> heap q' b = heap (work_queue s) b)
    \<and> contractor time sp a s = Some (s\<lparr>work_queue := q', cpc := CUnlock\<rparr>)"
proof -
  obtain it where "heap (work_queue s) (new_item s) = Some it" "next_item it = None"
    "new_item s \<notin> set (queued s)"
    using assms(2,3) heap_inv_new [OF assms(2)] by (auto simp: heap_inv_def new_inv_def)
  with add_item_rep [OF avail_rep [OF assms(1)] this] show ?thesis
    using assms(3) by (auto simp: contractor_def)
qed

lemma worker_stepE:
  assumes "avail_inv s" "heap_inv s" "i < NUM_THREADS" "worker i s = Some t"
  obtains
    (Cancel) "cancelled s i" "wpc (workers s i) \<in> {WAvail, WLock, WTest}"
      "t = set_worker i ((workers s i)\<lparr>wpc := WDead\<rparr>) s"
  | (Avail) v where "wpc (workers s i) = WAvail" "\<not> cancelled s i" "work_available s = Suc v"
      "t = set_worker i ((workers s i)\<lparr>wpc := WLock\<rparr>) (s\<lparr>work_available := v\<rparr>)"
  | (Lock) v where "wpc (workers s i) = WLock" "\<not> cancelled s i" "work_queue_lock s = Suc v"
      "t = set_worker i ((workers s i)\<lparr>wpc := WRemove\<rparr>) (s\<lparr>work_queue_lock := v\<rparr>)"
  | (Remove) a as q' where "wpc (workers s i) = WRemove" "queued s = a # as" "rep q' as"
      "heap q' = heap (work_queue s)"
      "t = set_worker i ((workers s i)\<lparr>wpc := WUnlock, this_item := Some a\<rparr>)
        (s\<lparr>work_queue := q', removed := removed s @ [ident s a]\<rparr>)"
  | (Unlock) "wpc (workers s i) = WUnlock"
      "t = set_worker i ((workers s i)\<lparr>wpc := WBusy\<rparr>) (s\<lparr>work_queue_lock := Suc (work_queue_lock s)\<rparr>)"
  | (Busy) a q' where "wpc (workers s i) = WBusy" "held s i = Some a" "rep q' (queued s)"
      "heap q' = (heap (work_queue s))(a := None)"
      "t = set_worker i ((workers s i)\<lparr>wpc := WTest\<rparr>)
        (s\<lparr>work_queue := q', processed := processed s @ [ident s a]\<rparr>)"
  | (Test) "wpc (workers s i) = WTest" "\<not> cancelled s i"
      "t = set_worker i ((workers s i)\<lparr>wpc := WAvail\<rparr>) s"
proof (cases "wpc (workers s i)")
  case WAvail
  show ?thesis
  proof (cases "cancelled s i")
    case True
    then show ?thesis using assms(4) WAvail by (intro Cancel) (simp_all add: worker_def)
  next
    case False
    then obtain v where "work_available s = Suc v" using assms(4) WAvail
      by (auto simp: worker_def step_simps)
    then show ?thesis using assms(4) WAvail False by (intro Avail) (auto simp: worker_def sem_wait_def)
  qed
next
  case WLock
  show ?thesis
  proof (cases "cancelled s i")
    case True
    then show ?thesis using assms(4) WLock by (intro Cancel) (simp_all add: worker_def)
  next
    case False
    then obtain v where "work_queue_lock s = Suc v" using assms(4) WLock
      by (auto simp: worker_def step_simps)
    then show ?thesis using assms(4) WLock False by (intro Lock) (auto simp: worker_def sem_wait_def)
  qed
next
  case WRemove
  from worker_remove [OF assms(1,3) this] obtain a as q' where r: "queued s = a # as" "rep q' as"
    "heap q' = heap (work_queue s)"
    "worker i s = Some (set_worker i ((workers s i)\<lparr>wpc := WUnlock, this_item := Some a\<rparr>)
        (s\<lparr>work_queue := q', removed := removed s @ [ident s a]\<rparr>))" by blast
  show ?thesis by (rule Remove [OF WRemove r(1-3)]) (use r(4) assms(4) in simp)
next
  case WUnlock
  then show ?thesis using assms(4) by (intro Unlock) (simp_all add: worker_def sem_post_def)
next
  case WBusy
  from worker_busy [OF assms(1-3) this] obtain a q' where r: "held s i = Some a" "rep q' (queued s)"
    "heap q' = (heap (work_queue s))(a := None)"
    "worker i s = Some (set_worker i ((workers s i)\<lparr>wpc := WTest\<rparr>)
        (s\<lparr>work_queue := q', processed := processed s @ [ident s a]\<rparr>))" by blast
  show ?thesis by (rule Busy [OF WBusy r(1-3)]) (use r(4) assms(4) in simp)
next
  case WTest
  show ?thesis
  proof (cases "cancelled s i")
    case True
    then show ?thesis using assms(4) WTest by (intro Cancel) (simp_all add: worker_def)
  next
    case False
    then show ?thesis using assms(4) WTest by (intro Test) (simp_all add: worker_def)
  qed
next
  case WDead
  then show ?thesis using assms(4) by (simp add: worker_def)
qed

lemma contractor_stepE:
  assumes "avail_inv s" "heap_inv s" "contractor time sp a s = Some t"
  obtains
    (Make) q' where "cpc s = CMake" "rep q' (queued s)" "heap (work_queue s) a = None"
      "heap q' = (heap (work_queue s))(a \<mapsto> \<lparr>id_of = ci s, work = time (ci s), next_item = None\<rparr>)"
      "t = s\<lparr>work_queue := q', new_item := a, cpc := CLock\<rparr>"
  | (Lock) v where "cpc s = CLock" "work_queue_lock s = Suc v" "t = s\<lparr>work_queue_lock := v, cpc := CAdd\<rparr>"
  | (Add) q' where "cpc s = CAdd" "rep q' (queued s @ [new_item s])"
      "same_items (heap (work_queue s)) (heap q')"
      "\<forall>b. b \<notin> set (queued s) \<longrightarrow> heap q' b = heap (work_queue s) b"
      "t = s\<lparr>work_queue := q', cpc := CUnlock\<rparr>"
  | (Unlock) "cpc s = CUnlock" "t = s\<lparr>work_queue_lock := Suc (work_queue_lock s), cpc := CPost\<rparr>"
  | (Post) "cpc s = CPost" "t = s\<lparr>work_available := Suc (work_available s), ci := ci s + 1,
       cpc := (if ci s + 1 < NUM_ITEMS then CMake else CPoll)\<rparr>"
  | (Poll) v where "cpc s = CPoll" "sp = (queued s \<noteq> [])" "work_queue_lock s = Suc v"
      "t = s\<lparr>work_queue_lock := v, cpc := CTest\<rparr>"
  | (Yes) "cpc s = CTest" "queued s \<noteq> []" "t = s\<lparr>cpc := CYield\<rparr>"
  | (No) "cpc s = CTest" "queued s = []" "t = s\<lparr>cpc := CCancel, ci := 0\<rparr>"
  | (Yield) "cpc s = CYield" "t = s\<lparr>work_queue_lock := Suc (work_queue_lock s), cpc := CPoll\<rparr>"
  | (Cancel) "cpc s = CCancel" "t = s\<lparr>cancelled := (cancelled s)(ci s := True), cpc := CJoin\<rparr>"
  | (Join) "cpc s = CJoin" "wpc (workers s (ci s)) = WDead"
      "t = s\<lparr>ci := ci s + 1, cpc := (if ci s + 1 < NUM_THREADS then CCancel else CExit)\<rparr>"
proof -
  have n: "(num_items (work_queue s) > 0) = (queued s \<noteq> [])"
    using avail_rep [OF assms(1)] by (simp add: rep_def)
  show ?thesis
  proof (cases "cpc s")
    case CMake
    with contractor_make [OF assms(1) _ assms(3)] Make show ?thesis by blast
  next
    case CAdd
    with contractor_add [OF assms(1,2), of time sp a] assms(3) Add show ?thesis by fastforce
  next
    case CPoll
    with assms(3) Poll show ?thesis
      by (auto simp: contractor_def n step_simps split: if_splits)
  next
    case CTest
    with assms(3) Yes No show ?thesis by (simp add: contractor_def n split: if_splits)
  next
    case CLock
    with assms(3) Lock show ?thesis by (auto simp: contractor_def step_simps)
  next
    case CJoin
    with assms(3) Join show ?thesis by (simp add: contractor_def split: if_splits)
  qed (use assms(3) in \<open>simp_all add: contractor_def sem_post_def Unlock Post Yield Cancel\<close>)
qed

lemma lock_inv_worker:
  assumes "avail_inv s" "heap_inv s" "i < NUM_THREADS" "worker i s = Some t" "lock_inv s"
  shows "lock_inv t"
  using assms(1-4) by (cases rule: worker_stepE)
    (use assms(3,5) count_w_pos [OF assms(3), of w_locks s] in \<open>auto simp: lock_inv_def\<close>)

lemma lock_inv_contractor:
  assumes "avail_inv s" "heap_inv s" "contractor time sp a s = Some t" "lock_inv s"
  shows "lock_inv t"
  using assms(1-3) by (cases rule: contractor_stepE) (use assms(4) in \<open>auto simp: lock_inv_def\<close>)

lemma avail_inv_worker:
  assumes "avail_inv s" "heap_inv s" "i < NUM_THREADS" "worker i s = Some t" "over_inv s"
  shows "avail_inv t"
  using assms(1-4)
proof (cases rule: worker_stepE)
  case Cancel
  then have "0 < asked s" using assms(5) by (auto simp: over_inv_def cancel_inv_def)
  then have "queued s = []" using assms(5) by (auto simp: over_inv_def index_inv_def asked_def split: if_splits)
  then have "count_w w_claims s = 0" "work_available s = 0" "\<not> c_owes (cpc s)"
    using assms(1) by (auto simp: avail_inv_def split: if_splits)
  then have "\<not> w_claims (wpc (workers s i))" using count_w_pos [OF assms(3), of w_claims s] by auto
  then show ?thesis using Cancel assms(1,3) by (simp add: avail_inv_def)
qed (use assms(1,3) count_w_pos [OF assms(3), of w_claims s] rep_addrs rep_wf in
      \<open>auto simp: avail_inv_def queued_def\<close>)

lemma avail_inv_contractor:
  assumes "avail_inv s" "heap_inv s" "contractor time sp a s = Some t"
  shows "avail_inv t"
  using assms(1,2,3) by (cases rule: contractor_stepE)
    (use assms(1) rep_addrs rep_wf in \<open>auto simp: avail_inv_def queued_def\<close>)

lemma over_inv_worker:
  assumes "avail_inv s" "heap_inv s" "i < NUM_THREADS" "worker i s = Some t" "over_inv s"
  shows "over_inv t"
proof -
  have f: "cpc t = cpc s" "ci t = ci s" "cancelled t = cancelled s" "queued s = [] \<longrightarrow> queued t = []"
    using assms(1-4) by (cases rule: worker_stepE; use rep_addrs in \<open>auto simp: queued_def\<close>)+
  have d: "wpc (workers s j) = WDead \<Longrightarrow> wpc (workers t j) = WDead"
    "wpc (workers t j) = WDead \<Longrightarrow> wpc (workers s j) = WDead \<or> cancelled s j" for j
    using assms(1-4) by (cases rule: worker_stepE; auto split: if_splits)+
  have "index_inv t" using assms(5) f unfolding over_inv_def index_inv_def by auto
  moreover have "asked t = asked s" "reaped t = reaped s" by (simp_all add: asked_def reaped_def f)
  then have "cancel_inv t" using assms(5) d unfolding over_inv_def cancel_inv_def f(3) by metis
  ultimately show ?thesis by (simp add: over_inv_def)
qed

lemma index_inv_contractor:
  assumes "avail_inv s" "heap_inv s" "contractor time sp a s = Some t" "index_inv s"
  shows "index_inv t"
  using assms(1-3) by (cases rule: contractor_stepE)
    (use assms(4) in \<open>auto simp: index_inv_def NUM_THREADS_def\<close>)

lemma cancel_inv_cong:
  "asked t = asked s \<Longrightarrow> reaped t = reaped s \<Longrightarrow> workers t = workers s \<Longrightarrow>
     cancelled t = cancelled s \<Longrightarrow> cancel_inv t = cancel_inv s"
  by (simp add: cancel_inv_def)

lemma cancel_inv_contractor:
  assumes "avail_inv s" "heap_inv s" "contractor time sp a s = Some t" "cancel_inv s"
  shows "cancel_inv t"
  using assms(1-3)
proof (cases rule: contractor_stepE)
  case Cancel
  then have "asked t = Suc (asked s)" "asked s = ci s" "reaped t = reaped s" "workers t = workers s"
    by (simp_all add: asked_def reaped_def)
  moreover have "cancelled t j \<longleftrightarrow> j = ci s \<or> cancelled s j" for j using Cancel by simp
  ultimately show ?thesis using assms(4) by (auto simp: cancel_inv_def less_Suc_eq)
next
  case Join
  then have "asked t = asked s" "reaped t = Suc (reaped s)" "reaped s = ci s" "workers t = workers s"
    "cancelled t = cancelled s" by (simp_all add: asked_def reaped_def)
  with assms(4) Join(2) show ?thesis by (auto simp: cancel_inv_def less_Suc_eq)
qed (subst cancel_inv_cong; use assms(4) in \<open>simp add: asked_def reaped_def\<close>)+

lemma held_same:
  "\<not> w_holds (wpc (workers s i)) \<Longrightarrow> (held s)(i := None) = held s"
  by (simp add: held_def fun_eq_iff)

lemma held_still:
  "w_holds (wpc (workers s i)) \<Longrightarrow> (held s)(i := this_item (workers s i)) = held s"
  by (simp add: held_def fun_eq_iff)

lemma queued_rep: "rep (work_queue t) as \<Longrightarrow> queued t = as"
  by (simp add: queued_def rep_addrs)

lemma hands_change:
  assumes "i < NUM_THREADS" "held t = (held s)(i := x)"
  shows "(\<Sum>j<NUM_THREADS. mset (option_list (held t j))) + mset (option_list (held s i))
    = (\<Sum>j<NUM_THREADS. mset (option_list (held s j))) + mset (option_list x)"
  using sum_change [OF assms(1), of "\<lambda>j. mset (option_list (held t j))" "\<lambda>j. mset (option_list (held s j))"]
  by (simp add: assms(2))

lemma heap_inv_cong:
  assumes "heap_inv s" "cells t = cells s" "dom (heap (work_queue t)) = dom (heap (work_queue s))"
    "\<And>i. i < NUM_THREADS \<Longrightarrow> w_holds (wpc (workers t i)) \<Longrightarrow> held t i \<noteq> None" "new_inv t"
  shows "heap_inv t"
proof -
  have "heap (work_queue t) a = None \<longleftrightarrow> heap (work_queue s) a = None" for a
    using assms(3) by (metis domIff)
  then show ?thesis using assms(1,2,4,5) by (simp add: heap_inv_def)
qed

lemma holds_keep:
  assumes "heap_inv s" "i < NUM_THREADS" "w_holds (wpc (workers s i))"
  shows "\<exists>a. held s i = Some a"
  using assms by (simp add: heap_inv_def)

lemma heap_inv_quiet:
  assumes "heap_inv s" "held t = held s" "queued t = queued s" "work_queue t = work_queue s"
    "c_new (cpc t) = c_new (cpc s)" "new_item t = new_item s" "ci t = ci s \<or> \<not> c_new (cpc s)"
    "\<And>i. w_holds (wpc (workers t i)) = w_holds (wpc (workers s i))"
  shows "heap_inv t"
proof (rule heap_inv_cong [OF assms(1)])
  show "cells t = cells s" by (simp add: cells_def assms)
  show "new_inv t" using assms(1,7) unfolding heap_inv_def new_inv_def assms(4,5,6) by auto
  show "held t i \<noteq> None" if "i < NUM_THREADS" "w_holds (wpc (workers t i))" for i
    using that holds_keep [OF assms(1)] by (simp add: assms(2,8))
qed (simp add: assms)

lemma held_quiet:
  "\<not> w_holds (wpc (workers s i)) \<Longrightarrow> \<not> w_holds (wpc w) \<Longrightarrow> held (set_worker i w s) = held s"
  by (auto simp: held_def fun_eq_iff)

lemma heap_inv_worker:
  assumes "avail_inv s" "heap_inv s" "i < NUM_THREADS" "worker i s = Some t"
  shows "heap_inv t"
  using assms
proof (cases rule: worker_stepE)
  case (Remove a as q')
  have h: "held t = (held s)(i := Some a)" "held s i = None"
    using Remove by (auto simp: held_set held_def)
  have q: "queued t = as" "heap (work_queue t) = heap (work_queue s)" using Remove by (simp_all add: queued_rep)
  have c: "cells t = cells s"
    using hands_change [OF assms(3) h(1)] h(2) q(1) Remove by (simp add: cells_def option_list_def)
  show ?thesis
  proof (rule heap_inv_cong [OF assms(2) c])
    show "new_inv t" using assms(2) Remove q(2) by (simp add: new_inv_def heap_inv_def)
    show "held t j \<noteq> None" if "j < NUM_THREADS" "w_holds (wpc (workers t j))" for j
      using that Remove h holds_keep [OF assms(2) that(1)] by (auto split: if_splits)
  qed (simp add: q)
next
  case (Busy a q')
  have h: "held t = (held s)(i := None)" using Busy by (auto simp: held_set)
  have q: "queued t = queued s" "heap (work_queue t) = (heap (work_queue s))(a := None)"
    using Busy by (simp_all add: queued_rep)
  have c: "cells s = add_mset a (cells t)"
    using hands_change [OF assms(3) h] q(1) Busy by (simp add: cells_def option_list_def)
  have n: "new_inv t"
  proof (cases "c_new (cpc s)")
    case True
    have "count (cells s) a \<le> 1" using assms(2) by (auto simp: heap_inv_def)
    then have "(if c_new (cpc s) \<and> a = new_item s then 1 else 0) = (0::nat)"
      using cells_held [OF assms(3) Busy(2)] count_cells [of s a] by linarith
    then have "new_item s \<noteq> a" using True by (simp split: if_splits)
    then show ?thesis using assms(2) Busy q(2) by (simp add: new_inv_def heap_inv_def)
  next
    case False
    then show ?thesis using Busy by (simp add: new_inv_def)
  qed
  have k: "count (cells s) b = (if heap (work_queue s) b = None then 0 else 1)" for b
    using assms(2) by (simp add: heap_inv_def)
  have "count (cells t) b = (if heap (work_queue t) b = None then 0 else 1)" for b
    using k [of b] unfolding c q(2) by (cases "b = a") (auto split: if_splits)
  moreover have "\<forall>i<NUM_THREADS. w_holds (wpc (workers t i)) \<longrightarrow> held t i \<noteq> None"
    unfolding h using Busy(5) holds_keep [OF assms(2)] by (simp add: fun_upd_apply)
  ultimately show ?thesis using n unfolding heap_inv_def by blast
next
  case Cancel
  then show ?thesis by (intro heap_inv_quiet [OF assms(2)]) (auto simp: held_quiet)
next
  case Unlock
  then show ?thesis by (intro heap_inv_quiet [OF assms(2)]) (auto simp: held_set held_still)
qed (rule heap_inv_quiet [OF assms(2)]; simp add: held_quiet)+

lemma heap_inv_contractor:
  assumes "avail_inv s" "heap_inv s" "contractor time sp a s = Some t"
  shows "heap_inv t"
  using assms
proof (cases rule: contractor_stepE)
  case (Make q')
  have q: "queued t = queued s" "held t = held s" "heap (work_queue t)
      = (heap (work_queue s))(a \<mapsto> \<lparr>id_of = ci s, work = time (ci s), next_item = None\<rparr>)"
    using Make by (simp_all add: queued_rep)
  then have c: "cells t = add_mset a (cells s)" using Make by (simp add: cells_def)
  have k: "count (cells s) b = (if heap (work_queue s) b = None then 0 else 1)" for b
    using assms(2) by (simp add: heap_inv_def)
  have "count (cells t) b = (if heap (work_queue t) b = None then 0 else 1)" for b
    using k [of b] Make(3) unfolding c q(3) by (cases "b = a") auto
  moreover have "new_inv t" using q(3) Make by (simp add: new_inv_def)
  moreover have "\<forall>i<NUM_THREADS. w_holds (wpc (workers t i)) \<longrightarrow> held t i \<noteq> None"
    using Make(5) holds_keep [OF assms(2)] by (simp add: q(2))
  ultimately show ?thesis unfolding heap_inv_def by blast
next
  case (Add q')
  have "queued t = queued s @ [new_item s]" using Add by (simp add: queued_rep)
  then have c: "cells t = cells s" using Add by (simp add: cells_def)
  have "heap q' b = None \<longleftrightarrow> heap (work_queue s) b = None" for b
    using Add(3) by (rule same_items_None)
  then have "dom (heap (work_queue t)) = dom (heap (work_queue s))"
    using Add(5) by (auto simp: dom_def)
  from heap_inv_cong [OF assms(2) c this] show ?thesis
    using holds_keep [OF assms(2)] Add by (simp add: new_inv_def)
qed (rule heap_inv_quiet [OF assms(2)]; simp)+

text \<open>The identifiers, in order, and those in the workers' hands.\<close>

lemma hand_change:
  assumes "i < NUM_THREADS" "\<And>j. j \<noteq> i \<Longrightarrow> hand t j = hand s j"
  shows "(\<Sum>j<NUM_THREADS. hand t j) + hand s i = (\<Sum>j<NUM_THREADS. hand s j) + hand t i"
  using sum_change [OF assms(1), of "hand t" "hand s"] assms(2) by simp

lemma data_inv_cong:
  assumes "data_inv s" "removed t = removed s" "processed t = processed s" "queued t = queued s"
    "made t = made s" "\<And>j. j < NUM_THREADS \<Longrightarrow> hand t j = hand s j"
    "\<And>a. a \<in> set (queued s) \<Longrightarrow> ident t a = ident s a"
  shows "data_inv t"
proof -
  have "map (ident t) (queued s) = map (ident s) (queued s)" using assms(7) by (intro map_cong) auto
  moreover have "(\<Sum>j<NUM_THREADS. hand t j) = (\<Sum>j<NUM_THREADS. hand s j)"
    using assms(6) by (rule sum_same)
  ultimately show ?thesis using assms(1) unfolding data_inv_def assms(2-5) by (simp only:)
qed

lemma hand_fields [simp]:
  "hand (s\<lparr>work_available := x\<rparr>) = hand s" "hand (s\<lparr>work_queue_lock := x\<rparr>) = hand s"
  "hand (s\<lparr>cancelled := x2\<rparr>) = hand s" "hand (s\<lparr>cpc := x3\<rparr>) = hand s" "hand (s\<lparr>ci := x\<rparr>) = hand s"
  "hand (s\<lparr>new_item := x\<rparr>) = hand s" "hand (s\<lparr>removed := x4\<rparr>) = hand s" "hand (s\<lparr>processed := x4\<rparr>) = hand s"
  by (simp_all add: hand_def fun_eq_iff)

lemma hand_same_cells:
  "held t j = held s j \<Longrightarrow> (\<And>a. held s j = Some a \<Longrightarrow> ident t a = ident s a) \<Longrightarrow> hand t j = hand s j"
  by (cases "held s j") (simp_all add: hand_def)

lemma hand_quiet:
  "\<not> w_holds (wpc (workers s i)) \<Longrightarrow> \<not> w_holds (wpc w) \<Longrightarrow> hand (set_worker i w s) = hand s"
  by (simp add: hand_def held_quiet fun_eq_iff)

lemma held_cells:
  assumes "heap_inv s" "i < NUM_THREADS" "j < NUM_THREADS" "held s i = Some a" "held s j = Some a"
  shows "i = j"
proof (rule ccontr)
  assume "i \<noteq> j"
  define f where "f = (\<lambda>k. mset (option_list (held s k)))"
  have "sum f {..<NUM_THREADS} = f i + sum f ({..<NUM_THREADS} - {i})"
    using assms(2) by (simp add: sum.remove)
  also have "sum f ({..<NUM_THREADS} - {i}) = f j + sum f ({..<NUM_THREADS} - {i} - {j})"
    using assms(3) \<open>i \<noteq> j\<close> by (intro sum.remove) auto
  finally have "2 \<le> count (sum f {..<NUM_THREADS}) a"
    using assms(4,5) by (simp add: f_def)
  moreover have "count (cells s) a \<le> 1" using assms(1) by (auto simp: heap_inv_def)
  ultimately show False using count_cells [of s a] unfolding f_def by linarith
qed

lemma data_inv_worker:
  assumes "avail_inv s" "heap_inv s" "i < NUM_THREADS" "worker i s = Some t" "data_inv s"
  shows "data_inv t"
  using assms(1-4)
proof (cases rule: worker_stepE)
  case Cancel
  then show ?thesis by (intro data_inv_cong [OF assms(5)]) (auto simp: hand_quiet)
next
  case (Remove a as q')
  have i: "ident t = ident s" using Remove by (simp add: ident_def fun_eq_iff)
  have h: "held t = (held s)(i := Some a)" "held s i = None"
    using Remove by (auto simp: held_set held_def)
  have "hand t j = hand s j" if "j \<noteq> i" for j using that h i by (simp add: hand_def)
  from hand_change [OF assms(3) this] h i
  have "(\<Sum>j<NUM_THREADS. hand t j) = add_mset (ident s a) (\<Sum>j<NUM_THREADS. hand s j)"
    by (simp add: hand_def)
  moreover have "queued t = as" "made t = made s" using Remove by (simp_all add: queued_rep made_def)
  moreover have "removed t = removed s @ [ident s a]" "processed t = processed s" using Remove by simp_all
  ultimately show ?thesis using assms(5) Remove(2) i by (simp add: data_inv_def)
next
  case Unlock
  then have e: "held t = held s" "ident t = ident s" by (auto simp: held_set held_still)
  have "hand t = hand s" by (rule ext) (simp add: hand_def e)
  then show ?thesis using Unlock by (intro data_inv_cong [OF assms(5)]) (auto simp: made_def)
next
  case (Busy a q')
  note a = heap_inv_held [OF assms(2,3) Busy(2)]
  have i: "ident t b = ident s b" if "b \<noteq> a" for b using Busy that by (simp add: ident_def)
  have h: "held t = (held s)(i := None)" using Busy by (auto simp: held_set)
  have "hand t j = hand s j" if j: "j < NUM_THREADS" "j \<noteq> i" for j
  proof (rule hand_same_cells)
    show "held t j = held s j" using j(2) h by simp
    show "ident t b = ident s b" if "held s j = Some b" for b
      by (rule i) (use held_cells [OF assms(2) j(1) assms(3)] that Busy(2) j(2) in auto)
  qed
  then have "(\<Sum>j<NUM_THREADS. hand t j) + hand s i = (\<Sum>j<NUM_THREADS. hand s j) + hand t i"
    using sum_change [OF assms(3), of "hand t" "hand s"] by blast
  then have e: "(\<Sum>j<NUM_THREADS. hand s j) = add_mset (ident s a) (\<Sum>j<NUM_THREADS. hand t j)"
    using h Busy(2) by (simp add: hand_def)
  have "queued t = queued s" "made t = made s" using Busy by (simp_all add: queued_rep made_def)
  moreover have m: "map (ident t) (queued s) = map (ident s) (queued s)"
  proof (intro map_cong refl)
    show "ident t b = ident s b" if "b \<in> set (queued s)" for b by (rule i) (use a that in auto)
  qed
  moreover have "removed t = removed s" "processed t = processed s @ [ident s a]" using Busy by simp_all
  moreover have "mset (removed s) = mset (processed s @ [ident s a]) + (\<Sum>j<NUM_THREADS. hand t j)"
    using assms(5) e by (simp add: data_inv_def)
  ultimately show ?thesis using assms(5) unfolding data_inv_def by (simp only:)
qed (rule data_inv_cong [OF assms(5)]; simp add: hand_quiet made_def)+

lemma ident_same_items:
  assumes "same_items (heap (work_queue s)) (heap (work_queue t))"
  shows "ident t = ident s"
proof
  fix a
  have "map_option (\<lambda>it. (id_of it, work it)) (heap (work_queue t) a)
      = map_option (\<lambda>it. (id_of it, work it)) (heap (work_queue s) a)"
    using assms unfolding same_items_def by blast
  then show "ident t a = ident s a"
    by (cases "heap (work_queue t) a"; cases "heap (work_queue s) a") (simp_all add: ident_def)
qed

lemma data_inv_contractor:
  assumes "avail_inv s" "heap_inv s" "index_inv s" "contractor time sp a s = Some t" "data_inv s"
  shows "data_inv t"
  using assms(1,2,4)
proof (cases rule: contractor_stepE)
  case (Make q')
  have i: "ident t b = ident s b" if "b \<noteq> a" for b using Make that by (simp add: ident_def)
  have h: "held t = held s" using Make by simp
  have "a \<notin> set (queued s)"
    using avail_rep [OF assms(1)] lseg_in [of "heap (work_queue s)" "head (work_queue s)" "queued s" a] Make(3)
    by (auto simp: rep_def)
  moreover have "hand t j = hand s j" if "j < NUM_THREADS" for j
  proof (rule hand_same_cells)
    show "ident t b = ident s b" if "held s j = Some b" for b
      using heap_inv_held [OF assms(2) \<open>j < NUM_THREADS\<close> that] Make(3) by (intro i) auto
  qed (simp add: h)
  moreover have "queued t = queued s" "made t = made s" "removed t = removed s" "processed t = processed s"
    using Make by (simp_all add: queued_rep made_def)
  moreover have "ident t b = ident s b" if "b \<in> set (queued s)" for b
    using i that \<open>a \<notin> set (queued s)\<close> by metis
  ultimately show ?thesis by (intro data_inv_cong [OF assms(5)])
next
  case (Add q')
  have i: "ident t = ident s" using Add by (intro ident_same_items) simp
  have "held t = held s" using Add(5) by simp
  then have h: "hand t = hand s" by (intro ext) (simp add: hand_def i)
  have "ident s (new_item s) = ci s" "made s = ci s" "made t = Suc (ci s)" "queued t = queued s @ [new_item s]"
    using assms(2) Add by (auto simp: heap_inv_def new_inv_def ident_def made_def queued_rep)
  moreover have "removed t = removed s" "processed t = processed s" using Add by simp_all
  ultimately show ?thesis using assms(5) i h by (simp add: data_inv_def)
next
  case Post
  then have "ci s < NUM_ITEMS" using assms(3) by (simp add: index_inv_def)
  then show ?thesis using Post by (intro data_inv_cong [OF assms(5)]) (auto simp: made_def)
next
  case Join
  then show ?thesis by (intro data_inv_cong [OF assms(5)]) (auto simp: made_def)
qed (rule data_inv_cong [OF assms(5)]; simp add: made_def)+

lemma crew_inv_start: "crew_inv crew_start"
  by (simp add: crew_inv_def crew_start_def lock_inv_def avail_inv_def over_inv_def index_inv_def
    cancel_inv_def heap_inv_def new_inv_def data_inv_def cells_def hand_def held_def count_w_def cnt_const
    wf_queue_def rep_def addrs_def queued_def made_def asked_def reaped_def NUM_ITEMS_def)

lemma crew_inv_worker:
  assumes "crew_inv s" "i < NUM_THREADS" "worker i s = Some t"
  shows "crew_inv t"
proof -
  have i: "avail_inv s" "heap_inv s" "lock_inv s" "over_inv s" "data_inv s" "crashed s = None"
    using assms(1) by (auto simp: crew_inv_def)
  note a = i(1,2) assms(2,3)
  have "crashed t = None" using a by (cases rule: worker_stepE) (simp_all add: i(6))
  then show ?thesis
    using lock_inv_worker [OF a i(3)] avail_inv_worker [OF a i(4)] over_inv_worker [OF a i(4)]
      heap_inv_worker [OF a] data_inv_worker [OF a i(5)] by (simp add: crew_inv_def)
qed

lemma crew_inv_contractor:
  assumes "crew_inv s" "contractor time sp a s = Some t"
  shows "crew_inv t"
proof -
  have i: "avail_inv s" "heap_inv s" "lock_inv s" "index_inv s" "cancel_inv s" "data_inv s" "crashed s = None"
    using assms(1) by (auto simp: crew_inv_def over_inv_def)
  note a = i(1,2) assms(2)
  have "crashed t = None" using a by (cases rule: contractor_stepE) (simp_all add: i(7))
  then show ?thesis
    using lock_inv_contractor [OF a i(3)] avail_inv_contractor [OF a] index_inv_contractor [OF a i(4)]
      cancel_inv_contractor [OF a i(5)] heap_inv_contractor [OF a]
      data_inv_contractor [OF i(1,2,4) assms(2) i(6)] by (simp add: crew_inv_def over_inv_def)
qed

lemma crew_stepE:
  assumes "crew_step time s e = Some t"
  obtains a where "e = Contractor a" "contractor time False a s = Some t"
  | "e = Spin" "cpc s = CPoll" "contractor time True 0 s = Some t"
  | i where "e = Worker i" "i < NUM_THREADS" "worker i s = Some t"
  using assms by (cases e) (auto simp: crew_step_def split: if_splits)

lemma crew_inv_step: "crew_inv s \<Longrightarrow> crew_step time s e = Some t \<Longrightarrow> crew_inv t"
  by (erule crew_stepE) (auto dest: crew_inv_contractor crew_inv_worker)

section \<open>The crew can always finish\<close>

text \<open>The moves other than a fruitless look at the queue.\<close>

definition busy_step :: "event \<Rightarrow> bool" where
  "busy_step e \<longleftrightarrow> e \<noteq> Spin"

fun w_weight :: "wpc \<Rightarrow> nat" where
  "w_weight WLock = 6" | "w_weight WRemove = 5" | "w_weight WUnlock = 4" | "w_weight WBusy = 3"
| "w_weight WTest = 2" | "w_weight WAvail = 1" | "w_weight WDead = 0"

definition c_weight :: "crew \<Rightarrow> nat" where
  "c_weight s =
     (case cpc s of
        CMake \<Rightarrow> 20 * (NUM_ITEMS - ci s) + 115 | CLock \<Rightarrow> 20 * (NUM_ITEMS - ci s) + 114
      | CAdd \<Rightarrow> 20 * (NUM_ITEMS - ci s) + 113 | CUnlock \<Rightarrow> 20 * (NUM_ITEMS - ci s) + 112
      | CPost \<Rightarrow> 20 * (NUM_ITEMS - ci s) + 111
      | CPoll \<Rightarrow> 52 | CTest \<Rightarrow> (if queued s = [] then 51 else 60) | CYield \<Rightarrow> 55
      | CCancel \<Rightarrow> 10 * (NUM_THREADS - ci s) + 5 | CJoin \<Rightarrow> 10 * (NUM_THREADS - ci s) + 4 | CExit \<Rightarrow> 0)"

definition w_total :: "crew \<Rightarrow> nat" where
  "w_total s = (\<Sum>i<NUM_THREADS. w_weight (wpc (workers s i)))"

definition crew_mu :: "crew \<Rightarrow> nat" where
  "crew_mu s = c_weight s + 6 * work_available s + w_total s"

lemma w_total_set:
  assumes "i < NUM_THREADS" "workers t = (workers s)(i := w)"
  shows "w_total t + w_weight (wpc (workers s i)) = w_total s + w_weight (wpc w)"
  using sum_change [OF assms(1), of "\<lambda>i. w_weight (wpc (workers t i))" "\<lambda>i. w_weight (wpc (workers s i))"]
  by (simp add: w_total_def assms(2))

lemma c_weight_cong:
  "cpc t = cpc s \<Longrightarrow> ci t = ci s \<Longrightarrow> (cpc s = CTest \<Longrightarrow> queued t = queued s) \<Longrightarrow> c_weight t = c_weight s"
  by (cases "cpc s") (simp_all add: c_weight_def)

lemma mu_worker:
  assumes "crew_inv s" "i < NUM_THREADS" "worker i s = Some t"
  shows "crew_mu t < crew_mu s"
proof -
  have i: "avail_inv s" "heap_inv s" "lock_inv s" using assms(1) by (auto simp: crew_inv_def)
  have c: "c_weight t = c_weight s"
  proof (rule c_weight_cong)
    assume "cpc s = CTest"
    then have "count_w w_locks s = 0" using i(3) by (simp add: lock_inv_def)
    then have "\<not> w_locks (wpc (workers s i))" using count_w_pos [OF assms(2), of w_locks s] by auto
    with i(1,2) assms(2,3) show "queued t = queued s"
      by (cases rule: worker_stepE) (auto simp: queued_rep)
  qed (use i(1,2) assms(2,3) in \<open>cases rule: worker_stepE; simp\<close>)+
  have "6 * work_available t + w_total t < 6 * work_available s + w_total s"
    using i(1,2) assms(2,3)
  proof (cases rule: worker_stepE)
    case Cancel
    then show ?thesis using w_total_set [OF assms(2), of t s "(workers s i)\<lparr>wpc := WDead\<rparr>"] by auto
  qed (use w_total_set [OF assms(2), of t s "workers t i"] in \<open>simp\<close>)+
  then show ?thesis using c by (simp add: crew_mu_def)
qed

lemma mu_contractor:
  assumes "crew_inv s" "contractor time False a s = Some t"
  shows "crew_mu t < crew_mu s"
proof -
  have i: "avail_inv s" "heap_inv s" "index_inv s" using assms(1) by (auto simp: crew_inv_def over_inv_def)
  have w: "w_total t = w_total s"
    using i(1,2) assms(2) by (cases rule: contractor_stepE) (simp_all add: w_total_def)
  show ?thesis using i(1,2) assms(2)
    by (cases rule: contractor_stepE) (use i(3) w in \<open>auto simp: crew_mu_def c_weight_def index_inv_def NUM_THREADS_def\<close>)
qed

text \<open>Somebody can always move.\<close>

lemma free_address: "heap_inv s \<Longrightarrow> \<exists>a. heap (work_queue s) a = None"
proof -
  assume h: "heap_inv s"
  obtain a where "a \<notin> set_mset (cells s)"
    using ex_new_if_finite [OF infinite_UNIV_nat finite_set_mset] by blast
  then have "count (cells s) a = 0" by (simp add: not_in_iff)
  with h have "heap (work_queue s) a = None" by (metis heap_inv_def zero_neq_one)
  then show ?thesis by blast
qed

lemma worker_moves:
  "wpc (workers s i) \<in> {WRemove, WUnlock, WBusy, WTest} \<Longrightarrow> \<exists>t. worker i s = Some t"
  by (auto simp: worker_def Let_def split: option.splits sum.splits prod.splits)

lemma worker_moves_cancelled:
  "cancelled s i \<Longrightarrow> wpc (workers s i) \<noteq> WDead \<Longrightarrow> \<exists>t. worker i s = Some t"
  by (cases "wpc (workers s i)") (auto simp: worker_def Let_def split: option.splits sum.splits prod.splits)

lemma contractor_moves:
  "cpc s \<in> {CUnlock, CPost, CTest, CYield, CCancel} \<Longrightarrow> \<exists>t. contractor time False 0 s = Some t"
  by (auto simp: contractor_def)

lemma crew_progress:
  assumes "crew_inv s" "cpc s \<noteq> CExit"
  shows "\<exists>e t. busy_step e \<and> crew_step time s e = Some t"
proof (cases "\<exists>i<NUM_THREADS. wpc (workers s i) \<in> {WRemove, WUnlock, WBusy, WTest}")
  case True
  then obtain i t where "i < NUM_THREADS" "worker i s = Some t" using worker_moves by metis
  then show ?thesis using assms(1)
    by (intro exI [of _ "Worker i"]) (simp add: crew_step_def busy_step_def crew_inv_def)
next
  case False
  have i: "crashed s = None" "lock_inv s" "avail_inv s" "heap_inv s" "index_inv s" "cancel_inv s"
    using assms(1) by (auto simp: crew_inv_def over_inv_def)
  have l: "count_w w_locks s = 0"
    unfolding count_w_def cnt_0_iff
  proof (intro allI impI)
    fix j
    assume "j < NUM_THREADS"
    then show "\<not> w_locks (wpc (workers s j))" using False by (cases "wpc (workers s j)") auto
  qed
  then have lock: "\<not> c_locks (cpc s) \<Longrightarrow> work_queue_lock s = 1"
    using i(2) by (simp add: lock_inv_def)
  have con: "?thesis" if "contractor time False a s = Some t" for a t
    using that i(1) by (intro exI [of _ "Contractor a"]) (simp add: crew_step_def busy_step_def)
  have wor: "?thesis" if "worker i s = Some t" "i < NUM_THREADS" for i t
    using that i(1) by (intro exI [of _ "Worker i"]) (simp add: crew_step_def busy_step_def)
  show ?thesis
  proof (cases "cpc s")
    case CMake
    obtain a where "heap (work_queue s) a = None" using free_address [OF i(4)] by blast
    with CMake show ?thesis by (intro con [of a]) (simp add: contractor_def put_item_def)
  next
    case CLock
    then show ?thesis using lock by (intro con [of 0]) (simp add: contractor_def sem_wait_def)
  next
    case CAdd
    then show ?thesis using con contractor_add [OF i(3,4) CAdd] by blast
  next
    case CPoll
    have n: "num_items (work_queue s) = int (length (queued s))"
      using avail_rep [OF i(3)] by (simp add: rep_def)
    show ?thesis
    proof (cases "queued s = []")
      case True
      then show ?thesis using CPoll lock n by (intro con [of 0]) (simp add: contractor_def sem_wait_def)
    next
      case q: False
      have nc: "\<not> cancelled s j" for j using i(6) CPoll by (simp add: cancel_inv_def asked_def)
      have "0 < length (queued s)" using q by simp
      moreover have "length (queued s) = work_available s + count_w w_claims s"
        using i(3) CPoll by (simp add: avail_inv_def)
      ultimately consider "0 < work_available s" | "0 < count_w w_claims s" by linarith
      then show ?thesis
      proof cases
        case 1
        have "0 < NUM_THREADS" by (simp add: NUM_THREADS_def)
        moreover have "wpc (workers s 0) \<noteq> WDead" using i(6) nc calculation by (auto simp: cancel_inv_def)
        ultimately have "wpc (workers s 0) = WAvail \<or> wpc (workers s 0) = WLock"
          using False by (cases "wpc (workers s 0)") auto
        then have "\<exists>t. worker 0 s = Some t" using 1 nc lock CPoll by (auto simp: worker_def sem_wait_def)
        then show ?thesis using wor [of 0] \<open>0 < NUM_THREADS\<close> by blast
      next
        case 2
        then obtain j where j: "j < NUM_THREADS" "w_claims (wpc (workers s j))"
          unfolding count_w_def using cnt_pos_ex by blast
        then have "wpc (workers s j) = WLock" using False by (cases "wpc (workers s j)") auto
        then show ?thesis
          using j nc lock CPoll by (intro wor [of j]) (auto simp: worker_def sem_wait_def)
      qed
    qed
  next
    case CJoin
    then have c: "ci s < NUM_THREADS" "cancelled s (ci s)"
      using i(5,6) by (auto simp: index_inv_def cancel_inv_def asked_def)
    show ?thesis
    proof (cases "wpc (workers s (ci s)) = WDead")
      case True
      then show ?thesis using CJoin by (intro con [of 0]) (simp add: contractor_def)
    next
      case False
      then show ?thesis using worker_moves_cancelled [of s "ci s"] c wor by blast
    qed
  qed (use assms(2) contractor_moves [of s time] con in blast)+
qed

definition crew_done :: "crew \<Rightarrow> bool" where
  "crew_done s \<longleftrightarrow> cpc s = CExit"

interpretation crew: machine_term "crew_step time" crew_start crew_inv busy_step crew_done crew_mu for time
proof unfold_locales
  fix s e t
  assume a: "crew_inv s" "crew_step time s e = Some t" "busy_step e"
  from a(2) show "crew_mu t < crew_mu s"
    by (cases rule: crew_stepE) (use a(1,3) mu_contractor mu_worker in \<open>auto simp: busy_step_def\<close>)
next
  fix s
  assume "crew_inv s" "\<not> crew_done s"
  then show "\<exists>e t. busy_step e \<and> crew_step time s e = Some t"
    using crew_progress by (simp add: crew_done_def)
qed (simp_all add: crew_inv_start crew_inv_step)


section \<open>Properties\<close>




definition one_worker_schedule :: "event list" where
  "one_worker_schedule = concat (map (\<lambda>a. replicate 5 (Contractor a)) [0..<6]) @ replicate 36 (Worker 0)
     @ [Contractor 0, Contractor 0, Contractor 0, Worker 0, Contractor 0, Contractor 0, Worker 1, Contractor 0]"




end
