(* ===== verification/Barber.thy ===== *)
theory Barber
  imports Threads CString
begin

text \<open>
  The sleeping barber, in two programs: thr/sleeping\_barber.c, whose main thread wakes the
  barber at the end, and shackleford's 02-sleeping\_barber.c, whose main thread does not. The
  customers are the same in both; what the shop needs of a barber is the locale
  \<open>barber_shop\<close>, and each program's barber is an instance of it. A state has the
  semaphores under the names of the first program; in the second, \<open>barber_seat\<close> is
  \<open>barber_chair\<close>, \<open>barber_bed\<close> is \<open>awake\<close>, \<open>done_with_customer\<close> is \<open>done_cutting\<close> and
  \<open>finished\<close> is \<open>empty\<close>.
\<close>

section \<open>State\<close>

datatype kpc = KRoom | KSeat | KLeave | KWake | KDone | KStand | KHome
datatype bpc = BLoop | BWait | BCheck | BCut | BHome
datatype mpc = MJoin nat | MFlag | MPost | MJoinB | MDestroy | MExit

record shop =
  num_customers :: nat
  num_chairs :: nat
  waiting_room :: nat
  barber_seat :: nat
  done_with_customer :: nat
  barber_bed :: nat
  finished :: bool
  cust :: "nat \<Rightarrow> kpc"
  bpc :: bpc
  mpc :: mpc
  haircuts :: nat

datatype event = Customer nat | TheBarber | Main

definition shop_start :: "nat \<Rightarrow> nat \<Rightarrow> shop" where
  "shop_start n c = \<lparr>num_customers = n, num_chairs = c, waiting_room = c, barber_seat = 1,
     done_with_customer = 0, barber_bed = 0, finished = False, cust = (\<lambda>_. KRoom), bpc = BLoop,
     mpc = MJoin 0, haircuts = 0\<rparr>"

section \<open>The customers\<close>

definition set_cust :: "nat \<Rightarrow> kpc \<Rightarrow> shop \<Rightarrow> shop" where
  "set_cust i k s = s\<lparr>cust := (cust s)(i := k)\<rparr>"

definition customer :: "nat \<Rightarrow> shop \<Rightarrow> shop option" where
  "customer i s =
     (case cust s i of
        KRoom \<Rightarrow> map_option (\<lambda>v. set_cust i KSeat (s\<lparr>waiting_room := v\<rparr>)) (sem_wait (waiting_room s))
      | KSeat \<Rightarrow> map_option (\<lambda>v. set_cust i KLeave (s\<lparr>barber_seat := v\<rparr>)) (sem_wait (barber_seat s))
      | KLeave \<Rightarrow> Some (set_cust i KWake (s\<lparr>waiting_room := sem_post (waiting_room s)\<rparr>))
      | KWake \<Rightarrow> Some (set_cust i KDone (s\<lparr>barber_bed := sem_post (barber_bed s)\<rparr>))
      | KDone \<Rightarrow> map_option (\<lambda>v. set_cust i KStand (s\<lparr>done_with_customer := v\<rparr>))
                   (sem_wait (done_with_customer s))
      | KStand \<Rightarrow> Some (set_cust i KHome (s\<lparr>barber_seat := sem_post (barber_seat s)\<rparr>))
      | KHome \<Rightarrow> None)"

definition thread_customer :: "nat \<Rightarrow> shop \<Rightarrow> shop option" where
  "thread_customer i s =
     (case cust s i of
        KRoom \<Rightarrow> map_option (\<lambda>v. set_cust i KSeat (s\<lparr>waiting_room := v\<rparr>)) (sem_wait (waiting_room s))
      | KSeat \<Rightarrow> map_option (\<lambda>v. set_cust i KLeave (s\<lparr>barber_seat := v\<rparr>)) (sem_wait (barber_seat s))
      | KLeave \<Rightarrow> Some (set_cust i KWake (s\<lparr>waiting_room := sem_post (waiting_room s)\<rparr>))
      | KWake \<Rightarrow> Some (set_cust i KDone (s\<lparr>barber_bed := sem_post (barber_bed s)\<rparr>))
      | KDone \<Rightarrow> map_option (\<lambda>v. set_cust i KStand (s\<lparr>done_with_customer := v\<rparr>))
                   (sem_wait (done_with_customer s))
      | KStand \<Rightarrow> Some (set_cust i KHome (s\<lparr>barber_seat := sem_post (barber_seat s)\<rparr>))
      | KHome \<Rightarrow> None)"

lemma thread_customer_eq: "thread_customer = customer"
  by (simp add: thread_customer_def customer_def fun_eq_iff)

section \<open>The barbers\<close>

text \<open>The barber of thr/sleeping\_barber.c looks at the flag again when woken.\<close>

definition barber :: "shop \<Rightarrow> shop option" where
  "barber s =
     (case bpc s of
        BLoop \<Rightarrow> Some (s\<lparr>bpc := (if finished s then BHome else BWait)\<rparr>)
      | BWait \<Rightarrow> map_option (\<lambda>v. s\<lparr>barber_bed := v, bpc := BCheck\<rparr>) (sem_wait (barber_bed s))
      | BCheck \<Rightarrow> Some (s\<lparr>bpc := (if finished s then BLoop else BCut)\<rparr>)
      | BCut \<Rightarrow> Some (s\<lparr>done_with_customer := sem_post (done_with_customer s), bpc := BLoop,
                       haircuts := haircuts s + 1\<rparr>)
      | BHome \<Rightarrow> None)"

text \<open>
  The barber of 02-sleeping\_barber.c cuts whenever woken: \<open>BCheck\<close> is the place where it
  announces the haircut and sleeps through it.
\<close>

definition thread_barber :: "shop \<Rightarrow> shop option" where
  "thread_barber s =
     (case bpc s of
        BLoop \<Rightarrow> Some (s\<lparr>bpc := (if finished s then BHome else BWait)\<rparr>)
      | BWait \<Rightarrow> map_option (\<lambda>v. s\<lparr>barber_bed := v, bpc := BCheck\<rparr>) (sem_wait (barber_bed s))
      | BCheck \<Rightarrow> Some (s\<lparr>bpc := BCut\<rparr>)
      | BCut \<Rightarrow> Some (s\<lparr>done_with_customer := sem_post (done_with_customer s), bpc := BLoop,
                       haircuts := haircuts s + 1\<rparr>)
      | BHome \<Rightarrow> None)"

section \<open>The main threads\<close>

definition join_customers :: "shop \<Rightarrow> nat \<Rightarrow> shop option" where
  "join_customers s i =
     (if i < num_customers s then (if cust s i = KHome then Some (s\<lparr>mpc := MJoin (i + 1)\<rparr>) else None)
      else Some (s\<lparr>mpc := MFlag\<rparr>))"

definition barber_main :: "shop \<Rightarrow> shop option" where
  "barber_main s =
     (case mpc s of
        MJoin i \<Rightarrow> join_customers s i
      | MFlag \<Rightarrow> Some (s\<lparr>finished := True, mpc := MPost\<rparr>)
      | MPost \<Rightarrow> Some (s\<lparr>barber_bed := sem_post (barber_bed s), mpc := MJoinB\<rparr>)
      | MJoinB \<Rightarrow> if bpc s = BHome then Some (s\<lparr>mpc := MExit\<rparr>) else None
      | _ \<Rightarrow> None)"

text \<open>
  In the second program \<open>customers_destroy\<close> joins the customers, and \<open>MDestroy\<close> is
  \<open>barbershop_destroy\<close>, which destroys the semaphores and frees the barber.
\<close>

definition shop_main :: "shop \<Rightarrow> shop option" where
  "shop_main s =
     (case mpc s of
        MJoin i \<Rightarrow> join_customers s i
      | MFlag \<Rightarrow> Some (s\<lparr>finished := True, mpc := MDestroy\<rparr>)
      | MDestroy \<Rightarrow> Some (s\<lparr>mpc := MExit\<rparr>)
      | _ \<Rightarrow> None)"

definition MAX_NUM_CUSTOMERS :: int where
  "MAX_NUM_CUSTOMERS = 50"

text \<open>
  The command lines. A negative number of chairs makes the first program's \<open>sem_init\<close>
  fail, which it does not look at; the model stops there.
\<close>

definition main_args :: "string list \<Rightarrow> shop option" where
  "main_args args =
     (if length args < 3 then None
      else let n = atoi (args ! 1); c = atoi (args ! 2)
           in if c < 0 then None
              else Some (shop_start (nat (if n > MAX_NUM_CUSTOMERS then MAX_NUM_CUSTOMERS else n)) (nat c)))"

definition barbershop_create :: "string list \<Rightarrow> shop option" where
  "barbershop_create args =
     (if length args < 3 then None
      else if atoi (args ! 1) \<le> 0 then None
      else if atoi (args ! 2) \<le> 0 then None
      else Some (shop_start (nat (atoi (args ! 1))) (nat (atoi (args ! 2)))))"

definition shop_step ::
  "(shop \<Rightarrow> shop option) \<Rightarrow> (shop \<Rightarrow> shop option) \<Rightarrow> shop \<Rightarrow> event \<Rightarrow> shop option" where
  "shop_step bar mai s e =
     (case e of
        Customer i \<Rightarrow> if i < num_customers s then customer i s else None
      | TheBarber \<Rightarrow> bar s
      | Main \<Rightarrow> mai s)"

section \<open>What the shop needs of a barber and of a main thread\<close>

fun k_sits :: "kpc \<Rightarrow> bool" where
  "k_sits KLeave = True" | "k_sits KWake = True" | "k_sits KDone = True" | "k_sits KStand = True"
| "k_sits _ = False"

fun k_chair :: "kpc \<Rightarrow> bool" where
  "k_chair KSeat = True" | "k_chair KLeave = True" | "k_chair _ = False"

fun k_cut :: "kpc \<Rightarrow> bool" where
  "k_cut KStand = True" | "k_cut KHome = True" | "k_cut _ = False"

fun b_busy :: "bpc \<Rightarrow> bool" where
  "b_busy BCheck = True" | "b_busy BCut = True" | "b_busy _ = False"

definition count_k :: "(kpc \<Rightarrow> bool) \<Rightarrow> shop \<Rightarrow> nat" where
  "count_k P s = cnt P (cust s) (num_customers s)"

text \<open>Haircuts asked for and not yet picked up.\<close>

definition tokens :: "shop \<Rightarrow> nat" where
  "tokens s = barber_bed s + (if b_busy (bpc s) then 1 else 0) + done_with_customer s"

definition all_home :: "shop \<Rightarrow> bool" where
  "all_home s \<longleftrightarrow> (\<forall>i<num_customers s. cust s i = KHome)"

definition joining :: "shop \<Rightarrow> bool" where
  "joining s \<longleftrightarrow> (\<exists>i. mpc s = MJoin i)"

text \<open>The part of the state that only the customers change.\<close>

definition floor_of :: "shop \<Rightarrow> nat \<times> nat \<times> nat \<times> nat \<times> (nat \<Rightarrow> kpc)" where
  "floor_of s = (num_customers s, num_chairs s, waiting_room s, barber_seat s, cust s)"

definition seats_inv :: "shop \<Rightarrow> bool" where
  "seats_inv s \<longleftrightarrow> barber_seat s + count_k k_sits s = 1
     \<and> waiting_room s + count_k k_chair s = num_chairs s"

definition cuts_inv :: "shop \<Rightarrow> bool" where
  "cuts_inv s \<longleftrightarrow> (\<not> finished s \<longrightarrow> tokens s = count_k (\<lambda>k. k = KDone) s)
     \<and> haircuts s = done_with_customer s + count_k k_cut s"

definition main_inv :: "shop \<Rightarrow> bool" where
  "main_inv s \<longleftrightarrow> (\<forall>i. mpc s = MJoin i \<longrightarrow> i \<le> num_customers s \<and> (\<forall>j<i. cust s j = KHome))
     \<and> (\<not> joining s \<longrightarrow> all_home s) \<and> (if finished s then \<not> joining s else joining s \<or> mpc s = MFlag)"

text \<open>
  \<open>late\<close> is what the barber and the main thread keep among themselves once the flag is set;
  by then the customers are gone.
\<close>

locale barber_shop =
  fixes bar :: "shop \<Rightarrow> shop option"
    and mai :: "shop \<Rightarrow> shop option"
    and late :: "shop \<Rightarrow> bool"
  assumes bar_frame: "bar s = Some t \<Longrightarrow> floor_of t = floor_of s \<and> finished t = finished s \<and> mpc t = mpc s"
    and bar_tokens: "bar s = Some t \<Longrightarrow> \<not> finished s \<Longrightarrow> tokens t = tokens s"
    and bar_cuts: "bar s = Some t \<Longrightarrow>
      done_with_customer t + haircuts s = done_with_customer s + haircuts t"
    and bar_waits: "bar s = None \<Longrightarrow> \<not> finished s \<Longrightarrow> bpc s \<noteq> BHome \<Longrightarrow> barber_bed s = 0 \<and> \<not> b_busy (bpc s)"
    and bar_stays: "bar s = Some t \<Longrightarrow> \<not> finished s \<Longrightarrow> bpc t \<noteq> BHome"
    and mai_frame: "mai s = Some t \<Longrightarrow> floor_of t = floor_of s \<and> bpc t = bpc s
      \<and> done_with_customer t = done_with_customer s \<and> haircuts t = haircuts s
      \<and> (finished s \<longrightarrow> finished t)"
    and mai_flag: "mpc s = MFlag \<Longrightarrow> mai s = Some t \<Longrightarrow> finished t \<and> barber_bed t = barber_bed s"
    and mai_joins: "mpc s = MJoin i \<Longrightarrow> mai s = join_customers s i"
    and mai_joined: "\<not> joining s \<Longrightarrow> mai s = Some t \<Longrightarrow> \<not> joining t"
    and late_flag: "mai s = Some t \<Longrightarrow> \<not> finished s \<Longrightarrow> finished t \<Longrightarrow> tokens s = 0 \<Longrightarrow> bpc s \<noteq> BHome \<Longrightarrow> late t"
    and late_bar: "late s \<Longrightarrow> finished s \<Longrightarrow> bar s = Some t \<Longrightarrow> late t"
    and late_mai: "late s \<Longrightarrow> finished s \<Longrightarrow> mai s = Some t \<Longrightarrow> late t"
begin

definition inv :: "shop \<Rightarrow> bool" where
  "inv s \<longleftrightarrow> seats_inv s \<and> cuts_inv s \<and> main_inv s \<and> (if finished s then late s else bpc s \<noteq> BHome)"

end

lemma floor_fields:
  "floor_of t = floor_of s \<Longrightarrow> num_customers t = num_customers s \<and> num_chairs t = num_chairs s
     \<and> waiting_room t = waiting_room s \<and> barber_seat t = barber_seat s \<and> cust t = cust s"
  by (simp add: floor_of_def)

lemma floor_inv:
  assumes "floor_of t = floor_of s"
  shows "seats_inv t = seats_inv s" "count_k P t = count_k P s" "all_home t = all_home s"
  using floor_fields [OF assms] by (simp_all add: seats_inv_def count_k_def all_home_def)

lemma set_cust_fields [simp]:
  "cust (set_cust i k s) = (cust s)(i := k)" "num_customers (set_cust i k s) = num_customers s"
  "num_chairs (set_cust i k s) = num_chairs s" "waiting_room (set_cust i k s) = waiting_room s"
  "barber_seat (set_cust i k s) = barber_seat s" "done_with_customer (set_cust i k s) = done_with_customer s"
  "barber_bed (set_cust i k s) = barber_bed s" "finished (set_cust i k s) = finished s"
  "bpc (set_cust i k s) = bpc s" "mpc (set_cust i k s) = mpc s" "haircuts (set_cust i k s) = haircuts s"
  by (simp_all add: set_cust_def)

lemma count_k_set:
  "i < num_customers s \<Longrightarrow> count_k P (set_cust i k s)
     = count_k P s + of_bool (P k) - of_bool (P (cust s i))"
  by (simp add: count_k_def cnt_set)

lemma count_k_pos: "i < num_customers s \<Longrightarrow> P (cust s i) \<Longrightarrow> 0 < count_k P s"
  unfolding count_k_def by (rule cnt_pos)

lemma count_k_fields [simp]:
  "count_k P (s\<lparr>waiting_room := x\<rparr>) = count_k P s" "count_k P (s\<lparr>barber_seat := x\<rparr>) = count_k P s"
  "count_k P (s\<lparr>done_with_customer := x\<rparr>) = count_k P s" "count_k P (s\<lparr>barber_bed := x\<rparr>) = count_k P s"
  by (simp_all add: count_k_def)

text \<open>A customer's step, with what it does to the counts.\<close>

lemma seats_customer:
  assumes "seats_inv s" "i < num_customers s" "customer i s = Some t"
  shows "seats_inv t"
  using assms count_k_pos [OF assms(2), of k_sits] count_k_pos [OF assms(2), of k_chair]
  by (cases "cust s i")
    (auto simp: customer_def seats_inv_def count_k_set sem_post_def step_simps split: if_splits)

lemma cuts_customer:
  assumes "cuts_inv s" "i < num_customers s" "customer i s = Some t"
  shows "cuts_inv t"
  using assms count_k_pos [OF assms(2), of "\<lambda>k. k = KDone"]
  by (cases "cust s i")
    (auto simp: customer_def cuts_inv_def tokens_def count_k_set sem_post_def step_simps split: if_splits)

lemma customer_home:
  assumes "main_inv s" "i < num_customers s" "customer i s = Some t"
  shows "joining s" "\<not> finished s"
proof -
  have "cust s i \<noteq> KHome" using assms(3) by (auto simp: customer_def)
  then have "\<not> all_home s" using assms(2) by (auto simp: all_home_def)
  then show "joining s" "\<not> finished s" using assms(1) by (auto simp: main_inv_def)
qed

lemma customer_frame:
  assumes "customer i s = Some t"
  shows "num_customers t = num_customers s \<and> num_chairs t = num_chairs s \<and> finished t = finished s
    \<and> bpc t = bpc s \<and> mpc t = mpc s \<and> (\<forall>j. cust s j = KHome \<longrightarrow> cust t j = KHome)"
  using assms by (cases "cust s i") (auto simp: customer_def step_simps)

lemma main_customer:
  assumes "main_inv s" "i < num_customers s" "customer i s = Some t"
  shows "main_inv t"
  using assms customer_home [OF assms] customer_frame [OF assms(3)]
  by (auto simp: main_inv_def joining_def)

context barber_shop
begin

lemma inv_customer:
  assumes "inv s" "i < num_customers s" "customer i s = Some t"
  shows "inv t"
proof -
  have m: "main_inv s" using assms(1) by (simp add: inv_def)
  show ?thesis
    using assms seats_customer [OF _ assms(2,3)] cuts_customer [OF _ assms(2,3)] main_customer [OF m assms(2,3)]
      customer_frame [OF assms(3)] customer_home [OF m assms(2,3)] by (simp add: inv_def)
qed

lemma inv_bar:
  assumes "inv s" "bar s = Some t"
  shows "inv t"
proof -
  note f = bar_frame [OF assms(2)]
  note g = floor_fields [OF conjunct1 [OF f]] and h = floor_inv [OF conjunct1 [OF f]]
  have "cuts_inv t" using assms(1) bar_tokens [OF assms(2)] bar_cuts [OF assms(2)] f h
    by (simp add: inv_def cuts_inv_def)
  moreover have "joining t = joining s" using f by (simp add: joining_def)
  then have "main_inv t" using assms(1) f g h by (simp add: inv_def main_inv_def)
  moreover have "if finished t then late t else bpc t \<noteq> BHome"
    using assms f late_bar [of s t] bar_stays [OF assms(2)] by (simp add: inv_def split: if_splits)
  ultimately show ?thesis using assms(1) h by (simp add: inv_def)
qed

lemma tokens_home: "inv s \<Longrightarrow> all_home s \<Longrightarrow> \<not> finished s \<Longrightarrow> tokens s = 0"
proof -
  assume a: "inv s" "all_home s" "\<not> finished s"
  have "count_k (\<lambda>k. k = KDone) s = 0" using a(2) by (simp add: count_k_def cnt_0_iff all_home_def)
  then show ?thesis using a by (simp add: inv_def cuts_inv_def)
qed

lemma join_step:
  assumes "mpc s = MJoin i" "mai s = Some t"
  shows "i < num_customers s \<and> cust s i = KHome \<and> t = s\<lparr>mpc := MJoin (i + 1)\<rparr>
    \<or> \<not> i < num_customers s \<and> t = s\<lparr>mpc := MFlag\<rparr>"
  using assms mai_joins [OF assms(1)] by (auto simp: join_customers_def split: if_splits)

lemma main_mai:
  assumes "main_inv s" "mai s = Some t"
  shows "main_inv t"
proof -
  note f = mai_frame [OF assms(2)]
  note h = floor_inv [OF conjunct1 [OF f]]
  show ?thesis
  proof (cases "joining s")
    case True
    then obtain i where i: "mpc s = MJoin i" by (auto simp: joining_def)
    from join_step [OF i assms(2)] show ?thesis
    proof (elim disjE conjE)
      assume "cust s i = KHome" "t = s\<lparr>mpc := MJoin (i + 1)\<rparr>" "i < num_customers s"
      then show ?thesis using assms(1) i
        by (auto simp: main_inv_def joining_def less_Suc_eq all_home_def split: if_splits)
    next
      assume t: "\<not> i < num_customers s" "t = s\<lparr>mpc := MFlag\<rparr>"
      then have "all_home t" "\<not> finished t" using assms(1) i
        by (auto simp: main_inv_def all_home_def joining_def split: if_splits)
      then show ?thesis using t(2) by (simp add: main_inv_def joining_def)
    qed
  next
    case False
    then have "finished t" using mai_flag [OF _ assms(2)] f assms(1) by (auto simp: main_inv_def split: if_splits)
    then show ?thesis using mai_joined [OF False assms(2)] assms(1) False h
      by (auto simp: main_inv_def joining_def)
  qed
qed

lemma mai_bed:
  assumes "main_inv s" "mai s = Some t" "\<not> finished s"
  shows "barber_bed t = barber_bed s"
proof (cases "joining s")
  case True
  then obtain i where "mpc s = MJoin i" by (auto simp: joining_def)
  from join_step [OF this assms(2)] show ?thesis by auto
next
  case False
  then show ?thesis using assms mai_flag by (auto simp: main_inv_def)
qed

lemma inv_mai:
  assumes "inv s" "mai s = Some t"
  shows "inv t"
proof -
  note f = mai_frame [OF assms(2)]
  note h = floor_inv [OF conjunct1 [OF f]]
  have m: "main_inv s" "main_inv t" using assms main_mai [of s t] by (auto simp: inv_def)
  have "cuts_inv t"
  proof (cases "finished s")
    case True
    then show ?thesis using assms(1) f h by (simp add: inv_def cuts_inv_def)
  next
    case False
    then show ?thesis using assms(1) f h mai_bed [OF m(1) assms(2) False]
      by (simp add: inv_def cuts_inv_def tokens_def)
  qed
  moreover have "late t" if "finished t"
  proof (cases "finished s")
    case True
    then show ?thesis using assms late_mai [of s t] by (simp add: inv_def)
  next
    case False
    have "all_home t" using m(2) that by (auto simp: main_inv_def)
    then have "tokens s = 0" using tokens_home [OF assms(1) _ False] h by simp
    then show ?thesis using late_flag [OF assms(2) False that] assms(1) False by (simp add: inv_def)
  qed
  moreover have "bpc t \<noteq> BHome" if "\<not> finished t"
    using that f assms(1) by (auto simp: inv_def split: if_splits)
  ultimately show ?thesis using assms(1) h m(2) by (simp add: inv_def)
qed

lemma inv_begin: "inv (shop_start n c)"
  by (simp add: inv_def shop_start_def seats_inv_def cuts_inv_def tokens_def main_inv_def joining_def
    all_home_def count_k_def cnt_const)

sublocale machine_inv "shop_step bar mai" "shop_start n c" inv for n c
  by unfold_locales
    (auto simp: inv_begin shop_step_def split: event.splits if_splits intro: inv_customer inv_bar inv_mai)

text \<open>While a customer is left somebody in the shop can move, if it has a chair.\<close>

lemma shop_moves:
  assumes "inv s" "\<not> all_home s" "0 < num_chairs s"
  shows "\<exists>e t. e \<noteq> Main \<and> shop_step bar mai s e = Some t"
proof (rule ccontr)
  assume no: "\<not> ?thesis"
  have nf: "\<not> finished s" "bpc s \<noteq> BHome" using assms(1,2) by (auto simp: inv_def main_inv_def split: if_splits)
  have bar: "bar s = None"
  proof (rule ccontr)
    assume "bar s \<noteq> None"
    then show False using no by (auto intro!: exI [of _ TheBarber] simp: shop_step_def)
  qed
  have cu: "customer i s = None" if "i < num_customers s" for i
  proof (rule ccontr)
    assume "customer i s \<noteq> None"
    then show False using no that by (auto dest!: spec [of _ "Customer i"] simp: shop_step_def)
  qed
  have k: "cust s i \<in> {KRoom, KSeat, KDone, KHome}" if "i < num_customers s" for i
    using cu [OF that] by (cases "cust s i") (auto simp: customer_def)
  have b: "tokens s = done_with_customer s" using bar_waits [OF bar nf] by (simp add: tokens_def)
  have "count_k (\<lambda>k. k = KDone) s = 0"
  proof (rule ccontr)
    assume "count_k (\<lambda>k. k = KDone) s \<noteq> 0"
    then obtain i where "i < num_customers s" "cust s i = KDone"
      using cnt_pos_ex [of "\<lambda>k. k = KDone" "cust s" "num_customers s"] by (auto simp: count_k_def)
    moreover have "done_with_customer s \<noteq> 0"
      using assms(1) nf b \<open>count_k (\<lambda>k. k = KDone) s \<noteq> 0\<close> by (simp add: inv_def cuts_inv_def)
    ultimately show False using cu [of i] by (simp add: customer_def step_simps)
  qed
  then have nd: "cust s i \<noteq> KDone" if "i < num_customers s" for i
    using that by (auto simp: count_k_def cnt_0_iff)
  then have "count_k k_sits s = 0" using k unfolding count_k_def cnt_0_iff by fastforce
  then have "barber_seat s = 1" using assms(1) by (simp add: inv_def seats_inv_def)
  then have ns: "cust s i \<noteq> KSeat" if "i < num_customers s" for i
    using that cu [OF that] by (auto simp: customer_def step_simps)
  then have "count_k k_chair s = 0" using k unfolding count_k_def cnt_0_iff by fastforce
  then have "waiting_room s \<noteq> 0" using assms(1,3) by (simp add: inv_def seats_inv_def)
  then have "cust s i \<noteq> KRoom" if "i < num_customers s" for i
    using that cu [OF that] by (auto simp: customer_def step_simps)
  then have "all_home s" using k nd ns by (auto simp: all_home_def)
  then show False using assms(2) by simp
qed

end

section \<open>The two programs\<close>

text \<open>After the flag: the first program's barber is woken once more and goes home.\<close>

definition woken_late :: "shop \<Rightarrow> bool" where
  "woken_late s \<longleftrightarrow> done_with_customer s = 0 \<and> bpc s \<noteq> BCut
     \<and> (mpc s = MPost \<and> barber_bed s = 0 \<and> bpc s \<noteq> BCheck
        \<or> mpc s = MJoinB \<and> (bpc s = BWait \<longrightarrow> 0 < barber_bed s)
        \<or> mpc s = MExit \<and> bpc s = BHome)"

text \<open>In the second program nobody wakes him.\<close>

definition left_late :: "shop \<Rightarrow> bool" where
  "left_late s \<longleftrightarrow> done_with_customer s = 0 \<and> barber_bed s = 0 \<and> \<not> b_busy (bpc s)
     \<and> (mpc s = MDestroy \<or> mpc s = MExit)"

lemma barber_cases:
  assumes "barber s = Some t"
  obtains "bpc s = BLoop" "t = s\<lparr>bpc := (if finished s then BHome else BWait)\<rparr>"
  | v where "bpc s = BWait" "barber_bed s = Suc v" "t = s\<lparr>barber_bed := v, bpc := BCheck\<rparr>"
  | "bpc s = BCheck" "t = s\<lparr>bpc := (if finished s then BLoop else BCut)\<rparr>"
  | "bpc s = BCut" "t = s\<lparr>done_with_customer := Suc (done_with_customer s), bpc := BLoop,
       haircuts := haircuts s + 1\<rparr>"
  using assms by (cases "bpc s") (auto simp: barber_def step_simps sem_post_def)

lemma thread_barber_cases:
  assumes "thread_barber s = Some t"
  obtains "bpc s = BLoop" "t = s\<lparr>bpc := (if finished s then BHome else BWait)\<rparr>"
  | v where "bpc s = BWait" "barber_bed s = Suc v" "t = s\<lparr>barber_bed := v, bpc := BCheck\<rparr>"
  | "bpc s = BCheck" "t = s\<lparr>bpc := BCut\<rparr>"
  | "bpc s = BCut" "t = s\<lparr>done_with_customer := Suc (done_with_customer s), bpc := BLoop,
       haircuts := haircuts s + 1\<rparr>"
  using assms by (cases "bpc s") (auto simp: thread_barber_def step_simps sem_post_def)

interpretation woken: barber_shop barber barber_main woken_late
proof unfold_locales
  fix s t
  assume a: "barber s = Some t"
  show "floor_of t = floor_of s \<and> finished t = finished s \<and> mpc t = mpc s"
    using a by (cases rule: barber_cases) (simp_all add: floor_of_def)
  show "done_with_customer t + haircuts s = done_with_customer s + haircuts t"
    using a by (cases rule: barber_cases) simp_all
  show "tokens t = tokens s" if "\<not> finished s"
    using a by (cases rule: barber_cases) (simp_all add: tokens_def that)
  show "bpc t \<noteq> BHome" if "\<not> finished s"
    using a by (cases rule: barber_cases) (simp_all add: that)
  show "woken_late t" if "woken_late s" "finished s"
    using a by (cases rule: barber_cases) (use that in \<open>auto simp: woken_late_def\<close>)
next
  fix s t
  assume "barber_main s = Some t"
  then show "floor_of t = floor_of s \<and> bpc t = bpc s \<and> done_with_customer t = done_with_customer s
      \<and> haircuts t = haircuts s \<and> (finished s \<longrightarrow> finished t)"
    by (auto simp: barber_main_def join_customers_def floor_of_def split: mpc.splits if_splits)
qed (auto simp: barber_def barber_main_def join_customers_def joining_def woken_late_def tokens_def sem_post_def
      step_simps split: bpc.splits mpc.splits if_splits)

interpretation left: barber_shop thread_barber shop_main left_late
proof unfold_locales
  fix s t
  assume a: "thread_barber s = Some t"
  show "floor_of t = floor_of s \<and> finished t = finished s \<and> mpc t = mpc s"
    using a by (cases rule: thread_barber_cases) (simp_all add: floor_of_def)
  show "done_with_customer t + haircuts s = done_with_customer s + haircuts t"
    using a by (cases rule: thread_barber_cases) simp_all
  show "tokens t = tokens s" if "\<not> finished s"
    using a by (cases rule: thread_barber_cases) (simp_all add: tokens_def that)
  show "bpc t \<noteq> BHome" if "\<not> finished s"
    using a by (cases rule: thread_barber_cases) (simp_all add: that)
  show "left_late t" if "left_late s" "finished s"
    using a by (cases rule: thread_barber_cases) (use that in \<open>auto simp: left_late_def\<close>)
next
  fix s t
  assume "shop_main s = Some t"
  then show "floor_of t = floor_of s \<and> bpc t = bpc s \<and> done_with_customer t = done_with_customer s
      \<and> haircuts t = haircuts s \<and> (finished s \<longrightarrow> finished t)"
    by (auto simp: shop_main_def join_customers_def floor_of_def split: mpc.splits if_splits)
qed (auto simp: thread_barber_def shop_main_def join_customers_def joining_def left_late_def tokens_def
      step_simps split: bpc.splits mpc.splits if_splits)

section \<open>The day comes to its end\<close>

fun k_weight :: "kpc \<Rightarrow> nat" where
  "k_weight KRoom = 16" | "k_weight KSeat = 15" | "k_weight KLeave = 14" | "k_weight KWake = 13"
| "k_weight KDone = 2" | "k_weight KStand = 1" | "k_weight KHome = 0"

fun b_weight :: "bpc \<Rightarrow> nat" where
  "b_weight BLoop = 3" | "b_weight BWait = 2" | "b_weight BCheck = 7" | "b_weight BCut = 6"
| "b_weight BHome = 0"

fun m_weight :: "nat \<Rightarrow> mpc \<Rightarrow> nat" where
  "m_weight n (MJoin i) = 20 + (n - i)" | "m_weight n MFlag = 12" | "m_weight n MPost = 11"
| "m_weight n MJoinB = 1" | "m_weight n MDestroy = 1" | "m_weight n MExit = 0"

definition k_total :: "shop \<Rightarrow> nat" where
  "k_total s = (\<Sum>i<num_customers s. k_weight (cust s i))"

definition shop_mu :: "shop \<Rightarrow> nat" where
  "shop_mu s = k_total s + 6 * barber_bed s + b_weight (bpc s) + m_weight (num_customers s) (mpc s)"

lemma k_total_set:
  "i < num_customers s \<Longrightarrow> k_total (set_cust i k s) + k_weight (cust s i) = k_total s + k_weight k"
  using sum_change [of i "num_customers s" "\<lambda>j. k_weight ((cust (set_cust i k s)) j)" "\<lambda>j. k_weight (cust s j)"]
  by (simp add: k_total_def)

lemma k_total_fields [simp]:
  "k_total (s\<lparr>waiting_room := x\<rparr>) = k_total s" "k_total (s\<lparr>barber_seat := x\<rparr>) = k_total s"
  "k_total (s\<lparr>done_with_customer := x\<rparr>) = k_total s" "k_total (s\<lparr>barber_bed := x\<rparr>) = k_total s"
  by (simp_all add: k_total_def)

lemma mu_customer:
  assumes "i < num_customers s" "customer i s = Some t"
  shows "shop_mu t < shop_mu s"
proof (cases "cust s i")
  case KRoom
  then show ?thesis using assms k_total_set [of i "s\<lparr>waiting_room := waiting_room s - 1\<rparr>" KSeat]
    by (auto simp: customer_def shop_mu_def step_simps)
next
  case KSeat
  then show ?thesis using assms k_total_set [of i "s\<lparr>barber_seat := barber_seat s - 1\<rparr>" KLeave]
    by (auto simp: customer_def shop_mu_def step_simps)
next
  case KLeave
  then show ?thesis using assms k_total_set [of i "s\<lparr>waiting_room := Suc (waiting_room s)\<rparr>" KWake]
    by (auto simp: customer_def shop_mu_def sem_post_def)
next
  case KWake
  then show ?thesis using assms k_total_set [of i "s\<lparr>barber_bed := Suc (barber_bed s)\<rparr>" KDone]
    by (auto simp: customer_def shop_mu_def sem_post_def)
next
  case KDone
  then show ?thesis
    using assms k_total_set [of i "s\<lparr>done_with_customer := done_with_customer s - 1\<rparr>" KStand]
    by (auto simp: customer_def shop_mu_def step_simps)
next
  case KStand
  then show ?thesis using assms k_total_set [of i "s\<lparr>barber_seat := Suc (barber_seat s)\<rparr>" KHome]
    by (auto simp: customer_def shop_mu_def sem_post_def)
next
  case KHome
  then show ?thesis using assms by (simp add: customer_def)
qed

lemma mu_main:
  assumes "barber_main s = Some t \<or> shop_main s = Some t"
  shows "shop_mu t < shop_mu s"
  using assms by (cases "mpc s") (auto simp: barber_main_def shop_main_def join_customers_def shop_mu_def
    k_total_def sem_post_def split: if_splits)

lemma mu_barber:
  assumes "barber s = Some t \<or> thread_barber s = Some t"
  shows "shop_mu t < shop_mu s"
  using assms by (cases "bpc s") (auto simp: barber_def thread_barber_def shop_mu_def k_total_def
    sem_post_def step_simps split: if_splits)

lemma start_mu: "shop_mu (shop_start n c) = 17 * n + 23"
  by (simp add: shop_mu_def k_total_def shop_start_def)

lemma chairs_kept:
  "shop_step barber barber_main s e = Some t \<Longrightarrow> num_chairs t = num_chairs s"
  "shop_step thread_barber shop_main s e = Some t \<Longrightarrow> num_chairs t = num_chairs s"
  using woken.bar_frame woken.mai_frame left.bar_frame left.mai_frame customer_frame
  by (auto simp: shop_step_def floor_of_def split: event.splits if_splits)

definition closed :: "shop \<Rightarrow> bool" where
  "closed s \<longleftrightarrow> mpc s = MExit"

lemma join_moves:
  "main_inv s \<Longrightarrow> all_home s \<Longrightarrow> joining s \<Longrightarrow> \<exists>i t. mpc s = MJoin i \<and> join_customers s i = Some t"
  by (auto simp: joining_def join_customers_def all_home_def)

lemma woken_progress:
  assumes "woken.inv s" "0 < num_chairs s" "\<not> closed s"
  shows "\<exists>e t. shop_step barber barber_main s e = Some t"
proof (cases "all_home s")
  case False
  then show ?thesis using woken.shop_moves [OF assms(1) _ assms(2)] by blast
next
  case True
  have i: "main_inv s" "finished s \<Longrightarrow> woken_late s" using assms(1) by (auto simp: woken.inv_def)
  have "barber s \<noteq> None \<or> barber_main s \<noteq> None"
  proof (cases "finished s")
    case True
    then show ?thesis using i(2) assms(3)
      by (cases "bpc s") (auto simp: woken_late_def closed_def barber_def barber_main_def step_simps)
  next
    case False
    then show ?thesis using i(1) join_moves [OF i(1) True]
      by (auto simp: main_inv_def barber_main_def)
  qed
  then show ?thesis
    by (auto intro: exI [of _ TheBarber] exI [of _ Main] simp: shop_step_def)
qed

lemma left_progress:
  assumes "left.inv s" "0 < num_chairs s" "\<not> closed s"
  shows "\<exists>e t. shop_step thread_barber shop_main s e = Some t"
proof (cases "all_home s")
  case False
  then show ?thesis using left.shop_moves [OF assms(1) _ assms(2)] by blast
next
  case True
  have i: "main_inv s" "finished s \<Longrightarrow> left_late s" using assms(1) by (auto simp: left.inv_def)
  have "shop_main s \<noteq> None"
  proof (cases "finished s")
    case True
    then show ?thesis using i(2) assms(3) by (auto simp: left_late_def closed_def shop_main_def)
  next
    case False
    then show ?thesis using i(1) join_moves [OF i(1) True] by (auto simp: main_inv_def shop_main_def)
  qed
  then show ?thesis by (auto intro: exI [of _ Main] simp: shop_step_def)
qed

interpretation woken_day: machine_term "shop_step barber barber_main" "shop_start n (Suc c)"
  "\<lambda>s. woken.inv s \<and> 0 < num_chairs s" "\<lambda>_. True" closed shop_mu for n c
proof unfold_locales
  fix s e t
  assume "shop_step barber barber_main s e = Some t"
  then show "shop_mu t < shop_mu s"
    using mu_customer mu_main mu_barber by (auto simp: shop_step_def split: event.splits if_splits)
qed (use woken.inv_begin woken.inv_step woken_progress chairs_kept in \<open>auto simp: shop_start_def\<close>)

interpretation left_day: machine_term "shop_step thread_barber shop_main" "shop_start n (Suc c)"
  "\<lambda>s. left.inv s \<and> 0 < num_chairs s" "\<lambda>_. True" closed shop_mu for n c
proof unfold_locales
  fix s e t
  assume "shop_step thread_barber shop_main s e = Some t"
  then show "shop_mu t < shop_mu s"
    using mu_customer mu_main mu_barber by (auto simp: shop_step_def split: event.splits if_splits)
qed (use left.inv_begin left.inv_step left_progress chairs_kept in \<open>auto simp: shop_start_def\<close>)

section \<open>Properties\<close>

lemma served:
  assumes "all_home s" "cuts_inv s" "done_with_customer s = 0"
  shows "haircuts s = num_customers s"
  using assms by (simp add: cuts_inv_def all_home_def count_k_def cnt_all_iff)

lemma customers_kept:
  "reach (shop_step barber barber_main) (shop_start n c) s \<Longrightarrow> num_customers s = n \<and> num_chairs s = c"
proof (induction rule: reach.induct)
  case reach_start
  show ?case by (simp add: shop_start_def)
next
  case (reach_step s e t)
  then show ?case using woken.bar_frame woken.mai_frame customer_frame
    by (auto simp: shop_step_def floor_of_def split: event.splits if_splits)
qed



text \<open>
  With at least one chair the first program always comes to its end: a run has at most
  17 steps per customer and 23 more, and a state in which nobody can move is the end, with
  every customer served.
\<close>

theorem barber_closes:
  assumes "run (shop_step barber barber_main) (shop_start n (Suc c)) es = Some s"
  shows "length es \<le> 17 * n + 23
    \<and> ((\<forall>e. shop_step barber barber_main s e = None) \<longrightarrow> mpc s = MExit \<and> haircuts s = n)"
proof -
  have r: "reach (shop_step barber barber_main) (shop_start n (Suc c)) s" using assms by (rule run_reach)
  have i: "woken.inv s" "num_customers s = n" using woken.reach_inv [OF r] customers_kept [OF r] by auto
  have "haircuts s = n" if m: "mpc s = MExit"
  proof -
    have f: "finished s" "all_home s" using i m by (auto simp: woken.inv_def main_inv_def joining_def split: if_splits)
    then have "woken_late s" using i by (simp add: woken.inv_def)
    then show ?thesis using served [of s] i f(2) by (auto simp: woken.inv_def woken_late_def)
  qed
  moreover have "length es \<le> 17 * n + 23"
    using woken_day.runs_bounded [OF _ assms] start_mu by (simp add: list_all_iff)
  moreover have "mpc s = MExit" if "\<forall>e. shop_step barber barber_main s e = None"
    using woken_day.stuck_final [OF r] that by (simp add: closed_def)
  ultimately show ?thesis by blast
qed

definition one_cut :: "event list" where
  "one_cut = replicate 4 (Customer 0) @ replicate 4 TheBarber @ [Customer 0, Customer 0]"

theorem barber_closes_witness:
  "length (one_cut @ replicate 4 Main @ [TheBarber, Main]) \<le> 17 * 1 + 23"
proof -
  have "run (shop_step barber barber_main) (shop_start 1 (Suc 0))
      (one_cut @ replicate 4 Main @ [TheBarber, Main]) \<noteq> None" by code_simp
  then show ?thesis using barber_closes [of 1 0] by blast
qed

definition outside :: "shop \<Rightarrow> bool" where
  "outside s \<longleftrightarrow> haircuts s = 0 \<and> mpc s = MJoin 0 \<and> (\<forall>i. cust s i = KRoom) \<and> waiting_room s = 0
    \<and> barber_bed s = 0 \<and> \<not> finished s \<and> (bpc s = BLoop \<or> bpc s = BWait) \<and> 0 < num_customers s"

lemma outside_reach:
  "reach (shop_step barber barber_main) s0 s \<Longrightarrow> outside s0 \<Longrightarrow> outside s"
proof (induction rule: reach.induct)
  case (reach_step s e t)
  then have o: "outside s" by blast
  show ?case
  proof (cases e)
    case (Customer i)
    then show ?thesis using o reach_step(2)
      by (auto simp: outside_def shop_step_def customer_def sem_wait_def split: if_splits)
  next
    case TheBarber
    then show ?thesis using o reach_step(2)
      by (auto simp: outside_def shop_step_def barber_def sem_wait_def)
  next
    case Main
    then show ?thesis using o reach_step(2)
      by (auto simp: outside_def shop_step_def barber_main_def join_customers_def)
  qed
qed

text \<open>
  The first program does not check the number of chairs: with none, and at least one
  customer, it hangs: no customer is ever served and the main thread never gets past its
  first join.
\<close>

theorem no_chairs_hangs:
  assumes "3 \<le> length args" "0 < atoi (args ! 1)" "atoi (args ! 2) = 0" "main_args args = Some s0"
    and "reach (shop_step barber barber_main) s0 s"
  shows "haircuts s = 0 \<and> mpc s = MJoin 0 \<and> (\<forall>i. cust s i = KRoom)"
proof -
  have "outside s0" using assms(1-4)
    by (auto simp: outside_def main_args_def shop_start_def Let_def MAX_NUM_CUSTOMERS_def split: if_splits)
  then show ?thesis using outside_reach [OF assms(5)] by (simp add: outside_def)
qed

theorem no_chairs_hangs_witness:
  "\<exists>s0. main_args [''barber'', ''3'', ''0''] = Some s0 \<and> haircuts s0 = 0"
proof -
  have a: "atoi ''3'' = 3" "atoi ''0'' = 0" by code_simp+
  then have "main_args [''barber'', ''3'', ''0''] = Some (shop_start 3 0)"
    by (simp add: main_args_def MAX_NUM_CUSTOMERS_def)
  from no_chairs_hangs [OF _ _ _ this reach_start] this a show ?thesis by simp
qed

text \<open>
  In the second program every customer is served when the semaphores are destroyed, but
  a barber who is then asleep is not woken: he waits on a semaphore that was destroyed, in a
  freed structure, and never leaves it.
\<close>

theorem barber_left_waiting:
  assumes "reach (shop_step thread_barber shop_main) (shop_start n c) s" "mpc s = MDestroy" "bpc s = BWait"
  shows "all_home s \<and> thread_barber s = None
    \<and> (\<forall>t. reach (shop_step thread_barber shop_main) s t \<longrightarrow> bpc t = BWait)"
proof -
  have i: "left.inv s" using assms(1) by (rule left.reach_inv)
  have f: "finished s" "all_home s" "left_late s"
    using i assms(2) by (auto simp: left.inv_def main_inv_def joining_def split: if_splits)
  have "bpc t = BWait \<and> barber_bed t = 0 \<and> all_home t \<and> \<not> joining t"
    if "reach (shop_step thread_barber shop_main) s t" for t
    using that
  proof (induction rule: reach.induct)
    case reach_start
    show ?case using f assms(2,3) by (simp add: left_late_def joining_def)
  next
    case (reach_step t e u)
    show ?case
    proof (cases e)
      case (Customer i)
      then show ?thesis using reach_step by (auto simp: shop_step_def customer_def all_home_def split: if_splits)
    next
      case TheBarber
      then show ?thesis using reach_step by (auto simp: shop_step_def thread_barber_def sem_wait_def)
    next
      case Main
      then show ?thesis using reach_step
        by (auto simp: shop_step_def shop_main_def joining_def all_home_def split: mpc.splits)
    qed
  qed
  then show ?thesis using f assms(3) by (auto simp: left_late_def thread_barber_def sem_wait_def)
qed

theorem barber_left_waiting_witness:
  "\<exists>s. reach (shop_step thread_barber shop_main) (shop_start 1 1) s \<and> mpc s = MDestroy
    \<and> thread_barber s = None"
proof -
  have "case run (shop_step thread_barber shop_main) (shop_start 1 1) (one_cut @ TheBarber # replicate 3 Main) of
      None \<Rightarrow> False | Some s \<Rightarrow> mpc s = MDestroy \<and> bpc s = BWait"
    by code_simp
  then obtain s where "reach (shop_step thread_barber shop_main) (shop_start 1 1) s" "mpc s = MDestroy" "bpc s = BWait"
    by (auto split: option.splits dest: run_reach)
  with barber_left_waiting [OF this] show ?thesis by blast
qed

text \<open>The second program always gets to destroy its shop, and has served everybody by then.\<close>

theorem shop_always_closes:
  assumes "barbershop_create args = Some s0" "run (shop_step thread_barber shop_main) s0 es = Some s"
    and "\<forall>e. shop_step thread_barber shop_main s e = None"
  shows "mpc s = MExit \<and> all_home s \<and> length es \<le> 17 * nat (atoi (args ! 1)) + 23"
proof -
  define n c where "n = nat (atoi (args ! 1))" and "c = nat (atoi (args ! 2) - 1)"
  have s0: "s0 = shop_start n (Suc c)"
    using assms(1) by (auto simp: barbershop_create_def n_def c_def Suc_nat_eq_nat_zadd1 split: if_splits)
  have r: "reach (shop_step thread_barber shop_main) (shop_start n (Suc c)) s"
    using assms(2) unfolding s0 by (rule run_reach)
  have m: "mpc s = MExit" using left_day.stuck_final [OF r] assms(3) by (simp add: closed_def)
  have "left.inv s" using r by (rule left.reach_inv)
  then have "all_home s" using m by (auto simp: left.inv_def main_inv_def joining_def split: if_splits)
  moreover have "length es \<le> 17 * n + 23"
    using left_day.runs_bounded [OF _ assms(2) [unfolded s0]] start_mu by (simp add: list_all_iff)
  ultimately show ?thesis using m by (simp add: n_def)
qed

theorem shop_always_closes_witness:
  "\<exists>s. reach (shop_step thread_barber shop_main) (shop_start 1 1) s \<and> mpc s = MExit \<and> all_home s"
proof -
  define es where "es = one_cut @ TheBarber # replicate 4 Main"
  have a: "barbershop_create [''shop'', ''1'', ''1''] = Some (shop_start 1 1)"
  proof -
    have "atoi ''1'' = 1" by code_simp
    then show ?thesis by (simp add: barbershop_create_def)
  qed
  have "case run (shop_step thread_barber shop_main) (shop_start 1 1) es of
      None \<Rightarrow> False
    | Some s \<Rightarrow> mpc s = MExit \<and> bpc s = BWait \<and> barber_bed s = 0 \<and> num_customers s = 1 \<and> cust s 0 = KHome"
    unfolding es_def by code_simp
  then obtain s where s: "run (shop_step thread_barber shop_main) (shop_start 1 1) es = Some s" "mpc s = MExit"
    "bpc s = BWait" "barber_bed s = 0" "num_customers s = 1" "cust s 0 = KHome"
    by (auto split: option.splits)
  have "shop_step thread_barber shop_main s e = None" for e
    using s(2-6) by (cases e) (auto simp: shop_step_def customer_def thread_barber_def shop_main_def sem_wait_def)
  then show ?thesis using shop_always_closes [OF a s(1)] run_reach [OF s(1)] by blast
qed

end
