(* ===== verification/Philosophers.thy ===== *)
theory Philosophers
  imports Threads
begin

text \<open>
  The dining philosophers of thr/dining\_philosophers.c: a status flag and a mutex per
  chopstick, and a philosopher who gives the left chopstick back when the right one is
  taken. The accesses to \<open>curr_num_meals\<close> in the loop test take place without its lock; they
  are single steps here.
\<close>

section \<open>State and program\<close>

definition NUM_PHILOSOPHERS :: nat where "NUM_PHILOSOPHERS = 5"
definition MAX_NUM_MEALS :: nat where "MAX_NUM_MEALS = 20"

datatype place =
    PWhile
  | PLockL | PTestL | PUnlockL
  | PLockR | PTestR | PUnlockR
  | PEat | PLockM | PCount | PUnlockM
  | GLockL | GLockR | GPut | GUnlockL | GUnlockR
  | FUnlockR | FLockL | FPut | FUnlockL
  | NUnlockL | PYield | PExit

record table =
  chopstick :: "nat \<Rightarrow> nat"
  chopstick_lock :: "nat \<Rightarrow> mutex"
  meals_lock :: mutex
  curr_num_meals :: nat
  num_meals_consumed :: "nat \<Rightarrow> nat"
  place :: "nat \<Rightarrow> place"

definition table_start :: table where
  "table_start = \<lparr>chopstick = (\<lambda>_. 1), chopstick_lock = (\<lambda>_. None), meals_lock = None,
     curr_num_meals = 0, num_meals_consumed = (\<lambda>_. 0), place = (\<lambda>_. PWhile)\<rparr>"

definition right :: "nat \<Rightarrow> nat" where
  "right i = (i + 1) mod NUM_PHILOSOPHERS"

definition goto :: "nat \<Rightarrow> place \<Rightarrow> table \<Rightarrow> table" where
  "goto i p s = s\<lparr>place := (place s)(i := p)\<rparr>"

definition lock_stick :: "nat \<Rightarrow> nat \<Rightarrow> place \<Rightarrow> table \<Rightarrow> table option" where
  "lock_stick i k p s =
     map_option (\<lambda>m. goto i p (s\<lparr>chopstick_lock := (chopstick_lock s)(k := m)\<rparr>))
       (mutex_lock (chopstick_lock s k) i)"

definition unlock_stick :: "nat \<Rightarrow> nat \<Rightarrow> place \<Rightarrow> table \<Rightarrow> table option" where
  "unlock_stick i k p s =
     Some (goto i p (s\<lparr>chopstick_lock := (chopstick_lock s)(k := mutex_unlock (chopstick_lock s k))\<rparr>))"

definition set_stick :: "nat \<Rightarrow> nat \<Rightarrow> table \<Rightarrow> table" where
  "set_stick k v s = s\<lparr>chopstick := (chopstick s)(k := v)\<rparr>"

definition philosopher :: "nat \<Rightarrow> table \<Rightarrow> table option" where
  "philosopher i s =
     (case place s i of
        PWhile \<Rightarrow> Some (goto i (if curr_num_meals s < MAX_NUM_MEALS then PLockL else PExit) s)
      | PLockL \<Rightarrow> lock_stick i i PTestL s
      | PTestL \<Rightarrow> Some (if chopstick s i = 1 then goto i PUnlockL (set_stick i 0 s) else goto i NUnlockL s)
      | PUnlockL \<Rightarrow> unlock_stick i i PLockR s
      | PLockR \<Rightarrow> lock_stick i (right i) PTestR s
      | PTestR \<Rightarrow> Some (if chopstick s (right i) = 1 then goto i PUnlockR (set_stick (right i) 0 s)
                       else goto i FUnlockR s)
      | PUnlockR \<Rightarrow> unlock_stick i (right i) PEat s
      | PEat \<Rightarrow> Some (goto i PLockM (s\<lparr>num_meals_consumed := (num_meals_consumed s)
                                          (i := num_meals_consumed s i + 1)\<rparr>))
      | PLockM \<Rightarrow> map_option (\<lambda>m. goto i PCount (s\<lparr>meals_lock := m\<rparr>)) (mutex_lock (meals_lock s) i)
      | PCount \<Rightarrow> Some (goto i PUnlockM (s\<lparr>curr_num_meals := curr_num_meals s + 1\<rparr>))
      | PUnlockM \<Rightarrow> Some (goto i GLockL (s\<lparr>meals_lock := mutex_unlock (meals_lock s)\<rparr>))
      | GLockL \<Rightarrow> lock_stick i i GLockR s
      | GLockR \<Rightarrow> lock_stick i (right i) GPut s
      | GPut \<Rightarrow> Some (goto i GUnlockL (set_stick (right i) 1 (set_stick i 1 s)))
      | GUnlockL \<Rightarrow> unlock_stick i i GUnlockR s
      | GUnlockR \<Rightarrow> unlock_stick i (right i) PYield s
      | FUnlockR \<Rightarrow> unlock_stick i (right i) FLockL s
      | FLockL \<Rightarrow> lock_stick i i FPut s
      | FPut \<Rightarrow> Some (goto i FUnlockL (set_stick i 1 s))
      | FUnlockL \<Rightarrow> unlock_stick i i PYield s
      | NUnlockL \<Rightarrow> unlock_stick i i PYield s
      | PYield \<Rightarrow> Some (goto i PWhile s)
      | PExit \<Rightarrow> None)"

definition table_step :: "table \<Rightarrow> nat \<Rightarrow> table option" where
  "table_step s i = (if i < NUM_PHILOSOPHERS then philosopher i s else None)"

section \<open>Invariant\<close>

text \<open>Which locks and which chopsticks a philosopher has at each place.\<close>

fun locks_l :: "place \<Rightarrow> bool" where
  "locks_l PTestL = True" | "locks_l PUnlockL = True" | "locks_l GLockR = True" | "locks_l GPut = True"
| "locks_l GUnlockL = True" | "locks_l FPut = True" | "locks_l FUnlockL = True"
| "locks_l NUnlockL = True" | "locks_l _ = False"

fun locks_r :: "place \<Rightarrow> bool" where
  "locks_r PTestR = True" | "locks_r PUnlockR = True" | "locks_r GPut = True" | "locks_r GUnlockL = True"
| "locks_r GUnlockR = True" | "locks_r FUnlockR = True" | "locks_r _ = False"

fun eating :: "place \<Rightarrow> bool" where
  "eating PUnlockR = True" | "eating PEat = True" | "eating PLockM = True" | "eating PCount = True"
| "eating PUnlockM = True" | "eating GLockL = True" | "eating GLockR = True" | "eating GPut = True"
| "eating _ = False"

fun has_l :: "place \<Rightarrow> bool" where
  "has_l PUnlockL = True" | "has_l PLockR = True" | "has_l PTestR = True" | "has_l FUnlockR = True"
| "has_l FLockL = True" | "has_l FPut = True" | "has_l p = eating p"

fun locks_m :: "place \<Rightarrow> bool" where
  "locks_m PCount = True" | "locks_m PUnlockM = True" | "locks_m _ = False"

text \<open>Before the meal is counted, and between the two counts of it.\<close>

fun may_eat :: "place \<Rightarrow> bool" where
  "may_eat PLockL = True" | "may_eat PTestL = True" | "may_eat PUnlockL = True" | "may_eat PLockR = True"
| "may_eat PTestR = True" | "may_eat PUnlockR = True" | "may_eat PEat = True" | "may_eat PLockM = True"
| "may_eat PCount = True" | "may_eat _ = False"

fun counted_once :: "place \<Rightarrow> bool" where
  "counted_once PLockM = True" | "counted_once PCount = True" | "counted_once _ = False"

definition lock_inv :: "table \<Rightarrow> bool" where
  "lock_inv s \<longleftrightarrow> (\<forall>k<NUM_PHILOSOPHERS.
     \<not> (locks_l (place s (right k)) \<and> locks_r (place s k))
     \<and> chopstick_lock s (right k) = (if locks_l (place s (right k)) then Some (right k)
         else if locks_r (place s k) then Some k else None))"

definition stick_inv :: "table \<Rightarrow> bool" where
  "stick_inv s \<longleftrightarrow> (\<forall>k<NUM_PHILOSOPHERS.
     \<not> (has_l (place s (right k)) \<and> eating (place s k))
     \<and> chopstick s (right k) = (if has_l (place s (right k)) \<or> eating (place s k) then 0 else 1))"

definition meals_inv :: "table \<Rightarrow> bool" where
  "meals_inv s \<longleftrightarrow> (\<forall>k<NUM_PHILOSOPHERS. locks_m (place s k) \<longleftrightarrow> meals_lock s = Some k)
     \<and> (\<forall>k. meals_lock s = Some k \<longrightarrow> k < NUM_PHILOSOPHERS)"

definition count_inv :: "table \<Rightarrow> bool" where
  "count_inv s \<longleftrightarrow>
     curr_num_meals s + cnt may_eat (place s) NUM_PHILOSOPHERS < MAX_NUM_MEALS + NUM_PHILOSOPHERS
     \<and> (\<Sum>k<NUM_PHILOSOPHERS. num_meals_consumed s k)
        = curr_num_meals s + cnt counted_once (place s) NUM_PHILOSOPHERS
     \<and> (\<forall>k<NUM_PHILOSOPHERS. place s k = PExit \<longrightarrow> MAX_NUM_MEALS \<le> curr_num_meals s)"

definition table_inv :: "table \<Rightarrow> bool" where
  "table_inv s \<longleftrightarrow> lock_inv s \<and> stick_inv s \<and> meals_inv s \<and> count_inv s"

lemma right_less: "i < NUM_PHILOSOPHERS \<Longrightarrow> right i < NUM_PHILOSOPHERS"
  by (simp add: right_def NUM_PHILOSOPHERS_def)

lemma right_neq: "i < NUM_PHILOSOPHERS \<Longrightarrow> right i \<noteq> i"
  by (auto simp: right_def NUM_PHILOSOPHERS_def mod_Suc split: if_splits)

lemma right_inj: "i < NUM_PHILOSOPHERS \<Longrightarrow> k < NUM_PHILOSOPHERS \<Longrightarrow> right i = right k \<Longrightarrow> i = k"
  by (auto simp: right_def NUM_PHILOSOPHERS_def mod_Suc split: if_splits)

lemma right_surj: "i < NUM_PHILOSOPHERS \<Longrightarrow> \<exists>k<NUM_PHILOSOPHERS. right k = i"
  by (intro exI [of _ "(i + 4) mod 5"]) (simp add: right_def NUM_PHILOSOPHERS_def mod_simps)

lemmas table_simps = philosopher_def lock_stick_def unlock_stick_def set_stick_def goto_def step_simps

text \<open>What a step does to the locks, and what it does to the chopsticks.\<close>

lemma philosopher_locks:
  assumes "philosopher i s = Some t"
  obtains (none) p where "place t = (place s)(i := p)" "locks_l p = locks_l (place s i)"
      "locks_r p = locks_r (place s i)" "chopstick_lock t = chopstick_lock s"
  | (get_l) p where "place t = (place s)(i := p)" "\<not> locks_l (place s i)" "locks_l p"
      "locks_r p = locks_r (place s i)" "chopstick_lock s i = None"
      "chopstick_lock t = (chopstick_lock s)(i := Some i)"
  | (put_l) p where "place t = (place s)(i := p)" "locks_l (place s i)" "\<not> locks_l p"
      "locks_r p = locks_r (place s i)" "chopstick_lock t = (chopstick_lock s)(i := None)"
  | (get_r) p where "place t = (place s)(i := p)" "\<not> locks_r (place s i)" "locks_r p"
      "locks_l p = locks_l (place s i)" "chopstick_lock s (right i) = None"
      "chopstick_lock t = (chopstick_lock s)(right i := Some i)"
  | (put_r) p where "place t = (place s)(i := p)" "locks_r (place s i)" "\<not> locks_r p"
      "locks_l p = locks_l (place s i)" "chopstick_lock t = (chopstick_lock s)(right i := None)"
  by (cases "place s i")
    (use assms in \<open>auto simp: table_simps intro: none get_l put_l get_r put_r split: if_splits\<close>)

lemma philosopher_sticks:
  assumes "philosopher i s = Some t"
  obtains (none) p where "place t = (place s)(i := p)" "has_l p = has_l (place s i)"
      "eating p = eating (place s i)" "chopstick t = chopstick s"
  | (get_l) p where "place t = (place s)(i := p)" "\<not> has_l (place s i)" "has_l p"
      "\<not> eating p" "\<not> eating (place s i)" "chopstick s i = 1" "chopstick t = (chopstick s)(i := 0)"
  | (put_l) p where "place t = (place s)(i := p)" "has_l (place s i)" "\<not> has_l p"
      "\<not> eating p" "\<not> eating (place s i)" "chopstick t = (chopstick s)(i := 1)"
  | (get_r) p where "place t = (place s)(i := p)" "has_l (place s i)" "has_l p"
      "eating p" "\<not> eating (place s i)" "chopstick s (right i) = 1" "chopstick t = (chopstick s)(right i := 0)"
  | (put_both) p where "place t = (place s)(i := p)" "has_l (place s i)" "\<not> has_l p"
      "\<not> eating p" "eating (place s i)" "chopstick t = (chopstick s)(i := 1, right i := 1)"
  by (cases "place s i")
    (use assms in \<open>auto simp: table_simps intro: none get_l put_l get_r put_both split: if_splits\<close>)

lemma neighbours:
  assumes "i < NUM_PHILOSOPHERS" "k < NUM_PHILOSOPHERS"
  obtains "k = i" "right i \<noteq> i" | "right k = i" "k \<noteq> i" "right i \<noteq> i"
  | "right k \<noteq> i" "k \<noteq> i" "right k \<noteq> right i"
  using right_neq [OF assms(1)] right_neq [OF assms(2)] right_inj [OF assms(2,1)] by blast

lemma lock_invD: "lock_inv s \<Longrightarrow> k < NUM_PHILOSOPHERS \<Longrightarrow> \<not> (locks_l (place s (right k)) \<and> locks_r (place s k))
    \<and> chopstick_lock s (right k) = (if locks_l (place s (right k)) then Some (right k)
         else if locks_r (place s k) then Some k else None)"
  by (simp add: lock_inv_def)

lemma table_lock_inv_step:
  assumes "lock_inv s" "i < NUM_PHILOSOPHERS" "philosopher i s = Some t"
  shows "lock_inv t"
  unfolding lock_inv_def
proof (intro allI impI)
  fix k
  assume k: "k < NUM_PHILOSOPHERS"
  note d = lock_invD [OF assms(1) k]
  from assms(2) k show "\<not> (locks_l (place t (right k)) \<and> locks_r (place t k))
     \<and> chopstick_lock t (right k) = (if locks_l (place t (right k)) then Some (right k)
         else if locks_r (place t k) then Some k else None)"
    by (cases rule: neighbours; use assms(3) in \<open>cases rule: philosopher_locks\<close>)
      (use d in \<open>simp split: if_splits\<close>)+
qed

lemma stick_invD: "stick_inv s \<Longrightarrow> k < NUM_PHILOSOPHERS \<Longrightarrow> \<not> (has_l (place s (right k)) \<and> eating (place s k))
     \<and> chopstick s (right k) = (if has_l (place s (right k)) \<or> eating (place s k) then 0 else 1)"
  by (simp add: stick_inv_def)

lemma stick_inv_step:
  assumes "stick_inv s" "i < NUM_PHILOSOPHERS" "philosopher i s = Some t"
  shows "stick_inv t"
  unfolding stick_inv_def
proof (intro allI impI)
  fix k
  assume k: "k < NUM_PHILOSOPHERS"
  note d = stick_invD [OF assms(1) k]
  from assms(2) k show "\<not> (has_l (place t (right k)) \<and> eating (place t k))
     \<and> chopstick t (right k) = (if has_l (place t (right k)) \<or> eating (place t k) then 0 else 1)"
    by (cases rule: neighbours; use assms(3) in \<open>cases rule: philosopher_sticks\<close>)
      (use d in \<open>simp split: if_splits\<close>)+
qed

lemma meals_inv_step:
  assumes "meals_inv s" "i < NUM_PHILOSOPHERS" "philosopher i s = Some t"
  shows "meals_inv t"
proof -
  have "meals_lock t = meals_lock s \<and> (\<exists>p. place t = (place s)(i := p) \<and> locks_m p = locks_m (place s i))
    \<or> meals_lock s = None \<and> meals_lock t = Some i \<and> place t = (place s)(i := PCount)
    \<or> locks_m (place s i) \<and> meals_lock t = None \<and> place t = (place s)(i := GLockL)"
    using assms(3) by (cases "place s i") (auto simp: table_simps split: if_splits)
  then show ?thesis using assms(1,2) by (fastforce simp: meals_inv_def)
qed

lemma table_count_inv_step:
  assumes "count_inv s" "i < NUM_PHILOSOPHERS" "philosopher i s = Some t"
  shows "count_inv t"
proof -
  let ?n = NUM_PHILOSOPHERS
  have e: "(\<forall>k<?n. place t k = PExit \<longrightarrow> place s k = PExit \<or> MAX_NUM_MEALS \<le> curr_num_meals s)"
    "curr_num_meals s \<le> curr_num_meals t"
    using assms(3) by (cases "place s i"; auto simp: table_simps split: if_splits)+
  have m: "cnt may_eat (place s) ?n < ?n" if "\<not> may_eat (place s i)"
    using cnt_less [OF assms(2)] that by blast
  have p: "0 < cnt may_eat (place s) ?n" if "may_eat (place s i)" using cnt_pos [OF assms(2)] that by blast
  have q: "0 < cnt counted_once (place s) ?n" if "counted_once (place s i)" using cnt_pos [OF assms(2)] that by blast
  have "curr_num_meals t + cnt may_eat (place t) ?n < MAX_NUM_MEALS + ?n
    \<and> (\<Sum>k<?n. num_meals_consumed t k) = curr_num_meals t + cnt counted_once (place t) ?n"
  proof (cases "place s i = PEat")
    case True
    then show ?thesis using assms sum_upd [OF assms(2), of "num_meals_consumed s" "num_meals_consumed s i + 1"]
      by (auto simp: table_simps count_inv_def cnt_set)
  next
    case False
    then show ?thesis using assms m p q
      by (cases "place s i") (auto simp: table_simps count_inv_def cnt_set split: if_splits)
  qed
  then show ?thesis using e assms(1) unfolding count_inv_def by (meson le_trans)
qed

lemma table_inv_start: "table_inv table_start"
  by (simp add: table_inv_def table_start_def lock_inv_def stick_inv_def meals_inv_def count_inv_def cnt_const
    MAX_NUM_MEALS_def)

interpretation table: machine_inv table_step table_start table_inv
proof unfold_locales
  fix s e t
  assume "table_inv s" "table_step s e = Some t"
  then show "table_inv t"
    by (auto simp: table_inv_def table_step_def split: if_splits
      intro: table_lock_inv_step stick_inv_step meals_inv_step table_count_inv_step)
qed (rule table_inv_start)

section \<open>No deadlock\<close>

fun blocks :: "place \<Rightarrow> bool" where
  "blocks PLockL = True" | "blocks PLockR = True" | "blocks PLockM = True" | "blocks GLockL = True"
| "blocks GLockR = True" | "blocks FLockL = True" | "blocks PExit = True" | "blocks _ = False"

lemma stuck_blocks: "philosopher i s = None \<Longrightarrow> blocks (place s i)"
  by (cases "place s i") (auto simp: table_simps)

lemma stuck_exit:
  assumes "table_inv s" "\<forall>i<NUM_PHILOSOPHERS. philosopher i s = None" "i < NUM_PHILOSOPHERS"
  shows "place s i = PExit"
proof -
  have inv: "lock_inv s" "stick_inv s" "meals_inv s" using assms(1) by (auto simp: table_inv_def)
  have b: "blocks (place s k)" if "k < NUM_PHILOSOPHERS" for k
    using assms(2) that by (auto intro: stuck_blocks)
  have lr: "\<not> locks_r (place s k)" "\<not> locks_m (place s k)" "locks_l (place s k) \<Longrightarrow> place s k = GLockR"
    if "k < NUM_PHILOSOPHERS" for k
    using b [OF that] by (cases "place s k"; simp)+
  have meals: "meals_lock s = None"
    using inv(3) lr(2) unfolding meals_inv_def by (cases "meals_lock s") auto
  have free: "chopstick_lock s (right k) = None" if "k < NUM_PHILOSOPHERS" "place s (right k) \<noteq> GLockR" for k
    using lock_invD [OF inv(1) that(1)] lr(1) [OF that(1)] lr(3) [OF right_less [OF that(1)]] that(2) by auto
  have noG: "place s k \<noteq> GLockR" if k: "k < NUM_PHILOSOPHERS" for k
  proof
    assume g: "place s k = GLockR"
    then have "place s (right k) \<noteq> GLockR" using stick_invD [OF inv(2) k] by auto
    then have "philosopher k s \<noteq> None" using g free [OF k] by (simp add: table_simps)
    then show False using assms(2) k by simp
  qed
  have all: "chopstick_lock s k = None" if k: "k < NUM_PHILOSOPHERS" for k
  proof -
    obtain l where "l < NUM_PHILOSOPHERS" "right l = k" using right_surj [OF k] by blast
    then show ?thesis using free [of l] noG [OF k] by simp
  qed
  have "philosopher i s = None" using assms(2,3) by simp
  then show ?thesis using b [OF assms(3)] noG [OF assms(3)] meals all [OF assms(3)] all [OF right_less [OF assms(3)]]
    by (cases "place s i") (auto simp: table_simps)
qed

section \<open>Properties\<close>

text \<open>
  C22: two neighbours are never eating at the same time, a chopstick marked free is in nobody's
  hand, and the counts agree: the meals of the philosophers add up to the common count and
  the meals under way, and the count never exceeds the limit by more than the philosophers
  that were already past its test.
\<close>

theorem philosophers_exclude:
  assumes "reach table_step table_start s" "i < NUM_PHILOSOPHERS"
  shows "\<not> (eating (place s i) \<and> eating (place s (right i)))
    \<and> (chopstick s i = 1 \<longrightarrow> \<not> has_l (place s i))
    \<and> (chopstick s (right i) = 1 \<longrightarrow> \<not> eating (place s i))
    \<and> (\<Sum>k<NUM_PHILOSOPHERS. num_meals_consumed s k)
       = curr_num_meals s + cnt counted_once (place s) NUM_PHILOSOPHERS
    \<and> curr_num_meals s < MAX_NUM_MEALS + NUM_PHILOSOPHERS"
proof -
  have i: "stick_inv s" "count_inv s" using table.reach_inv [OF assms(1)] by (auto simp: table_inv_def)
  have e: "eating p \<Longrightarrow> has_l p" for p by (cases p) auto
  obtain k where "k < NUM_PHILOSOPHERS" "right k = i" using right_surj [OF assms(2)] by blast
  then have "chopstick s i = 1 \<longrightarrow> \<not> has_l (place s i)" using stick_invD [OF i(1)] by auto
  then show ?thesis using stick_invD [OF i(1) assms(2)] e i(2) by (auto simp: count_inv_def)
qed

theorem philosophers_exclude_witness:
  "\<exists>s. reach table_step table_start s \<and> eating (place s 0) \<and> \<not> eating (place s 1)"
proof -
  have "case run table_step table_start (replicate 8 0) of None \<Rightarrow> False | Some s \<Rightarrow> eating (place s 0)"
    by code_simp
  then obtain s where s: "reach table_step table_start s" "eating (place s 0)"
    by (auto split: option.splits dest: run_reach)
  have "right 0 = 1" by (simp add: right_def NUM_PHILOSOPHERS_def)
  with philosophers_exclude [OF s(1), of 0] s show ?thesis by (auto simp: NUM_PHILOSOPHERS_def)
qed

text \<open>
  C23: the table never deadlocks: although a philosopher who gives his chopsticks back takes
  two locks, a state in which nobody can move is one in which everybody has left, after at
  least twenty and at most twenty-four meals.
\<close>

theorem philosophers_no_deadlock:
  assumes "reach table_step table_start s" "\<forall>i. table_step s i = None"
  shows "(\<forall>i<NUM_PHILOSOPHERS. place s i = PExit)
    \<and> MAX_NUM_MEALS \<le> (\<Sum>k<NUM_PHILOSOPHERS. num_meals_consumed s k)
    \<and> (\<Sum>k<NUM_PHILOSOPHERS. num_meals_consumed s k) < MAX_NUM_MEALS + NUM_PHILOSOPHERS"
proof -
  have i: "table_inv s" "count_inv s" using table.reach_inv [OF assms(1)] by (auto simp: table_inv_def)
  have x: "\<forall>i<NUM_PHILOSOPHERS. place s i = PExit"
  proof (intro allI impI)
    fix j
    assume "j < NUM_PHILOSOPHERS"
    moreover have "\<forall>i<NUM_PHILOSOPHERS. philosopher i s = None"
      using assms(2) by (auto simp: table_step_def split: if_splits)
    ultimately show "place s j = PExit" using stuck_exit [OF i(1)] by blast
  qed
  then have "cnt counted_once (place s) NUM_PHILOSOPHERS = 0" by (simp add: cnt_0_iff)
  moreover have "0 < NUM_PHILOSOPHERS" by (simp add: NUM_PHILOSOPHERS_def)
  ultimately show ?thesis using x i(2) unfolding count_inv_def by fastforce
qed

definition greedy_schedule :: "nat list" where
  "greedy_schedule = replicate 340 0 @ [0, 1, 2, 3, 4]"

theorem philosophers_no_deadlock_witness:
  "\<exists>s. reach table_step table_start s \<and> (\<forall>i<NUM_PHILOSOPHERS. place s i = PExit)"
proof -
  have "case run table_step table_start greedy_schedule of None \<Rightarrow> False
    | Some s \<Rightarrow> list_all (\<lambda>i. place s i = PExit) [0, 1, 2, 3, 4]"
    by code_simp
  then obtain s where s: "reach table_step table_start s" "list_all (\<lambda>i. place s i = PExit) [0, 1, 2, 3, 4]"
    by (auto split: option.splits dest: run_reach)
  have "table_step s i = None" for i
  proof (cases "i < NUM_PHILOSOPHERS")
    case True
    then have "i \<in> {0, 1, 2, 3, 4}" by (auto simp: NUM_PHILOSOPHERS_def)
    then have "place s i = PExit" using s(2) by auto
    then show ?thesis by (simp add: table_step_def philosopher_def)
  qed (simp add: table_step_def)
  then show ?thesis using philosophers_no_deadlock [OF s(1)] s(1) by blast
qed

end
