(* ===== verification/Barriers.thy ===== *)
theory Barriers
  imports Threads CString
begin

text \<open>
  The barriers: with a condition variable (thr/barrier\_synchronization\_with\_condition\_variables.c
  and the older 02-barrier\_cv.c) and with semaphores
  (thr/barrier\_synchronization\_with\_semaphores.c), used by threads that iterate.
\<close>

section \<open>The barrier with a condition variable\<close>

text \<open>
  \<open>TArrive\<close> is the critical section from the increment to the broadcast, or to the call of
  \<open>pthread_cond_wait\<close>, which releases the mutex. A thread asleep (\<open>TWait\<close>) is woken by
  the broadcast or spuriously; then it takes the mutex back (\<open>TWake\<close>) and
  \<open>pthread_cond_wait\<close> returns 0, so the loop around it does not call it again.
\<close>

datatype tpc = TWork | TLock | TArrive | TWait | TWake | TUnlock | TExit
datatype event = Thread nat | Spurious nat

record cv_barrier =
  num_threads :: nat
  num_iterations :: nat
  mutex :: mutex
  counter :: nat
  tpc :: "nat \<Rightarrow> tpc"
  iter :: "nat \<Rightarrow> nat"
  gen :: nat

text \<open>\<open>gen\<close> counts the broadcasts; the program does not keep it.\<close>

definition cv_start :: "nat \<Rightarrow> nat \<Rightarrow> cv_barrier" where
  "cv_start n m = \<lparr>num_threads = n, num_iterations = m, mutex = None, counter = 0,
     tpc = (\<lambda>_. TWork), iter = (\<lambda>_. 0), gen = 0\<rparr>"

definition cv_main :: "string list \<Rightarrow> cv_barrier option" where
  "cv_main args = (if length args \<noteq> 3 then None
                   else Some (cv_start (nat (atoi (args ! 1))) (nat (atoi (args ! 2)))))"

definition wake_all :: "(nat \<Rightarrow> tpc) \<Rightarrow> nat \<Rightarrow> tpc" where
  "wake_all f = (\<lambda>j. if f j = TWait then TWake else f j)"

definition barrier_sync :: "nat \<Rightarrow> cv_barrier \<Rightarrow> cv_barrier option" where
  "barrier_sync i s =
     (case tpc s i of
        TLock \<Rightarrow> map_option (\<lambda>m. s\<lparr>mutex := m, tpc := (tpc s)(i := TArrive)\<rparr>) (mutex_lock (mutex s) i)
      | TArrive \<Rightarrow>
          (if counter s + 1 = num_threads s
           then Some (s\<lparr>counter := 0, gen := gen s + 1, tpc := (wake_all (tpc s))(i := TUnlock)\<rparr>)
           else Some (s\<lparr>counter := counter s + 1, mutex := mutex_unlock (mutex s),
                        tpc := (tpc s)(i := TWait)\<rparr>))
      | TWake \<Rightarrow> map_option (\<lambda>m. s\<lparr>mutex := m, tpc := (tpc s)(i := TUnlock)\<rparr>) (mutex_lock (mutex s) i)
      | TUnlock \<Rightarrow> Some (s\<lparr>mutex := mutex_unlock (mutex s), iter := (iter s)(i := iter s i + 1),
                           tpc := (tpc s)(i := TWork)\<rparr>)
      | _ \<Rightarrow> None)"

definition my_thread :: "nat \<Rightarrow> cv_barrier \<Rightarrow> cv_barrier option" where
  "my_thread i s =
     (if tpc s i = TWork
      then Some (s\<lparr>tpc := (tpc s)(i := if iter s i < num_iterations s then TLock else TExit)\<rparr>)
      else barrier_sync i s)"

definition cv_step :: "cv_barrier \<Rightarrow> event \<Rightarrow> cv_barrier option" where
  "cv_step s e =
     (case e of
        Thread i \<Rightarrow> if i < num_threads s then my_thread i s else None
      | Spurious i \<Rightarrow> if i < num_threads s \<and> tpc s i = TWait
                      then Some (s\<lparr>tpc := (tpc s)(i := TWake)\<rparr>) else None)"

text \<open>The same machine on a system that makes no spurious wake-ups.\<close>

definition cv_quiet :: "cv_barrier \<Rightarrow> nat \<Rightarrow> cv_barrier option" where
  "cv_quiet s i = cv_step s (Thread i)"

text \<open>
  The older program has the number of threads and of iterations fixed, and no loop around
  \<open>pthread_cond_wait\<close>.
\<close>

definition old_barrier_sync :: "nat \<Rightarrow> cv_barrier \<Rightarrow> cv_barrier option" where
  "old_barrier_sync i s =
     (case tpc s i of
        TLock \<Rightarrow> map_option (\<lambda>m. s\<lparr>mutex := m, tpc := (tpc s)(i := TArrive)\<rparr>) (mutex_lock (mutex s) i)
      | TArrive \<Rightarrow>
          (let c = counter s + 1
           in if c = num_threads s
              then Some (s\<lparr>counter := 0, gen := gen s + 1, tpc := (wake_all (tpc s))(i := TUnlock)\<rparr>)
              else Some (s\<lparr>counter := c, mutex := mutex_unlock (mutex s), tpc := (tpc s)(i := TWait)\<rparr>))
      | TWake \<Rightarrow> map_option (\<lambda>m. s\<lparr>mutex := m, tpc := (tpc s)(i := TUnlock)\<rparr>) (mutex_lock (mutex s) i)
      | TUnlock \<Rightarrow> Some (s\<lparr>mutex := mutex_unlock (mutex s), iter := (iter s)(i := iter s i + 1),
                           tpc := (tpc s)(i := TWork)\<rparr>)
      | _ \<Rightarrow> None)"

definition old_thread :: "nat \<Rightarrow> cv_barrier \<Rightarrow> cv_barrier option" where
  "old_thread i s =
     (if tpc s i = TWork
      then Some (s\<lparr>tpc := (tpc s)(i := if iter s i < num_iterations s then TLock else TExit)\<rparr>)
      else old_barrier_sync i s)"

definition old_start :: cv_barrier where
  "old_start = cv_start 5 5"

lemma old_thread_eq: "old_thread = my_thread"
  by (auto simp: old_thread_def my_thread_def old_barrier_sync_def barrier_sync_def Let_def fun_eq_iff
    split: tpc.split)

section \<open>Its invariant without spurious wake-ups\<close>

fun t_owns :: "tpc \<Rightarrow> bool" where
  "t_owns TArrive = True" | "t_owns TUnlock = True" | "t_owns _ = False"

fun t_passed :: "tpc \<Rightarrow> bool" where
  "t_passed TWake = True" | "t_passed TUnlock = True" | "t_passed _ = False"

definition asleep :: "cv_barrier \<Rightarrow> nat" where
  "asleep s = cnt (\<lambda>p. p = TWait) (tpc s) (num_threads s)"

definition cv_mutex_inv :: "cv_barrier \<Rightarrow> bool" where
  "cv_mutex_inv s \<longleftrightarrow> (\<forall>i<num_threads s. t_owns (tpc s i) \<longleftrightarrow> mutex s = Some i)
     \<and> (\<forall>i. mutex s = Some i \<longrightarrow> i < num_threads s)"

definition cv_count_inv :: "cv_barrier \<Rightarrow> bool" where
  "cv_count_inv s \<longleftrightarrow> counter s = asleep s \<and> (0 < num_threads s \<longrightarrow> counter s < num_threads s)
     \<and> gen s \<le> num_iterations s"

definition cv_phase_inv :: "cv_barrier \<Rightarrow> bool" where
  "cv_phase_inv s \<longleftrightarrow> (\<forall>i<num_threads s.
     (if t_passed (tpc s i) then Suc (iter s i) = gen s else iter s i = gen s)
     \<and> (tpc s i \<in> {TLock, TArrive, TWait} \<longrightarrow> iter s i < num_iterations s)
     \<and> (tpc s i = TExit \<longrightarrow> iter s i = num_iterations s))"

definition cv_inv :: "cv_barrier \<Rightarrow> bool" where
  "cv_inv s \<longleftrightarrow> cv_mutex_inv s \<and> cv_count_inv s \<and> cv_phase_inv s"

lemma cv_quiet_cases:
  assumes "cv_quiet s i = Some t"
  obtains (next_turn) "i < num_threads s" "tpc s i = TWork" "iter s i < num_iterations s"
      "t = s\<lparr>tpc := (tpc s)(i := TLock)\<rparr>"
  | (no_more) "i < num_threads s" "tpc s i = TWork" "\<not> iter s i < num_iterations s"
      "t = s\<lparr>tpc := (tpc s)(i := TExit)\<rparr>"
  | (enter) "i < num_threads s" "tpc s i = TLock" "mutex s = None"
      "t = s\<lparr>mutex := Some i, tpc := (tpc s)(i := TArrive)\<rparr>"
  | (last_one) "i < num_threads s" "tpc s i = TArrive" "counter s + 1 = num_threads s"
      "t = s\<lparr>counter := 0, gen := gen s + 1, tpc := (wake_all (tpc s))(i := TUnlock)\<rparr>"
  | (sleeps) "i < num_threads s" "tpc s i = TArrive" "counter s + 1 \<noteq> num_threads s"
      "t = s\<lparr>counter := counter s + 1, mutex := None, tpc := (tpc s)(i := TWait)\<rparr>"
  | (woken) "i < num_threads s" "tpc s i = TWake" "mutex s = None"
      "t = s\<lparr>mutex := Some i, tpc := (tpc s)(i := TUnlock)\<rparr>"
  | (leaves) "i < num_threads s" "tpc s i = TUnlock"
      "t = s\<lparr>mutex := None, iter := (iter s)(i := iter s i + 1), tpc := (tpc s)(i := TWork)\<rparr>"
proof -
  have n: "i < num_threads s" and t: "my_thread i s = Some t"
    using assms by (auto simp: cv_quiet_def cv_step_def split: if_splits)
  show ?thesis
  proof (cases "tpc s i")
    case TWork
    then show ?thesis using t n next_turn no_more
      by (cases "iter s i < num_iterations s") (simp_all add: my_thread_def)
  next
    case TLock
    with t have "mutex s = None" "t = s\<lparr>mutex := Some i, tpc := (tpc s)(i := TArrive)\<rparr>"
      by (auto simp: my_thread_def barrier_sync_def step_simps)
    then show ?thesis by (rule enter [OF n TLock])
  next
    case TArrive
    then show ?thesis using t n last_one sleeps
      by (cases "counter s + 1 = num_threads s") (simp_all add: my_thread_def barrier_sync_def)
  next
    case TWake
    with t have "mutex s = None" "t = s\<lparr>mutex := Some i, tpc := (tpc s)(i := TUnlock)\<rparr>"
      by (auto simp: my_thread_def barrier_sync_def step_simps)
    then show ?thesis by (rule woken [OF n TWake])
  next
    case TUnlock
    then show ?thesis using t by (intro leaves [OF n]) (simp_all add: my_thread_def barrier_sync_def)
  qed (use t in \<open>simp_all add: my_thread_def barrier_sync_def\<close>)
qed

lemma wake_all_asleep: "cnt (\<lambda>p. p = TWait) (wake_all f) n = 0"
  by (simp add: cnt_0_iff wake_all_def)

lemma last_arrival:
  assumes "cv_count_inv s" "i < num_threads s" "tpc s i = TArrive" "counter s + 1 = num_threads s"
    and "j < num_threads s" "j \<noteq> i"
  shows "tpc s j = TWait"
proof (rule ccontr)
  assume "tpc s j \<noteq> TWait"
  then have "2 \<le> cnt (\<lambda>p. p \<noteq> TWait) (tpc s) (num_threads s)"
    using cnt_two [of i "num_threads s" j "\<lambda>p. p \<noteq> TWait" "tpc s"] assms by simp
  moreover have "cnt (\<lambda>p. p \<noteq> TWait) (tpc s) (num_threads s) + asleep s = num_threads s"
  proof -
    have "cnt (\<lambda>p. p \<noteq> TWait \<or> p = TWait) (tpc s) (num_threads s)
        = cnt (\<lambda>p. p \<noteq> TWait) (tpc s) (num_threads s) + asleep s"
      unfolding asleep_def by (rule cnt_disj) auto
    moreover have "cnt (\<lambda>p. p \<noteq> TWait \<or> p = TWait) (tpc s) (num_threads s) = num_threads s"
      by (simp add: cnt_all_iff)
    ultimately show ?thesis by simp
  qed
  ultimately show False using assms(1,4) by (simp add: cv_count_inv_def)
qed

lemma cv_inv_step:
  assumes "cv_inv s" "cv_quiet s i = Some t"
  shows "cv_inv t"
proof -
  have i: "cv_mutex_inv s" "cv_count_inv s" "cv_phase_inv s" using assms(1) by (auto simp: cv_inv_def)
  from assms(2) have "cv_mutex_inv t"
    by (cases rule: cv_quiet_cases) (use i(1) in \<open>auto simp: cv_mutex_inv_def wake_all_def split: if_splits\<close>)
  moreover from assms(2) have "cv_count_inv t"
  proof (cases rule: cv_quiet_cases)
    case last_one
    have "gen s < num_iterations s" using i(3) last_one by (auto simp: cv_phase_inv_def)
    then show ?thesis using last_one i(2)
      by (auto simp: cv_count_inv_def asleep_def wake_all_asleep cnt_set)
  next
    case sleeps
    then have "asleep t = Suc (asleep s)" by (simp add: asleep_def cnt_set)
    then show ?thesis using sleeps i(2) by (auto simp: cv_count_inv_def)
  qed (use i(2) in \<open>auto simp: cv_count_inv_def asleep_def cnt_set\<close>)
  moreover from assms(2) have "cv_phase_inv t"
  proof (cases rule: cv_quiet_cases)
    case last_one
    note w = last_arrival [OF i(2) last_one(1,2,3)]
    show ?thesis unfolding cv_phase_inv_def
    proof (intro allI impI)
      fix j
      assume j: "j < num_threads t"
      then have "tpc t j \<in> {TUnlock, TWake}" "iter t j = gen s"
        using i(3) last_one w [of j] by (cases "j = i"; auto simp: cv_phase_inv_def wake_all_def)+
      then show "(if t_passed (tpc t j) then Suc (iter t j) = gen t else iter t j = gen t)
         \<and> (tpc t j \<in> {TLock, TArrive, TWait} \<longrightarrow> iter t j < num_iterations t)
         \<and> (tpc t j = TExit \<longrightarrow> iter t j = num_iterations t)" using last_one(4) by auto
    qed
  next
    case no_more
    then have "iter s i = num_iterations s" using i(2,3) by (auto simp: cv_phase_inv_def cv_count_inv_def)
    then show ?thesis using no_more i(3) by (auto simp: cv_phase_inv_def)
  qed (use i(3) in \<open>auto simp: cv_phase_inv_def split: if_splits\<close>)
  ultimately show ?thesis by (simp add: cv_inv_def)
qed

fun t_weight :: "tpc \<Rightarrow> nat" where
  "t_weight TWork = 6" | "t_weight TLock = 5" | "t_weight TArrive = 4" | "t_weight TWait = 3"
| "t_weight TWake = 3" | "t_weight TUnlock = 2" | "t_weight TExit = 0"

definition cv_mu :: "cv_barrier \<Rightarrow> nat" where
  "cv_mu s = (\<Sum>i<num_threads s. 8 * (num_iterations s - iter s i) + t_weight (tpc s i))"

definition cv_done :: "cv_barrier \<Rightarrow> bool" where
  "cv_done s \<longleftrightarrow> (\<forall>i<num_threads s. tpc s i = TExit)"

lemma sum_drop:
  fixes f g :: "nat \<Rightarrow> nat"
  assumes "i < n" "g i < f i" "\<And>j. j < n \<Longrightarrow> j \<noteq> i \<Longrightarrow> g j = f j"
  shows "(\<Sum>j<n. g j) < (\<Sum>j<n. f j)"
  using sum_change [OF assms(1), of g f] assms(2,3) by simp

lemma cv_mu_step:
  assumes "cv_inv s" "cv_quiet s i = Some t"
  shows "cv_mu t < cv_mu s"
proof -
  have k: "num_threads t = num_threads s" "num_iterations t = num_iterations s"
    using assms(2) by (cases rule: cv_quiet_cases; simp)+
  have p: "cv_phase_inv s" using assms(1) by (simp add: cv_inv_def)
  have gm: "gen s \<le> num_iterations s" using assms(1) by (simp add: cv_inv_def cv_count_inv_def)
  have i: "i < num_threads s" using assms(2) by (cases rule: cv_quiet_cases)
  have "8 * (num_iterations s - iter t i) + t_weight (tpc t i) < 8 * (num_iterations s - iter s i) + t_weight (tpc s i)"
    using assms(2) by (cases rule: cv_quiet_cases) (use p gm in \<open>auto simp: cv_phase_inv_def\<close>)
  moreover have "iter t j = iter s j \<and> t_weight (tpc t j) = t_weight (tpc s j)" if "j \<noteq> i" for j
    using assms(2) that by (cases rule: cv_quiet_cases) (auto simp: wake_all_def)
  ultimately show ?thesis unfolding cv_mu_def k by (intro sum_drop [OF i]) auto
qed

lemma cv_progress:
  assumes "cv_inv s" "\<not> cv_done s"
  shows "\<exists>i t. cv_quiet s i = Some t"
proof (rule ccontr)
  assume no: "\<not> ?thesis"
  have i: "cv_mutex_inv s" "cv_count_inv s" "cv_phase_inv s" using assms(1) by (auto simp: cv_inv_def)
  have b: "my_thread j s = None" if "j < num_threads s" for j
  proof -
    have "cv_quiet s j = None" using no by (metis not_Some_eq)
    then show ?thesis using that by (simp add: cv_quiet_def cv_step_def)
  qed
  have p: "tpc s j \<in> {TLock, TWait, TWake, TExit}" if "j < num_threads s" for j
    using b [OF that] by (cases "tpc s j") (auto simp: my_thread_def barrier_sync_def split: if_splits)
  have "mutex s = None"
  proof (cases "mutex s")
    case (Some j)
    then have "j < num_threads s" "t_owns (tpc s j)" using i(1) by (auto simp: cv_mutex_inv_def)
    then show ?thesis using p [of j] by auto
  qed simp
  then have q: "tpc s j \<in> {TWait, TExit}" if "j < num_threads s" for j
    using b [OF that] p [OF that] by (auto simp: my_thread_def barrier_sync_def mutex_lock_def)
  obtain j where j: "j < num_threads s" "tpc s j = TWait" using assms(2) q by (auto simp: cv_done_def)
  then have "gen s < num_iterations s" using i(3) by (auto simp: cv_phase_inv_def)
  then have "tpc s k \<noteq> TExit" if "k < num_threads s" for k
    using i(3) that by (fastforce simp: cv_phase_inv_def)
  then have "asleep s = num_threads s" using q unfolding asleep_def cnt_all_iff by blast
  then show False using i(2) j(1) by (auto simp: cv_count_inv_def)
qed

interpretation cv: machine_term cv_quiet "cv_start n m" cv_inv "\<lambda>_. True" cv_done cv_mu for n m
proof unfold_locales
  show "cv_inv (cv_start n m)"
    by (simp add: cv_inv_def cv_start_def cv_mutex_inv_def cv_count_inv_def cv_phase_inv_def asleep_def cnt_const)
qed (use cv_inv_step cv_mu_step cv_progress in blast)+

lemma cv_sizes: "reach cv_quiet (cv_start n m) s \<Longrightarrow> num_threads s = n \<and> num_iterations s = m"
proof (induction rule: reach.induct)
  case reach_start
  show ?case by (simp add: cv_start_def)
next
  case (reach_step s e t)
  from reach_step(2) show ?case by (cases rule: cv_quiet_cases) (use reach_step(3) in simp_all)
qed

section \<open>The barrier with semaphores\<close>

datatype spc = SWork | SLock | STest | SRelease | SPost nat | SUnlock | SWait | SExit

record sem_barrier =
  s_threads :: nat
  s_iterations :: nat
  counter_sem :: nat
  barrier_sem :: nat
  s_counter :: nat
  spc :: "nat \<Rightarrow> spc"
  s_iter :: "nat \<Rightarrow> nat"

definition sem_start :: "nat \<Rightarrow> nat \<Rightarrow> sem_barrier" where
  "sem_start n m = \<lparr>s_threads = n, s_iterations = m, counter_sem = 1, barrier_sem = 0, s_counter = 0,
     spc = (\<lambda>_. SWork), s_iter = (\<lambda>_. 0)\<rparr>"

definition sem_main :: "string list \<Rightarrow> sem_barrier option" where
  "sem_main args = (if length args \<noteq> 3 then None
                    else Some (sem_start (nat (atoi (args ! 1))) (nat (atoi (args ! 2)))))"

definition crossed :: "nat \<Rightarrow> sem_barrier \<Rightarrow> sem_barrier" where
  "crossed i s = s\<lparr>s_iter := (s_iter s)(i := s_iter s i + 1), spc := (spc s)(i := SWork)\<rparr>"

definition sem_barrier_sync :: "nat \<Rightarrow> sem_barrier \<Rightarrow> sem_barrier option" where
  "sem_barrier_sync i s =
     (case spc s i of
        SLock \<Rightarrow> map_option (\<lambda>v. s\<lparr>counter_sem := v, spc := (spc s)(i := STest)\<rparr>) (sem_wait (counter_sem s))
      | STest \<Rightarrow> (if int (s_counter s) = int (s_threads s) - 1
                  then Some (s\<lparr>s_counter := 0, spc := (spc s)(i := SRelease)\<rparr>)
                  else Some (s\<lparr>s_counter := s_counter s + 1, spc := (spc s)(i := SUnlock)\<rparr>))
      | SRelease \<Rightarrow> Some (s\<lparr>counter_sem := sem_post (counter_sem s), spc := (spc s)(i := SPost 0)\<rparr>)
      | SPost k \<Rightarrow> (if k + 1 < s_threads s
                   then Some (s\<lparr>barrier_sem := sem_post (barrier_sem s), spc := (spc s)(i := SPost (k + 1))\<rparr>)
                   else Some (crossed i s))
      | SUnlock \<Rightarrow> Some (s\<lparr>counter_sem := sem_post (counter_sem s), spc := (spc s)(i := SWait)\<rparr>)
      | SWait \<Rightarrow> map_option (\<lambda>v. crossed i (s\<lparr>barrier_sem := v\<rparr>)) (sem_wait (barrier_sem s))
      | _ \<Rightarrow> None)"

definition sem_thread :: "nat \<Rightarrow> sem_barrier \<Rightarrow> sem_barrier option" where
  "sem_thread i s =
     (if spc s i = SWork
      then Some (s\<lparr>spc := (spc s)(i := if s_iter s i < s_iterations s then SLock else SExit)\<rparr>)
      else sem_barrier_sync i s)"

definition sem_step :: "sem_barrier \<Rightarrow> nat \<Rightarrow> sem_barrier option" where
  "sem_step s i = (if i < s_threads s then sem_thread i s else None)"

text \<open>A thread has arrived at the first barrier.\<close>

fun past_count :: "spc \<Rightarrow> bool" where
  "past_count SWork = False" | "past_count SLock = False" | "past_count STest = False" | "past_count _ = True"

fun before_last :: "spc \<Rightarrow> bool" where
  "before_last SRelease = False" | "before_last (SPost k) = False" | "before_last SExit = False"
| "before_last _ = True"

definition arrived :: "sem_barrier \<Rightarrow> nat \<Rightarrow> bool" where
  "arrived s i \<longleftrightarrow> past_count (spc s i) \<or> 0 < s_iter s i"

definition all_arrived :: "sem_barrier \<Rightarrow> bool" where
  "all_arrived s \<longleftrightarrow> (\<forall>i<s_threads s. arrived s i)"

definition once_inv :: "sem_barrier \<Rightarrow> bool" where
  "once_inv s \<longleftrightarrow> s_iterations s = 1 \<and> (all_arrived s
     \<or> barrier_sem s = 0 \<and> s_counter s = cnt past_count (spc s) (s_threads s)
       \<and> (\<forall>i<s_threads s. before_last (spc s i) \<and> s_iter s i = 0))"

lemma arrived_keeps:
  assumes "sem_step s i = Some t" "s_iterations s = 1" "arrived s j"
  shows "arrived t j"
  using assms by (cases "spc s i") (auto simp: sem_step_def sem_thread_def sem_barrier_sync_def crossed_def
    arrived_def step_simps split: if_splits)

lemma sem_sizes: "sem_step s i = Some t \<Longrightarrow> s_threads t = s_threads s \<and> s_iterations t = s_iterations s"
  by (cases "spc s i") (auto simp: sem_step_def sem_thread_def sem_barrier_sync_def crossed_def step_simps
    split: if_splits)

lemma once_inv_step:
  assumes "once_inv s" "sem_step s i = Some t"
  shows "once_inv t"
proof (cases "all_arrived s")
  case True
  then have "all_arrived t"
    using arrived_keeps [OF assms(2)] assms(1) sem_sizes [OF assms(2)] by (simp add: once_inv_def all_arrived_def)
  then show ?thesis using assms(1) sem_sizes [OF assms(2)] by (simp add: once_inv_def)
next
  case False
  have k: "barrier_sem s = 0" "s_counter s = cnt past_count (spc s) (s_threads s)"
    "\<forall>i<s_threads s. before_last (spc s i) \<and> s_iter s i = 0" "s_iterations s = 1"
    using assms(1) False by (auto simp: once_inv_def)
  have i: "i < s_threads s" using assms(2) by (simp add: sem_step_def split: if_splits)
  show ?thesis
  proof (cases "spc s i = STest \<and> int (s_counter s) = int (s_threads s) - 1")
    case True
    have "cnt past_count (spc t) (s_threads s) = s_threads s"
      using True assms(2) i k(2) by (auto simp: sem_step_def sem_thread_def sem_barrier_sync_def cnt_set)
    then have "all_arrived t" using sem_sizes [OF assms(2)] by (simp add: cnt_all_iff all_arrived_def arrived_def)
    then show ?thesis using k(4) sem_sizes [OF assms(2)] by (simp add: once_inv_def)
  next
    case no: False
    then have "barrier_sem t = 0 \<and> s_counter t = cnt past_count (spc t) (s_threads t)
       \<and> (\<forall>i<s_threads t. before_last (spc t i) \<and> s_iter t i = 0)"
      using assms(2) i k
      by (cases "spc s i") (auto simp: sem_step_def sem_thread_def sem_barrier_sync_def cnt_set sem_wait_def split: if_splits)
    then show ?thesis using k(4) sem_sizes [OF assms(2)] by (simp add: once_inv_def)
  qed
qed

interpretation once: machine_inv sem_step "sem_start n 1" once_inv for n
proof unfold_locales
  show "once_inv (sem_start n 1)" by (simp add: once_inv_def sem_start_def cnt_const)
qed (rule once_inv_step)

section \<open>Properties\<close>

text \<open>
  C20: without spurious wake-ups the barrier with a condition variable keeps its threads
  together: no thread is ever more than one iteration ahead of another, and when it is ahead
  the other has been released from the same barrier.
\<close>

theorem cv_barrier_together:
  assumes "reach cv_quiet (cv_start n m) s" "i < n" "j < n"
  shows "iter s i \<le> Suc (iter s j) \<and> (iter s i = Suc (iter s j) \<longrightarrow> t_passed (tpc s j))"
proof -
  have "cv_phase_inv s" using cv.reach_inv [OF assms(1)] by (simp add: cv_inv_def)
  then have "if t_passed (tpc s k) then Suc (iter s k) = gen s else iter s k = gen s" if "k < n" for k
    using that cv_sizes [OF assms(1)] by (simp add: cv_phase_inv_def)
  from this [OF assms(2)] this [OF assms(3)] show ?thesis by (auto split: if_splits)
qed

definition two_rounds :: "nat list" where
  "two_rounds = [0, 0, 0, 1, 1, 1, 1, 0, 0]"

theorem cv_barrier_together_witness:
  "\<exists>s. reach cv_quiet (cv_start 2 2) s \<and> iter s 0 = 1 \<and> iter s 1 = 1"
proof -
  have "case run cv_quiet (cv_start 2 2) two_rounds of None \<Rightarrow> False | Some s \<Rightarrow> iter s 1 = 1 \<and> tpc s 0 = TWork"
    by code_simp
  then obtain s where s: "reach cv_quiet (cv_start 2 2) s" "iter s 1 = 1" "tpc s 0 = TWork"
    by (auto split: option.splits dest: run_reach)
  have "iter s 1 \<le> Suc (iter s 0) \<and> (iter s 1 = Suc (iter s 0) \<longrightarrow> t_passed (tpc s 0))"
    "iter s 0 \<le> Suc (iter s 1) \<and> (iter s 0 = Suc (iter s 1) \<longrightarrow> t_passed (tpc s 1))"
    by (rule cv_barrier_together [OF s(1)]; simp)+
  moreover have "case run cv_quiet (cv_start 2 2) two_rounds of None \<Rightarrow> False | Some s \<Rightarrow> iter s 0 = 1 \<and> iter s 1 = 1"
    by code_simp
  ultimately show ?thesis by (auto split: option.splits dest: run_reach)
qed

text \<open>
  Without spurious wake-ups all threads get through all their barriers: a run has at most
  \<open>n * (8 * m + 6)\<close> steps, and when no thread can move all have done their iterations.
\<close>

theorem cv_barrier_finishes:
  assumes "run cv_quiet (cv_start n m) es = Some s"
  shows "length es \<le> n * (8 * m + 6) \<and>
    ((\<forall>i. cv_quiet s i = None) \<longrightarrow> (\<forall>i<n. tpc s i = TExit \<and> iter s i = m))"
proof -
  have r: "reach cv_quiet (cv_start n m) s" using assms by (rule run_reach)
  have "cv_mu (cv_start n m) = n * (8 * m + 6)" by (simp add: cv_mu_def cv_start_def)
  then have "length es \<le> n * (8 * m + 6)" using cv.runs_bounded [OF _ assms] by (simp add: list_all_iff)
  moreover have "tpc s i = TExit \<and> iter s i = m" if "\<forall>i. cv_quiet s i = None" "i < n" for i
  proof -
    have "tpc s i = TExit" using cv.stuck_final [OF r] that cv_sizes [OF r] by (simp add: cv_done_def)
    moreover have "cv_phase_inv s" using cv.reach_inv [OF r] by (simp add: cv_inv_def)
    ultimately show ?thesis using cv_sizes [OF r] that(2) unfolding cv_phase_inv_def by metis
  qed
  ultimately show ?thesis by blast
qed

theorem cv_barrier_finishes_witness:
  "length two_rounds \<le> 2 * (8 * 2 + 6)"
proof -
  have "run cv_quiet (cv_start 2 2) two_rounds \<noteq> None" by code_simp
  then show ?thesis using cv_barrier_finishes by blast
qed

text \<open>
  A spurious wake-up lets a thread through: the comment says the thread goes back to
  sleep, but \<open>pthread_cond_wait\<close> returns 0 and the loop ends. With two threads or more, one
  can finish its first iteration while the other has not reached the barrier.
\<close>

theorem spurious_wakeup_passes:
  assumes "2 \<le> n" "0 < m"
  shows "\<exists>s. reach cv_step (cv_start n m) s \<and> iter s 0 = 1 \<and> tpc s 1 = TWork \<and> iter s 1 = 0 \<and> gen s = 0"
proof -
  have "case run cv_step (cv_start n m) [Thread 0, Thread 0, Thread 0, Spurious 0, Thread 0, Thread 0] of
      None \<Rightarrow> False | Some s \<Rightarrow> iter s 0 = 1 \<and> tpc s 1 = TWork \<and> iter s 1 = 0 \<and> gen s = 0"
    using assms by (simp add: cv_step_def my_thread_def barrier_sync_def cv_start_def mutex_lock_def)
  then show ?thesis by (rule run_example)
qed

theorem spurious_wakeup_passes_witness:
  "\<exists>s. reach cv_step (cv_start 5 5) s \<and> iter s 0 = 1 \<and> tpc s 1 = TWork"
  using spurious_wakeup_passes [of 5 5] by force

text \<open>Used once, the barrier with semaphores holds: who has crossed it left nobody behind.\<close>

theorem sem_barrier_once:
  assumes "reach sem_step (sem_start n 1) s" "i < s_threads s" "0 < s_iter s i"
  shows "\<forall>j<s_threads s. arrived s j"
  using once.reach_inv [OF assms(1)] assms(2,3) by (fastforce simp: once_inv_def all_arrived_def)

theorem sem_barrier_once_witness: "\<exists>s. reach sem_step (sem_start 2 1) s \<and> arrived s 0 \<and> s_iter s 1 = 1"
proof -
  have "case run sem_step (sem_start 2 1) (replicate 4 0 @ replicate 6 1) of
      None \<Rightarrow> False | Some s \<Rightarrow> s_iter s 1 = 1 \<and> s_threads s = 2"
    by code_simp
  then obtain s where "reach sem_step (sem_start 2 1) s" "s_iter s 1 = 1" "s_threads s = 2"
    by (auto split: option.splits dest: run_reach)
  with sem_barrier_once [OF this(1), of 1] show ?thesis by auto
qed

definition stolen_token :: "nat list" where
  "stolen_token = replicate 4 0 @ replicate 12 1"

text \<open>
  Used again, it does not: with two threads and two iterations, the thread that opens the
  first barrier can take the token it posted at the second one. It then leaves after both
  iterations while the other thread, who never crossed the first barrier, waits for ever.
\<close>

theorem sem_barrier_not_reusable:
  "\<exists>s. reach sem_step (sem_start 2 2) s \<and> spc s 1 = SExit \<and> s_iter s 1 = 2
     \<and> spc s 0 = SWait \<and> s_iter s 0 = 0 \<and> (\<forall>i. sem_step s i = None)"
proof -
  have "case run sem_step (sem_start 2 2) stolen_token of
      None \<Rightarrow> False
    | Some s \<Rightarrow> spc s 1 = SExit \<and> s_iter s 1 = 2 \<and> spc s 0 = SWait \<and> s_iter s 0 = 0
        \<and> barrier_sem s = 0 \<and> s_threads s = 2"
    by code_simp
  then obtain s where s: "reach sem_step (sem_start 2 2) s" "spc s 1 = SExit" "s_iter s 1 = 2"
    "spc s 0 = SWait" "s_iter s 0 = 0" "barrier_sem s = 0" "s_threads s = 2"
    by (auto split: option.splits dest: run_reach)
  have "sem_step s i = None" for i
    using s(2,4,6,7) by (cases "i = 0"; cases "i = 1")
      (auto simp: sem_step_def sem_thread_def sem_barrier_sync_def sem_wait_def)
  with s show ?thesis by blast
qed

end
