(* ===== verification/CInt.thy ===== *)
theory CInt
  imports "HOL-Library.Word" "HOL-Library.Signed_Division" Prelude
begin

text \<open>
  The arithmetic of the 32-bit signed integers of C. A result that does not fit, or a
  division by zero, is an error value, since C gives it no meaning; so is an access through a
  pointer that points to no such object.
\<close>

datatype c_error = Overflow | DivByZero | BadAccess

definition INT_MAX :: int where "INT_MAX = 2147483647"
definition INT_MIN :: int where "INT_MIN = - 2147483648"

definition int_val :: "int \<Rightarrow> c_error + int" where
  "int_val x = (if INT_MIN \<le> x \<and> x \<le> INT_MAX then Inr x else Inl Overflow)"

definition iadd :: "int \<Rightarrow> int \<Rightarrow> c_error + int" where "iadd a b = int_val (a + b)"
definition imul :: "int \<Rightarrow> int \<Rightarrow> c_error + int" where "imul a b = int_val (a * b)"

definition idiv :: "int \<Rightarrow> int \<Rightarrow> c_error + int" where
  "idiv a b = (if b = 0 then Inl DivByZero else int_val (a sdiv b))"

lemma int_val_fits: "INT_MIN \<le> x \<Longrightarrow> x \<le> INT_MAX \<Longrightarrow> int_val x = Inr x"
  by (simp add: int_val_def)

lemma int_val_nat: "int_val (int n) = (if int n \<le> INT_MAX then Inr (int n) else Inl Overflow)"
  by (simp add: int_val_def INT_MIN_def)

lemma int_val_Inr: "int_val x = Inr y \<longleftrightarrow> y = x \<and> INT_MIN \<le> x \<and> x \<le> INT_MAX"
  by (auto simp: int_val_def)

lemma idiv_exact: "0 < b \<Longrightarrow> int_val q = Inr q \<Longrightarrow> idiv (b * q) b = Inr q"
  by (simp add: idiv_def signed_divide_int_def sgn_mult abs_mult sgn_mult_abs)

text \<open>Unsigned 32-bit integers wrap around.\<close>

lemma unat_below: "unat (w :: 32 word) < 2 ^ 32"
  using unsigned_less [of w, where 'a = nat] by simp

lemma unat_plus1: "unat (w + 1 :: 32 word) = (if unat w + 1 < 2 ^ 32 then unat w + 1 else 0)"
proof -
  have "unat w < 4294967295 \<or> unat w = 4294967295" using unat_below [of w] by simp linarith
  moreover have "unat (w + 1) = (unat w + 1) mod 2 ^ 32" by (simp add: unat_word_ariths(1))
  ultimately show ?thesis by (elim disjE) simp_all
qed

lemma unat_plus1_less: "i < n \<Longrightarrow> unat (i + 1 :: 32 word) = unat i + 1"
  using unat_below [of n] by (simp add: unat_plus1 word_less_nat_alt)

end
