(* ===== verification/Primes.thy ===== *)
theory Primes
  imports Threads CInt
begin

text \<open>
  The prime finder of primes.c (signals/sol): trial division on 32-bit integers, the search
  loop, which blocks the alarm while it updates its state, and the handler, which leaves it
  with \<open>siglongjmp\<close> to print a report.
\<close>

section \<open>Trial division\<close>

text \<open>The loop: \<open>i\<close> is a signed integer whose square must fit; \<open>num\<close> is unsigned.\<close>

function trial :: "nat \<Rightarrow> nat \<Rightarrow> c_error + bool" where
  "trial i num =
     (if INT_MAX < int (i * i) then Inl Overflow
      else if i * i \<le> num then (if num mod i = 0 then Inr False else trial (i + 2) num)
      else Inr True)"
  by pat_completeness auto

termination
proof (relation "measure (\<lambda>(i, num). num + 2 - i)", goal_cases)
  case (2 i num)
  then have "i \<le> num" using le_square [of i] by linarith
  then show ?case by simp
qed simp

declare trial.simps [simp del]

definition is_prime :: "32 word \<Rightarrow> c_error + bool" where
  "is_prime num =
     (if num < 2 then Inr False else if num = 2 then Inr True
      else if num mod 2 = 0 then Inr False else trial 3 (unat num))"

definition prime_num :: "nat \<Rightarrow> bool" where
  "prime_num n \<longleftrightarrow> 1 < n \<and> (\<forall>d. d dvd n \<longrightarrow> d = 1 \<or> d = n)"

text \<open>The numbers that the loop cannot decide: no divisor up to \<open>46340\<close>, whose square is the last to fit.\<close>

definition too_large :: "nat \<Rightarrow> bool" where
  "too_large n \<longleftrightarrow> 46339 * 46339 \<le> n \<and> (\<forall>d. 2 \<le> d \<longrightarrow> d \<le> 46340 \<longrightarrow> \<not> d dvd n)"

lemma prime_by_trial:
  assumes "\<forall>d. 2 \<le> d \<longrightarrow> d < i \<longrightarrow> \<not> d dvd n" "n < i * i" "1 < n"
  shows "prime_num n"
proof -
  have "d = 1 \<or> d = n" if dv: "d dvd n" for d
  proof (rule ccontr)
    assume c: "\<not> (d = 1 \<or> d = n)"
    obtain e where e: "n = d * e" using dv by (rule dvdE)
    have "2 \<le> d" "2 \<le> e" using c e assms(3) by (cases d; cases e; force)+
    then have "i \<le> d" "i \<le> e" using assms(1) dv e by (auto simp: not_less [symmetric])
    then have "i * i \<le> n" unfolding e by (rule mult_le_mono)
    with assms(2) show False by simp
  qed
  with assms(3) show ?thesis by (simp add: prime_num_def)
qed

lemma square_fits: "INT_MAX < int (i * i) \<longleftrightarrow> 46341 \<le> i"
proof
  assume l: "INT_MAX < int (i * i)"
  show "46341 \<le> i"
  proof (rule ccontr)
    assume "\<not> 46341 \<le> i"
    then have "i * i \<le> 46340 * 46340" by (intro mult_le_mono) simp_all
    then have "int (i * i) \<le> int (46340 * 46340)" by (simp only: of_nat_le_iff)
    with l show False unfolding INT_MAX_def by simp
  qed
next
  assume "46341 \<le> i"
  then have "46341 * 46341 \<le> i * i" by (rule mult_le_mono) fact
  then have "int (46341 * 46341) \<le> int (i * i)" by (simp only: of_nat_le_iff)
  then show "INT_MAX < int (i * i)" unfolding INT_MAX_def by simp
qed

lemmas square_fits_int = square_fits [unfolded of_nat_mult]

lemma trial_result:
  assumes "odd i" "3 \<le> i" "i \<le> 46341" "odd n" "1 < n" "\<forall>d. 2 \<le> d \<longrightarrow> d < i \<longrightarrow> \<not> d dvd n"
    and "i = 3 \<or> (i - 2) * (i - 2) \<le> n"
  shows "trial i n = (if too_large n then Inl Overflow else Inr (prime_num n))"
  using assms
proof (induction i n rule: trial.induct)
  case (1 i n)
  consider (big) "i = 46341" | (hit) "i \<le> 46340" "i * i \<le> n" "i dvd n"
    | (more) "i \<le> 46340" "i * i \<le> n" "\<not> i dvd n" | (stop) "i \<le> 46340" "n < i * i"
    using 1(4) by linarith
  then show ?case
  proof cases
    case big
    then have "too_large n" using 1(7,8) by (simp add: too_large_def)
    with big show ?thesis by (subst trial.simps) (simp add: INT_MAX_def)
  next
    case hit
    have "i \<noteq> n" using hit(2) 1(3) by (cases i) auto
    then have "\<not> prime_num n" using hit(3) 1(3) by (auto simp: prime_num_def)
    moreover have "\<not> too_large n" using hit(1,3) 1(3) by (auto simp: too_large_def intro: exI [of _ i])
    ultimately show ?thesis using hit by (subst trial.simps) (simp add: square_fits_int mod_eq_0_iff_dvd)
  next
    case more
    have "\<not> (i + 1) dvd n" using 1(2,5) by (meson dvd_trans even_plus_one_iff)
    then have d: "\<forall>d. 2 \<le> d \<longrightarrow> d < i + 2 \<longrightarrow> \<not> d dvd n"
      using 1(7) more(3) by (metis One_nat_def Suc_1 add_Suc_right less_Suc_eq add.right_neutral)
    have "i \<noteq> 46340" using 1(2) by auto
    then have "i + 2 \<le> 46341" using more(1) by simp
    then have "trial (i + 2) n = (if too_large n then Inl Overflow else Inr (prime_num n))"
      using 1(2,3,5,6) more d by (intro 1(1)) (auto simp: square_fits_int mod_eq_0_iff_dvd)
    then show ?thesis using more by (subst trial.simps) (simp add: square_fits_int mod_eq_0_iff_dvd)
  next
    case stop
    have "i \<noteq> 46340" using 1(2) by auto
    then have "i * i \<le> 46339 * 46339" using stop(1) by (intro mult_le_mono) simp_all
    then have "\<not> too_large n" using stop(2) by (simp add: too_large_def)
    then show ?thesis using prime_by_trial [OF 1(7) stop(2) 1(6)] stop
      by (subst trial.simps) (simp add: square_fits_int)
  qed
qed

lemma even_prime:
  assumes "even n"
  shows "prime_num n \<longleftrightarrow> n = 2"
proof
  assume "prime_num n"
  then have "2 = (1::nat) \<or> 2 = n" using assms unfolding prime_num_def by blast
  then show "n = 2" by simp
next
  assume "n = 2"
  moreover have "d = 1 \<or> d = 2" if "d dvd 2" for d :: nat
    using dvd_imp_le [OF that] that by (cases "d = 0"; simp; linarith)
  ultimately show "prime_num n" by (auto simp: prime_num_def)
qed

lemma even_not_large: "even n \<Longrightarrow> \<not> too_large n"
  by (auto simp: too_large_def intro: exI [of _ 2])

lemma is_prime_unat:
  "is_prime num = (if unat num < 2 then Inr False else if unat num = 2 then Inr True
     else if even (unat num) then Inr False else trial 3 (unat num))"
proof -
  have "unat (num mod 2) = unat num mod 2" by (simp add: unat_mod)
  then have "num mod 2 = 0 \<longleftrightarrow> even (unat num)" by (metis even_iff_mod_2_eq_zero unat_eq_0)
  moreover have "num = 2 \<longleftrightarrow> unat num = 2" by (simp add: word_unat_eq_iff)
  ultimately show ?thesis by (simp add: is_prime_def word_less_nat_alt)
qed

lemma is_prime_result:
  "is_prime num = (if too_large (unat num) then Inl Overflow else Inr (prime_num (unat num)))"
proof -
  consider "unat num < 2" | "even (unat num)" "2 \<le> unat num" | "odd (unat num)" "3 \<le> unat num"
    by (cases "unat num = 2") (simp, linarith)
  then show ?thesis
  proof cases
    case 1
    then show ?thesis by (auto simp: is_prime_unat too_large_def prime_num_def)
  next
    case 2
    then show ?thesis by (simp add: is_prime_unat even_prime even_not_large)
  next
    case 3
    have "\<forall>d. 2 \<le> d \<longrightarrow> d < 3 \<longrightarrow> \<not> d dvd unat num"
      using 3(1) by (auto simp: less_Suc_eq numeral_3_eq_3)
    then show ?thesis using 3 trial_result [of 3 "unat num"] by (simp add: is_prime_unat)
  qed
qed

section \<open>The search and its reports\<close>

text \<open>
  SIGALRM is blocked from \<open>STest\<close> to \<open>SUnblock\<close>. The array is its contents by index; only
  indices below \<open>NUM_PRIMES\<close> may be written. \<open>failed\<close> marks an overflow in \<open>is_prime\<close> or a
  write outside the array.
\<close>

definition NUM_PRIMES :: "32 word" where "NUM_PRIMES = 10000000"

datatype place = SLoop | SBlock | STest | SStore | SCount | SNext | SUnblock | SExit
datatype event = Step | Alarm

record sieve =
  num_found :: "32 word"
  primes :: "nat \<Rightarrow> 32 word"
  candidate :: "32 word"
  place :: place
  reports :: "(32 word \<times> 32 word list) list"
  failed :: bool

text \<open>
  The loop of \<open>report\<close>. Its index is a signed integer, but it is compared to \<open>num_found\<close> as
  an unsigned one, which is how a start below zero is read here too.
\<close>

function report_from :: "(nat \<Rightarrow> 32 word) \<Rightarrow> 32 word \<Rightarrow> 32 word \<Rightarrow> 32 word list" where
  "report_from ps i n = (if i < n then ps (unat i) # report_from ps (i + 1) n else [])"
  by pat_completeness auto

termination
proof (relation "measure (\<lambda>(ps, i, n). unat n - unat i)", goal_cases)
  case (2 ps i n)
  then show ?case by (simp add: unat_plus1_less word_less_nat_alt)
qed simp

declare report_from.simps [simp del]

definition report :: "sieve \<Rightarrow> sieve" where
  "report s = s\<lparr>reports := reports s @
     [(num_found s, report_from (primes s) (num_found s - 5) (num_found s))]\<rparr>"

text \<open>The handler jumps back to \<open>sigsetjmp\<close>, which restores the mask and goes on to the report.\<close>

definition handler :: "sieve \<Rightarrow> sieve" where
  "handler s = (report s)\<lparr>place := SLoop\<rparr>"

text \<open>\<open>main\<close> calls the handler itself before the loop. The array is static, so it starts as zeros.\<close>

definition sieve_start :: sieve where
  "sieve_start = handler \<lparr>num_found = 0, primes = (\<lambda>_. 0), candidate = 0, place = SLoop,
     reports = [], failed = False\<rparr>"

definition search :: "sieve \<Rightarrow> sieve option" where
  "search s =
     (case place s of
        SLoop \<Rightarrow> Some (s\<lparr>place := (if num_found s < NUM_PRIMES then SBlock else SExit)\<rparr>)
      | SBlock \<Rightarrow> Some (s\<lparr>place := STest\<rparr>)
      | STest \<Rightarrow> (case is_prime (candidate s) of
                    Inl _ \<Rightarrow> Some (s\<lparr>failed := True\<rparr>)
                  | Inr b \<Rightarrow> Some (s\<lparr>place := (if b then SStore else SNext)\<rparr>))
      | SStore \<Rightarrow> if num_found s < NUM_PRIMES
                  then Some (s\<lparr>primes := (primes s)(unat (num_found s) := candidate s), place := SCount\<rparr>)
                  else Some (s\<lparr>failed := True\<rparr>)
      | SCount \<Rightarrow> Some (s\<lparr>num_found := num_found s + 1, place := SNext\<rparr>)
      | SNext \<Rightarrow> Some (s\<lparr>candidate := candidate s + 1, place := SUnblock\<rparr>)
      | SUnblock \<Rightarrow> Some (s\<lparr>place := SLoop\<rparr>)
      | SExit \<Rightarrow> None)"

fun blocked :: "place \<Rightarrow> bool" where
  "blocked SLoop = False" | "blocked SBlock = False" | "blocked SExit = False" | "blocked _ = True"

definition sieve_step :: "sieve \<Rightarrow> event \<Rightarrow> sieve option" where
  "sieve_step s e =
     (if failed s then None
      else case e of
        Step \<Rightarrow> search s
      | Alarm \<Rightarrow> if blocked (place s) \<or> place s = SExit then None else Some (handler s))"

section \<open>What the search has found\<close>

definition primes_below :: "nat \<Rightarrow> nat list" where
  "primes_below n = filter prime_num [0..<n]"

definition last5 :: "nat list \<Rightarrow> nat list" where
  "last5 ps = (if length ps < 5 then [] else drop (length ps - 5) ps)"

definition found :: "sieve \<Rightarrow> nat list" where
  "found s = map (\<lambda>k. unat (primes s k)) [0..<unat (num_found s)]"

text \<open>How many candidates the array accounts for.\<close>

definition seen :: "sieve \<Rightarrow> nat" where
  "seen s = unat (candidate s) + (if place s = SNext then 1 else 0)"

definition sieve_inv :: "sieve \<Rightarrow> bool" where
  "sieve_inv s \<longleftrightarrow> found s = primes_below (seen s) \<and> num_found s \<le> NUM_PRIMES
     \<and> (blocked (place s) \<and> place s \<noteq> SUnblock \<and> place s \<noteq> SNext \<or> place s = SBlock \<longrightarrow>
          num_found s < NUM_PRIMES)
     \<and> (place s = SStore \<or> place s = SCount \<longrightarrow> prime_num (unat (candidate s)))
     \<and> (place s = SCount \<longrightarrow> primes s (unat (num_found s)) = candidate s)
     \<and> (failed s \<longrightarrow> place s = STest \<and> too_large (unat (candidate s)))
     \<and> (\<forall>(n, ps)\<in>set (reports s). \<exists>k. unat n = length (primes_below k)
          \<and> map unat ps = last5 (primes_below k))"

lemma primes_below_Suc: "primes_below (Suc k) = primes_below k @ (if prime_num k then [k] else [])"
  by (simp add: primes_below_def)

lemma report_from_upt: "report_from ps i n = map ps [unat i..<unat n]"
proof (induction ps i n rule: report_from.induct)
  case (1 ps i n)
  show ?case
  proof (cases "i < n")
    case True
    then show ?thesis using 1
      by (subst report_from.simps) (simp add: unat_plus1_less word_less_nat_alt upt_conv_Cons del: upt_Suc)
  qed (subst report_from.simps, simp add: word_less_nat_alt)
qed

lemma report_last5:
  "map unat (report_from (primes s) (num_found s - 5) (num_found s)) = last5 (found s)"
proof (cases "unat (num_found s) < 5")
  case True
  then have "unat (num_found s - 5) = 2 ^ 32 + unat (num_found s) - 5"
    by (simp add: unat_sub_if_size word_size)
  then show ?thesis using True by (simp add: report_from_upt last5_def found_def)
next
  case False
  then have "unat (num_found s - 5) = unat (num_found s) - 5"
    by (simp add: unat_sub_if_size word_size)
  then show ?thesis using False by (simp add: report_from_upt last5_def found_def drop_map)
qed

lemma found_length: "length (found s) = unat (num_found s)"
  by (simp add: found_def)

lemma found_store:
  "found (s\<lparr>primes := (primes s)(unat (num_found s) := c), place := p\<rparr>) = found s"
  by (auto simp: found_def)

lemma seen_simps [simp]:
  "place s \<noteq> SNext \<Longrightarrow> seen s = unat (candidate s)" "place s = SNext \<Longrightarrow> seen s = Suc (unat (candidate s))"
  by (simp_all add: seen_def)

lemma handler_fields [simp]:
  "found (handler s) = found s" "num_found (handler s) = num_found s" "candidate (handler s) = candidate s"
  "place (handler s) = SLoop" "failed (handler s) = failed s"
  by (simp_all add: handler_def report_def found_def)

lemma handler_inv:
  assumes "sieve_inv s" "\<not> blocked (place s)" "\<not> failed s"
  shows "sieve_inv (handler s)"
proof -
  have p: "place s \<noteq> SNext" using assms(2) by auto
  have r: "reports (handler s) = reports s @
      [(num_found s, report_from (primes s) (num_found s - 5) (num_found s))]"
    by (simp add: handler_def report_def)
  have "found s = primes_below (unat (candidate s))" using assms(1) p by (simp add: sieve_inv_def)
  moreover from this have "unat (num_found s) = length (primes_below (unat (candidate s)))"
    using found_length [of s] by simp
  ultimately have "\<exists>k. unat (num_found s) = length (primes_below k)
      \<and> map unat (report_from (primes s) (num_found s - 5) (num_found s)) = last5 (primes_below k)"
    by (metis report_last5)
  then show ?thesis using assms p by (auto simp: sieve_inv_def r seen_def)
qed

lemma sieve_start_inv: "sieve_inv sieve_start"
  unfolding sieve_start_def
  by (rule handler_inv) (simp_all add: sieve_inv_def found_def primes_below_def seen_def)

lemma search_inv:
  assumes i: "sieve_inv s" and b: "unat (candidate s) + 1 < 2 ^ 32" "\<not> failed s" and st: "search s = Some t"
  shows "sieve_inv t \<and> unat (candidate t) \<le> unat (candidate s) + 1"
proof (cases "place s")
  case SStore
  then have "found t = found s" using st i by (auto simp: search_def sieve_inv_def found_store)
  then show ?thesis using SStore st i by (auto simp: search_def sieve_inv_def)
next
  case SCount
  then have n: "num_found s < NUM_PRIMES" "primes s (unat (num_found s)) = candidate s"
      "prime_num (unat (candidate s))" "found s = primes_below (unat (candidate s))"
    and t: "t = s\<lparr>num_found := num_found s + 1, place := SNext\<rparr>"
    using st i by (auto simp: search_def sieve_inv_def)
  have u: "unat (num_found s + 1) = Suc (unat (num_found s))"
    using n(1) by (simp add: unat_plus1_less)
  have l: "num_found s + 1 \<le> NUM_PRIMES" using n(1) u by (simp add: word_le_nat_alt word_less_nat_alt)
  have "found t = found s @ [unat (candidate s)]" by (simp add: t found_def u n(2))
  then have "found t = primes_below (seen t)" using n(3,4) by (simp add: t primes_below_Suc)
  then show ?thesis using SCount i l b by (auto simp: t sieve_inv_def)
next
  case SNext
  then have t: "t = s\<lparr>candidate := candidate s + 1, place := SUnblock\<rparr>" using st by (simp add: search_def)
  have u: "unat (candidate s + 1) = Suc (unat (candidate s))" using b by (simp add: unat_plus1)
  have "found t = found s" by (simp add: t found_def)
  then show ?thesis using i b SNext by (auto simp: t sieve_inv_def u)
next
  case STest
  then show ?thesis using st i b
    by (auto simp: search_def sieve_inv_def found_def is_prime_result primes_below_Suc split: if_splits)
qed (use st i b in \<open>auto simp: search_def sieve_inv_def found_def split: if_splits\<close>)

lemma sieve_step_inv:
  assumes "sieve_inv s" "unat (candidate s) + 1 < 2 ^ 32" "sieve_step s e = Some t"
  shows "sieve_inv t \<and> unat (candidate t) \<le> unat (candidate s) + 1"
  using assms search_inv [OF assms(1,2)] handler_inv [OF assms(1)]
  by (cases e) (auto simp: sieve_step_def split: if_splits)

lemma sieve_run_inv:
  assumes "sieve_inv s" "unat (candidate s) + length es < 2 ^ 32" "run sieve_step s es = Some t"
  shows "sieve_inv t"
  using assms
proof (induction es arbitrary: s)
  case (Cons e es)
  then obtain u where u: "sieve_step s e = Some u" "run sieve_step u es = Some t"
    by (auto split: option.splits)
  then have "sieve_inv u \<and> unat (candidate u) \<le> unat (candidate s) + 1"
    using Cons(2,3) by (intro sieve_step_inv) auto
  then show ?case using Cons(3) u(2) by (intro Cons(1) [of u]) auto
qed simp

section \<open>Properties\<close>

text \<open>
  Trial division decides primality: its answer is right for every 32-bit number, and the
  square in its loop overflows exactly for the numbers from \<open>46339 * 46339\<close> on that have no
  divisor up to 46340.
\<close>

theorem is_prime_correct:
  "is_prime num = (if too_large (unat num) then Inl Overflow else Inr (prime_num (unat num)))"
  by (rule is_prime_result)


definition interrupted_search :: "event list" where
  "interrupted_search = replicate 75 Step @ [Alarm]"


end
