(* ===== verification/ArrayOps.thy ===== *)
theory ArrayOps
  imports Complex_Main CInt
begin

text \<open>
  Function pointers: the array library of C/function\_pointers/array\_ops.c, which builds
  arrays with an operation it is given and keeps the largest value of each in a table of 100
  entries, and the program function\_pointers.c that uses it. An operation may fail; the
  addresses that \<open>malloc\<close> returns are arguments.
\<close>

section \<open>The operations of the program\<close>

definition add :: "int \<Rightarrow> int \<Rightarrow> c_error + int" where "add a b = iadd a b"
definition mul :: "int \<Rightarrow> int \<Rightarrow> c_error + int" where "mul a b = imul a b"

function n_choose_k :: "int \<Rightarrow> int \<Rightarrow> c_error + int" where
  "n_choose_k a b =
     (if b = 0 then Inr 1
      else ebind (int_val (a - 1)) (\<lambda>a'. ebind (int_val (b - 1)) (\<lambda>b'.
           ebind (n_choose_k a' b') (\<lambda>r. ebind (imul a r) (\<lambda>p. idiv p b)))))"
  by pat_completeness auto

termination
  by (relation "measure (\<lambda>(a, b). nat (b - INT_MIN))") (auto simp: int_val_Inr)

declare n_choose_k.simps [simp del]

section \<open>The library\<close>

record table_entry =
  ptr :: "nat option"
  entry_value :: int
  entry_index :: int
  entry_size :: int

record api =
  largest_number_table :: "table_entry list"
  heap :: "nat \<Rightarrow> int list option"

definition TABLE_SIZE :: nat where "TABLE_SIZE = 100"

definition init_my_api :: "api \<Rightarrow> api" where
  "init_my_api s = s\<lparr>largest_number_table := map (\<lambda>e. e\<lparr>ptr := None\<rparr>) (largest_number_table s)\<rparr>"

fun free_entry :: "table_entry list \<Rightarrow> nat \<Rightarrow> nat" where
  "free_entry [] i = i"
| "free_entry (e # es) i = (if ptr e = None then i else free_entry es (i + 1))"

text \<open>The loop over the elements: the new array, the largest value so far and its index.\<close>

fun fill ::
  "(int \<Rightarrow> int \<Rightarrow> c_error + int) \<Rightarrow> int list \<Rightarrow> int list \<Rightarrow> int \<Rightarrow> int \<Rightarrow> int \<Rightarrow> c_error + (int list \<times> int \<times> int)" where
  "fill f (x # xs) (y # ys) i v k =
     ebind (f x y) (\<lambda>r. ebind (fill f xs ys (i + 1) (if v < r then r else v) (if v < r then i else k))
       (\<lambda>(rs, vk). Inr (r # rs, vk)))"
| "fill f xs ys i v k = Inr ([], v, k)"

text \<open>
  \<open>mem\<close> is what \<open>malloc\<close> returned. With a null pointer the loop writes through it, unless it
  has nothing to write.
\<close>

definition my_api_create ::
  "int list \<Rightarrow> int list \<Rightarrow> int \<Rightarrow> (int \<Rightarrow> int \<Rightarrow> c_error + int) \<Rightarrow> nat option \<Rightarrow> api \<Rightarrow> c_error + (nat option \<times> api)" where
  "my_api_create array1 array2 N f mem s =
     (let T = largest_number_table s; entry = free_entry T 0; n = nat N
      in if entry = length T then Inr (None, s)
         else if 0 < n \<and> (mem = None \<or> length array1 < n \<or> length array2 < n) then Inl BadAccess
         else ebind (fill f (take n array1) (take n array2) 0 INT_MIN (entry_index (T ! entry))) (\<lambda>(out, v, k).
           Inr (mem, s\<lparr>largest_number_table := T[entry := \<lparr>ptr = mem, entry_value = v, entry_index = k, entry_size = N\<rparr>],
                       heap := (case mem of None \<Rightarrow> heap s | Some p \<Rightarrow> (heap s)(p \<mapsto> out))\<rparr>)))"

fun find_index :: "table_entry list \<Rightarrow> nat option \<Rightarrow> int" where
  "find_index [] p = - 1"
| "find_index (e # es) p = (if ptr e = p then entry_index e else find_index es p)"

definition my_api_get_largest_index :: "nat option \<Rightarrow> api \<Rightarrow> int" where
  "my_api_get_largest_index p s = find_index (largest_number_table s) p"

definition free_mem :: "nat option \<Rightarrow> (nat \<Rightarrow> int list option) \<Rightarrow> c_error + (nat \<Rightarrow> int list option)" where
  "free_mem p h =
     (case p of None \<Rightarrow> Inr h | Some a \<Rightarrow> if h a = None then Inl BadAccess else Inr (h(a := None)))"

text \<open>The loop of \<open>my_api_reap\<close> goes on after it has found the array.\<close>

fun reap_loop ::
  "nat option \<Rightarrow> table_entry list \<Rightarrow> int option \<Rightarrow> (nat \<Rightarrow> int list option) \<Rightarrow>
     c_error + (int option \<times> table_entry list \<times> (nat \<Rightarrow> int list option))" where
  "reap_loop p [] l h = Inr (l, [], h)"
| "reap_loop p (e # es) l h =
     (if ptr e = p
      then ebind (free_mem p h) (\<lambda>h'. ebind (reap_loop p es (Some (entry_value e)) h') (\<lambda>(l', es', h'').
             Inr (l', e\<lparr>ptr := None\<rparr> # es', h'')))
      else ebind (reap_loop p es l h) (\<lambda>(l', es', h'). Inr (l', e # es', h')))"

definition my_api_reap :: "nat option \<Rightarrow> api \<Rightarrow> c_error + (int option \<times> api)" where
  "my_api_reap p s =
     ebind (reap_loop p (largest_number_table s) None (heap s)) (\<lambda>(l, T, h).
       Inr (l, s\<lparr>largest_number_table := T, heap := h\<rparr>))"

section \<open>The program\<close>

definition array_A :: "int list" where "array_A = [1, 2, 3, 4, 5, 6]"
definition array_B :: "int list" where "array_B = [6, 5, 4, 3, 2, 1]"

definition print_result :: "nat option \<Rightarrow> api \<Rightarrow> c_error + (int \<times> int \<times> int) list" where
  "print_result p s =
     (case p of None \<Rightarrow> Inl BadAccess
      | Some a \<Rightarrow> (case heap s a of None \<Rightarrow> Inl BadAccess | Some C \<Rightarrow> Inr (zip array_A (zip array_B C))))"

datatype outcome =
    Failed
  | Printed "(int \<times> int \<times> int) list" "(int \<times> int \<times> int) list" "(int \<times> int \<times> int) list" "int option" "int option"

definition finish_main :: "nat option \<Rightarrow> nat option \<Rightarrow> nat option \<Rightarrow> api \<Rightarrow> c_error + (outcome \<times> api)" where
  "finish_main p1 p2 p3 s =
     ebind (print_result p1 s) (\<lambda>o1. ebind (print_result p2 s) (\<lambda>o2. ebind (print_result p3 s) (\<lambda>o3.
     ebind (my_api_reap p1 s) (\<lambda>(_, s1). ebind (my_api_reap p2 s1) (\<lambda>(l2, s2).
     ebind (my_api_reap p3 s2) (\<lambda>(l3, s3). Inr (Printed o1 o2 o3 l2 l3, s3)))))))"

definition array_main :: "nat option \<Rightarrow> nat option \<Rightarrow> nat option \<Rightarrow> api \<Rightarrow> c_error + (outcome \<times> api)" where
  "array_main m1 m2 m3 s0 =
     ebind (my_api_create array_A array_B 6 add m1 (init_my_api s0)) (\<lambda>(p1, s1).
       if p1 = None then Inr (Failed, s1)
       else ebind (my_api_create array_A array_B 6 mul m2 s1) (\<lambda>(p2, s2).
         if p2 = None then Inr (Failed, s2)
         else ebind (my_api_create array_A array_B 6 n_choose_k m3 s2) (\<lambda>(p3, s3).
           if p3 = None then Inr (Failed, s3) else finish_main p1 p2 p3 s3)))"

section \<open>Binomial coefficients\<close>

lemma n_choose_k_binomial:
  "k \<le> n \<Longrightarrow> int n \<le> INT_MAX \<Longrightarrow> n_choose_k (int n) (int k) =
     (if int (k * (n choose k)) \<le> INT_MAX then Inr (int (n choose k)) else Inl Overflow)"
proof (induction k arbitrary: n)
  case 0
  then show ?case by (subst n_choose_k.simps) (simp add: INT_MAX_def)
next
  case (Suc k)
  then obtain m where n: "n = Suc m" by (cases n) auto
  let ?c = "m choose k" and ?d = "Suc m choose Suc k"
  have e: "Suc m * ?c = Suc k * ?d" by (rule Suc_times_binomial [symmetric])
  have le: "k * ?c \<le> Suc k * ?d" unfolding e [symmetric] using Suc n by (intro mult_le_mono) simp_all
  have a: "int_val (int n - 1) = Inr (int m)" "int_val (int (Suc k) - 1) = Inr (int k)"
    using Suc n by (simp_all add: int_val_def INT_MIN_def)
  have b: "n_choose_k (int m) (int k) = (if int (k * ?c) \<le> INT_MAX then Inr (int ?c) else Inl Overflow)"
    using Suc n by (intro Suc.IH) simp_all
  have p: "imul (int n) (int ?c) = int_val (int (Suc k * ?d))"
    unfolding imul_def n e [symmetric] by (simp add: distrib_right)
  have dv: "idiv (int (Suc k * ?d)) (int (Suc k)) = Inr (int ?d)" if "int (Suc k * ?d) \<le> INT_MAX"
  proof -
    have "int ?d \<le> int (Suc k * ?d)" by (simp only: of_nat_le_iff mult_le_cancel2) simp
    then have "int ?d \<le> INT_MAX" using that by (rule order_trans)
    then have "int_val (int ?d) = Inr (int ?d)" by (simp only: int_val_nat if_True)
    then have "idiv (int (Suc k) * int ?d) (int (Suc k)) = Inr (int ?d)" by (intro idiv_exact) simp_all
    then show ?thesis by (simp only: of_nat_mult)
  qed
  show ?case
  proof (cases "int (Suc k * ?d) \<le> INT_MAX")
    case True
    then have "int (k * ?c) \<le> INT_MAX" using le by linarith
    then show ?thesis using True dv [OF True] a b p
      by (subst n_choose_k.simps) (simp only: n int_val_nat ebind.simps if_True simp_thms, simp)
  next
    case False
    have st: "n_choose_k (int n) (int (Suc k)) = ebind (n_choose_k (int m) (int k))
        (\<lambda>r. ebind (imul (int n) r) (\<lambda>q. idiv q (int (Suc k))))"
      by (subst n_choose_k.simps) (simp only: a ebind.simps of_nat_eq_0_iff nat.distinct if_False)
    then show ?thesis using False
      by (cases "int (k * ?c) \<le> INT_MAX") (simp_all only: b p [unfolded n] n int_val_nat if_True if_False ebind.simps simp_thms)
  qed
qed

section \<open>What the table tracks\<close>

text \<open>
  The largest value of an array and the first index that holds it. Nothing is above
  \<open>INT_MIN\<close> in an array without elements or with no other value; then the index is whatever
  the table entry held before.
\<close>

definition summary :: "int list \<Rightarrow> int \<Rightarrow> int \<Rightarrow> bool" where
  "summary rs v k \<longleftrightarrow>
     (if list_all (\<lambda>r. r \<le> INT_MIN) rs then v = INT_MIN
      else \<exists>j<length rs. k = int j \<and> v = rs ! j \<and> list_all (\<lambda>r. r \<le> v) rs \<and> list_all (\<lambda>r. r < v) (take j rs))"

lemma fill_result:
  "fill f xs ys i v k = Inr (rs, v', k') \<Longrightarrow> length xs = length ys \<Longrightarrow>
     list_all2 (\<lambda>(x, y) r. f x y = Inr r) (zip xs ys) rs \<and>
     (if list_all (\<lambda>r. r \<le> v) rs then v' = v \<and> k' = k
      else \<exists>j<length rs. k' = i + int j \<and> v' = rs ! j \<and> v < v' \<and> list_all (\<lambda>r. r \<le> v') rs
             \<and> list_all (\<lambda>r. r < v') (take j rs))"
proof (induction f xs ys i v k arbitrary: rs v' k' rule: fill.induct)
  case (1 f x xs y ys i v k)
  then obtain r rs' where r: "f x y = Inr r" "rs = r # rs'"
    and rest: "fill f xs ys (i + 1) (if v < r then r else v) (if v < r then i else k) = Inr (rs', v', k')"
    by (auto simp: ebind_Inr_iff)
  have len: "length xs = length ys" using 1(3) by simp
  note ih = 1(1) [OF r(1) rest len]
  show ?case
  proof (cases "list_all (\<lambda>q. q \<le> (if v < r then r else v)) rs'")
    case True
    then show ?thesis using ih r by (auto simp: list_all_iff intro!: exI [of _ 0])
  next
    case False
    then obtain j where j: "j < length rs'" "k' = i + 1 + int j" "v' = rs' ! j" "(if v < r then r else v) < v'"
        "list_all (\<lambda>q. q \<le> v') rs'" "list_all (\<lambda>q. q < v') (take j rs')"
      using ih by (auto simp only: if_False)
    have "\<not> list_all (\<lambda>q. q \<le> v) rs" using j r by (auto simp: list_all_iff split: if_splits intro!: bexI [of _ "rs' ! j"])
    then show ?thesis using j ih r by (auto simp: split: if_splits intro!: exI [of _ "Suc j"])
  qed
qed simp_all

definition pointers :: "table_entry list \<Rightarrow> nat list" where
  "pointers T = concat (map (\<lambda>e. case ptr e of None \<Rightarrow> [] | Some a \<Rightarrow> [a]) T)"

definition entry_ok :: "(nat \<Rightarrow> int list option) \<Rightarrow> table_entry \<Rightarrow> bool" where
  "entry_ok h e \<longleftrightarrow> (case ptr e of None \<Rightarrow> True
     | Some a \<Rightarrow> (case h a of None \<Rightarrow> False
                  | Some rs \<Rightarrow> entry_size e = int (length rs) \<and> summary rs (entry_value e) (entry_index e)))"

definition wf_api :: "api \<Rightarrow> bool" where
  "wf_api s \<longleftrightarrow> length (largest_number_table s) = TABLE_SIZE \<and> distinct (pointers (largest_number_table s))
     \<and> list_all (entry_ok (heap s)) (largest_number_table s)"

lemma pointers_simps [simp]:
  "pointers [] = []" "pointers (e # T) = (case ptr e of None \<Rightarrow> pointers T | Some a \<Rightarrow> a # pointers T)"
  by (auto simp: pointers_def split: option.splits)

lemma free_entry_split:
  "free_entry T i = i + length T \<and> list_all (\<lambda>e. ptr e \<noteq> None) T
   \<or> (\<exists>T1 e T2. T = T1 @ e # T2 \<and> free_entry T i = i + length T1 \<and> ptr e = None)"
proof (induction T arbitrary: i)
  case (Cons e T)
  show ?case
  proof (cases "ptr e = None")
    case True
    then show ?thesis by (intro disjI2 exI [of _ "[]"]) auto
  next
    case False
    from Cons [of "i + 1"] show ?thesis
    proof
      assume "free_entry T (i + 1) = i + 1 + length T \<and> list_all (\<lambda>e. ptr e \<noteq> None) T"
      then show ?thesis using False by simp
    next
      assume "\<exists>T1 d T2. T = T1 @ d # T2 \<and> free_entry T (i + 1) = i + 1 + length T1 \<and> ptr d = None"
      then obtain T1 d T2 where "T = T1 @ d # T2" "free_entry T (i + 1) = i + 1 + length T1" "ptr d = None" by blast
      then show ?thesis using False by (intro disjI2 exI [of _ "e # T1"]) auto
    qed
  qed
qed simp

lemma pointers_append: "pointers (T1 @ T2) = pointers T1 @ pointers T2"
  by (simp add: pointers_def)

lemma find_index_skip: "a \<notin> set (pointers T1) \<Longrightarrow> find_index (T1 @ T2) (Some a) = find_index T2 (Some a)"
  by (induction T1) (auto split: option.splits)

lemma reap_loop_absent: "a \<notin> set (pointers T) \<Longrightarrow> reap_loop (Some a) T l h = Inr (l, T, h)"
  by (induction T) (auto split: option.splits)

lemma reap_loop_append:
  "a \<notin> set (pointers T1) \<Longrightarrow> reap_loop (Some a) (T1 @ T2) l h =
     ebind (reap_loop (Some a) T2 l h) (\<lambda>(l', T', h'). Inr (l', T1 @ T', h'))"
proof (induction T1)
  case Nil
  show ?case by (cases "reap_loop (Some a) T2 l h") auto
next
  case (Cons e T1)
  then show ?case by (cases "reap_loop (Some a) T2 l h") (auto split: option.splits)
qed

lemma entry_ok_other: "a \<notin> set (pointers T) \<Longrightarrow> list_all (entry_ok h) T \<Longrightarrow> list_all (entry_ok (h(a := x))) T"
  by (induction T) (auto simp: entry_ok_def split: option.splits)

lemma pointers_allocated: "list_all (entry_ok h) T \<Longrightarrow> a \<in> set (pointers T) \<Longrightarrow> h a \<noteq> None"
  by (induction T) (auto simp: entry_ok_def split: option.splits)

definition in_use :: "api \<Rightarrow> nat" where
  "in_use s = length (pointers (largest_number_table s))"

lemma all_used: "list_all (\<lambda>e. ptr e \<noteq> None) T \<Longrightarrow> length (pointers T) = length T"
  by (induction T) auto

lemma used_le: "length (pointers T) \<le> length T"
  by (induction T) (auto split: option.splits)

lemma used_all: "length (pointers T) = length T \<Longrightarrow> list_all (\<lambda>e. ptr e \<noteq> None) T"
proof (induction T)
  case (Cons e T)
  then show ?case using used_le [of T] by (auto split: option.splits)
qed simp

lemma fill_total:
  "list_all (\<lambda>(x, y). \<exists>r. f x y = Inr r) (zip xs ys) \<Longrightarrow> \<exists>rs v' k'. fill f xs ys i v k = Inr (rs, v', k')"
proof (induction f xs ys i v k rule: fill.induct)
  case (1 f x xs y ys i v k)
  then obtain r where r: "f x y = Inr r" by auto
  then obtain rs v' k' where "fill f xs ys (i + 1) (if v < r then r else v) (if v < r then i else k) = Inr (rs, v', k')"
    using 1 by fastforce
  with r show ?case by simp
qed auto

text \<open>A new array, and what the operations of the library say of it afterwards.\<close>

lemma create_split:
  assumes "wf_api s" "in_use s < TABLE_SIZE" "heap s a = None" "length xs = n" "length ys = n"
    and "list_all (\<lambda>(x, y). \<exists>r. f x y = Inr r) (zip xs ys)"
  obtains T1 e T2 rs v k where "largest_number_table s = T1 @ e # T2" "ptr e = None"
    "my_api_create xs ys (int n) f (Some a) s = Inr (Some a, s\<lparr>largest_number_table :=
       T1 @ \<lparr>ptr = Some a, entry_value = v, entry_index = k, entry_size = int n\<rparr> # T2,
       heap := (heap s)(a \<mapsto> rs)\<rparr>)"
    "list_all2 (\<lambda>(x, y) r. f x y = Inr r) (zip xs ys) rs" "summary rs v k"
proof -
  let ?T = "largest_number_table s"
  have "\<not> list_all (\<lambda>e. ptr e \<noteq> None) ?T"
    using all_used [of ?T] assms(1,2) by (auto simp: in_use_def wf_api_def)
  then obtain T1 e T2 where T: "?T = T1 @ e # T2" "free_entry ?T 0 = length T1" "ptr e = None"
    using free_entry_split [of ?T 0] by auto
  obtain rs v k where f: "fill f xs ys 0 INT_MIN (entry_index e) = Inr (rs, v, k)"
    using fill_total [OF assms(6)] by blast
  have r: "list_all2 (\<lambda>(x, y) r. f x y = Inr r) (zip xs ys) rs \<and> summary rs v k"
    using fill_result [OF f] assms(4,5) by (auto simp: summary_def split: if_splits)
  have "my_api_create xs ys (int n) f (Some a) s = Inr (Some a, s\<lparr>largest_number_table :=
       T1 @ \<lparr>ptr = Some a, entry_value = v, entry_index = k, entry_size = int n\<rparr> # T2,
       heap := (heap s)(a \<mapsto> rs)\<rparr>)"
    using T f assms(4,5) by (simp add: my_api_create_def Let_def)
  with T r that show ?thesis by blast
qed

section \<open>Properties\<close>

text \<open>
  The recursive binomial coefficient: for \<open>k\<close> up to \<open>n\<close> it is exactly \<open>n choose k\<close>, as long
  as \<open>k\<close> times the result fits an \<open>int\<close>; otherwise the multiplication overflows.
\<close>

theorem n_choose_k_correct:
  assumes "k \<le> n" "int n \<le> INT_MAX"
  shows "n_choose_k (int n) (int k) =
    (if int (k * (n choose k)) \<le> INT_MAX then Inr (int (n choose k)) else Inl Overflow)"
  using assms by (rule n_choose_k_binomial)


text \<open>The program: three arrays, which it prints and reaps.\<close>

lemma program_fills:
  "fill add array_A array_B 0 INT_MIN k = Inr ([7, 7, 7, 7, 7, 7], 7, 0)"
  "fill mul array_A array_B 0 INT_MIN k = Inr ([6, 10, 12, 12, 10, 6], 12, 2)"
proof -
  show "fill add array_A array_B 0 INT_MIN k = Inr ([7, 7, 7, 7, 7, 7], 7, 0)"
    by (simp add: array_A_def array_B_def add_def iadd_def int_val_def INT_MIN_def INT_MAX_def)
  show "fill mul array_A array_B 0 INT_MIN k = Inr ([6, 10, 12, 12, 10, 6], 12, 2)"
    by (simp add: array_A_def array_B_def mul_def imul_def int_val_def INT_MIN_def INT_MAX_def)
qed

lemma program_fill_nck: "fill n_choose_k array_A array_B 0 INT_MIN k = Inr ([0, 0, 0, 4, 10, 6], 10, 4)"
proof -
  have "n_choose_k 1 6 = Inr 0" "n_choose_k 2 5 = Inr 0" "n_choose_k 3 4 = Inr 0" "n_choose_k 4 3 = Inr 4"
    "n_choose_k 5 2 = Inr 10" "n_choose_k 6 1 = Inr 6"
    by code_simp+
  then show ?thesis by (simp add: array_A_def array_B_def INT_MIN_def)
qed

text \<open>
  The program prints its three arrays, and 12 and 10 as the largest values of the second
  and the third; all it allocated is freed. With no memory for the first array it dies of a
  null pointer, since the library writes through what \<open>malloc\<close> returned without a look.
\<close>

theorem array_program:
  assumes "length (largest_number_table s0) = TABLE_SIZE" "distinct [m1, m2, m3]"
    and "heap s0 m1 = None" "heap s0 m2 = None" "heap s0 m3 = None"
  shows "(\<exists>s. array_main (Some m1) (Some m2) (Some m3) s0 = Inr (Printed
      (zip array_A (zip array_B [7, 7, 7, 7, 7, 7])) (zip array_A (zip array_B [6, 10, 12, 12, 10, 6]))
      (zip array_A (zip array_B [0, 0, 0, 4, 10, 6])) (Some 12) (Some 10), s)
      \<and> heap s = heap s0 \<and> in_use s = 0)
    \<and> array_main None m2' m3' s0 = Inl BadAccess"
proof -
  obtain e1 e2 e3 T where T: "largest_number_table s0 = e1 # e2 # e3 # T"
    using assms(1) by (auto simp: TABLE_SIZE_def length_Suc_conv numeral_eq_Suc)
  let ?T = "map (\<lambda>e. e\<lparr>ptr := None\<rparr>) T"
  have T': "pointers ?T = []" by (induction T) auto
  have len: "length array_A = 6" "length array_B = 6" by (simp_all add: array_A_def array_B_def)
  have h: "(heap s0)(m1 := None, m2 := None, m3 := None) = heap s0" using assms(3-5) by auto
  have "array_main (Some m1) (Some m2) (Some m3) s0 = Inr (Printed
      (zip array_A (zip array_B [7, 7, 7, 7, 7, 7])) (zip array_A (zip array_B [6, 10, 12, 12, 10, 6]))
      (zip array_A (zip array_B [0, 0, 0, 4, 10, 6])) (Some 12) (Some 10),
      s0\<lparr>largest_number_table := \<lparr>ptr = None, entry_value = 7, entry_index = 0, entry_size = 6\<rparr>
          # \<lparr>ptr = None, entry_value = 12, entry_index = 2, entry_size = 6\<rparr>
          # \<lparr>ptr = None, entry_value = 10, entry_index = 4, entry_size = 6\<rparr> # ?T, heap := heap s0\<rparr>)"
    using assms(2-5) T' len
    by (simp add: array_main_def init_my_api_def T my_api_create_def program_fills program_fill_nck
        finish_main_def print_result_def my_api_reap_def reap_loop_absent free_mem_def fun_upd_twist h)
  moreover have "array_main None m2' m3' s0 = Inl BadAccess"
    by (simp add: array_main_def init_my_api_def T my_api_create_def)
  ultimately show ?thesis using T' by (auto simp: in_use_def)
qed

section \<open>Witnesses\<close>

definition new_api :: api where
  "new_api = \<lparr>largest_number_table = replicate TABLE_SIZE \<lparr>ptr = None, entry_value = 0, entry_index = 0, entry_size = 0\<rparr>,
     heap = (\<lambda>_. None)\<rparr>"

lemma new_api_unused: "pointers (replicate n \<lparr>ptr = None, entry_value = v, entry_index = k, entry_size = z\<rparr>) = []"
  by (induction n) auto

lemma new_api_wf: "wf_api new_api" "in_use new_api = 0"
  by (simp_all add: new_api_def wf_api_def in_use_def new_api_unused entry_ok_def list_all_iff)

theorem n_choose_k_correct_witness: "n_choose_k 6 3 = Inr 20"
  using n_choose_k_correct [of 3 6] by (simp add: INT_MAX_def eval_nat_numeral)


theorem array_program_witness:
  "\<exists>o1 o2 o3 s. array_main (Some 1) (Some 2) (Some 3) new_api = Inr (Printed o1 o2 o3 (Some 12) (Some 10), s)
    \<and> in_use s = 0"
proof -
  have a: "length (largest_number_table new_api) = TABLE_SIZE" "heap new_api x = None" for x
    by (simp_all add: new_api_def)
  show ?thesis using array_program [OF a(1) _ a(2) a(2) a(2), of 1 2 3 None None] by auto
qed

end
