(* ===== verification/DotProduct.thy ===== *)
theory DotProduct
  imports Threads CString "HOL-Library.Multiset"
begin

text \<open>
  The dot product of two vectors with threads: thr/vector\_dot\_product\_v2.c, whose threads
  add their partial sums to a shared variable under a mutex, and the first version in
  thr\_sync, whose threads store them in an array that the main thread sums up. The
  floating-point operations are the fields of a record: nothing is assumed of their rounding
  unless a property says so.
\<close>

section \<open>Arithmetic and arguments\<close>

record ('f, 'd) float_ops =
  fmul :: "'f \<Rightarrow> 'f \<Rightarrow> 'd"
  fadd :: "'d \<Rightarrow> 'd \<Rightarrow> 'd"
  fzero :: 'd
  narrow :: "'d \<Rightarrow> 'd"

text \<open>\<open>narrow\<close> is the conversion of a \<open>double\<close> to a \<open>float\<close>. Sums that do not round:\<close>

definition exact :: "('f, 'd) float_ops \<Rightarrow> bool" where
  "exact F \<longleftrightarrow> comm_monoid (fadd F) (fzero F)"

record 'f args_for_thread =
  tid :: nat
  num_threads :: nat
  num_elements :: nat
  vector_a :: "'f list"
  vector_b :: "'f list"
  offset :: nat
  chunk_size :: nat

text \<open>
  The chunk size is the quotient rounded down. The code computes it with \<open>float\<close>s, which is
  the same for fewer than \<open>2 ^ 24\<close> elements.
\<close>

definition make_args :: "'f list \<Rightarrow> 'f list \<Rightarrow> nat \<Rightarrow> nat \<Rightarrow> nat \<Rightarrow> 'f args_for_thread" where
  "make_args a b nthreads n i =
     \<lparr>tid = i, num_threads = nthreads, num_elements = n, vector_a = a, vector_b = b,
      offset = i * (n div nthreads), chunk_size = n div nthreads\<rparr>"

text \<open>\<open>sum += a[i] * b[i]\<close> for \<open>i\<close> up to \<open>stop\<close>.\<close>

function dot_loop ::
  "('f, 'd) float_ops \<Rightarrow> 'f list \<Rightarrow> 'f list \<Rightarrow> nat \<Rightarrow> nat \<Rightarrow> 'd \<Rightarrow> ub + 'd" where
  "dot_loop F a b i stop acc =
     (if i < stop then
        if i < length a \<and> i < length b
        then dot_loop F a b (i + 1) stop (fadd F acc (fmul F (a ! i) (b ! i)))
        else Inl OOBRead
      else Inr acc)"
  by pat_completeness auto

termination
  by (relation "measure (\<lambda>(F, a, b, i, stop, acc). stop - i)") auto

declare dot_loop.simps [simp del]

definition compute_gold :: "('f, 'd) float_ops \<Rightarrow> 'f list \<Rightarrow> 'f list \<Rightarrow> nat \<Rightarrow> ub + 'd" where
  "compute_gold F a b n = ebind (dot_loop F a b 0 n (fzero F)) (\<lambda>sum. Inr (narrow F sum))"

definition partial_sum :: "('f, 'd) float_ops \<Rightarrow> 'f args_for_thread \<Rightarrow> ub + 'd" where
  "partial_sum F x =
     (if tid x < num_threads x - 1
      then dot_loop F (vector_a x) (vector_b x) (offset x) (offset x + chunk_size x) (fzero F)
      else dot_loop F (vector_a x) (vector_b x) (offset x) (num_elements x) (fzero F))"

section \<open>The second version: a shared sum\<close>

text \<open>
  Reading the sum and writing it back are separate steps. \<open>order\<close> remembers which thread
  added its sum when; the program does not keep it.
\<close>

datatype 'd dpc = DCompute | DLock 'd | DRead 'd | DWrite 'd 'd | DUnlock | DDone

record 'd dot_state =
  shared_sum :: 'd
  mutex_for_sum :: mutex
  dpc :: "nat \<Rightarrow> 'd dpc"
  order :: "nat list"
  stuck :: bool

definition dot_start :: "('f, 'd) float_ops \<Rightarrow> 'd dot_state" where
  "dot_start F = \<lparr>shared_sum = fzero F, mutex_for_sum = None, dpc = (\<lambda>_. DCompute), order = [], stuck = False\<rparr>"

definition set_dpc :: "nat \<Rightarrow> 'd dpc \<Rightarrow> 'd dot_state \<Rightarrow> 'd dot_state" where
  "set_dpc i p s = s\<lparr>dpc := (dpc s)(i := p)\<rparr>"

definition dot_product ::
  "('f, 'd) float_ops \<Rightarrow> 'f args_for_thread \<Rightarrow> 'd dot_state \<Rightarrow> 'd dot_state option" where
  "dot_product F x s =
     (let i = tid x
      in case dpc s i of
        DCompute \<Rightarrow> (case partial_sum F x of
                       Inl _ \<Rightarrow> Some (s\<lparr>stuck := True\<rparr>)
                     | Inr p \<Rightarrow> Some (set_dpc i (DLock p) s))
      | DLock p \<Rightarrow> map_option (\<lambda>m. set_dpc i (DRead p) (s\<lparr>mutex_for_sum := m\<rparr>))
                     (mutex_lock (mutex_for_sum s) i)
      | DRead p \<Rightarrow> Some (set_dpc i (DWrite p (shared_sum s)) s)
      | DWrite p v \<Rightarrow> Some (set_dpc i DUnlock (s\<lparr>shared_sum := fadd F v p, order := order s @ [i]\<rparr>))
      | DUnlock \<Rightarrow> Some (set_dpc i DDone (s\<lparr>mutex_for_sum := mutex_unlock (mutex_for_sum s)\<rparr>))
      | DDone \<Rightarrow> None)"

definition dot_step ::
  "('f, 'd) float_ops \<Rightarrow> 'f list \<Rightarrow> 'f list \<Rightarrow> nat \<Rightarrow> nat \<Rightarrow> 'd dot_state \<Rightarrow> nat \<Rightarrow> 'd dot_state option" where
  "dot_step F a b nthreads n s i =
     (if i < nthreads \<and> \<not> stuck s then dot_product F (make_args a b nthreads n i) s else None)"

text \<open>What \<open>compute_using_pthreads\<close> returns once it has joined all threads.\<close>

definition compute_using_pthreads :: "('f, 'd) float_ops \<Rightarrow> nat \<Rightarrow> 'd dot_state \<Rightarrow> 'd option" where
  "compute_using_pthreads F nthreads s =
     (if list_all (\<lambda>i. dpc s i = DDone) [0..<nthreads] then Some (narrow F (shared_sum s)) else None)"

section \<open>The first version: an array of partial sums\<close>

definition NUM_THREADS :: nat where "NUM_THREADS = 8"

record 'd v1_state =
  sums :: "'d option list"
  stored :: "nat \<Rightarrow> bool"
  v1_stuck :: bool

definition v1_start :: "'d v1_state" where
  "v1_start = \<lparr>sums = replicate NUM_THREADS None, stored = (\<lambda>_. False), v1_stuck = False\<rparr>"

definition v1_dot_product ::
  "('f, 'd) float_ops \<Rightarrow> 'f args_for_thread \<Rightarrow> 'd v1_state \<Rightarrow> 'd v1_state option" where
  "v1_dot_product F x s =
     (if stored s (tid x) then None
      else case partial_sum F x of
        Inl _ \<Rightarrow> Some (s\<lparr>v1_stuck := True\<rparr>)
      | Inr p \<Rightarrow> Some (s\<lparr>sums := (sums s)[tid x := Some (narrow F p)], stored := (stored s)(tid x := True)\<rparr>))"

definition v1_step ::
  "('f, 'd) float_ops \<Rightarrow> 'f list \<Rightarrow> 'f list \<Rightarrow> nat \<Rightarrow> 'd v1_state \<Rightarrow> nat \<Rightarrow> 'd v1_state option" where
  "v1_step F a b n s i =
     (if i < NUM_THREADS \<and> \<not> v1_stuck s then v1_dot_product F (make_args a b NUM_THREADS n i) s else None)"

fun sum_array :: "('f, 'd) float_ops \<Rightarrow> 'd option list \<Rightarrow> 'd \<Rightarrow> ub + 'd" where
  "sum_array F [] acc = Inr acc"
| "sum_array F (None # xs) acc = Inl UninitRead"
| "sum_array F (Some x # xs) acc = sum_array F xs (fadd F acc x)"

definition v1_result :: "('f, 'd) float_ops \<Rightarrow> 'd v1_state \<Rightarrow> (ub + 'd) option" where
  "v1_result F s =
     (if list_all (stored s) [0..<NUM_THREADS]
      then Some (ebind (sum_array F (sums s) (fzero F)) (\<lambda>t. Inr (narrow F t))) else None)"

text \<open>The command line of the second version: the number of elements and of threads.\<close>

definition dot_args :: "string list \<Rightarrow> (int \<times> int) option" where
  "dot_args args = (if length args \<noteq> 3 then None else Some (atoi (args ! 1), atoi (args ! 2)))"

section \<open>Partial sums\<close>

definition prods :: "('f, 'd) float_ops \<Rightarrow> 'f list \<Rightarrow> 'f list \<Rightarrow> nat list \<Rightarrow> 'd list" where
  "prods F a b ks = map (\<lambda>k. fmul F (a ! k) (b ! k)) ks"

definition total :: "('f, 'd) float_ops \<Rightarrow> 'd list \<Rightarrow> 'd" where
  "total F xs = foldl (fadd F) (fzero F) xs"

text \<open>The indices that thread \<open>i\<close> works on.\<close>

definition share :: "nat \<Rightarrow> nat \<Rightarrow> nat \<Rightarrow> nat list" where
  "share nthreads n i =
     [i * (n div nthreads)..<if i < nthreads - 1 then (i + 1) * (n div nthreads) else n]"

lemma dot_loop_fold:
  "stop \<le> length a \<Longrightarrow> stop \<le> length b \<Longrightarrow>
     dot_loop F a b i stop acc = Inr (foldl (fadd F) acc (prods F a b [i..<stop]))"
proof (induction F a b i stop acc rule: dot_loop.induct)
  case (1 F a b i stop acc)
  then show ?case
    by (subst dot_loop.simps) (auto simp: prods_def upt_conv_Cons simp del: upt_Suc)
qed

lemma upt_split: "i \<le> j \<Longrightarrow> j \<le> k \<Longrightarrow> [i..<j] @ [j..<k] = [i..<k]"
  using upt_add_eq_append [of i j "k - j"] by simp

lemma share_fits:
  fixes i :: nat
  assumes "i \<le> nthreads"
  shows "i * (n div nthreads) \<le> n"
proof -
  have "i * (n div nthreads) \<le> nthreads * (n div nthreads)" by (rule mult_le_mono1 [OF assms])
  also have "\<dots> \<le> n" by simp
  finally show ?thesis .
qed

lemma partial_sum_share:
  assumes "i < nthreads" "n \<le> length a" "n \<le> length b"
  shows "partial_sum F (make_args a b nthreads n i) = Inr (total F (prods F a b (share nthreads n i)))"
proof -
  have "i * (n div nthreads) + n div nthreads \<le> n" using share_fits [of "i + 1" nthreads n] assms(1) by simp
  then show ?thesis using assms
    by (simp add: partial_sum_def make_args_def dot_loop_fold total_def share_def add.commute)
qed

lemma compute_gold_total:
  "n \<le> length a \<Longrightarrow> n \<le> length b \<Longrightarrow>
     compute_gold F a b n = Inr (narrow F (total F (prods F a b [0..<n])))"
  by (simp add: compute_gold_def dot_loop_fold total_def)

text \<open>The shares cover the vectors.\<close>

lemma shares_prefix:
  "k \<le> nthreads - 1 \<Longrightarrow> concat (map (share nthreads n) [0..<k]) = [0..<k * (n div nthreads)]"
proof (induction k)
  case (Suc k)
  have "[0..<k * (n div nthreads)] @ [k * (n div nthreads)..<Suc k * (n div nthreads)] = [0..<Suc k * (n div nthreads)]"
    by (rule upt_split) simp_all
  then show ?case using Suc by (simp add: share_def)
qed simp

lemma shares_all:
  assumes "0 < nthreads"
  shows "concat (map (share nthreads n) [0..<nthreads]) = [0..<n]"
proof -
  obtain k where k: "nthreads = Suc k" using assms by (cases nthreads) auto
  have "[0..<k * (n div nthreads)] @ [k * (n div nthreads)..<n] = [0..<n]"
    using share_fits [of k nthreads n] by (intro upt_split) (simp_all add: k)
  then show ?thesis using shares_prefix [of k nthreads n] by (simp add: k share_def)
qed

context comm_monoid begin

lemma foldl_unit: "foldl f a xs = f a (foldl f z xs)"
  by (induction xs arbitrary: a) (simp, metis assoc foldl_Cons left_neutral)

lemma foldl_concat: "foldl f z (map (foldl f z) xss) = foldl f z (concat xss)"
  by (induction xss) (simp_all, metis foldl_append foldl_unit left_neutral)

lemma foldl_mset: "mset xs = mset ys \<Longrightarrow> foldl f z xs = foldl f z ys"
proof (induction xs arbitrary: ys)
  case (Cons x xs)
  then have "x \<in> set ys" by (metis list.set_intros(1) set_mset_mset)
  then obtain us vs where y: "ys = us @ x # vs" by (meson split_list)
  then have "foldl f z xs = foldl f z (us @ vs)" using Cons(1) [of "us @ vs"] Cons(2) by simp
  then show ?case unfolding y
    by (metis commute foldl_Cons foldl_append foldl_unit left_commute left_neutral)
qed simp

end

section \<open>The second version computes the sum\<close>

fun owns :: "'d dpc \<Rightarrow> bool" where
  "owns (DRead p) = True" | "owns (DWrite p v) = True" | "owns DUnlock = True" | "owns _ = False"

fun added :: "'d dpc \<Rightarrow> bool" where
  "added DUnlock = True" | "added DDone = True" | "added _ = False"

text \<open>What a thread carries: its partial sum, and the shared sum it has read.\<close>

fun carries :: "'d \<Rightarrow> 'd \<Rightarrow> 'd dpc \<Rightarrow> bool" where
  "carries p v (DLock q) \<longleftrightarrow> q = p"
| "carries p v (DRead q) \<longleftrightarrow> q = p"
| "carries p v (DWrite q w) \<longleftrightarrow> q = p \<and> w = v"
| "carries p v _ \<longleftrightarrow> True"

definition part :: "('f, 'd) float_ops \<Rightarrow> 'f list \<Rightarrow> 'f list \<Rightarrow> nat \<Rightarrow> nat \<Rightarrow> nat \<Rightarrow> 'd" where
  "part F a b t n i = total F (prods F a b (share t n i))"

definition mutex_inv :: "nat \<Rightarrow> 'd dot_state \<Rightarrow> bool" where
  "mutex_inv t s \<longleftrightarrow> (\<forall>i. mutex_for_sum s = Some i \<longleftrightarrow> i < t \<and> owns (dpc s i))"

definition sums_inv :: "('f, 'd) float_ops \<Rightarrow> 'f list \<Rightarrow> 'f list \<Rightarrow> nat \<Rightarrow> nat \<Rightarrow> 'd dot_state \<Rightarrow> bool" where
  "sums_inv F a b t n s \<longleftrightarrow> \<not> stuck s \<and> shared_sum s = total F (map (part F a b t n) (order s))
     \<and> distinct (order s) \<and> (\<forall>i. i \<in> set (order s) \<longleftrightarrow> i < t \<and> added (dpc s i))
     \<and> (\<forall>i<t. carries (part F a b t n i) (shared_sum s) (dpc s i))"

definition dot_inv :: "('f, 'd) float_ops \<Rightarrow> 'f list \<Rightarrow> 'f list \<Rightarrow> nat \<Rightarrow> nat \<Rightarrow> 'd dot_state \<Rightarrow> bool" where
  "dot_inv F a b t n s \<longleftrightarrow> mutex_inv t s \<and> (n \<le> length a \<and> n \<le> length b \<longrightarrow> sums_inv F a b t n s)"

lemma dot_step_cases:
  assumes "dot_step F a b t n s i = Some u"
  obtains (fails) "i < t" "\<not> stuck s" "dpc s i = DCompute"
      "\<not> (n \<le> length a \<and> n \<le> length b)" "u = s\<lparr>stuck := True\<rparr>"
  | (computes) p where "i < t" "\<not> stuck s" "dpc s i = DCompute"
      "n \<le> length a \<and> n \<le> length b \<Longrightarrow> p = part F a b t n i" "u = set_dpc i (DLock p) s"
  | (locks) p where "i < t" "\<not> stuck s" "dpc s i = DLock p" "mutex_for_sum s = None"
      "u = set_dpc i (DRead p) (s\<lparr>mutex_for_sum := Some i\<rparr>)"
  | (reads) p where "i < t" "\<not> stuck s" "dpc s i = DRead p" "u = set_dpc i (DWrite p (shared_sum s)) s"
  | (writes) p v where "i < t" "\<not> stuck s" "dpc s i = DWrite p v"
      "u = set_dpc i DUnlock (s\<lparr>shared_sum := fadd F v p, order := order s @ [i]\<rparr>)"
  | (unlocks) "i < t" "\<not> stuck s" "dpc s i = DUnlock" "u = set_dpc i DDone (s\<lparr>mutex_for_sum := None\<rparr>)"
proof -
  have i: "i < t" "\<not> stuck s" and st: "dot_product F (make_args a b t n i) s = Some u"
    using assms by (auto simp: dot_step_def split: if_splits)
  have x: "tid (make_args a b t n i) = i" by (simp add: make_args_def)
  show ?thesis
  proof (cases "dpc s i")
    case DCompute
    show ?thesis
    proof (cases "partial_sum F (make_args a b t n i)")
      case (Inl e)
      then have "\<not> (n \<le> length a \<and> n \<le> length b)"
        using partial_sum_share [OF i(1), of n a b F] by auto
      then show ?thesis using st DCompute Inl by (intro fails i) (simp_all add: dot_product_def x)
    next
      case (Inr p)
      then have "n \<le> length a \<and> n \<le> length b \<Longrightarrow> p = part F a b t n i"
        using partial_sum_share [OF i(1), of n a b F] by (simp add: part_def)
      then show ?thesis using st DCompute Inr by (intro computes [OF i DCompute, of p]) (simp_all add: dot_product_def x)
    qed
  next
    case (DLock p)
    then show ?thesis using st by (intro locks [OF i DLock]) (auto simp: dot_product_def x step_simps)
  next
    case (DWrite p v)
    then show ?thesis using st by (intro writes [OF i DWrite]) (simp add: dot_product_def x)
  qed (use st i reads unlocks in \<open>simp_all add: dot_product_def x\<close>)
qed

lemma set_dpc_fields [simp]:
  "dpc (set_dpc i p s) = (dpc s)(i := p)" "shared_sum (set_dpc i p s) = shared_sum s"
  "mutex_for_sum (set_dpc i p s) = mutex_for_sum s" "order (set_dpc i p s) = order s"
  "stuck (set_dpc i p s) = stuck s"
  by (simp_all add: set_dpc_def)

lemma mutex_inv_step:
  assumes "mutex_inv t s" "dot_step F a b t n s i = Some u"
  shows "mutex_inv t u"
proof -
  have m: "mutex_for_sum s = Some j \<longleftrightarrow> j < t \<and> owns (dpc s j)" for j
    using assms(1) unfolding mutex_inv_def by blast
  have "mutex_for_sum u = Some j \<longleftrightarrow> j < t \<and> owns (dpc u j)" for j
    using assms(2)
  proof (cases rule: dot_step_cases)
    case (locks p)
    then show ?thesis using m [of j] by auto
  next
    case unlocks
    then show ?thesis using m [of j] m [of i] by auto
  qed (use m [of j] in auto)
  then show ?thesis by (simp add: mutex_inv_def)
qed

lemma owner_alone:
  assumes "mutex_inv t s" "i < t" "owns (dpc s i)" "j < t" "owns (dpc s j)"
  shows "i = j"
proof -
  have "mutex_for_sum s = Some i" "mutex_for_sum s = Some j" using assms unfolding mutex_inv_def by blast+
  then show ?thesis by simp
qed

lemma carries_any: "\<not> owns p \<Longrightarrow> carries q v p \<Longrightarrow> carries q w p"
  by (cases p) auto

lemma sums_inv_step:
  assumes "mutex_inv t s" "sums_inv F a b t n s" "dot_step F a b t n s i = Some u"
    and n: "n \<le> length a" "n \<le> length b"
  shows "sums_inv F a b t n u"
  using assms(3)
proof (cases rule: dot_step_cases)
  case (writes p v)
  have c: "carries (part F a b t n j) (shared_sum s) (dpc s j)" if "j < t" for j
    using assms(2) that unfolding sums_inv_def by blast
  have "carries (part F a b t n j) (shared_sum u) (dpc u j)" if "j < t" for j
  proof (cases "j = i")
    case False
    then have "\<not> owns (dpc s j)" using owner_alone [OF assms(1) writes(1) _ that] writes(3) by auto
    then show ?thesis using carries_any [OF _ c [OF that]] False writes(4) by simp
  qed (simp add: writes)
  moreover have "p = part F a b t n i" "v = shared_sum s" using c [OF writes(1)] writes(3) by simp_all
  ultimately show ?thesis using assms(2) writes by (auto simp: sums_inv_def total_def)
qed (use assms(2) n in \<open>auto simp: sums_inv_def\<close>)

lemma dot_inv_step: "dot_inv F a b t n s \<Longrightarrow> dot_step F a b t n s i = Some u \<Longrightarrow> dot_inv F a b t n u"
  unfolding dot_inv_def using mutex_inv_step sums_inv_step by metis

lemma dot_start_inv: "dot_inv F a b t n (dot_start F)"
  by (simp add: dot_inv_def mutex_inv_def sums_inv_def dot_start_def total_def)

fun d_weight :: "'d dpc \<Rightarrow> nat" where
  "d_weight DCompute = 5" | "d_weight (DLock _) = 4" | "d_weight (DRead _) = 3" | "d_weight (DWrite _ _) = 2"
| "d_weight DUnlock = 1" | "d_weight DDone = 0"

definition dot_mu :: "nat \<Rightarrow> 'd dot_state \<Rightarrow> nat" where
  "dot_mu t s = (\<Sum>j<t. d_weight (dpc s j)) + (if stuck s then 0 else 1)"

definition all_done :: "nat \<Rightarrow> 'd dot_state \<Rightarrow> bool" where
  "all_done t s \<longleftrightarrow> stuck s \<or> (\<forall>i<t. dpc s i = DDone)"

lemma dot_mu_set:
  assumes "i < t" "d_weight p < d_weight (dpc s i)" "stuck u = stuck s" "dpc u = (dpc s)(i := p)"
  shows "dot_mu t u < dot_mu t s"
proof -
  have "(\<Sum>j<t. d_weight (dpc u j)) + d_weight (dpc s i) = (\<Sum>j<t. d_weight (dpc s j)) + d_weight p"
    using sum_change [OF assms(1), of "\<lambda>j. d_weight (dpc u j)" "\<lambda>j. d_weight (dpc s j)"] assms(4) by simp
  then show ?thesis using assms(2,3) by (simp add: dot_mu_def)
qed

lemma dot_mu_step:
  assumes "dot_step F a b t n s i = Some u"
  shows "dot_mu t u < dot_mu t s"
  using assms
proof (cases rule: dot_step_cases)
  case fails
  then show ?thesis by (simp add: dot_mu_def)
next
  case (computes p)
  then show ?thesis by (intro dot_mu_set [of i t "DLock p"]) simp_all
next
  case (locks p)
  then show ?thesis by (intro dot_mu_set [of i t "DRead p"]) simp_all
next
  case (reads p)
  then show ?thesis by (intro dot_mu_set [of i t "DWrite p (shared_sum s)"]) simp_all
next
  case (writes p v)
  then show ?thesis by (intro dot_mu_set [of i t DUnlock]) simp_all
next
  case unlocks
  then show ?thesis by (intro dot_mu_set [of i t DDone]) simp_all
qed

lemma dot_inv_mutex: "dot_inv F a b t n s \<Longrightarrow> mutex_inv t s"
  by (simp add: dot_inv_def)

lemma dot_progress:
  assumes "mutex_inv t s" "\<not> all_done t s"
  shows "\<exists>i u. dot_step F a b t n s i = Some u"
proof -
  obtain k where k: "k < t" "dpc s k \<noteq> DDone" and ns: "\<not> stuck s"
    using assms(2) by (auto simp: all_done_def)
  obtain i where i: "i < t" "dpc s i \<noteq> DDone" "mutex_for_sum s = None \<or> owns (dpc s i)"
  proof (cases "mutex_for_sum s")
    case (Some j)
    then have "j < t \<and> owns (dpc s j)" using assms(1) unfolding mutex_inv_def by blast
    then show ?thesis using that [of j] Some by (cases "dpc s j") auto
  qed (use that k in blast)
  have "\<exists>u. dot_product F (make_args a b t n i) s = Some u"
    using i(2,3) by (cases "dpc s i") (auto simp: dot_product_def make_args_def step_simps Let_def split: sum.splits)
  then show ?thesis using i(1) ns by (auto simp: dot_step_def)
qed

interpretation dot: machine_term "dot_step F a b t n" "dot_start F" "dot_inv F a b t n" "\<lambda>_. True"
  "all_done t" "dot_mu t" for F a b t n
  by unfold_locales (simp_all add: dot_start_inv dot_inv_step dot_mu_step dot_progress [OF dot_inv_mutex])

lemma compute_done:
  assumes "dot_inv F a b t n s" "n \<le> length a" "n \<le> length b" "compute_using_pthreads F t s = Some r"
  shows "mset (order s) = mset [0..<t]" "r = narrow F (total F (map (part F a b t n) (order s)))"
proof -
  have d: "\<forall>i<t. dpc s i = DDone" "r = narrow F (shared_sum s)"
    using assms(4) by (auto simp: compute_using_pthreads_def list_all_iff split: if_splits)
  have i: "sums_inv F a b t n s" using assms(1-3) by (simp add: dot_inv_def)
  have "set (order s) = set [0..<t]" using i d(1) by (auto simp: sums_inv_def)
  moreover have "distinct (order s)" using i by (simp add: sums_inv_def)
  ultimately show "mset (order s) = mset [0..<t]" by (simp only: set_eq_iff_mset_eq_distinct distinct_upt)
  show "r = narrow F (total F (map (part F a b t n) (order s)))" using i d(2) by (simp add: sums_inv_def)
qed

lemma total_parts:
  assumes "exact F" "0 < t" "mset ks = mset [0..<t]"
  shows "total F (map (part F a b t n) ks) = total F (prods F a b [0..<n])"
proof -
  have m: "comm_monoid (fadd F) (fzero F)" using assms(1) by (simp add: exact_def)
  let ?p = "\<lambda>i. prods F a b (share t n i)"
  have "total F (map (part F a b t n) ks) = total F (map (part F a b t n) [0..<t])"
    unfolding total_def using assms(3) by (intro comm_monoid.foldl_mset [OF m]) simp
  also have "\<dots> = total F (map (total F) (map ?p [0..<t]))"
    by (simp add: part_def [abs_def] comp_def)
  also have "\<dots> = total F (concat (map ?p [0..<t]))"
    using comm_monoid.foldl_concat [OF m, of "map ?p [0..<t]"] by (simp add: total_def [abs_def])
  also have "concat (map ?p [0..<t]) = prods F a b (concat (map (share t n) [0..<t]))"
    by (simp add: prods_def map_concat comp_def)
  finally show ?thesis by (simp add: shares_all [OF assms(2)])
qed

section \<open>The first version\<close>

definition v1_inv :: "('f, 'd) float_ops \<Rightarrow> 'f list \<Rightarrow> 'f list \<Rightarrow> nat \<Rightarrow> 'd v1_state \<Rightarrow> bool" where
  "v1_inv F a b n s \<longleftrightarrow> (n \<le> length a \<and> n \<le> length b \<longrightarrow> \<not> v1_stuck s
     \<and> sums s = map (\<lambda>i. if stored s i then Some (narrow F (part F a b NUM_THREADS n i)) else None) [0..<NUM_THREADS])"

definition v1_final :: "'d v1_state \<Rightarrow> bool" where
  "v1_final s \<longleftrightarrow> v1_stuck s \<or> (\<forall>i<NUM_THREADS. stored s i)"

definition v1_mu :: "'d v1_state \<Rightarrow> nat" where
  "v1_mu s = cnt Not (stored s) NUM_THREADS + (if v1_stuck s then 0 else 1)"

lemma v1_step_cases:
  assumes "v1_step F a b n s i = Some u"
  obtains (fails) "\<not> v1_stuck s" "\<not> (n \<le> length a \<and> n \<le> length b)" "u = s\<lparr>v1_stuck := True\<rparr>"
  | (stores) p where "i < NUM_THREADS" "\<not> stored s i"
      "n \<le> length a \<and> n \<le> length b \<Longrightarrow> p = part F a b NUM_THREADS n i"
      "u = s\<lparr>sums := (sums s)[i := Some (narrow F p)], stored := (stored s)(i := True)\<rparr>"
proof -
  have i: "i < NUM_THREADS" "\<not> v1_stuck s" and st: "v1_dot_product F (make_args a b NUM_THREADS n i) s = Some u"
    using assms by (auto simp: v1_step_def split: if_splits)
  have x: "tid (make_args a b NUM_THREADS n i) = i" by (simp add: make_args_def)
  have ns: "\<not> stored s i" using st by (auto simp: v1_dot_product_def x)
  show ?thesis
  proof (cases "partial_sum F (make_args a b NUM_THREADS n i)")
    case (Inl e)
    then have "\<not> (n \<le> length a \<and> n \<le> length b)"
      using partial_sum_share [OF i(1), of n a b F] by auto
    then show ?thesis using st Inl ns by (intro fails i) (simp_all add: v1_dot_product_def x)
  next
    case (Inr p)
    then have "n \<le> length a \<and> n \<le> length b \<Longrightarrow> p = part F a b NUM_THREADS n i"
      using partial_sum_share [OF i(1), of n a b F] by (simp add: part_def)
    then show ?thesis using st Inr ns by (intro stores [OF i(1) ns, of p]) (simp_all add: v1_dot_product_def x)
  qed
qed

lemma v1_inv_step: "v1_inv F a b n s \<Longrightarrow> v1_step F a b n s i = Some u \<Longrightarrow> v1_inv F a b n u"
  by (erule v1_step_cases) (auto simp: v1_inv_def intro!: nth_equalityI simp: nth_list_update_if)

lemma v1_start_inv: "v1_inv F a b n v1_start"
  by (simp add: v1_inv_def v1_start_def map_replicate_const)

lemma v1_mu_step: "v1_step F a b n s i = Some u \<Longrightarrow> v1_mu u < v1_mu s"
  by (erule v1_step_cases) (auto simp: v1_mu_def dest!: cnt_upd_del [of _ NUM_THREADS Not "stored s" True])

lemma v1_progress:
  assumes "\<not> v1_final s"
  shows "\<exists>i u. v1_step F a b n s i = Some u"
proof -
  obtain i where "i < NUM_THREADS" "\<not> stored s i" "\<not> v1_stuck s" using assms by (auto simp: v1_final_def)
  then have "v1_step F a b n s i \<noteq> None"
    by (simp add: v1_step_def v1_dot_product_def make_args_def split: sum.splits)
  then show ?thesis by blast
qed

interpretation v1: machine_term "v1_step F a b n" v1_start "v1_inv F a b n" "\<lambda>_. True" v1_final v1_mu
  for F a b n
  by unfold_locales
    (simp_all add: v1_start_inv v1_inv_step v1_mu_step v1_progress)

lemma sum_array_total: "sum_array F (map Some xs) acc = Inr (foldl (fadd F) acc xs)"
  by (induction xs arbitrary: acc) auto

lemma v1_result_final:
  assumes "v1_inv F a b n s" "n \<le> length a" "n \<le> length b" "v1_final s"
  shows "v1_result F s = Some (Inr (narrow F
    (total F (map (\<lambda>i. narrow F (part F a b NUM_THREADS n i)) [0..<NUM_THREADS]))))"
proof -
  let ?p = "\<lambda>i. narrow F (part F a b NUM_THREADS n i)"
  have i: "\<not> v1_stuck s" "sums s = map (\<lambda>i. if stored s i then Some (?p i) else None) [0..<NUM_THREADS]"
    using assms(1-3) by (simp_all add: v1_inv_def)
  then have d: "\<forall>i<NUM_THREADS. stored s i" using assms(4) by (simp add: v1_final_def)
  then have "sums s = map Some (map ?p [0..<NUM_THREADS])" using i(2) by simp
  then show ?thesis using d by (simp add: v1_result_def list_all_iff sum_array_total total_def del: map_map)
qed

section \<open>Properties\<close>


text \<open>
  The result of the first version does not depend on the interleaving, whatever the
  rounding: it adds the partial sums in the order of the threads, and it never reads a partial
  sum that has not been written.
\<close>

theorem v1_deterministic:
  assumes "n \<le> length a" "n \<le> length b" "run (v1_step F a b n) v1_start es = Some s"
  shows "length es \<le> NUM_THREADS + 1 \<and> ((\<forall>i. v1_step F a b n s i = None) \<longrightarrow>
    v1_result F s = Some (Inr (narrow F
      (total F (map (\<lambda>i. narrow F (part F a b NUM_THREADS n i)) [0..<NUM_THREADS])))))"
proof -
  have "length es \<le> v1_mu (v1_start :: 'b v1_state)"
    using v1.runs_bounded [OF _ assms(3)] by (simp add: list_all_iff)
  moreover have "v1_final s" if "\<forall>i. v1_step F a b n s i = None"
    using v1.stuck_final [OF run_reach [OF assms(3)]] that by blast
  ultimately show ?thesis using v1_result_final [OF v1.run_inv [OF assms(3)] assms(1,2)]
    by (auto simp: v1_mu_def v1_start_def cnt_const)
qed

section \<open>Witnesses\<close>

definition int_ops :: "(int, int) float_ops" where
  "int_ops = \<lparr>fmul = (*), fadd = (+), fzero = 0, narrow = (\<lambda>x. x)\<rparr>"

lemma int_ops_exact: "exact int_ops"
  by (simp add: exact_def int_ops_def add.comm_monoid_axioms)

definition two_threads :: "nat list" where
  "two_threads = [0, 1, 1, 1, 1, 1, 0, 0, 0, 0]"


theorem v1_deterministic_witness:
  "\<exists>s. run (v1_step int_ops [1, 2, 3] [4, 5, 6] 3) v1_start [7, 3, 0, 1, 6, 2, 5, 4] = Some s
    \<and> v1_result int_ops s = Some (Inr 32)"
proof -
  have "case run (v1_step int_ops [1, 2, 3] [4, 5, 6] 3) v1_start [7, 3, 0, 1, 6, 2, 5, 4] of
      None \<Rightarrow> False | Some s \<Rightarrow> list_all (stored s) [0..<8]"
    by code_simp
  then obtain s where r: "run (v1_step int_ops [1, 2, 3] [4, 5, 6] 3) v1_start [7, 3, 0, 1, 6, 2, 5, 4] = Some s"
    and d: "list_all (stored s) [0..<8]" by (auto split: option.splits)
  have "v1_step int_ops [1, 2, 3] [4, 5, 6] 3 s i = None" for i
    using d by (auto simp: v1_step_def v1_dot_product_def make_args_def NUM_THREADS_def list_all_iff)
  moreover have "narrow int_ops (total int_ops (map (\<lambda>i. narrow int_ops
      (part int_ops [1, 2, 3] [4, 5, 6] NUM_THREADS 3 i)) [0..<NUM_THREADS])) = 32"
    by code_simp
  ultimately show ?thesis using v1_deterministic [OF _ _ r] r by simp
qed

end
