(* ===== verification/SharedXfr.thy ===== *)
theory SharedXfr
  imports Threads
begin

text \<open>
  The transfer through shared memory of shm/reader\_writer\_systemV: a writer that copies its
  standard input, block by block, to a shared segment, a reader that copies the blocks to its
  standard output, and two binary semaphores that give them their turns. The reader is
  started when the writer has made the segment and the semaphores.
\<close>

section \<open>Binary semaphores\<close>

text \<open>binary\_sems.c, on the value of a semaphore. A reserve of a semaphore at 0 blocks.\<close>

definition initSemAvailable :: nat where "initSemAvailable = 1"
definition initSemInUse :: nat where "initSemInUse = 0"

definition reserveSem :: "nat \<Rightarrow> nat option" where
  "reserveSem v = (if v < 1 then None else Some (v - 1))"

definition releaseSem :: "nat \<Rightarrow> nat" where
  "releaseSem v = v + 1"

interpretation sysv_sem: counting_sem "\<lambda>v. v" reserveSem releaseSem
  by unfold_locales (auto simp: reserveSem_def releaseSem_def split: if_splits)

lemma reserveSem_Some [step_simps]: "reserveSem v = Some w \<longleftrightarrow> v = Suc w"
  by (auto simp: reserveSem_def)

section \<open>The two processes\<close>

text \<open>
  \<open>input\<close> holds the blocks that the writer's \<open>read\<close> will still return, none of them empty;
  after them it returns 0. A \<open>read\<close> or \<open>write\<close> that fails ends its process. \<open>taken\<close> is the
  list of blocks read so far; the programs do not keep it.
\<close>

definition BUF_SIZE :: nat where "BUF_SIZE = 1024"

datatype wpc = WReserve | WRead | WRelease | WTest | WFinal | WRemove | WExit | WFail
datatype rpc = RReserve | RTest | RWrite | RRelease | RFinal | RExit | RFail

record shmseg =
  count :: int
  buf :: string

record xfr =
  shmp :: shmseg
  write_sem :: nat
  read_sem :: nat
  wpc :: wpc
  rpc :: rpc
  input :: "string list"
  taken :: "string list"
  w_nbytes :: int
  w_xfrs :: nat
  r_nbytes :: int
  r_xfrs :: nat
  stdout :: string
  removed :: bool

datatype event = Writer | Reader | ReadFails | WriteFails

text \<open>The segment may hold anything at first.\<close>

definition xfr_start :: "shmseg \<Rightarrow> string list \<Rightarrow> xfr" where
  "xfr_start m inp = \<lparr>shmp = m, write_sem = initSemAvailable, read_sem = initSemInUse,
     wpc = WReserve, rpc = RReserve, input = inp, taken = [], w_nbytes = 0, w_xfrs = 0,
     r_nbytes = 0, r_xfrs = 0, stdout = [], removed = False\<rparr>"

definition writer :: "xfr \<Rightarrow> xfr option" where
  "writer s =
     (case wpc s of
        WReserve \<Rightarrow> map_option (\<lambda>v. s\<lparr>write_sem := v, wpc := WRead\<rparr>) (reserveSem (write_sem s))
      | WRead \<Rightarrow> (case input s of
                    [] \<Rightarrow> Some (s\<lparr>shmp := (shmp s)\<lparr>count := 0\<rparr>, wpc := WRelease\<rparr>)
                  | b # bs \<Rightarrow> Some (s\<lparr>shmp := \<lparr>count = int (length b), buf = b\<rparr>, input := bs,
                                     taken := taken s @ [b], wpc := WRelease\<rparr>))
      | WRelease \<Rightarrow> Some (s\<lparr>read_sem := releaseSem (read_sem s), wpc := WTest\<rparr>)
      | WTest \<Rightarrow> if count (shmp s) = 0 then Some (s\<lparr>wpc := WFinal\<rparr>)
                 else Some (s\<lparr>w_xfrs := w_xfrs s + 1, w_nbytes := w_nbytes s + count (shmp s), wpc := WReserve\<rparr>)
      | WFinal \<Rightarrow> map_option (\<lambda>v. s\<lparr>write_sem := v, wpc := WRemove\<rparr>) (reserveSem (write_sem s))
      | WRemove \<Rightarrow> Some (s\<lparr>removed := True, wpc := WExit\<rparr>)
      | WExit \<Rightarrow> None
      | WFail \<Rightarrow> None)"

definition reader :: "xfr \<Rightarrow> xfr option" where
  "reader s =
     (case rpc s of
        RReserve \<Rightarrow> map_option (\<lambda>v. s\<lparr>read_sem := v, rpc := RTest\<rparr>) (reserveSem (read_sem s))
      | RTest \<Rightarrow> if count (shmp s) = 0 then Some (s\<lparr>rpc := RFinal\<rparr>)
                 else Some (s\<lparr>r_nbytes := r_nbytes s + count (shmp s), rpc := RWrite\<rparr>)
      | RWrite \<Rightarrow> Some (s\<lparr>stdout := stdout s @ take (nat (count (shmp s))) (buf (shmp s)), rpc := RRelease\<rparr>)
      | RRelease \<Rightarrow> Some (s\<lparr>write_sem := releaseSem (write_sem s), r_xfrs := r_xfrs s + 1, rpc := RReserve\<rparr>)
      | RFinal \<Rightarrow> Some (s\<lparr>write_sem := releaseSem (write_sem s), rpc := RExit\<rparr>)
      | RExit \<Rightarrow> None
      | RFail \<Rightarrow> None)"

text \<open>
  Once the objects are removed every call of the reader that uses them fails. A \<open>read\<close> that
  fails stores \<open>-1\<close> as the count; a \<open>write\<close> that fails has written part of the block.
\<close>

definition xfr_step :: "xfr \<Rightarrow> event \<Rightarrow> xfr option" where
  "xfr_step s e =
     (case e of
        Writer \<Rightarrow> writer s
      | Reader \<Rightarrow> if removed s \<and> rpc s \<noteq> RExit then Some (s\<lparr>rpc := RFail\<rparr>) else reader s
      | ReadFails \<Rightarrow> if wpc s = WRead then Some (s\<lparr>shmp := (shmp s)\<lparr>count := - 1\<rparr>, wpc := WFail\<rparr>) else None
      | WriteFails \<Rightarrow> if rpc s = RWrite then Some (s\<lparr>rpc := RFail\<rparr>) else None)"

section \<open>Invariant\<close>

fun w_turn :: "wpc \<Rightarrow> bool" where
  "w_turn WRead = True" | "w_turn WRelease = True" | "w_turn WRemove = True" | "w_turn WExit = True"
| "w_turn WFail = True" | "w_turn _ = False"

fun r_turn :: "rpc \<Rightarrow> bool" where
  "r_turn RReserve = False" | "r_turn RExit = False" | "r_turn _ = True"

text \<open>The writer has seen the end of its input.\<close>

fun w_over :: "wpc \<Rightarrow> bool" where
  "w_over WFinal = True" | "w_over WRemove = True" | "w_over WExit = True" | "w_over _ = False"

fun r_over :: "rpc \<Rightarrow> bool" where
  "r_over RFinal = True" | "r_over RExit = True" | "r_over _ = False"

text \<open>A block is in the segment that the reader has not written.\<close>

fun r_pending :: "rpc \<Rightarrow> bool" where
  "r_pending RTest = True" | "r_pending RWrite = True" | "r_pending _ = False"

definition full :: "xfr \<Rightarrow> bool" where
  "full s \<longleftrightarrow> wpc s = WRelease \<or> read_sem s = 1 \<or> r_pending (rpc s)"

definition turn_inv :: "xfr \<Rightarrow> bool" where
  "turn_inv s \<longleftrightarrow> write_sem s + read_sem s + of_bool (w_turn (wpc s)) + of_bool (r_turn (rpc s)) = (1::nat)"

definition block_inv :: "string list \<Rightarrow> xfr \<Rightarrow> bool" where
  "block_inv inp s \<longleftrightarrow> inp = taken s @ input s
     \<and> (full s \<and> count (shmp s) \<noteq> 0 \<longrightarrow> taken s \<noteq> [] \<and> buf (shmp s) = last (taken s)
          \<and> count (shmp s) = int (length (buf (shmp s))))
     \<and> (rpc s \<noteq> RFail \<longrightarrow> stdout s = concat (if full s \<and> count (shmp s) \<noteq> 0 then butlast (taken s) else taken s))"

definition over_inv :: "xfr \<Rightarrow> bool" where
  "over_inv s \<longleftrightarrow>
     (full s \<and> count (shmp s) = 0 \<longrightarrow> input s = [] \<and> (wpc s = WRelease \<or> wpc s = WTest \<or> wpc s = WFinal))
     \<and> (w_over (wpc s) \<longrightarrow> count (shmp s) = 0 \<and> input s = [] \<and> (write_sem s = 0 \<or> r_over (rpc s)))
     \<and> (r_over (rpc s) \<longrightarrow> count (shmp s) = 0 \<and> input s = [] \<and> (wpc s = WTest \<or> w_over (wpc s)))
     \<and> (wpc s = WTest \<and> count (shmp s) = 0 \<longrightarrow> input s = [] \<and> (full s \<or> r_over (rpc s)))
     \<and> (rpc s = RWrite \<or> rpc s = RRelease \<longrightarrow> count (shmp s) \<noteq> 0)
     \<and> (rpc s = RExit \<longrightarrow> read_sem s = 0)
     \<and> (wpc s = WRemove \<or> wpc s = WExit \<longrightarrow> rpc s = RExit) \<and> (removed s \<longleftrightarrow> wpc s = WExit)"

text \<open>What the two processes have counted.\<close>

definition w_open :: "xfr \<Rightarrow> bool" where
  "w_open s \<longleftrightarrow> (wpc s = WRelease \<or> wpc s = WTest) \<and> count (shmp s) \<noteq> 0"

definition count_inv :: "xfr \<Rightarrow> bool" where
  "count_inv s \<longleftrightarrow>
     (wpc s = WTest \<and> count (shmp s) \<noteq> 0 \<longrightarrow> taken s \<noteq> [] \<and> count (shmp s) = int (length (last (taken s))))
     \<and> w_nbytes s = int (length (concat (if w_open s then butlast (taken s) else taken s)))
     \<and> w_xfrs s = length (if w_open s then butlast (taken s) else taken s)
     \<and> (rpc s \<noteq> RFail \<longrightarrow>
          r_nbytes s = int (length (stdout s)) + (if rpc s = RWrite then count (shmp s) else 0)
          \<and> r_xfrs s + of_bool (rpc s = RRelease)
              = length (if full s \<and> count (shmp s) \<noteq> 0 then butlast (taken s) else taken s))"

definition xfr_inv :: "string list \<Rightarrow> xfr \<Rightarrow> bool" where
  "xfr_inv inp s \<longleftrightarrow> list_all (\<lambda>b. b \<noteq> []) inp \<longrightarrow> turn_inv s \<and> block_inv inp s \<and> over_inv s \<and> count_inv s"

lemma xfr_step_cases:
  assumes "xfr_step s e = Some t"
  obtains (w_reserve) v where "wpc s = WReserve" "write_sem s = Suc v" "t = s\<lparr>write_sem := v, wpc := WRead\<rparr>"
  | (w_eof) "wpc s = WRead" "input s = []" "t = s\<lparr>shmp := (shmp s)\<lparr>count := 0\<rparr>, wpc := WRelease\<rparr>"
  | (w_read) b bs where "wpc s = WRead" "input s = b # bs"
      "t = s\<lparr>shmp := \<lparr>count = int (length b), buf = b\<rparr>, input := bs, taken := taken s @ [b], wpc := WRelease\<rparr>"
  | (w_release) "wpc s = WRelease" "t = s\<lparr>read_sem := read_sem s + 1, wpc := WTest\<rparr>"
  | (w_stop) "wpc s = WTest" "count (shmp s) = 0" "t = s\<lparr>wpc := WFinal\<rparr>"
  | (w_next) "wpc s = WTest" "count (shmp s) \<noteq> 0"
      "t = s\<lparr>w_xfrs := w_xfrs s + 1, w_nbytes := w_nbytes s + count (shmp s), wpc := WReserve\<rparr>"
  | (w_final) v where "wpc s = WFinal" "write_sem s = Suc v" "t = s\<lparr>write_sem := v, wpc := WRemove\<rparr>"
  | (w_remove) "wpc s = WRemove" "t = s\<lparr>removed := True, wpc := WExit\<rparr>"
  | (w_fail) "wpc s = WRead" "t = s\<lparr>shmp := (shmp s)\<lparr>count := - 1\<rparr>, wpc := WFail\<rparr>"
  | (r_gone) "removed s" "rpc s \<noteq> RExit" "t = s\<lparr>rpc := RFail\<rparr>"
  | (r_reserve) v where "rpc s = RReserve" "read_sem s = Suc v" "t = s\<lparr>read_sem := v, rpc := RTest\<rparr>"
  | (r_stop) "rpc s = RTest" "count (shmp s) = 0" "t = s\<lparr>rpc := RFinal\<rparr>"
  | (r_test) "rpc s = RTest" "count (shmp s) \<noteq> 0"
      "t = s\<lparr>r_nbytes := r_nbytes s + count (shmp s), rpc := RWrite\<rparr>"
  | (r_write) "rpc s = RWrite"
      "t = s\<lparr>stdout := stdout s @ take (nat (count (shmp s))) (buf (shmp s)), rpc := RRelease\<rparr>"
  | (r_release) "rpc s = RRelease" "t = s\<lparr>write_sem := write_sem s + 1, r_xfrs := r_xfrs s + 1, rpc := RReserve\<rparr>"
  | (r_final) "rpc s = RFinal" "t = s\<lparr>write_sem := write_sem s + 1, rpc := RExit\<rparr>"
  | (r_fail) "rpc s = RWrite" "t = s\<lparr>rpc := RFail\<rparr>"
proof (cases e)
  case Writer
  then have w: "writer s = Some t" using assms by (simp add: xfr_step_def)
  show ?thesis
  proof (cases "wpc s")
    case WReserve
    then show ?thesis using w w_reserve by (auto simp: writer_def step_simps)
  next
    case WRead
    then show ?thesis using w w_eof w_read by (cases "input s") (simp_all add: writer_def)
  next
    case WTest
    then show ?thesis using w w_stop w_next by (cases "count (shmp s) = 0") (simp_all add: writer_def)
  next
    case WFinal
    then show ?thesis using w w_final by (auto simp: writer_def step_simps)
  qed (use w w_release w_remove in \<open>simp_all add: writer_def releaseSem_def\<close>)
next
  case Reader
  show ?thesis
  proof (cases "removed s \<and> rpc s \<noteq> RExit")
    case True
    then show ?thesis using assms Reader r_gone by (simp add: xfr_step_def)
  next
    case False
    then have r: "reader s = Some t" using assms Reader by (simp add: xfr_step_def split: if_splits)
    show ?thesis
    proof (cases "rpc s")
      case RReserve
      then show ?thesis using r r_reserve by (auto simp: reader_def step_simps)
    next
      case RTest
      then show ?thesis using r r_stop r_test by (cases "count (shmp s) = 0") (simp_all add: reader_def)
    qed (use r r_write r_release r_final in \<open>simp_all add: reader_def releaseSem_def\<close>)
  qed
next
  case ReadFails
  then have "wpc s = WRead" "t = s\<lparr>shmp := (shmp s)\<lparr>count := - 1\<rparr>, wpc := WFail\<rparr>"
    using assms by (auto simp: xfr_step_def split: if_splits)
  then show ?thesis by (rule w_fail)
next
  case WriteFails
  then have "rpc s = RWrite" "t = s\<lparr>rpc := RFail\<rparr>" using assms by (auto simp: xfr_step_def split: if_splits)
  then show ?thesis by (rule r_fail)
qed

lemma turn_inv_step: "turn_inv s \<Longrightarrow> removed s \<longrightarrow> rpc s = RExit \<Longrightarrow> xfr_step s e = Some t \<Longrightarrow> turn_inv t"
  by (erule xfr_step_cases) (auto simp: turn_inv_def)

text \<open>Whose turn it is, as the cases that the other invariants need.\<close>

lemma turn_simps:
  assumes "turn_inv s"
  shows "w_turn (wpc s) \<Longrightarrow> read_sem s = 0 \<and> write_sem s = 0 \<and> \<not> r_turn (rpc s)"
    and "r_turn (rpc s) \<Longrightarrow> read_sem s = 0 \<and> write_sem s = 0 \<and> \<not> w_turn (wpc s)"
    and "read_sem s = Suc v \<Longrightarrow> v = 0 \<and> write_sem s = 0 \<and> \<not> w_turn (wpc s) \<and> \<not> r_turn (rpc s)"
    and "write_sem s = Suc v \<Longrightarrow> v = 0 \<and> read_sem s = 0 \<and> \<not> w_turn (wpc s) \<and> \<not> r_turn (rpc s)"
  using assms by (auto simp: turn_inv_def split: if_splits)

lemma r_pending_turn: "r_pending p \<Longrightarrow> r_turn p"
  by (cases p) auto

lemma r_quiet_pending: "\<not> r_turn p \<Longrightarrow> \<not> r_pending p"
  by (cases p) auto

lemma full_no_write:
  assumes "turn_inv s" "full s"
  shows "write_sem s = 0"
proof -
  have "w_turn (wpc s) \<or> read_sem s = 1 \<or> r_turn (rpc s)"
    using assms(2) r_pending_turn [of "rpc s"] by (auto simp: full_def)
  then show ?thesis using assms(1) by (auto simp: turn_inv_def)
qed

lemma r_quiet: "\<not> r_turn p \<Longrightarrow> p = RReserve \<or> p = RExit"
  by (cases p) auto

lemma over_inv_step:
  assumes "turn_inv s" "over_inv s" "block_inv inp s" "list_all (\<lambda>b. b \<noteq> []) inp" "xfr_step s e = Some t"
  shows "over_inv t"
  using assms(5)
proof (cases rule: xfr_step_cases)
  case (w_reserve v)
  then show ?thesis using assms(2) turn_simps(4) [OF assms(1) w_reserve(2)]
    by (auto simp: over_inv_def full_def dest!: r_quiet)
next
  case w_eof
  then show ?thesis using assms(2) turn_simps(1) [OF assms(1)] by (auto simp: over_inv_def full_def dest!: r_quiet)
next
  case (w_read b bs)
  have "b \<noteq> []" using assms(3,4) w_read by (auto simp: block_inv_def)
  then show ?thesis using w_read assms(2) turn_simps(1) [OF assms(1)] by (auto simp: over_inv_def full_def dest!: r_quiet)
next
  case w_release
  then show ?thesis using assms(2) turn_simps(1) [OF assms(1)] by (auto simp: over_inv_def full_def dest!: r_quiet)
next
  case w_stop
  then show ?thesis using assms(2) full_no_write [OF assms(1)] by (auto simp: over_inv_def full_def)
next
  case w_next
  then show ?thesis using assms(2) by (auto simp: over_inv_def full_def)
next
  case (w_final v)
  then show ?thesis using assms(2) turn_simps(4) [OF assms(1) w_final(2)]
    by (auto simp: over_inv_def full_def dest!: r_quiet)
next
  case w_remove
  then show ?thesis using assms(2) by (auto simp: over_inv_def full_def)
next
  case w_fail
  then show ?thesis using assms(2) turn_simps(1) [OF assms(1)] by (auto simp: over_inv_def full_def dest!: r_quiet)
next
  case r_gone
  then show ?thesis using assms(2) by (auto simp: over_inv_def)
next
  case (r_reserve v)
  then show ?thesis using assms(2) turn_simps(3) [OF assms(1) r_reserve(2)] by (auto simp: over_inv_def full_def)
next
  case r_stop
  then show ?thesis using assms(2) turn_simps(2) [OF assms(1)] by (auto simp: over_inv_def full_def)
next
  case r_test
  then show ?thesis using assms(2) turn_simps(2) [OF assms(1)] by (auto simp: over_inv_def full_def)
next
  case r_write
  then show ?thesis using assms(2) turn_simps(2) [OF assms(1)] by (auto simp: over_inv_def full_def)
next
  case r_release
  then show ?thesis using assms(2) turn_simps(2) [OF assms(1)] by (auto simp: over_inv_def full_def)
next
  case r_final
  then show ?thesis using assms(2) turn_simps(2) [OF assms(1)] by (auto simp: over_inv_def full_def)
next
  case r_fail
  then show ?thesis using assms(2) turn_simps(2) [OF assms(1)] by (auto simp: over_inv_def full_def)
qed

lemma full_simps:
  assumes "turn_inv s"
  shows full_w_turn: "w_turn (wpc s) \<Longrightarrow> full s \<longleftrightarrow> wpc s = WRelease"
    and full_r_turn: "r_turn (rpc s) \<Longrightarrow> full s \<longleftrightarrow> r_pending (rpc s)"
    and full_write: "write_sem s = Suc v \<Longrightarrow> \<not> full s"
proof -
  show "full s \<longleftrightarrow> wpc s = WRelease" if "w_turn (wpc s)"
    using turn_simps(1) [OF assms that] r_quiet_pending by (auto simp: full_def)
  show "full s \<longleftrightarrow> r_pending (rpc s)" if "r_turn (rpc s)"
    using turn_simps(2) [OF assms that] by (auto simp: full_def)
  show "\<not> full s" if "write_sem s = Suc v"
    using full_no_write [OF assms] that by auto
qed

lemma concat_butlast_last: "xs \<noteq> [] \<Longrightarrow> concat (butlast xs) @ last xs = concat xs"
  by (induction xs rule: rev_induct) auto

lemma block_inv_step:
  assumes "turn_inv s" "over_inv s" "block_inv inp s" "xfr_step s e = Some t"
  shows "block_inv inp t"
  using assms(4)
proof (cases rule: xfr_step_cases)
  case (w_reserve v)
  then have "\<not> full s" "\<not> full t" using full_write [OF assms(1)] by (auto simp: full_def)
  then show ?thesis using assms(3) w_reserve by (auto simp: block_inv_def)
next
  case w_eof
  then have "\<not> full s" using full_w_turn [OF assms(1)] by simp
  then show ?thesis using assms(3) w_eof by (auto simp: block_inv_def)
next
  case (w_read b bs)
  then have "\<not> full s" "full t" using full_w_turn [OF assms(1)] by (auto simp: full_def)
  then show ?thesis using assms(3) w_read by (auto simp: block_inv_def)
next
  case w_release
  then have "full s" "full t" using turn_simps(1) [OF assms(1)] by (auto simp: full_def)
  then show ?thesis using assms(3) w_release by (auto simp: block_inv_def)
next
  case w_stop
  then have "full t = full s" by (simp add: full_def)
  then show ?thesis using assms(3) w_stop by (auto simp: block_inv_def)
next
  case w_next
  then have "full t = full s" by (simp add: full_def)
  then show ?thesis using assms(3) w_next by (auto simp: block_inv_def)
next
  case (w_final v)
  then have "\<not> full s" "\<not> full t" using full_write [OF assms(1)] by (auto simp: full_def)
  then show ?thesis using assms(3) w_final by (auto simp: block_inv_def)
next
  case w_remove
  then have "full t = full s" by (simp add: full_def)
  then show ?thesis using assms(3) w_remove by (auto simp: block_inv_def)
next
  case w_fail
  then have "\<not> full s" "\<not> full t"
    using full_w_turn [OF assms(1)] turn_simps(1) [OF assms(1)] r_quiet_pending [of "rpc s"] by (auto simp: full_def)
  then show ?thesis using assms(3) w_fail by (auto simp: block_inv_def)
next
  case r_gone
  then show ?thesis using assms(2) by (simp add: over_inv_def)
next
  case (r_reserve v)
  then have "full s" "full t" using turn_simps(3) [OF assms(1)] by (auto simp: full_def)
  then show ?thesis using assms(3) r_reserve by (auto simp: block_inv_def)
next
  case r_stop
  then show ?thesis using assms(3) by (auto simp: block_inv_def)
next
  case r_test
  then have "full s" "full t" by (simp_all add: full_def)
  then show ?thesis using assms(3) r_test by (auto simp: block_inv_def)
next
  case r_write
  then have f: "full s" "\<not> full t" using turn_simps(2) [OF assms(1)] by (auto simp: full_def)
  show ?thesis
  proof (cases "count (shmp s) = 0")
    case True
    then show ?thesis using assms(3) r_write f by (auto simp: block_inv_def)
  next
    case False
    have b: "taken s \<noteq> []" "buf (shmp s) = last (taken s)" "nat (count (shmp s)) = length (buf (shmp s))"
      "stdout s = concat (butlast (taken s))"
      using assms(3) f r_write(1) False by (simp_all add: block_inv_def)
    then have "stdout t = concat (taken s)" using r_write(2) concat_butlast_last [OF b(1)] by simp
    then show ?thesis using assms(3) r_write(2) f by (auto simp: block_inv_def)
  qed
next
  case r_release
  then have "\<not> full s" "\<not> full t" using full_r_turn [OF assms(1)] turn_simps(2) [OF assms(1)]
    by (auto simp: full_def)
  then show ?thesis using assms(3) r_release by (auto simp: block_inv_def)
next
  case r_final
  then have "\<not> full s" "\<not> full t" using full_r_turn [OF assms(1)] turn_simps(2) [OF assms(1)]
    by (auto simp: full_def)
  then show ?thesis using assms(3) r_final by (auto simp: block_inv_def)
next
  case r_fail
  then have "\<not> full t" using turn_simps(2) [OF assms(1)] by (auto simp: full_def)
  then show ?thesis using assms(3) r_fail by (auto simp: block_inv_def)
qed

lemma xfr_count_inv_step:
  assumes "turn_inv s" "over_inv s" "block_inv inp s" "count_inv s" "list_all (\<lambda>b. b \<noteq> []) inp"
    and "xfr_step s e = Some t"
  shows "count_inv t"
  using assms(6)
proof (cases rule: xfr_step_cases)
  case (w_reserve v)
  then have "\<not> full s" "\<not> full t" using full_write [OF assms(1)] by (auto simp: full_def)
  then show ?thesis using assms(4) w_reserve by (auto simp: count_inv_def w_open_def)
next
  case w_eof
  then have "\<not> full s" "\<not> r_turn (rpc s)" using full_w_turn [OF assms(1)] turn_simps(1) [OF assms(1)] by simp_all
  then show ?thesis using assms(4) w_eof by (auto simp: count_inv_def w_open_def dest!: r_quiet)
next
  case (w_read b bs)
  then have "\<not> full s" "full t" "\<not> r_turn (rpc s)"
    using full_w_turn [OF assms(1)] turn_simps(1) [OF assms(1)] by (auto simp: full_def)
  moreover have "b \<noteq> []" using assms(3,5) w_read by (auto simp: block_inv_def)
  ultimately show ?thesis using assms(4) w_read by (auto simp: count_inv_def w_open_def dest!: r_quiet)
next
  case w_release
  then have f: "full s" "full t" using turn_simps(1) [OF assms(1)] by (auto simp: full_def)
  then have "count (shmp s) \<noteq> 0 \<longrightarrow> taken s \<noteq> [] \<and> count (shmp s) = int (length (last (taken s)))"
    using assms(3) by (auto simp: block_inv_def)
  then show ?thesis using assms(4) w_release f by (auto simp: count_inv_def w_open_def)
next
  case w_stop
  then have "full t = full s" by (simp add: full_def)
  then show ?thesis using assms(4) w_stop by (auto simp: count_inv_def w_open_def)
next
  case w_next
  then have f: "full t = full s" by (simp add: full_def)
  have c: "w_open s" "taken s \<noteq> []" "count (shmp s) = int (length (last (taken s)))"
    using w_next assms(4) by (auto simp: w_open_def count_inv_def)
  have "length (concat (taken s)) = length (concat (butlast (taken s))) + length (last (taken s))"
    "length (taken s) = length (butlast (taken s)) + 1"
    using c(2) concat_butlast_last [of "taken s"] by (metis length_append, simp)
  then show ?thesis using assms(4) w_next f c by (auto simp: count_inv_def w_open_def)
next
  case (w_final v)
  then have "\<not> full s" "\<not> full t" using full_write [OF assms(1)] by (auto simp: full_def)
  then show ?thesis using assms(4) w_final by (auto simp: count_inv_def w_open_def)
next
  case w_remove
  then have "full t = full s" by (simp add: full_def)
  then show ?thesis using assms(4) w_remove by (auto simp: count_inv_def w_open_def)
next
  case w_fail
  then have "\<not> full s" "\<not> full t" "\<not> r_turn (rpc s)"
    using full_w_turn [OF assms(1)] turn_simps(1) [OF assms(1)] r_quiet_pending [of "rpc s"] by (auto simp: full_def)
  then show ?thesis using assms(4) w_fail by (auto simp: count_inv_def w_open_def dest!: r_quiet)
next
  case r_gone
  then show ?thesis using assms(2) by (simp add: over_inv_def)
next
  case (r_reserve v)
  then have "full s" "full t" using turn_simps(3) [OF assms(1)] by (auto simp: full_def)
  then show ?thesis using assms(4) r_reserve by (auto simp: count_inv_def w_open_def)
next
  case r_stop
  then have "full s" by (simp add: full_def)
  then show ?thesis using assms(4) r_stop by (auto simp: count_inv_def w_open_def)
next
  case r_test
  then have "full s" "full t" by (simp_all add: full_def)
  then show ?thesis using assms(4) r_test by (auto simp: count_inv_def w_open_def)
next
  case r_write
  then have f: "full s" "\<not> full t" "count (shmp s) \<noteq> 0"
    using turn_simps(2) [OF assms(1)] assms(2) by (auto simp: full_def over_inv_def)
  then have "count (shmp s) = int (length (buf (shmp s)))" "taken s \<noteq> []" using assms(3) by (auto simp: block_inv_def)
  then show ?thesis using assms(4) r_write f by (auto simp: count_inv_def w_open_def)
next
  case r_release
  then have "\<not> full s" "\<not> full t" using full_r_turn [OF assms(1)] turn_simps(2) [OF assms(1)]
    by (auto simp: full_def)
  then show ?thesis using assms(4) r_release by (auto simp: count_inv_def w_open_def)
next
  case r_final
  then have "\<not> full s" "\<not> full t" using full_r_turn [OF assms(1)] turn_simps(2) [OF assms(1)]
    by (auto simp: full_def)
  then show ?thesis using assms(4) r_final by (auto simp: count_inv_def w_open_def)
next
  case r_fail
  then show ?thesis using assms(4) by (auto simp: count_inv_def w_open_def)
qed

lemma xfr_inv_step:
  assumes "xfr_inv inp s" "xfr_step s e = Some t"
  shows "xfr_inv inp t"
  unfolding xfr_inv_def
proof
  assume n: "list_all (\<lambda>b. b \<noteq> []) inp"
  then have i: "turn_inv s" "block_inv inp s" "over_inv s" "count_inv s" using assms(1) by (simp_all add: xfr_inv_def)
  have "removed s \<longrightarrow> rpc s = RExit" using i(3) unfolding over_inv_def by blast
  then have "turn_inv t" by (rule turn_inv_step [OF i(1) _ assms(2)])
  then show "turn_inv t \<and> block_inv inp t \<and> over_inv t \<and> count_inv t"
    using over_inv_step [OF i(1,3,2) n assms(2)] block_inv_step [OF i(1,3,2) assms(2)]
      xfr_count_inv_step [OF i(1,3,2,4) n assms(2)] by blast
qed

lemma xfr_start_inv: "xfr_inv inp (xfr_start m inp)"
  by (auto simp: xfr_inv_def xfr_start_def turn_inv_def block_inv_def over_inv_def count_inv_def full_def
      w_open_def initSemAvailable_def initSemInUse_def)

section \<open>The transfer comes to its end\<close>

text \<open>Steps that are left for the writer and for the reader, \<open>c\<close> telling whether the block is the last.\<close>

fun w_weight :: "bool \<Rightarrow> wpc \<Rightarrow> nat" where
  "w_weight c WReserve = 9" | "w_weight c WRead = 8" | "w_weight c WRelease = (if c then 7 else 15)"
| "w_weight c WTest = (if c then 3 else 10)" | "w_weight c WFinal = 2" | "w_weight c WRemove = 1"
| "w_weight c _ = 0"

fun r_weight :: "bool \<Rightarrow> rpc \<Rightarrow> nat" where
  "r_weight c RTest = (if c then 2 else 3)" | "r_weight c RWrite = 2" | "r_weight c RRelease = 1"
| "r_weight c RFinal = 1" | "r_weight c _ = 0"

definition xfr_mu :: "xfr \<Rightarrow> nat" where
  "xfr_mu s = (let c = (count (shmp s) = 0) in 8 * length (input s) + w_weight c (wpc s)
     + r_weight c (rpc s) + (if c then 3 else 4) * read_sem s)"

definition own_step :: "event \<Rightarrow> bool" where
  "own_step e \<longleftrightarrow> e = Writer \<or> e = Reader"

definition xfr_done :: "xfr \<Rightarrow> bool" where
  "xfr_done s \<longleftrightarrow> wpc s = WFail \<or> rpc s = RFail \<or> wpc s = WExit \<and> rpc s = RExit"

lemma r_quiet_weight: "\<not> r_turn p \<Longrightarrow> r_weight c p = 0"
  by (cases p) auto

lemma xfr_mu_step:
  assumes "turn_inv s" "over_inv s" "xfr_step s e = Some t"
  shows "xfr_mu t < xfr_mu s"
  using assms(3)
proof (cases rule: xfr_step_cases)
  case w_eof
  then have "read_sem s = 0" "\<not> r_turn (rpc s)" using turn_simps(1) [OF assms(1)] by simp_all
  then show ?thesis using w_eof by (auto simp: xfr_mu_def Let_def r_quiet_weight)
next
  case (w_read b bs)
  then have "read_sem s = 0" "\<not> r_turn (rpc s)" using turn_simps(1) [OF assms(1)] by simp_all
  then show ?thesis using w_read by (auto simp: xfr_mu_def Let_def r_quiet_weight)
next
  case w_fail
  then have "read_sem s = 0" "\<not> r_turn (rpc s)" using turn_simps(1) [OF assms(1)] by simp_all
  then show ?thesis using w_fail by (auto simp: xfr_mu_def Let_def r_quiet_weight)
next
  case r_gone
  then show ?thesis using assms(2) by (simp add: over_inv_def)
next
  case r_fail
  then show ?thesis by (auto simp: xfr_mu_def Let_def)
qed (auto simp: xfr_mu_def Let_def)

lemma w_moves: "wpc s \<noteq> WReserve \<Longrightarrow> wpc s \<noteq> WFinal \<Longrightarrow> wpc s \<noteq> WExit \<Longrightarrow> wpc s \<noteq> WFail \<Longrightarrow>
    \<exists>t. xfr_step s Writer = Some t"
  by (cases "wpc s") (auto simp: xfr_step_def writer_def split: list.splits)

lemma r_moves: "r_turn (rpc s) \<Longrightarrow> \<not> removed s \<Longrightarrow> rpc s \<noteq> RFail \<Longrightarrow> \<exists>t. xfr_step s Reader = Some t"
  by (cases "rpc s") (auto simp: xfr_step_def reader_def)

lemma xfr_progress:
  assumes "turn_inv s" "over_inv s" "\<not> xfr_done s"
  shows "\<exists>e t. own_step e \<and> xfr_step s e = Some t"
proof -
  have o: "removed s \<longrightarrow> rpc s = RExit" "wpc s = WExit \<longrightarrow> rpc s = RExit" "rpc s = RExit \<longrightarrow> read_sem s = 0"
    using assms(2) unfolding over_inv_def by blast+
  have n: "wpc s \<noteq> WFail" "rpc s \<noteq> RFail" "wpc s \<noteq> WExit" using assms(3) o(2) by (auto simp: xfr_done_def)
  consider (w) "w_turn (wpc s)" | (r) "r_turn (rpc s)" | (ws) "write_sem s = 1"
    | (rs) "read_sem s = 1" "\<not> r_turn (rpc s)"
  proof (cases "w_turn (wpc s) \<or> r_turn (rpc s)")
    case False
    then have "write_sem s + read_sem s = 1" using assms(1) by (simp add: turn_inv_def)
    then show ?thesis using ws rs False by (auto simp: add_is_1)
  qed (use w r in blast)
  then have "(\<exists>t. xfr_step s Writer = Some t) \<or> (\<exists>t. xfr_step s Reader = Some t)"
  proof cases
    case w
    then show ?thesis using n w_moves [of s] by (metis w_turn.simps(6,8))
  next
    case r
    then show ?thesis using r_moves [OF r _ n(2)] o(1) by auto
  next
    case ws
    then have "wpc s = WReserve \<or> wpc s = WFinal \<Longrightarrow> \<exists>t. xfr_step s Writer = Some t"
      by (auto simp: xfr_step_def writer_def reserveSem_def)
    then show ?thesis using w_moves [of s] n by blast
  next
    case rs
    then have "rpc s = RReserve" using r_quiet [OF rs(2)] o(3) by auto
    then show ?thesis using rs o(1) by (auto simp: xfr_step_def reader_def reserveSem_def)
  qed
  then show ?thesis by (auto simp: own_step_def)
qed

lemma own_step_works:
  assumes "over_inv s" "wpc s \<noteq> WFail" "rpc s \<noteq> RFail" "xfr_step s e = Some t" "own_step e"
  shows "wpc t \<noteq> WFail \<and> rpc t \<noteq> RFail"
proof -
  have "removed s \<longrightarrow> rpc s = RExit" using assms(1) unfolding over_inv_def by blast
  then show ?thesis using assms(2-5)
    by (auto simp: own_step_def xfr_step_def writer_def reader_def step_simps
        split: if_splits rpc.splits wpc.splits list.splits)
qed

text \<open>What \<open>read\<close> can deliver: blocks that are not empty.\<close>

definition blocks :: "string list \<Rightarrow> string list" where
  "blocks inp = filter (\<lambda>b. b \<noteq> []) inp"

lemma blocks_inv: "xfr_inv (blocks inp) s \<Longrightarrow> turn_inv s \<and> block_inv (blocks inp) s \<and> over_inv s \<and> count_inv s"
  by (simp add: xfr_inv_def blocks_def list_all_iff)

interpretation transfer: machine_term xfr_step "xfr_start m (blocks inp)" "xfr_inv (blocks inp)" own_step
  xfr_done xfr_mu for m inp
proof unfold_locales
  show "xfr_inv (blocks inp) (xfr_start m (blocks inp))" by (rule xfr_start_inv)
  show "xfr_inv (blocks inp) t" if "xfr_inv (blocks inp) s" "xfr_step s e = Some t" for s e t
    using that by (rule xfr_inv_step)
  show "xfr_mu t < xfr_mu s" if "xfr_inv (blocks inp) s" "xfr_step s e = Some t" "own_step e" for s e t
    using blocks_inv [OF that(1)] that(2) by (intro xfr_mu_step) simp_all
  show "\<exists>e t. own_step e \<and> xfr_step s e = Some t" if "xfr_inv (blocks inp) s" "\<not> xfr_done s" for s
    using blocks_inv [OF that(1)] that(2) by (intro xfr_progress) simp_all
qed

section \<open>Properties\<close>

text \<open>
  The transfer is safe in every interleaving, also when a call fails: what the reader has
  written is a prefix of what the writer has read, the two are never both in the segment, and
  the writer removes the objects only when the reader has finished with them.
\<close>

theorem xfr_safe:
  assumes "reach xfr_step (xfr_start m inp) s" "list_all (\<lambda>b. b \<noteq> []) inp"
  shows "\<not> (w_turn (wpc s) \<and> r_turn (rpc s)) \<and> (removed s \<longrightarrow> rpc s = RExit)
    \<and> (rpc s \<noteq> RFail \<longrightarrow> (\<exists>rest. concat inp = stdout s @ rest))"
proof -
  have b: "blocks inp = inp" using assms(2) by (simp add: blocks_def list_all_iff)
  have i: "turn_inv s" "block_inv inp s" "over_inv s"
    using blocks_inv [OF transfer.reach_inv [of m inp s]] assms(1) by (simp_all add: b)
  have "\<not> (w_turn (wpc s) \<and> r_turn (rpc s))" using turn_simps(1) [OF i(1)] by blast
  moreover have "removed s \<longrightarrow> rpc s = RExit" using i(3) unfolding over_inv_def by blast
  moreover have "\<exists>rest. concat inp = stdout s @ rest" if "rpc s \<noteq> RFail"
  proof (cases "full s \<and> count (shmp s) \<noteq> 0")
    case True
    then have "stdout s = concat (butlast (taken s))" "taken s \<noteq> []" "inp = taken s @ input s"
      using i(2) that by (auto simp: block_inv_def)
    then show ?thesis using concat_butlast_last [of "taken s"] by (metis append.assoc concat_append)
  next
    case False
    then have "stdout s = concat (taken s)" "inp = taken s @ input s" using i(2) that by (auto simp: block_inv_def)
    then show ?thesis by simp
  qed
  ultimately show ?thesis by blast
qed


text \<open>A transfer of two blocks, with the processes in turn.\<close>

definition two_blocks :: "event list" where
  "two_blocks = concat (replicate 2 (replicate 4 Writer @ replicate 4 Reader)) @ replicate 4 Writer
     @ replicate 3 Reader @ replicate 2 Writer"


theorem xfr_safe_witness:
  "\<exists>s. reach xfr_step (xfr_start \<lparr>count = 7, buf = []\<rparr> [''ab'', ''c'']) s \<and> wpc s = WRead \<and> \<not> r_turn (rpc s)"
proof -
  let ?s = "xfr_start \<lparr>count = 7, buf = []\<rparr> [''ab'', ''c'']"
  have "\<exists>s. reach xfr_step ?s s \<and> wpc s = WRead"
    by (rule run_example [where es = "[Writer]"]) code_simp
  then obtain s where s: "reach xfr_step ?s s" "wpc s = WRead" by blast
  then show ?thesis using xfr_safe [OF s(1)] by auto
qed

end
