(* ===== verification/StreamCopy.thy ===== *)
theory StreamCopy
  imports CString
begin

text \<open>
  Programs that copy a stream of bytes in blocks: file\_io/copy.c, and the client and the
  iterative server of sockets/us\_xfr\_client.c and us\_xfr\_server.c. What \<open>read\<close> delivers and
  how much \<open>write\<close> takes is up to the system, so both are arguments.
\<close>

section \<open>The loop they share\<close>

text \<open>\<open>Bytes []\<close> is the end of the stream. \<open>Waiting\<close>: the next \<open>read\<close> has not returned yet.\<close>

datatype read_result = Bytes string | ReadError
datatype copy_end = Copied | ReadFailed | WriteFailed | Waiting

text \<open>The writer says what \<open>write\<close> returns for a block when so much has been written before.\<close>

fun copy_loop :: "(string \<Rightarrow> string \<Rightarrow> int) \<Rightarrow> read_result list \<Rightarrow> string \<Rightarrow> copy_end \<times> string" where
  "copy_loop wr [] acc = (Waiting, acc)"
| "copy_loop wr (ReadError # rs) acc = (ReadFailed, acc)"
| "copy_loop wr (Bytes b # rs) acc =
     (if b = [] then (Copied, acc)
      else if wr acc b \<noteq> int (length b) then (WriteFailed, acc @ take (nat (wr acc b)) b)
      else copy_loop wr rs (acc @ b))"

definition all_written :: "(string \<Rightarrow> string \<Rightarrow> int) \<Rightarrow> bool" where
  "all_written wr \<longleftrightarrow> (\<forall>acc b. wr acc b = int (length b))"

text \<open>The reads deliver the content, in some blocks, and then its end.\<close>

fun delivers :: "read_result list \<Rightarrow> string \<Rightarrow> bool" where
  "delivers [] c = False"
| "delivers (ReadError # rs) c = False"
| "delivers (Bytes b # rs) c =
     (if b = [] then c = [] else take (length b) c = b \<and> delivers rs (drop (length b) c))"

lemma copy_loop_delivers:
  "delivers rs c \<Longrightarrow> all_written wr \<Longrightarrow> copy_loop wr rs acc = (Copied, acc @ c)"
proof (induction rs c arbitrary: acc rule: delivers.induct)
  case (3 b rs c)
  show ?case
  proof (cases "b = []")
    case False
    then have "copy_loop wr rs (acc @ b) = (Copied, (acc @ b) @ drop (length b) c)" "take (length b) c = b"
      using 3 by auto
    then show ?thesis using 3(3) False by (metis all_written_def append.assoc append_take_drop_id copy_loop.simps(3))
  qed (use 3 in auto)
qed auto

text \<open>The blocks that the loop sees before it stops.\<close>

fun seen_bytes :: "read_result list \<Rightarrow> string" where
  "seen_bytes [] = []"
| "seen_bytes (ReadError # rs) = []"
| "seen_bytes (Bytes b # rs) = (if b = [] then [] else b @ seen_bytes rs)"

fun reaches_end :: "read_result list \<Rightarrow> bool" where
  "reaches_end [] = False"
| "reaches_end (ReadError # rs) = False"
| "reaches_end (Bytes b # rs) = (b = [] \<or> reaches_end rs)"

lemma copy_loop_copied:
  "copy_loop wr rs acc = (Copied, out) \<Longrightarrow> out = acc @ seen_bytes rs \<and> reaches_end rs"
  by (induction wr rs acc rule: copy_loop.induct) (auto split: if_splits)

lemma copy_loop_prefix: "copy_loop wr rs acc = (e, out) \<Longrightarrow> \<exists>rest. acc @ seen_bytes rs = out @ rest"
proof (induction wr rs acc rule: copy_loop.induct)
  case (3 wr b rs acc)
  show ?case
  proof (cases "b \<noteq> [] \<and> wr acc b \<noteq> int (length b)")
    case True
    then have "out = acc @ take (nat (wr acc b)) b" using 3(2) by simp
    moreover have "b @ seen_bytes rs = take (nat (wr acc b)) b @ drop (nat (wr acc b)) b @ seen_bytes rs"
      by (metis append.assoc append_take_drop_id)
    ultimately have "acc @ seen_bytes (Bytes b # rs) = out @ (drop (nat (wr acc b)) b @ seen_bytes rs)"
      using True by (simp only: seen_bytes.simps if_False append.assoc)
    then show ?thesis by blast
  qed (use 3 in \<open>auto split: if_splits\<close>)
qed auto

section \<open>Copying a file\<close>

record copy_env =
  open_read :: "string option \<Rightarrow> bool"
  open_write :: "string option \<Rightarrow> bool"
  reads :: "read_result list"
  writes :: "string \<Rightarrow> string \<Rightarrow> int"
  close_read :: bool
  close_write :: bool

record copy_result =
  exit_code :: int
  usage :: bool
  written :: "string option"

definition arg :: "string list \<Rightarrow> nat \<Rightarrow> string option" where
  "arg args i = (if i < length args then Some (args ! i) else None)"

text \<open>
  The program prints its usage when the arguments are wrong, but goes on. \<open>None\<close>: it is still
  waiting for its input. \<open>exit (-1)\<close> is the status 255.
\<close>

definition copy_main :: "copy_env \<Rightarrow> string list \<Rightarrow> copy_result option" where
  "copy_main E args =
     (let u = (length args \<noteq> 3 \<or> arg args 1 = Some ''--help'')
      in if \<not> open_read E (arg args 1) then Some \<lparr>exit_code = 1, usage = u, written = None\<rparr>
         else if \<not> open_write E (arg args 2) then Some \<lparr>exit_code = 1, usage = u, written = None\<rparr>
         else (case copy_loop (writes E) (reads E) [] of
                 (Waiting, out) \<Rightarrow> None
               | (WriteFailed, out) \<Rightarrow> Some \<lparr>exit_code = 255, usage = u, written = Some out\<rparr>
               | (ReadFailed, out) \<Rightarrow> Some \<lparr>exit_code = 1, usage = u, written = Some out\<rparr>
               | (Copied, out) \<Rightarrow> Some \<lparr>exit_code = (if close_read E \<and> close_write E then 0 else 1), usage = u,
                                        written = Some out\<rparr>))"

section \<open>Sending standard input over a socket\<close>

record client_env =
  socket_ok :: bool
  connect_ok :: bool
  stdin_reads :: "read_result list"
  socket_writes :: "string \<Rightarrow> string \<Rightarrow> int"

definition us_client :: "client_env \<Rightarrow> (int \<times> string) option" where
  "us_client E =
     (if \<not> socket_ok E \<or> \<not> connect_ok E then Some (1, [])
      else case copy_loop (socket_writes E) (stdin_reads E) [] of
             (Waiting, out) \<Rightarrow> None
           | (Copied, out) \<Rightarrow> Some (0, out)
           | (_, out) \<Rightarrow> Some (1, out))"

text \<open>
  The server takes one connection after the other. A connection is what its reads deliver;
  a \<open>close\<close> that fails is only reported.
\<close>

datatype connection = AcceptFails | Accepted "read_result list"
datatype server_state = Serving string | Exited string

fun serve_clients :: "(string \<Rightarrow> string \<Rightarrow> int) \<Rightarrow> connection list \<Rightarrow> string \<Rightarrow> server_state" where
  "serve_clients wr [] out = Serving out"
| "serve_clients wr (AcceptFails # cs) out = Exited out"
| "serve_clients wr (Accepted rs # cs) out =
     (case copy_loop wr rs out of
        (Copied, out') \<Rightarrow> serve_clients wr cs out'
      | (Waiting, out') \<Rightarrow> Serving out'
      | (_, out') \<Rightarrow> Exited out')"

record listen_env =
  ssocket_ok :: bool
  remove_ok :: bool
  bind_ok :: bool
  listen_ok :: bool

definition us_server ::
  "listen_env \<Rightarrow> (string \<Rightarrow> string \<Rightarrow> int) \<Rightarrow> connection list \<Rightarrow> server_state" where
  "us_server L wr cs =
     (if ssocket_ok L \<and> remove_ok L \<and> bind_ok L \<and> listen_ok L then serve_clients wr cs [] else Exited [])"

section \<open>Properties\<close>

text \<open>
  C30: copying a file is all or reported: whatever the blocks that \<open>read\<close> delivers and however
  much \<open>write\<close> takes, the new file is a prefix of the old one, and the exit status is 0 only
  when the end of the old file was reached and all of it was written; with complete writes it
  is 0 whenever the reads deliver the file and both closes succeed.
\<close>

theorem copy_all_or_reported:
  assumes "open_read E (arg args 1)" "open_write E (arg args 2)"
  shows "(case copy_main E args of None \<Rightarrow> \<not> reaches_end (reads E)
    | Some r \<Rightarrow> \<exists>out rest. written r = Some out \<and> seen_bytes (reads E) = out @ rest
        \<and> (exit_code r = 0 \<longrightarrow> rest = [] \<and> reaches_end (reads E)))
    \<and> (delivers (reads E) c \<and> all_written (writes E) \<and> close_read E \<and> close_write E \<longrightarrow>
         map_option (\<lambda>r. (exit_code r, written r)) (copy_main E args) = Some (0, Some c))"
proof -
  obtain e out where l: "copy_loop (writes E) (reads E) [] = (e, out)" by (cases "copy_loop (writes E) (reads E) []")
  obtain rest where p: "seen_bytes (reads E) = out @ rest" using copy_loop_prefix [OF l] by auto
  have w: "\<not> reaches_end rs" if "copy_loop wr rs acc = (Waiting, x)" for wr rs acc x
    using that by (induction wr rs acc rule: copy_loop.induct) (auto split: if_splits)
  have "case copy_main E args of None \<Rightarrow> \<not> reaches_end (reads E)
    | Some r \<Rightarrow> \<exists>out rest. written r = Some out \<and> seen_bytes (reads E) = out @ rest
        \<and> (exit_code r = 0 \<longrightarrow> rest = [] \<and> reaches_end (reads E))"
  proof (cases e)
    case Copied
    then show ?thesis using assms l copy_loop_copied [of "writes E" "reads E" "[]" out] by (simp add: copy_main_def Let_def)
  next
    case Waiting
    then show ?thesis using assms l w by (simp add: copy_main_def Let_def)
  qed (use assms l p in \<open>auto simp: copy_main_def Let_def\<close>)
  moreover have "map_option (\<lambda>r. (exit_code r, written r)) (copy_main E args) = Some (0, Some c)"
    if "delivers (reads E) c" "all_written (writes E)" "close_read E" "close_write E"
    using copy_loop_delivers [OF that(1,2), of "[]"] that assms by (simp add: copy_main_def Let_def)
  ultimately show ?thesis by blast
qed

text \<open>
  Client and server together: when every client's reads deliver its input and every
  connection delivers what its client sent, in whatever blocks, each client exits with 0 and
  the server has printed the inputs of the clients one after the other and waits for the next.
\<close>

theorem us_transfer:
  assumes "list_all2 (\<lambda>E c. socket_ok E \<and> connect_ok E \<and> delivers (stdin_reads E) c \<and> all_written (socket_writes E)) Es cs"
    and "list_all2 (\<lambda>E rs. \<exists>sent. us_client E = Some (0, sent) \<and> delivers rs sent) Es rss"
    and "ssocket_ok L" "remove_ok L" "bind_ok L" "listen_ok L" "all_written wr"
  shows "list_all2 (\<lambda>E c. us_client E = Some (0, c)) Es cs
    \<and> us_server L wr (map Accepted rss) = Serving (concat cs)"
proof -
  have c: "us_client E = Some (0, c)"
    if "socket_ok E \<and> connect_ok E \<and> delivers (stdin_reads E) c \<and> all_written (socket_writes E)" for E c
    using that copy_loop_delivers [of "stdin_reads E" c "socket_writes E" "[]"] by (simp add: us_client_def)
  have "list_all2 (\<lambda>E c. us_client E = Some (0, c)) Es cs"
    by (rule list_all2_mono [OF assms(1)]) (rule c)
  moreover have "serve_clients wr (map Accepted rss) out = Serving (out @ concat cs)" for out
    using assms(1,2)
  proof (induction Es arbitrary: cs rss out)
    case (Cons E Es)
    then obtain c cs' rs rss' where x: "cs = c # cs'" "rss = rs # rss'" "us_client E = Some (0, c)" "delivers rs c"
      by (auto simp: list_all2_Cons1 c)
    then have "copy_loop wr rs out = (Copied, out @ c)" using copy_loop_delivers assms(7) by blast
    then show ?case using Cons x by (auto simp: list_all2_Cons1)
  qed simp
  ultimately show ?thesis using assms(3-6) by (simp add: us_server_def)
qed

section \<open>Witnesses\<close>

definition whole_writes :: "string \<Rightarrow> string \<Rightarrow> int" where
  "whole_writes acc b = int (length b)"

lemma whole_writes_all: "all_written whole_writes"
  by (simp add: all_written_def whole_writes_def)

definition sample_copy :: copy_env where
  "sample_copy = \<lparr>open_read = (\<lambda>f. f = Some ''a''), open_write = (\<lambda>f. f = Some ''b''),
     reads = [Bytes ''he'', Bytes ''llo'', Bytes []], writes = whole_writes, close_read = True, close_write = True\<rparr>"

theorem copy_all_or_reported_witness:
  "map_option (\<lambda>r. (exit_code r, written r)) (copy_main sample_copy [''copy'', ''a'', ''b'']) = Some (0, Some ''hello'')"
proof -
  have "open_read sample_copy (arg [''copy'', ''a'', ''b''] 1)" "open_write sample_copy (arg [''copy'', ''a'', ''b''] 2)"
    "delivers (reads sample_copy) ''hello''" "all_written (writes sample_copy)" "close_read sample_copy" "close_write sample_copy"
    by (simp_all add: sample_copy_def arg_def whole_writes_all)
  with copy_all_or_reported [of sample_copy "[''copy'', ''a'', ''b'']" "''hello''"] show ?thesis by blast
qed

definition sample_client :: "read_result list \<Rightarrow> client_env" where
  "sample_client rs = \<lparr>socket_ok = True, connect_ok = True, stdin_reads = rs, socket_writes = whole_writes\<rparr>"

theorem us_transfer_witness:
  "us_server \<lparr>ssocket_ok = True, remove_ok = True, bind_ok = True, listen_ok = True\<rparr> whole_writes
     (map Accepted [[Bytes ''a'', Bytes ''b'', Bytes []], [Bytes ''cd'', Bytes []]]) = Serving ''abcd''"
proof -
  let ?Es = "[sample_client [Bytes ''ab'', Bytes []], sample_client [Bytes ''c'', Bytes ''d'', Bytes []]]"
  have a: "list_all2 (\<lambda>E c. socket_ok E \<and> connect_ok E \<and> delivers (stdin_reads E) c \<and> all_written (socket_writes E))
      ?Es [''ab'', ''cd'']"
    by (simp add: sample_client_def whole_writes_all)
  have b: "list_all2 (\<lambda>E rs. \<exists>sent. us_client E = Some (0, sent) \<and> delivers rs sent) ?Es
      [[Bytes ''a'', Bytes ''b'', Bytes []], [Bytes ''cd'', Bytes []]]"
    by (simp add: sample_client_def us_client_def whole_writes_def)
  let ?L = "\<lparr>ssocket_ok = True, remove_ok = True, bind_ok = True, listen_ok = True\<rparr>"
  have "us_server ?L whole_writes (map Accepted [[Bytes ''a'', Bytes ''b'', Bytes []], [Bytes ''cd'', Bytes []]])
      = Serving (concat [''ab'', ''cd''])"
    using us_transfer [OF a b _ _ _ _ whole_writes_all, of ?L] by simp
  then show ?thesis by simp
qed

end
