(* ===== verification/Services.thy ===== *)
theory Services
  imports CInt CString
begin

text \<open>
  Two services: the sequence number server of fifos/fifo\_seqnum\_server.c with its client, and
  the upper-case server of sockets/ud\_ucase\_server.c with its client. Whether a system call
  succeeds and what arrives is an argument.
\<close>

section \<open>Sequence numbers\<close>

record request =
  pid :: int
  seq_len :: int

text \<open>What the server's \<open>read\<close> delivers, and whether the client's FIFO can be opened and written.\<close>

datatype arrival = ShortRead | Arrived request bool bool

record seq_server =
  seq_num :: int
  responses :: "(request \<times> int) list"

datatype server_run = Failed | Serving "c_error + seq_server"

text \<open>One turn of the loop. The number is raised whether or not the response could be written.\<close>

definition serve_one :: "arrival \<Rightarrow> seq_server \<Rightarrow> c_error + seq_server" where
  "serve_one a s =
     (case a of
        ShortRead \<Rightarrow> Inr s
      | Arrived req opened wrote \<Rightarrow>
          if \<not> opened then Inr s
          else ebind (iadd (seq_num s) (seq_len req)) (\<lambda>n.
                 Inr (s\<lparr>seq_num := n,
                        responses := responses s @ (if wrote then [(req, seq_num s)] else [])\<rparr>)))"

fun serve :: "arrival list \<Rightarrow> seq_server \<Rightarrow> c_error + seq_server" where
  "serve [] s = Inr s"
| "serve (a # as) s = ebind (serve_one a s) (serve as)"

datatype mkfifo_result = Made | Exists | MkfifoError

record server_env =
  s_mkfifo :: mkfifo_result
  s_open_read :: bool
  s_open_write :: bool
  s_signal :: bool

definition seq_server_main :: "server_env \<Rightarrow> arrival list \<Rightarrow> server_run" where
  "seq_server_main E as =
     (if s_mkfifo E = MkfifoError \<or> \<not> s_open_read E \<or> \<not> s_open_write E \<or> \<not> s_signal E then Failed
      else Serving (serve as \<lparr>seq_num = 0, responses = []\<rparr>))"

text \<open>The client: how it ends, and the request it sent.\<close>

datatype client_end = Usage | ClientFailed | Response int

record client_env =
  my_pid :: int
  c_mkfifo :: mkfifo_result
  c_atexit :: bool
  c_open_server :: bool
  c_write :: bool
  c_open_own :: bool
  c_read :: "int option"

definition client_request :: "client_env \<Rightarrow> string list \<Rightarrow> request" where
  "client_request E args =
     \<lparr>pid = my_pid E, seq_len = (if length args > 1 then atoi (args ! 1) else 1)\<rparr>"

definition seq_client_main :: "client_env \<Rightarrow> string list \<Rightarrow> client_end \<times> request option" where
  "seq_client_main E args =
     (if length args > 1 \<and> args ! 1 = ''--help'' then (Usage, None)
      else if c_mkfifo E = MkfifoError \<or> \<not> c_atexit E \<or> \<not> c_open_server E then (ClientFailed, None)
      else if \<not> c_write E then (ClientFailed, None)
      else if \<not> c_open_own E then (ClientFailed, Some (client_request E args))
      else case c_read E of
             None \<Rightarrow> (ClientFailed, Some (client_request E args))
           | Some n \<Rightarrow> (Response n, Some (client_request E args)))"

section \<open>Upper case\<close>

definition BUF_SIZE :: nat where "BUF_SIZE = 10"

text \<open>\<open>toupper\<close> in the C locale.\<close>

definition toupper :: "char \<Rightarrow> char" where
  "toupper c = (if 97 \<le> (of_char c :: nat) \<and> (of_char c :: nat) \<le> 122 then char_of ((of_char c :: nat) - 32) else c)"

text \<open>
  A datagram that is received, from the address of its sender; a longer one is cut to the
  buffer. \<open>sends\<close> tells whether \<open>sendto\<close> takes the reply.
\<close>

datatype datagram = ReceiveError | Datagram string nat

fun ucase_serve :: "bool list \<Rightarrow> datagram list \<Rightarrow> (nat \<times> string) list \<Rightarrow> (nat \<times> string) list \<times> bool" where
  "ucase_serve sends [] acc = (acc, True)"
| "ucase_serve sends (ReceiveError # ds) acc = (acc, False)"
| "ucase_serve sends (Datagram m from # ds) acc =
     (let buf = map toupper (take BUF_SIZE m)
      in if sends = [] then (acc, True)
         else if hd sends then ucase_serve (tl sends) ds (acc @ [(from, buf)]) else (acc, False))"

definition ucase_server :: "bool \<Rightarrow> bool \<Rightarrow> bool \<Rightarrow> bool list \<Rightarrow> datagram list \<Rightarrow> (nat \<times> string) list \<times> bool" where
  "ucase_server socket_ok remove_ok bind_ok sends ds =
     (if socket_ok \<and> remove_ok \<and> bind_ok then ucase_serve sends ds [] else ([], False))"

text \<open>
  The client sends its arguments one by one and waits for the answer to each, which
  \<open>reply\<close> gives as a function of the message; its buffer has the same size. \<open>None\<close> is a call
  that fails.
\<close>

fun ucase_loop :: "(string \<Rightarrow> string option) \<Rightarrow> nat \<Rightarrow> string list \<Rightarrow> (nat \<times> string) list \<Rightarrow> (nat \<times> string) list \<times> int" where
  "ucase_loop reply j [] acc = (acc, 0)"
| "ucase_loop reply j (m # ms) acc =
     (case reply m of
        None \<Rightarrow> (acc, 1)
      | Some r \<Rightarrow> ucase_loop reply (j + 1) ms (acc @ [(j, take BUF_SIZE r)]))"

definition ucase_client :: "bool \<Rightarrow> bool \<Rightarrow> (string \<Rightarrow> string option) \<Rightarrow> string list \<Rightarrow> (nat \<times> string) list \<times> int" where
  "ucase_client socket_ok bind_ok reply args =
     (if length args < 2 \<or> args ! 1 = ''--help'' then ([], 1)
      else if \<not> socket_ok \<or> \<not> bind_ok then ([], 1)
      else ucase_loop reply 1 (tl args) [])"

text \<open>The reply of the server to one message of the client with the address \<open>a\<close>.\<close>

definition server_reply :: "nat \<Rightarrow> string \<Rightarrow> string option" where
  "server_reply a m = (case ucase_server True True True [True] [Datagram m a] of
     ([(a', r)], _) \<Rightarrow> if a' = a then Some r else None | _ \<Rightarrow> None)"

section \<open>The numbers given out\<close>

text \<open>The requests that reached the opening of their client's FIFO.\<close>

fun opened_before :: "arrival list \<Rightarrow> int" where
  "opened_before [] = 0"
| "opened_before (ShortRead # as) = opened_before as"
| "opened_before (Arrived r op wr # as) = (if op then seq_len r else 0) + opened_before as"

fun sequences_disjoint :: "(request \<times> int) list \<Rightarrow> int \<Rightarrow> bool" where
  "sequences_disjoint [] n = True"
| "sequences_disjoint ((r, k) # rs) n = (n \<le> k \<and> sequences_disjoint rs (k + seq_len r))"

lemma sequences_append:
  "sequences_disjoint rs n \<Longrightarrow> list_all (\<lambda>(r, k). 0 \<le> seq_len r \<and> k + seq_len r \<le> m) rs \<Longrightarrow> n \<le> m \<Longrightarrow>
     sequences_disjoint (rs @ [(q, m)]) n"
  by (induction rs n rule: sequences_disjoint.induct) auto

fun non_negative :: "arrival \<Rightarrow> bool" where
  "non_negative ShortRead = True"
| "non_negative (Arrived r op wr) = (0 \<le> seq_len r)"

definition seq_inv :: "seq_server \<Rightarrow> bool" where
  "seq_inv s \<longleftrightarrow> 0 \<le> seq_num s \<and> sequences_disjoint (responses s) 0
     \<and> list_all (\<lambda>(r, k). 0 \<le> seq_len r \<and> k + seq_len r \<le> seq_num s) (responses s)"

lemma serve_one_inv:
  assumes "seq_inv s" "non_negative a" "serve_one a s = Inr t"
  shows "seq_inv t"
proof (cases a)
  case (Arrived r op wr)
  show ?thesis
  proof (cases op)
    case True
    then have t: "t = s\<lparr>seq_num := seq_num s + seq_len r,
        responses := responses s @ (if wr then [(r, seq_num s)] else [])\<rparr>" and l: "0 \<le> seq_len r"
      using assms(2,3) Arrived by (auto simp: serve_one_def ebind_Inr_iff iadd_def int_val_Inr)
    have "list_all (\<lambda>(q, k). 0 \<le> seq_len q \<and> k + seq_len q \<le> seq_num s + seq_len r) (responses s)"
      using assms(1) l by (fastforce simp: seq_inv_def list_all_iff)
    then show ?thesis using assms(1) l sequences_append [of "responses s" 0 "seq_num s" r]
      by (simp add: t seq_inv_def)
  qed (use assms Arrived in \<open>simp add: serve_one_def\<close>)
qed (use assms in \<open>simp add: serve_one_def\<close>)

lemma serve_inv: "seq_inv s \<Longrightarrow> list_all non_negative as \<Longrightarrow> serve as s = Inr t \<Longrightarrow> seq_inv t"
  by (induction as arbitrary: s) (auto simp: ebind_Inr_iff dest: serve_one_inv)

lemma opened_non_negative: "list_all non_negative as \<Longrightarrow> 0 \<le> opened_before as"
  by (induction as rule: opened_before.induct) auto

lemma serve_total:
  "0 \<le> seq_num s \<Longrightarrow> seq_num s \<le> INT_MAX \<Longrightarrow> list_all non_negative as \<Longrightarrow>
     (if seq_num s + opened_before as \<le> INT_MAX
      then \<exists>t. serve as s = Inr t \<and> seq_num t = seq_num s + opened_before as else serve as s = Inl Overflow)"
proof (induction as arbitrary: s)
  case (Cons a as)
  have n: "0 \<le> opened_before as" using Cons(4) opened_non_negative by simp
  show ?case
  proof (cases a)
    case (Arrived r op wr)
    show ?thesis
    proof (cases "op \<and> INT_MAX < seq_num s + seq_len r")
      case True
      then have "serve_one a s = Inl Overflow" by (simp add: Arrived serve_one_def iadd_def int_val_def)
      then show ?thesis using True n by (simp add: Arrived)
    next
      case False
      define t where "t = (if op then s\<lparr>seq_num := seq_num s + seq_len r,
          responses := responses s @ (if wr then [(r, seq_num s)] else [])\<rparr> else s)"
      have l: "0 \<le> seq_len r" using Cons(4) Arrived by simp
      then have "serve_one a s = Inr t"
        using False Cons(2) by (cases op) (simp_all add: Arrived t_def serve_one_def iadd_def int_val_def INT_MIN_def)
      moreover have "seq_num t = seq_num s + (if op then seq_len r else 0)" by (simp add: t_def)
      ultimately show ?thesis using Cons(1) [of t] Cons(2-4) False l Arrived by (auto simp: add.assoc)
    qed
  qed (use Cons in \<open>simp add: serve_one_def\<close>)
qed simp

lemma ucase_loop_replies:
  "list_all (\<lambda>m. reply m = Some (f m)) ms \<Longrightarrow>
     ucase_loop reply j ms acc = (acc @ zip [j..<j + length ms] (map (\<lambda>m. take BUF_SIZE (f m)) ms), 0)"
proof (induction ms arbitrary: j acc)
  case (Cons m ms)
  then show ?case by (simp add: upt_conv_Cons del: upt_Suc)
qed simp

section \<open>Properties\<close>

text \<open>
  As long as no client asks for a negative number, the sequences given out never overlap:
  each response starts at or after the end of the one before, and all end at or before the
  server's number, which is the sum of the lengths asked for by the clients whose FIFO could
  be opened. The server goes wrong exactly when this sum does not fit an \<open>int\<close>.
\<close>

theorem seq_server_disjoint:
  assumes "list_all non_negative as" "s_mkfifo E \<noteq> MkfifoError" "s_open_read E" "s_open_write E" "s_signal E"
  shows "if opened_before as \<le> INT_MAX
    then \<exists>t. seq_server_main E as = Serving (Inr t) \<and> seq_num t = opened_before as
      \<and> sequences_disjoint (responses t) 0
      \<and> list_all (\<lambda>(r, k). 0 \<le> seq_len r \<and> k + seq_len r \<le> seq_num t) (responses t)
    else seq_server_main E as = Serving (Inl Overflow)"
proof -
  let ?s = "\<lparr>seq_num = 0, responses = []\<rparr>"
  have m: "seq_server_main E as = Serving (serve as ?s)" using assms(2-5) by (simp add: seq_server_main_def)
  have "seq_inv ?s" by (simp add: seq_inv_def)
  then have i: "serve as ?s = Inr t \<Longrightarrow> seq_inv t" for t using serve_inv assms(1) by blast
  have "if opened_before as \<le> INT_MAX then \<exists>t. serve as ?s = Inr t \<and> seq_num t = opened_before as
    else serve as ?s = Inl Overflow"
    using serve_total [of ?s as] assms(1) by (simp add: INT_MAX_def split: if_splits)
  then show ?thesis using i by (auto simp: m seq_inv_def split: if_splits)
qed

text \<open>
  The client of the upper-case server prints, for each of its arguments in order and under
  its number, the first ten characters of the argument in upper case, and exits with 0.
\<close>

theorem ucase_session:
  assumes "2 \<le> length args" "args ! 1 \<noteq> ''--help''"
  shows "ucase_client True True (server_reply a) args
    = (zip [1..<length args] (map (\<lambda>m. map toupper (take BUF_SIZE m)) (tl args)), 0)"
proof -
  have r: "server_reply a m = Some (map toupper (take BUF_SIZE m))" for m by (simp add: server_reply_def ucase_server_def)
  have l: "1 + length (tl args) = length args" using assms(1) by simp
  have "ucase_loop (server_reply a) 1 (tl args) []
      = ([] @ zip [1..<1 + length (tl args)] (map (\<lambda>m. take BUF_SIZE (map toupper (take BUF_SIZE m))) (tl args)), 0)"
    by (rule ucase_loop_replies) (simp add: r list_all_iff)
  from this [unfolded l] show ?thesis using assms by (simp add: ucase_client_def take_map)
qed

definition sample_request :: "int \<Rightarrow> int \<Rightarrow> request" where
  "sample_request p n = \<lparr>pid = p, seq_len = n\<rparr>"

theorem seq_server_disjoint_witness:
  "\<exists>t. seq_server_main \<lparr>s_mkfifo = Exists, s_open_read = True, s_open_write = True, s_signal = True\<rparr>
      [Arrived (sample_request 7 3) True True, ShortRead, Arrived (sample_request 8 5) False True,
       Arrived (sample_request 9 2) True True] = Serving (Inr t)
    \<and> seq_num t = 5 \<and> sequences_disjoint (responses t) 0"
  using seq_server_disjoint [of "[Arrived (sample_request 7 3) True True, ShortRead,
      Arrived (sample_request 8 5) False True, Arrived (sample_request 9 2) True True]"
      "\<lparr>s_mkfifo = Exists, s_open_read = True, s_open_write = True, s_signal = True\<rparr>"]
  by (auto simp: sample_request_def INT_MAX_def)

theorem ucase_session_witness:
  "ucase_client True True (server_reply 5) [''client'', ''hello'', ''a longer message'']
    = ([(1, ''HELLO''), (2, ''A LONGER M'')], 0)"
proof -
  have "map toupper (take BUF_SIZE ''hello'') = ''HELLO''"
    "map toupper (take BUF_SIZE ''a longer message'') = ''A LONGER M''"
    by code_simp+
  then show ?thesis using ucase_session [of "[''client'', ''hello'', ''a longer message'']" 5]
    by (simp add: upt_conv_Cons)
qed

end
