(* ===== verification/Workers.thy ===== *)
theory Workers
  imports Threads "HOL-Library.Word"
begin

text \<open>
  The worker threads of sync/mutex/homework/solution.c: detached threads that each compute one
  entry of an array, and a main thread that waits on a condition variable until the counter of
  threads still at work is zero. \<open>n\<close> is the number of workers; the program has 500.
\<close>

section \<open>State and program\<close>

definition NUM_WORKER_THREADS :: nat where "NUM_WORKER_THREADS = 500"

datatype kpc = KCompute | KLock | KDec | KUnlock | KSignal | KExit
datatype mpc = MLock | MTest | MWait | MWake | MUnlock | MSum | MDone

record workers_state =
  still_working :: int
  mutex :: mutex
  results :: "nat \<Rightarrow> 32 word"
  kpc :: "nat \<Rightarrow> kpc"
  mpc :: mpc
  grand_total :: "32 word"

datatype event = Worker nat | Main | Spurious

definition workers_start :: "nat \<Rightarrow> workers_state" where
  "workers_start n = \<lparr>still_working = int n, mutex = None, results = (\<lambda>_. 0), kpc = (\<lambda>_. KCompute),
     mpc = MLock, grand_total = 0\<rparr>"

text \<open>\<open>num\<close> is unsigned, so the square wraps around.\<close>

definition worker_thread :: "nat \<Rightarrow> workers_state \<Rightarrow> workers_state option" where
  "worker_thread i s =
     (case kpc s i of
        KCompute \<Rightarrow> Some (s\<lparr>results := (results s)(i := of_nat i * of_nat i), kpc := (kpc s)(i := KLock)\<rparr>)
      | KLock \<Rightarrow> map_option (\<lambda>m. s\<lparr>mutex := m, kpc := (kpc s)(i := KDec)\<rparr>) (mutex_lock (mutex s) i)
      | KDec \<Rightarrow> Some (s\<lparr>still_working := still_working s - 1, kpc := (kpc s)(i := KUnlock)\<rparr>)
      | KUnlock \<Rightarrow> Some (s\<lparr>mutex := mutex_unlock (mutex s), kpc := (kpc s)(i := KSignal)\<rparr>)
      | KSignal \<Rightarrow> Some (s\<lparr>mpc := (if mpc s = MWait then MWake else mpc s), kpc := (kpc s)(i := KExit)\<rparr>)
      | KExit \<Rightarrow> None)"

fun total_from :: "(nat \<Rightarrow> 32 word) \<Rightarrow> nat \<Rightarrow> 32 word" where
  "total_from f 0 = 0"
| "total_from f (Suc i) = total_from f i + f i"

text \<open>The main thread owns the mutex under the number \<open>n\<close>.\<close>

definition workers_main :: "nat \<Rightarrow> workers_state \<Rightarrow> workers_state option" where
  "workers_main n s =
     (case mpc s of
        MLock \<Rightarrow> map_option (\<lambda>m. s\<lparr>mutex := m, mpc := MTest\<rparr>) (mutex_lock (mutex s) n)
      | MTest \<Rightarrow> if still_working s \<noteq> 0 then Some (s\<lparr>mutex := mutex_unlock (mutex s), mpc := MWait\<rparr>)
                 else Some (s\<lparr>mpc := MUnlock\<rparr>)
      | MWait \<Rightarrow> None
      | MWake \<Rightarrow> map_option (\<lambda>m. s\<lparr>mutex := m, mpc := MTest\<rparr>) (mutex_lock (mutex s) n)
      | MUnlock \<Rightarrow> Some (s\<lparr>mutex := mutex_unlock (mutex s), mpc := MSum\<rparr>)
      | MSum \<Rightarrow> Some (s\<lparr>grand_total := total_from (results s) n, mpc := MDone\<rparr>)
      | MDone \<Rightarrow> None)"

text \<open>The check that the program computes on its own.\<close>

definition expected_total :: "nat \<Rightarrow> 32 word" where
  "expected_total n = total_from (\<lambda>i. of_nat i * of_nat i) n"

definition workers_step :: "nat \<Rightarrow> workers_state \<Rightarrow> event \<Rightarrow> workers_state option" where
  "workers_step n s e =
     (case e of
        Worker i \<Rightarrow> if i < n then worker_thread i s else None
      | Main \<Rightarrow> workers_main n s
      | Spurious \<Rightarrow> if mpc s = MWait then Some (s\<lparr>mpc := MWake\<rparr>) else None)"

section \<open>Invariant\<close>

fun k_owns :: "kpc \<Rightarrow> bool" where
  "k_owns KDec = True" | "k_owns KUnlock = True" | "k_owns _ = False"

fun k_working :: "kpc \<Rightarrow> bool" where
  "k_working KCompute = True" | "k_working KLock = True" | "k_working KDec = True" | "k_working _ = False"

fun k_signals :: "kpc \<Rightarrow> bool" where
  "k_signals KUnlock = True" | "k_signals KSignal = True" | "k_signals _ = False"

fun m_owns :: "mpc \<Rightarrow> bool" where
  "m_owns MTest = True" | "m_owns MUnlock = True" | "m_owns _ = False"

fun m_past :: "mpc \<Rightarrow> bool" where
  "m_past MUnlock = True" | "m_past MSum = True" | "m_past MDone = True" | "m_past _ = False"

definition workers_inv :: "nat \<Rightarrow> workers_state \<Rightarrow> bool" where
  "workers_inv n s \<longleftrightarrow>
     (\<forall>j. mutex s = Some j \<longleftrightarrow> j < n \<and> k_owns (kpc s j) \<or> j = n \<and> m_owns (mpc s))
     \<and> still_working s = int (cnt k_working (kpc s) n)
     \<and> (\<forall>i<n. kpc s i \<noteq> KCompute \<longrightarrow> results s i = of_nat i * of_nat i)
     \<and> (mpc s = MWait \<longrightarrow> still_working s = 0 \<longrightarrow> (\<exists>i<n. k_signals (kpc s i)))
     \<and> (m_past (mpc s) \<longrightarrow> still_working s = 0)
     \<and> (mpc s = MDone \<longrightarrow> grand_total s = expected_total n)"

lemma workers_step_cases:
  assumes "workers_step n s e = Some t"
  obtains (compute) i where "i < n" "kpc s i = KCompute" "e = Worker i"
      "t = s\<lparr>results := (results s)(i := of_nat i * of_nat i), kpc := (kpc s)(i := KLock)\<rparr>"
  | (k_lock) i where "i < n" "kpc s i = KLock" "mutex s = None" "e = Worker i"
      "t = s\<lparr>mutex := Some i, kpc := (kpc s)(i := KDec)\<rparr>"
  | (dec) i where "i < n" "kpc s i = KDec" "e = Worker i"
      "t = s\<lparr>still_working := still_working s - 1, kpc := (kpc s)(i := KUnlock)\<rparr>"
  | (k_unlock) i where "i < n" "kpc s i = KUnlock" "e = Worker i"
      "t = s\<lparr>mutex := None, kpc := (kpc s)(i := KSignal)\<rparr>"
  | (signal) i where "i < n" "kpc s i = KSignal" "e = Worker i"
      "t = s\<lparr>mpc := (if mpc s = MWait then MWake else mpc s), kpc := (kpc s)(i := KExit)\<rparr>"
  | (m_lock) "mpc s = MLock \<or> mpc s = MWake" "mutex s = None" "e = Main" "t = s\<lparr>mutex := Some n, mpc := MTest\<rparr>"
  | (m_wait) "mpc s = MTest" "still_working s \<noteq> 0" "e = Main" "t = s\<lparr>mutex := None, mpc := MWait\<rparr>"
  | (m_go) "mpc s = MTest" "still_working s = 0" "e = Main" "t = s\<lparr>mpc := MUnlock\<rparr>"
  | (m_unlock) "mpc s = MUnlock" "e = Main" "t = s\<lparr>mutex := None, mpc := MSum\<rparr>"
  | (m_sum) "mpc s = MSum" "e = Main" "t = s\<lparr>grand_total := total_from (results s) n, mpc := MDone\<rparr>"
  | (spurious) "mpc s = MWait" "e = Spurious" "t = s\<lparr>mpc := MWake\<rparr>"
proof (cases e)
  case (Worker i)
  then have w: "i < n" "worker_thread i s = Some t" using assms by (auto simp: workers_step_def split: if_splits)
  show ?thesis
  proof (cases "kpc s i")
    case KLock
    then have "mutex s = None" "t = s\<lparr>mutex := Some i, kpc := (kpc s)(i := KDec)\<rparr>"
      using w by (auto simp: worker_thread_def step_simps)
    then show ?thesis by (rule k_lock [OF w(1) KLock _ Worker])
  qed (use w Worker compute dec k_unlock signal in \<open>simp_all add: worker_thread_def\<close>)
next
  case Main
  then have m: "workers_main n s = Some t" using assms by (simp add: workers_step_def)
  show ?thesis
  proof (cases "mpc s")
    case MLock
    then show ?thesis using m Main by (intro m_lock) (auto simp: workers_main_def step_simps)
  next
    case MWake
    then show ?thesis using m Main by (intro m_lock) (auto simp: workers_main_def step_simps)
  next
    case MTest
    then show ?thesis using m Main m_wait m_go by (cases "still_working s = 0") (simp_all add: workers_main_def)
  qed (use m Main m_unlock m_sum in \<open>simp_all add: workers_main_def\<close>)
next
  case Spurious
  then show ?thesis using assms by (intro spurious) (auto simp: workers_step_def split: if_splits)
qed

lemma total_from_cong: "(\<And>i. i < n \<Longrightarrow> f i = g i) \<Longrightarrow> total_from f n = total_from g n"
  by (induction n) auto

lemma signaller_stays:
  "\<exists>j<n. k_signals (f j) \<Longrightarrow> \<not> k_signals (f k) \<Longrightarrow> \<exists>j<n. k_signals ((f(k := x)) j)"
  by (metis fun_upd_other)

lemma signaller_here: "k < n \<Longrightarrow> k_signals x \<Longrightarrow> \<exists>j<n. k_signals ((f(k := x)) j)"
  by (metis fun_upd_same)

lemma workers_inv_step:
  assumes i: "workers_inv n s" and st: "workers_step n s e = Some t"
  shows "workers_inv n t"
proof -
  have m: "mutex s = Some j \<longleftrightarrow> j < n \<and> k_owns (kpc s j) \<or> j = n \<and> m_owns (mpc s)" for j
    using i unfolding workers_inv_def by blast
  have c: "still_working s = int (cnt k_working (kpc s) n)"
    "\<And>j. j < n \<Longrightarrow> kpc s j \<noteq> KCompute \<Longrightarrow> results s j = of_nat j * of_nat j"
    "mpc s = MWait \<Longrightarrow> still_working s = 0 \<Longrightarrow> \<exists>j<n. k_signals (kpc s j)"
    "m_past (mpc s) \<Longrightarrow> still_working s = 0" "mpc s = MDone \<Longrightarrow> grand_total s = expected_total n"
    using i unfolding workers_inv_def by blast+
  show ?thesis using st
  proof (cases rule: workers_step_cases)
    case (compute k)
    have "mpc s = MWait \<longrightarrow> still_working s = 0 \<longrightarrow> (\<exists>j<n. k_signals (((kpc s)(k := KLock)) j))"
      by (intro impI signaller_stays c(3)) (simp_all add: compute(2))
    then show ?thesis unfolding workers_inv_def using m c compute
      by (intro conjI) (auto simp: cnt_upd_same)
  next
    case (k_lock k)
    have "mpc s = MWait \<longrightarrow> still_working s = 0 \<longrightarrow> (\<exists>j<n. k_signals (((kpc s)(k := KDec)) j))"
      by (intro impI signaller_stays c(3)) (simp_all add: k_lock(2))
    then show ?thesis unfolding workers_inv_def using m c k_lock
      by (intro conjI) (auto simp: cnt_upd_same)
  next
    case (dec k)
    have "Suc (cnt k_working ((kpc s)(k := KUnlock)) n) = cnt k_working (kpc s) n"
      using dec by (intro cnt_upd_del) simp_all
    moreover have "0 < still_working s" using cnt_pos [of k n k_working "kpc s"] dec c(1) by simp
    moreover have "\<exists>j<n. k_signals (((kpc s)(k := KUnlock)) j)" using dec(1) by (rule signaller_here) simp
    moreover have "still_working s = int (cnt k_working (kpc s) n)" by (rule c(1))
    ultimately show ?thesis unfolding workers_inv_def using m c dec by (intro conjI) auto
  next
    case (k_unlock k)
    have sg: "\<exists>j<n. k_signals (((kpc s)(k := KSignal)) j)" using k_unlock(1) by (rule signaller_here) simp
    have o: "mutex s = Some k" using m k_unlock by simp
    have "\<not> m_owns (mpc s)" using m [of n] o k_unlock(1) by auto
    moreover have "\<not> k_owns (kpc s j)" if "j < n" "j \<noteq> k" for j using m [of j] o that by auto
    ultimately have "\<forall>j. mutex t = Some j \<longleftrightarrow> j < n \<and> k_owns (kpc t j) \<or> j = n \<and> m_owns (mpc t)"
      using k_unlock by auto
    moreover have "still_working t = int (cnt k_working (kpc t) n)"
      using c(1) k_unlock by (simp add: cnt_upd_same)
    moreover have "\<forall>i<n. kpc t i \<noteq> KCompute \<longrightarrow> results t i = of_nat i * of_nat i" using c(2) k_unlock by simp
    moreover have "\<exists>j<n. k_signals (kpc t j)" using sg by (simp add: k_unlock(4))
    ultimately show ?thesis unfolding workers_inv_def using c(4,5) by (simp add: k_unlock(4))
  next
    case (signal k)
    then show ?thesis using m c by (auto simp: workers_inv_def cnt_upd_same)
  next
    case m_lock
    then show ?thesis using m c by (auto simp: workers_inv_def)
  next
    case m_wait
    then have "mutex s = Some n" using m by simp
    then have "\<not> k_owns (kpc s j)" if "j < n" for j using m [of j] that by auto
    then show ?thesis using c m_wait by (auto simp: workers_inv_def)
  next
    case m_go
    then show ?thesis using m c by (auto simp: workers_inv_def)
  next
    case m_unlock
    then have "mutex s = Some n" using m by simp
    then have "\<not> k_owns (kpc s j)" if "j < n" for j using m [of j] that by auto
    then show ?thesis using c m_unlock by (auto simp: workers_inv_def)
  next
    case m_sum
    have "\<not> k_working (kpc s j)" if "j < n" for j using c(1,4) m_sum(1) that by (simp add: cnt_0_iff)
    then have "results s j = of_nat j * of_nat j" if "j < n" for j
      using c(2) [OF that] that by (metis k_working.simps(1))
    then have "total_from (results s) n = expected_total n"
      unfolding expected_total_def by (rule total_from_cong)
    then show ?thesis using m c m_sum by (auto simp: workers_inv_def)
  next
    case spurious
    then show ?thesis using m c by (auto simp: workers_inv_def)
  qed
qed

lemma workers_start_inv: "workers_inv n (workers_start n)"
  by (auto simp: workers_inv_def workers_start_def cnt_const)

section \<open>Termination\<close>

fun k_left :: "kpc \<Rightarrow> nat" where
  "k_left KCompute = 7" | "k_left KLock = 6" | "k_left KDec = 5" | "k_left KUnlock = 4" | "k_left KSignal = 3"
| "k_left KExit = 0"

fun m_left :: "mpc \<Rightarrow> nat" where
  "m_left MLock = 5" | "m_left MWake = 4" | "m_left MTest = 3" | "m_left MWait = 2" | "m_left MUnlock = 2"
| "m_left MSum = 1" | "m_left MDone = 0"

definition workers_mu :: "nat \<Rightarrow> workers_state \<Rightarrow> nat" where
  "workers_mu n s = (\<Sum>j<n. k_left (kpc s j)) + m_left (mpc s)"

definition not_spurious :: "event \<Rightarrow> bool" where
  "not_spurious e \<longleftrightarrow> e \<noteq> Spurious"

lemma k_left_upd:
  fixes n :: nat
  shows "k < n \<Longrightarrow> (\<Sum>j<n. k_left ((f(k := x)) j)) + k_left (f k) = (\<Sum>j<n. k_left (f j)) + k_left x"
  using sum_change [of k n "\<lambda>j. k_left ((f(k := x)) j)" "\<lambda>j. k_left (f j)"] by simp

lemma workers_mu_step:
  assumes "workers_step n s e = Some t" "not_spurious e"
  shows "workers_mu n t < workers_mu n s"
  using assms(1)
proof (cases rule: workers_step_cases)
  case (compute k)
  then show ?thesis using k_left_upd [of k n "kpc s" KLock] by (simp add: workers_mu_def)
next
  case (k_lock k)
  then show ?thesis using k_left_upd [of k n "kpc s" KDec] by (simp add: workers_mu_def)
next
  case (dec k)
  then show ?thesis using k_left_upd [of k n "kpc s" KUnlock] by (simp add: workers_mu_def)
next
  case (k_unlock k)
  then show ?thesis using k_left_upd [of k n "kpc s" KSignal] by (simp add: workers_mu_def)
next
  case (signal k)
  then show ?thesis using k_left_upd [of k n "kpc s" KExit] by (simp add: workers_mu_def)
next
  case spurious
  then show ?thesis using assms(2) by (simp add: not_spurious_def)
qed (auto simp: workers_mu_def)

lemma owner_moves:
  assumes "workers_inv n s" "mutex s \<noteq> None"
  shows "\<exists>e t. not_spurious e \<and> workers_step n s e = Some t"
proof -
  obtain j where "mutex s = Some j" using assms(2) by blast
  then consider "j < n" "k_owns (kpc s j)" | "m_owns (mpc s)"
    using assms(1) unfolding workers_inv_def by blast
  then show ?thesis
  proof cases
    case 1
    then have "\<exists>t. workers_step n s (Worker j) = Some t"
      by (cases "kpc s j") (simp_all add: workers_step_def worker_thread_def)
    then show ?thesis by (auto simp: not_spurious_def)
  next
    case 2
    then have "\<exists>t. workers_step n s Main = Some t"
      by (cases "mpc s") (simp_all add: workers_step_def workers_main_def)
    then show ?thesis by (auto simp: not_spurious_def)
  qed
qed

lemma crunch_moves:
  assumes "k < n" "kpc s k \<noteq> KExit" "mutex s = None"
  shows "\<exists>e t. not_spurious e \<and> workers_step n s e = Some t"
proof -
  have "\<exists>t. workers_step n s (Worker k) = Some t" using assms
    by (cases "kpc s k") (simp_all add: workers_step_def worker_thread_def mutex_lock_def)
  then show ?thesis by (auto simp: not_spurious_def)
qed

lemma workers_progress:
  assumes i: "workers_inv n s" and d: "mpc s \<noteq> MDone"
  shows "\<exists>e t. not_spurious e \<and> workers_step n s e = Some t"
proof (cases "mutex s = None")
  case free: True
  show ?thesis
  proof (cases "mpc s = MWait")
    case True
    have "\<exists>k<n. kpc s k \<noteq> KExit"
    proof (cases "still_working s = 0")
      case True
      then obtain k where "k < n" "k_signals (kpc s k)"
        using i \<open>mpc s = MWait\<close> unfolding workers_inv_def by blast
      then show ?thesis by (intro exI [of _ k]) auto
    next
      case False
      then have "0 < cnt k_working (kpc s) n" using i unfolding workers_inv_def by simp
      then obtain k where "k < n" "k_working (kpc s k)" using cnt_pos_ex by blast
      then show ?thesis by (intro exI [of _ k]) auto
    qed
    then show ?thesis using crunch_moves free by blast
  next
    case False
    then have "\<exists>t. workers_step n s Main = Some t" using d free
      by (cases "mpc s") (simp_all add: workers_step_def workers_main_def mutex_lock_def)
    then show ?thesis by (auto simp: not_spurious_def)
  qed
qed (rule owner_moves [OF i])

interpretation workers: machine_term "workers_step n" "workers_start n" "workers_inv n" not_spurious
  "\<lambda>s. mpc s = MDone" "workers_mu n" for n
proof unfold_locales
  show "workers_inv n (workers_start n)" by (rule workers_start_inv)
  show "workers_inv n t" if "workers_inv n s" "workers_step n s e = Some t" for s e t
    using that by (rule workers_inv_step)
  show "workers_mu n t < workers_mu n s" if "workers_step n s e = Some t" "not_spurious e" for s e t
    using that by (rule workers_mu_step)
  show "\<exists>e t. not_spurious e \<and> workers_step n s e = Some t" if "workers_inv n s" "mpc s \<noteq> MDone" for s
    using that by (rule workers_progress)
qed

section \<open>Properties\<close>

lemma total_from_of_nat: "total_from (\<lambda>i. of_nat (f i)) n = of_nat (\<Sum>i<n. f i)"
  by (induction n) simp_all

lemma expected_total_sum: "expected_total n = of_nat (\<Sum>i<n. i * i)"
  using total_from_of_nat [of "\<lambda>i. i * i" n] by (simp add: expected_total_def)

text \<open>
  Whatever the interleaving and the spurious wake-ups, the total that the main thread prints
  is the sum of the squares below \<open>n\<close>, which is what its own check prints.
\<close>

theorem workers_total:
  assumes "reach (workers_step n) (workers_start n) s" "mpc s = MDone"
  shows "grand_total s = expected_total n \<and> grand_total s = of_nat (\<Sum>i<n. i * i)"
proof -
  have "workers_inv n s" using workers.reach_inv assms(1) by blast
  then show ?thesis using assms(2) by (simp add: workers_inv_def expected_total_sum)
qed

text \<open>
  No wake-up is lost. Without spurious wake-ups a run has at most \<open>7 * n + 5\<close> steps, and it
  only stops when the main thread has come to its end.
\<close>

theorem workers_finish:
  assumes "run (workers_step n) (workers_start n) es = Some s" "list_all not_spurious es"
  shows "length es \<le> 7 * n + 5
    \<and> ((\<forall>e. not_spurious e \<longrightarrow> workers_step n s e = None) \<longrightarrow> mpc s = MDone)"
proof -
  have "workers_mu n (workers_start n) = 7 * n + 5" by (simp add: workers_mu_def workers_start_def)
  then have "length es \<le> 7 * n + 5" using workers.runs_bounded [OF assms(2,1)] by simp
  then show ?thesis using workers.stuck_final [OF run_reach [OF assms(1)]] by blast
qed

text \<open>Two workers; the main thread waits for them, and one wakes it up for nothing.\<close>

definition two_workers :: "event list" where
  "two_workers = [Main, Main] @ replicate 5 (Worker 0) @ [Main, Main] @ replicate 5 (Worker 1)
     @ [Main, Main, Main, Main]"

theorem workers_finish_witness:
  "\<exists>s. run (workers_step 2) (workers_start 2) two_workers = Some s \<and> length two_workers \<le> 19 \<and> mpc s = MDone"
proof -
  have "case run (workers_step 2) (workers_start 2) two_workers of None \<Rightarrow> False
      | Some s \<Rightarrow> mpc s = MDone \<and> kpc s 0 = KExit \<and> kpc s 1 = KExit"
    by code_simp
  then obtain s where r: "run (workers_step 2) (workers_start 2) two_workers = Some s"
    "mpc s = MDone" "kpc s 0 = KExit" "kpc s 1 = KExit" by (auto split: option.splits)
  have "workers_step 2 s e = None" if "not_spurious e" for e
    using r(2-4) that by (cases e)
      (auto simp: workers_step_def workers_main_def worker_thread_def not_spurious_def less_2_cases_iff)
  moreover have "list_all not_spurious two_workers" by code_simp
  ultimately show ?thesis using workers_finish [OF r(1)] r(1) by auto
qed

theorem workers_total_witness:
  "\<exists>s. reach (workers_step 2) (workers_start 2) s \<and> grand_total s = 1"
proof -
  have "\<exists>s. reach (workers_step 2) (workers_start 2) s \<and> mpc s = MDone"
    by (rule run_example [where es = "two_workers"]) code_simp
  then obtain s where s: "reach (workers_step 2) (workers_start 2) s" "mpc s = MDone" by blast
  have "grand_total s = 1" using workers_total [OF s] by (simp add: numeral_2_eq_2 expected_total_sum)
  then show ?thesis using s(1) by blast
qed

end
