(* ===== verification/PipeQueue.thy ===== *)
theory PipeQueue
  imports Threads "HOL-Library.Word"
begin

text \<open>
  The producers of sync/mutex, 04-pc\_bad.c and 05-pc\_cv.c: every producer writes its number to
  a pipe that does not block, and the main thread adds up what it reads. The two programs
  differ in how the main thread waits: the first polls, the second sleeps on a condition
  variable. \<open>n\<close> is the number of producers (10000), \<open>cap\<close> the number of units the pipe holds
  (16384 with the 64 kB of Linux), \<open>cv\<close> says which of the two programs it is.
\<close>

section \<open>State and program\<close>

definition NUM_PRODUCERS :: nat where "NUM_PRODUCERS = 10000"

text \<open>The argument of a producer's place is whether its \<open>write\<close> went through (\<open>ret > 0\<close>).\<close>

datatype ppc = PLock | PWrite | PCount | PUnlock bool | PSignal bool | PExit bool
datatype cpc = CLock | CTest | CWait | CWake | CRead | CCheck | CUnlock | CDone

text \<open>
  The counters stay below \<open>n\<close>, so \<open>nat\<close>s stand for them; the sum is kept at its width.
\<close>

record shared_data =
  avail :: nat
  producers :: nat
  work_pipe :: "32 word list"
  mtx :: mutex
  ppc :: "nat \<Rightarrow> ppc"
  cpc :: cpc
  work_unit :: "32 word"
  finished :: bool
  processed :: nat
  total :: "32 word"

datatype event = Producer nat | Consumer | Spurious

definition sdata :: "nat \<Rightarrow> shared_data" where
  "sdata n = \<lparr>avail = 0, producers = n, work_pipe = [], mtx = None, ppc = (\<lambda>_. PLock), cpc = CLock,
     work_unit = 0, finished = False, processed = 0, total = 0\<rparr>"

definition producer :: "bool \<Rightarrow> nat \<Rightarrow> nat \<Rightarrow> shared_data \<Rightarrow> shared_data option" where
  "producer cv cap i s =
     (case ppc s i of
        PLock \<Rightarrow> map_option (\<lambda>m. s\<lparr>mtx := m, ppc := (ppc s)(i := PWrite)\<rparr>) (mutex_lock (mtx s) i)
      | PWrite \<Rightarrow> if length (work_pipe s) < cap
                  then Some (s\<lparr>work_pipe := work_pipe s @ [of_nat i], ppc := (ppc s)(i := PCount)\<rparr>)
                  else Some (s\<lparr>ppc := (ppc s)(i := PUnlock False)\<rparr>)
      | PCount \<Rightarrow> Some (s\<lparr>avail := avail s + 1, producers := producers s - 1, ppc := (ppc s)(i := PUnlock True)\<rparr>)
      | PUnlock r \<Rightarrow> Some (s\<lparr>mtx := mutex_unlock (mtx s), ppc := (ppc s)(i := (if cv then PSignal r else PExit r))\<rparr>)
      | PSignal r \<Rightarrow> Some (s\<lparr>cpc := (if cpc s = CWait then CWake else cpc s), ppc := (ppc s)(i := PExit r)\<rparr>)
      | PExit r \<Rightarrow> None)"

text \<open>
  The main thread owns the mutex under the number \<open>n\<close>. A \<open>read\<close> of the empty pipe fails;
  its result is kept in an unsigned variable, so the program takes it for a success and adds
  the unit it read before.
\<close>

definition consumer :: "bool \<Rightarrow> nat \<Rightarrow> shared_data \<Rightarrow> shared_data option" where
  "consumer cv n s =
     (case cpc s of
        CLock \<Rightarrow> map_option (\<lambda>m. s\<lparr>processed := 0, mtx := m, cpc := CTest\<rparr>) (mutex_lock (mtx s) n)
      | CTest \<Rightarrow> if 0 < avail s then Some (s\<lparr>cpc := CRead\<rparr>)
                 else if cv then Some (s\<lparr>mtx := mutex_unlock (mtx s), cpc := CWait\<rparr>)
                 else Some (s\<lparr>cpc := CUnlock\<rparr>)
      | CWait \<Rightarrow> None
      | CWake \<Rightarrow> map_option (\<lambda>m. s\<lparr>mtx := m, cpc := CTest\<rparr>) (mutex_lock (mtx s) n)
      | CRead \<Rightarrow> (let (u, rest) = (case work_pipe s of [] \<Rightarrow> (work_unit s, []) | u # rest \<Rightarrow> (u, rest)) in
                 Some (s\<lparr>work_unit := u, work_pipe := rest, total := total s + u, avail := avail s - 1,
                         processed := processed s + 1, cpc := CCheck\<rparr>))
      | CCheck \<Rightarrow> Some (s\<lparr>finished := (finished s \<or> producers s = 0), cpc := (if 0 < avail s then CRead else CUnlock)\<rparr>)
      | CUnlock \<Rightarrow> Some (s\<lparr>mtx := mutex_unlock (mtx s), cpc := (if finished s then CDone else CLock)\<rparr>)
      | CDone \<Rightarrow> None)"

fun expected_sum :: "nat \<Rightarrow> 32 word" where
  "expected_sum 0 = 0"
| "expected_sum (Suc i) = expected_sum i + of_nat i"

text \<open>04-pc\_bad.c is the program without the condition variable.\<close>

definition producer_bad :: "nat \<Rightarrow> nat \<Rightarrow> shared_data \<Rightarrow> shared_data option" where
  "producer_bad = producer False"

definition main_bad :: "nat \<Rightarrow> shared_data \<Rightarrow> shared_data option" where
  "main_bad = consumer False"

definition pipe_step :: "bool \<Rightarrow> nat \<Rightarrow> nat \<Rightarrow> shared_data \<Rightarrow> event \<Rightarrow> shared_data option" where
  "pipe_step cv n cap s e =
     (case e of
        Producer i \<Rightarrow> if i < n then (if cv then producer True cap i s else producer_bad cap i s) else None
      | Consumer \<Rightarrow> if cv then consumer True n s else main_bad n s
      | Spurious \<Rightarrow> if cpc s = CWait then Some (s\<lparr>cpc := CWake\<rparr>) else None)"

section \<open>Steps\<close>

lemma pipe_step_eq:
  "pipe_step cv n cap s e =
     (case e of
        Producer i \<Rightarrow> if i < n then producer cv cap i s else None
      | Consumer \<Rightarrow> consumer cv n s
      | Spurious \<Rightarrow> if cpc s = CWait then Some (s\<lparr>cpc := CWake\<rparr>) else None)"
  by (cases cv) (simp_all add: pipe_step_def producer_bad_def main_bad_def split: event.split)

lemma pipe_step_cases:
  assumes "pipe_step cv n cap s e = Some t"
  obtains (p_lock) i where "i < n" "ppc s i = PLock" "mtx s = None" "e = Producer i"
      "t = s\<lparr>mtx := Some i, ppc := (ppc s)(i := PWrite)\<rparr>"
  | (p_write) i where "i < n" "ppc s i = PWrite" "length (work_pipe s) < cap" "e = Producer i"
      "t = s\<lparr>work_pipe := work_pipe s @ [of_nat i], ppc := (ppc s)(i := PCount)\<rparr>"
  | (p_full) i where "i < n" "ppc s i = PWrite" "cap \<le> length (work_pipe s)" "e = Producer i"
      "t = s\<lparr>ppc := (ppc s)(i := PUnlock False)\<rparr>"
  | (p_count) i where "i < n" "ppc s i = PCount" "e = Producer i"
      "t = s\<lparr>avail := avail s + 1, producers := producers s - 1, ppc := (ppc s)(i := PUnlock True)\<rparr>"
  | (p_unlock) i r where "i < n" "ppc s i = PUnlock r" "e = Producer i"
      "t = s\<lparr>mtx := None, ppc := (ppc s)(i := (if cv then PSignal r else PExit r))\<rparr>"
  | (p_signal) i r where "i < n" "ppc s i = PSignal r" "e = Producer i"
      "t = s\<lparr>cpc := (if cpc s = CWait then CWake else cpc s), ppc := (ppc s)(i := PExit r)\<rparr>"
  | (c_lock) "cpc s = CLock" "mtx s = None" "e = Consumer" "t = s\<lparr>processed := 0, mtx := Some n, cpc := CTest\<rparr>"
  | (c_wake) "cpc s = CWake" "mtx s = None" "e = Consumer" "t = s\<lparr>mtx := Some n, cpc := CTest\<rparr>"
  | (c_go) "cpc s = CTest" "0 < avail s" "e = Consumer" "t = s\<lparr>cpc := CRead\<rparr>"
  | (c_wait) "cpc s = CTest" "avail s = 0" "cv" "e = Consumer" "t = s\<lparr>mtx := None, cpc := CWait\<rparr>"
  | (c_skip) "cpc s = CTest" "avail s = 0" "\<not> cv" "e = Consumer" "t = s\<lparr>cpc := CUnlock\<rparr>"
  | (c_read) u rest where "cpc s = CRead" "work_pipe s = u # rest" "e = Consumer"
      "t = s\<lparr>work_unit := u, work_pipe := rest, total := total s + u, avail := avail s - 1,
         processed := processed s + 1, cpc := CCheck\<rparr>"
  | (c_stale) "cpc s = CRead" "work_pipe s = []" "e = Consumer"
  | (c_check) "cpc s = CCheck" "e = Consumer"
      "t = s\<lparr>finished := (finished s \<or> producers s = 0), cpc := (if 0 < avail s then CRead else CUnlock)\<rparr>"
  | (c_unlock) "cpc s = CUnlock" "e = Consumer" "t = s\<lparr>mtx := None, cpc := (if finished s then CDone else CLock)\<rparr>"
  | (spurious) "cpc s = CWait" "e = Spurious" "t = s\<lparr>cpc := CWake\<rparr>"
proof (cases e)
  case (Producer i)
  then have p: "i < n" "producer cv cap i s = Some t" using assms by (auto simp: pipe_step_eq split: if_splits)
  show ?thesis
  proof (cases "ppc s i")
    case PLock
    then have "mtx s = None" "t = s\<lparr>mtx := Some i, ppc := (ppc s)(i := PWrite)\<rparr>"
      using p by (auto simp: producer_def step_simps)
    then show ?thesis by (rule p_lock [OF p(1) PLock _ Producer])
  next
    case PWrite
    show ?thesis
    proof (cases "length (work_pipe s) < cap")
      case True
      then show ?thesis using p PWrite Producer by (intro p_write [of i]) (simp_all add: producer_def)
    next
      case False
      then show ?thesis using p PWrite Producer by (intro p_full [of i]) (simp_all add: producer_def)
    qed
  next
    case (PUnlock r)
    then have "t = s\<lparr>mtx := None, ppc := (ppc s)(i := (if cv then PSignal r else PExit r))\<rparr>"
      using p by (simp add: producer_def)
    then show ?thesis by (rule p_unlock [OF p(1) PUnlock Producer])
  next
    case (PSignal r)
    then have "t = s\<lparr>cpc := (if cpc s = CWait then CWake else cpc s), ppc := (ppc s)(i := PExit r)\<rparr>"
      using p by (simp add: producer_def)
    then show ?thesis by (rule p_signal [OF p(1) PSignal Producer])
  next
    case PCount
    then have "t = s\<lparr>avail := avail s + 1, producers := producers s - 1, ppc := (ppc s)(i := PUnlock True)\<rparr>"
      using p by (simp add: producer_def)
    then show ?thesis by (rule p_count [OF p(1) PCount Producer])
  next
    case (PExit r)
    then show ?thesis using p by (simp add: producer_def)
  qed
next
  case Consumer
  then have m: "consumer cv n s = Some t" using assms by (simp add: pipe_step_eq)
  show ?thesis
  proof (cases "cpc s")
    case CLock
    then show ?thesis using m Consumer by (intro c_lock) (auto simp: consumer_def step_simps)
  next
    case CWake
    then show ?thesis using m Consumer by (intro c_wake) (auto simp: consumer_def step_simps)
  next
    case CTest
    show ?thesis
    proof (cases "0 < avail s")
      case True
      then show ?thesis using m Consumer CTest by (intro c_go) (simp_all add: consumer_def)
    next
      case False
      then show ?thesis using m Consumer CTest
        by (cases cv) (intro c_wait, simp_all add: consumer_def, intro c_skip, simp_all)
    qed
  next
    case CRead
    show ?thesis
    proof (cases "work_pipe s")
      case Nil
      then show ?thesis using CRead Consumer by (intro c_stale)
    next
      case (Cons u rest)
      then show ?thesis using m CRead Consumer by (intro c_read [of u rest]) (simp_all add: consumer_def)
    qed
  next
    case CCheck
    then show ?thesis using m Consumer by (intro c_check) (simp_all add: consumer_def)
  next
    case CUnlock
    then show ?thesis using m Consumer by (intro c_unlock) (simp_all add: consumer_def)
  qed (use m in \<open>simp_all add: consumer_def\<close>)
next
  case Spurious
  then show ?thesis using assms by (intro spurious) (auto simp: pipe_step_eq split: if_splits)
qed

section \<open>Invariant\<close>

fun p_owns :: "ppc \<Rightarrow> bool" where
  "p_owns PWrite = True" | "p_owns PCount = True" | "p_owns (PUnlock _) = True" | "p_owns _ = False"

fun c_owns :: "cpc \<Rightarrow> bool" where
  "c_owns CTest = True" | "c_owns CRead = True" | "c_owns CCheck = True" | "c_owns CUnlock = True"
| "c_owns _ = False"

fun p_counting :: "ppc \<Rightarrow> bool" where
  "p_counting PCount = True" | "p_counting _ = False"

text \<open>The producer has counted itself out.\<close>

fun p_counted :: "ppc \<Rightarrow> bool" where
  "p_counted (PUnlock r) = r" | "p_counted (PSignal r) = r" | "p_counted (PExit r) = r" | "p_counted _ = False"

definition p_wrote :: "ppc \<Rightarrow> bool" where
  "p_wrote p \<longleftrightarrow> p_counting p \<or> p_counted p"

fun p_signals :: "ppc \<Rightarrow> bool" where
  "p_signals (PUnlock _) = True" | "p_signals (PSignal _) = True" | "p_signals _ = False"

definition lock_inv :: "nat \<Rightarrow> shared_data \<Rightarrow> bool" where
  "lock_inv n s \<longleftrightarrow>
     (\<forall>j. mtx s = Some j \<longleftrightarrow> j < n \<and> p_owns (ppc s j) \<or> j = n \<and> c_owns (cpc s))"

definition count_inv :: "nat \<Rightarrow> shared_data \<Rightarrow> bool" where
  "count_inv n s \<longleftrightarrow> avail s + cnt p_counting (ppc s) n = length (work_pipe s)
     \<and> producers s = cnt (\<lambda>p. \<not> p_counted p) (ppc s) n"

definition sum_inv :: "nat \<Rightarrow> shared_data \<Rightarrow> bool" where
  "sum_inv n s \<longleftrightarrow>
     total s + sum_list (work_pipe s) = (\<Sum>j<n. if p_wrote (ppc s j) then of_nat j else 0)
     \<and> length (work_pipe s) \<le> cnt p_wrote (ppc s) n"

definition flow_inv :: "shared_data \<Rightarrow> bool" where
  "flow_inv s \<longleftrightarrow> (cpc s = CRead \<longrightarrow> 0 < avail s) \<and> (cpc s = CUnlock \<longrightarrow> avail s = 0)
     \<and> (finished s \<longrightarrow> producers s = 0) \<and> (cpc s = CDone \<longrightarrow> finished s \<and> avail s = 0)
     \<and> (finished s \<longrightarrow> cpc s = CCheck \<or> cpc s = CRead \<or> cpc s = CUnlock \<or> cpc s = CDone)"

text \<open>The end is in sight: a unit is left whose reader will find no producer.\<close>

definition end_inv :: "nat \<Rightarrow> shared_data \<Rightarrow> bool" where
  "end_inv n s \<longleftrightarrow> (0 < n \<longrightarrow> producers s = 0 \<longrightarrow> finished s \<or> 0 < avail s \<or> cpc s = CCheck)"

definition wake_inv :: "bool \<Rightarrow> nat \<Rightarrow> shared_data \<Rightarrow> bool" where
  "wake_inv cv n s \<longleftrightarrow>
     (cpc s = CWait \<longrightarrow> cv \<and> (0 < avail s \<longrightarrow> (\<exists>j<n. p_signals (ppc s j))))"

definition pipe_inv :: "bool \<Rightarrow> nat \<Rightarrow> shared_data \<Rightarrow> bool" where
  "pipe_inv cv n s \<longleftrightarrow> lock_inv n s \<and> count_inv n s \<and> sum_inv n s \<and> flow_inv s \<and> end_inv n s \<and> wake_inv cv n s"

lemma lock_owner:
  assumes "lock_inv n s"
  shows "j < n \<Longrightarrow> p_owns (ppc s j) \<Longrightarrow> mtx s = Some j" "c_owns (cpc s) \<Longrightarrow> mtx s = Some n"
    "mtx s = Some j \<Longrightarrow> j < n \<and> p_owns (ppc s j) \<or> j = n \<and> c_owns (cpc s)"
  using assms unfolding lock_inv_def by blast+

text \<open>Inside a critical section of one thread no other thread is in one.\<close>

lemma lock_excl:
  assumes "lock_inv n s" "i < n" "p_owns (ppc s i)"
  shows "\<not> c_owns (cpc s)" "j < n \<Longrightarrow> j \<noteq> i \<Longrightarrow> \<not> p_owns (ppc s j)"
  using lock_owner(1) [OF assms] lock_owner(1) [OF assms(1), of j] lock_owner(2) [OF assms(1)] assms(2) by auto

lemma pipe_lock_inv_step:
  assumes i: "lock_inv n s" and st: "pipe_step cv n cap s e = Some t"
  shows "lock_inv n t"
proof -
  have m: "mtx s = Some j \<longleftrightarrow> j < n \<and> p_owns (ppc s j) \<or> j = n \<and> c_owns (cpc s)" for j
    using i unfolding lock_inv_def by blast
  show ?thesis using st
  proof (cases rule: pipe_step_cases)
    case (p_unlock k r)
    then have o: "mtx s = Some k" using m by simp
    have "\<not> c_owns (cpc s)" using m [of n] o p_unlock(1) by auto
    moreover have "\<not> p_owns (ppc s j)" if "j < n" "j \<noteq> k" for j using m [of j] o that by auto
    ultimately show ?thesis using p_unlock by (auto simp: lock_inv_def)
  next
    case c_wait
    then have "mtx s = Some n" using m by simp
    then have "\<not> p_owns (ppc s j)" if "j < n" for j using m [of j] that by auto
    then show ?thesis using c_wait by (auto simp: lock_inv_def)
  next
    case c_unlock
    then have "mtx s = Some n" using m by simp
    then have "\<not> p_owns (ppc s j)" if "j < n" for j using m [of j] that by auto
    then show ?thesis using c_unlock by (auto simp: lock_inv_def)
  next
    case c_stale
    then have "cpc t = CCheck" "mtx t = mtx s" "ppc t = ppc s"
      using st by (auto simp: pipe_step_eq consumer_def)
    then show ?thesis using m c_stale by (auto simp: lock_inv_def)
  qed (use m in \<open>auto simp: lock_inv_def\<close>)
qed

lemma pipe_count_inv_step:
  assumes i: "count_inv n s" "flow_inv s" and st: "pipe_step cv n cap s e = Some t"
  shows "count_inv n t"
proof -
  let ?u = "\<lambda>p. \<not> p_counted p"
  have c: "avail s + cnt p_counting (ppc s) n = length (work_pipe s)" "producers s = cnt ?u (ppc s) n"
    using i(1) unfolding count_inv_def by blast+
  have r: "cpc s = CRead \<longrightarrow> 0 < avail s" using i(2) unfolding flow_inv_def by blast
  show ?thesis using st
  proof (cases rule: pipe_step_cases)
    case (p_write k)
    then have "cnt p_counting ((ppc s)(k := PCount)) n = Suc (cnt p_counting (ppc s) n)"
      by (intro cnt_upd_in) simp_all
    then show ?thesis using c p_write by (simp add: count_inv_def cnt_upd_same)
  next
    case (p_count k)
    then have "Suc (cnt p_counting ((ppc s)(k := PUnlock True)) n) = cnt p_counting (ppc s) n"
      "Suc (cnt ?u ((ppc s)(k := PUnlock True)) n) = cnt ?u (ppc s) n"
      by (intro cnt_upd_del; simp)+
    then show ?thesis using c p_count by (simp add: count_inv_def)
  next
    case c_stale
    then show ?thesis using c(1) r by simp
  next
    case (c_read u rest)
    then show ?thesis using c r by (auto simp: count_inv_def)
  qed (use c in \<open>simp_all add: count_inv_def cnt_upd_same\<close>)
qed

lemma units_upd:
  fixes n :: nat
  assumes "k < n" "\<not> p_wrote (f k)" "p_wrote x"
  shows "(\<Sum>j<n. if p_wrote ((f(k := x)) j) then of_nat j else (0 :: 32 word))
    = (\<Sum>j<n. if p_wrote (f j) then of_nat j else 0) + of_nat k"
  using sum_change [of k n "\<lambda>j. if p_wrote ((f(k := x)) j) then of_nat j else 0"
    "\<lambda>j. if p_wrote (f j) then of_nat j else 0"] assms by simp

lemma units_same:
  fixes n :: nat
  assumes "p_wrote x = p_wrote (f k)"
  shows "(\<Sum>j<n. if p_wrote ((f(k := x)) j) then of_nat j else (0 :: 32 word))
    = (\<Sum>j<n. if p_wrote (f j) then of_nat j else 0)"
  using assms by (intro sum.cong) auto

lemma pipe_sum_inv_step:
  assumes i: "sum_inv n s" "count_inv n s" "flow_inv s" and st: "pipe_step cv n cap s e = Some t"
  shows "sum_inv n t"
proof -
  let ?f = "\<lambda>s. \<Sum>j<n. if p_wrote (ppc s j) then of_nat j else (0 :: 32 word)"
  have c: "total s + sum_list (work_pipe s) = ?f s" "length (work_pipe s) \<le> cnt p_wrote (ppc s) n"
    using i(1) unfolding sum_inv_def by blast+
  have r: "cpc s = CRead \<longrightarrow> work_pipe s \<noteq> []" using i(2,3) unfolding flow_inv_def count_inv_def by auto
  have same: "?thesis" if "ppc t = (ppc s)(k := x)" "k < n" "p_wrote x = p_wrote (ppc s k)"
    "total t = total s" "work_pipe t = work_pipe s" for k x
    using c that units_same [of x "ppc s" k n] by (simp add: sum_inv_def cnt_upd_same del: fun_upd_apply)
  show ?thesis using st
  proof (cases rule: pipe_step_cases)
    case (p_write k)
    then have "\<not> p_wrote (ppc s k)" "p_wrote PCount" by (simp_all add: p_wrote_def)
    then show ?thesis using c p_write(1,5) units_upd [of k n "ppc s" PCount] cnt_upd_in [of k n p_wrote "ppc s" PCount]
      by (simp add: sum_inv_def add.assoc [symmetric] del: fun_upd_apply)
  next
    case (p_lock k)
    then show ?thesis by (intro same [of k "PWrite"]) (auto simp: p_wrote_def)
  next
    case (p_full k)
    then show ?thesis by (intro same [of k "PUnlock False"]) (auto simp: p_wrote_def)
  next
    case (p_count k)
    then show ?thesis by (intro same [of k "PUnlock True"]) (auto simp: p_wrote_def)
  next
    case (p_unlock k r)
    then show ?thesis by (intro same [of k "if cv then PSignal r else PExit r"]) (auto simp: p_wrote_def)
  next
    case (p_signal k r)
    then show ?thesis by (intro same [of k "PExit r"]) (auto simp: p_wrote_def)
  next
    case c_stale
    then show ?thesis using r by simp
  next
    case (c_read u rest)
    then show ?thesis using c by (simp add: sum_inv_def add.assoc)
  qed (use c in \<open>simp_all add: sum_inv_def\<close>)
qed

lemma pipe_flow_inv_step:
  assumes i: "flow_inv s" "lock_inv n s" "count_inv n s" and st: "pipe_step cv n cap s e = Some t"
  shows "flow_inv t"
  using st
proof (cases rule: pipe_step_cases)
  case (p_count k)
  then have "0 < producers s" using i(3) cnt_pos [of k n "\<lambda>p. \<not> p_counted p" "ppc s"] by (simp add: count_inv_def)
  moreover have "\<not> c_owns (cpc s)" using lock_excl(1) [OF i(2) p_count(1)] p_count(2) by simp
  ultimately show ?thesis using i(1) p_count by (auto simp: flow_inv_def)
next
  case c_stale
  then show ?thesis using i(1,3) by (auto simp: flow_inv_def count_inv_def)
qed (use i(1) in \<open>auto simp: flow_inv_def\<close>)

lemma pipe_end_inv_step:
  assumes i: "end_inv n s" "flow_inv s" "count_inv n s" and st: "pipe_step cv n cap s e = Some t"
  shows "end_inv n t"
  using st
proof (cases rule: pipe_step_cases)
  case c_stale
  then show ?thesis using i(2,3) by (auto simp: flow_inv_def count_inv_def)
qed (use i(1,2) in \<open>auto simp: end_inv_def flow_inv_def\<close>)

lemma awake_stays:
  "\<exists>j<n. p_signals (f j) \<Longrightarrow> \<not> p_signals (f k) \<Longrightarrow> \<exists>j<n. p_signals ((f(k := x)) j)"
  by (metis fun_upd_other)

lemma awake_here: "k < n \<Longrightarrow> p_signals x \<Longrightarrow> \<exists>j<n. p_signals ((f(k := x)) j)"
  by (metis fun_upd_same)

lemma pipe_wake_inv_step:
  assumes i: "wake_inv cv n s" and st: "pipe_step cv n cap s e = Some t"
  shows "wake_inv cv n t"
proof -
  have w: "cpc s = CWait \<Longrightarrow> cv" "cpc s = CWait \<Longrightarrow> 0 < avail s \<Longrightarrow> \<exists>j<n. p_signals (ppc s j)"
    using i unfolding wake_inv_def by blast+
  have stay: "?thesis" if "ppc t = (ppc s)(k := x)" "\<not> p_signals (ppc s k)" "cpc t = cpc s" "avail t = avail s" for k x
    unfolding wake_inv_def that using w awake_stays [of n "ppc s" k x] that(2) by blast
  have here: "?thesis" if "ppc t = (ppc s)(k := x)" "k < n" "p_signals x" "cpc t = cpc s" for k x
    unfolding wake_inv_def that using w(1) awake_here [of k n x "ppc s"] that(2,3) by blast
  show ?thesis using st
  proof (cases rule: pipe_step_cases)
    case (p_lock k)
    then show ?thesis by (intro stay [of k PWrite]) simp_all
  next
    case (p_write k)
    then show ?thesis by (intro stay [of k PCount]) simp_all
  next
    case (p_full k)
    then show ?thesis by (intro here [of k "PUnlock False"]) simp_all
  next
    case (p_count k)
    then show ?thesis by (intro here [of k "PUnlock True"]) simp_all
  next
    case (p_unlock k r)
    show ?thesis
    proof (cases cv)
      case True
      then show ?thesis using p_unlock by (intro here [of k "PSignal r"]) simp_all
    next
      case False
      then have "cpc s \<noteq> CWait" using w(1) by blast
      then show ?thesis using p_unlock by (simp add: wake_inv_def)
    qed
  next
    case c_stale
    then show ?thesis using st by (auto simp: wake_inv_def pipe_step_eq consumer_def)
  qed (use w in \<open>auto simp: wake_inv_def\<close>)
qed

lemma pipe_inv_step: "pipe_inv cv n s \<Longrightarrow> pipe_step cv n cap s e = Some t \<Longrightarrow> pipe_inv cv n t"
  unfolding pipe_inv_def
  by (intro conjI; elim conjE)
    (simp_all add: pipe_lock_inv_step pipe_count_inv_step pipe_sum_inv_step pipe_flow_inv_step pipe_end_inv_step pipe_wake_inv_step)

lemma pipe_start_inv: "pipe_inv cv n (sdata n)"
  by (auto simp: pipe_inv_def lock_inv_def count_inv_def sum_inv_def flow_inv_def end_inv_def wake_inv_def
      sdata_def cnt_const p_wrote_def)

interpretation pipe_safe: machine_inv "pipe_step cv n cap" "sdata n" "pipe_inv cv n" for cv n cap
  by unfold_locales (auto intro: pipe_start_inv pipe_inv_step)

section \<open>Termination\<close>

text \<open>With room for all units no \<open>write\<close> fails, and the program with the condition variable ends.\<close>

fun p_failed :: "ppc \<Rightarrow> bool" where
  "p_failed (PUnlock r) = (\<not> r)" | "p_failed (PSignal r) = (\<not> r)" | "p_failed (PExit r) = (\<not> r)"
| "p_failed _ = False"

definition room_inv :: "nat \<Rightarrow> shared_data \<Rightarrow> bool" where
  "room_inv n s \<longleftrightarrow> pipe_inv True n s \<and> (\<forall>j<n. \<not> p_failed (ppc s j))"

fun p_left :: "ppc \<Rightarrow> nat" where
  "p_left PLock = 12" | "p_left PWrite = 11" | "p_left PCount = 5" | "p_left (PUnlock _) = 4"
| "p_left (PSignal _) = 3" | "p_left (PExit _) = 0"

fun c_left :: "cpc \<Rightarrow> nat" where
  "c_left CCheck = 4" | "c_left CUnlock = 3" | "c_left CLock = 2" | "c_left CWake = 2" | "c_left CTest = 1"
| "c_left _ = 0"

definition pipe_mu :: "nat \<Rightarrow> shared_data \<Rightarrow> nat" where
  "pipe_mu n s = (\<Sum>j<n. p_left (ppc s j)) + 5 * length (work_pipe s) + c_left (cpc s)"

definition not_spurious :: "event \<Rightarrow> bool" where
  "not_spurious e \<longleftrightarrow> e \<noteq> Spurious"

lemma p_left_upd:
  fixes n :: nat
  shows "k < n \<Longrightarrow> (\<Sum>j<n. p_left ((f(k := x)) j)) + p_left (f k) = (\<Sum>j<n. p_left (f j)) + p_left x"
  using sum_change [of k n "\<lambda>j. p_left ((f(k := x)) j)" "\<lambda>j. p_left (f j)"] by simp

lemma room_inv_step:
  assumes i: "room_inv n s" and cap: "n \<le> cap" and st: "pipe_step True n cap s e = Some t"
  shows "room_inv n t"
proof -
  have p: "pipe_inv True n s" "\<And>j. j < n \<Longrightarrow> \<not> p_failed (ppc s j)" using i by (simp_all add: room_inv_def)
  have "\<not> p_failed (ppc t j)" if j: "j < n" for j using st
  proof (cases rule: pipe_step_cases)
    case (p_full k)
    have "length (work_pipe s) \<le> cnt p_wrote (ppc s) n" using p(1) by (simp add: pipe_inv_def sum_inv_def)
    moreover have "cnt p_wrote (ppc s) n < n" using p_full by (intro cnt_less [of k]) (simp_all add: p_wrote_def)
    ultimately show ?thesis using p_full cap by simp
  next
    case (p_unlock k r)
    then show ?thesis using p(2) [of k] p(2) [OF j] by auto
  next
    case (p_signal k r)
    then show ?thesis using p(2) [of k] p(2) [OF j] by auto
  next
    case c_stale
    then show ?thesis using p(2) [OF j] st by (auto simp: pipe_step_eq consumer_def)
  qed (use p(2) [OF j] in auto)
  then show ?thesis using pipe_inv_step [OF p(1) st] by (simp add: room_inv_def)
qed

lemma pipe_mu_step:
  assumes i: "room_inv n s" and st: "pipe_step True n cap s e = Some t" "not_spurious e" and cap: "n \<le> cap"
  shows "pipe_mu n t < pipe_mu n s"
  using st(1)
proof (cases rule: pipe_step_cases)
  case (p_lock k)
  then show ?thesis using p_left_upd [of k n "ppc s" PWrite] by (simp add: pipe_mu_def)
next
  case (p_write k)
  then show ?thesis using p_left_upd [of k n "ppc s" PCount] by (simp add: pipe_mu_def)
next
  case (p_full k)
  then show ?thesis using p_left_upd [of k n "ppc s" "PUnlock False"] by (simp add: pipe_mu_def)
next
  case (p_count k)
  then show ?thesis using p_left_upd [of k n "ppc s" "PUnlock True"] by (simp add: pipe_mu_def)
next
  case (p_unlock k r)
  then show ?thesis using p_left_upd [of k n "ppc s" "PSignal r"] by (simp add: pipe_mu_def)
next
  case (p_signal k r)
  then show ?thesis using p_left_upd [of k n "ppc s" "PExit r"] by (simp add: pipe_mu_def)
next
  case c_stale
  then show ?thesis using i by (auto simp: room_inv_def pipe_inv_def flow_inv_def count_inv_def)
next
  case spurious
  then show ?thesis using st(2) by (simp add: not_spurious_def)
qed (auto simp: pipe_mu_def)

lemma lock_holder_moves:
  assumes "lock_inv n s" "mtx s \<noteq> None"
  shows "\<exists>e t. not_spurious e \<and> pipe_step True n cap s e = Some t"
proof -
  obtain j where "mtx s = Some j" using assms(2) by blast
  then consider "j < n" "p_owns (ppc s j)" | "c_owns (cpc s)" using lock_owner(3) [OF assms(1)] by blast
  then show ?thesis
  proof cases
    case 1
    then have "\<exists>t. pipe_step True n cap s (Producer j) = Some t"
      by (cases "ppc s j") (simp_all add: pipe_step_eq producer_def)
    then show ?thesis by (auto simp: not_spurious_def)
  next
    case 2
    then have "\<exists>t. pipe_step True n cap s Consumer = Some t"
      by (cases "cpc s") (simp_all add: pipe_step_eq consumer_def Let_def split: prod.splits)
    then show ?thesis by (auto simp: not_spurious_def)
  qed
qed

lemma producer_moves:
  assumes "k < n" "\<not> (\<exists>r. ppc s k = PExit r)" "mtx s = None"
  shows "\<exists>e t. not_spurious e \<and> pipe_step True n cap s e = Some t"
proof -
  have "\<exists>t. pipe_step True n cap s (Producer k) = Some t" using assms
    by (cases "ppc s k") (simp_all add: pipe_step_eq producer_def mutex_lock_def)
  then show ?thesis by (auto simp: not_spurious_def)
qed

lemma pipe_progress:
  assumes i: "room_inv n s" and n: "0 < n" and d: "cpc s \<noteq> CDone"
  shows "\<exists>e t. not_spurious e \<and> pipe_step True n cap s e = Some t"
proof (cases "mtx s = None")
  case free: True
  show ?thesis
  proof (cases "cpc s = CWait")
    case wait: True
    have p: "count_inv n s" "end_inv n s" "flow_inv s" "wake_inv True n s"
      using i by (simp_all add: room_inv_def pipe_inv_def)
    have "\<exists>k<n. \<not> (\<exists>r. ppc s k = PExit r)"
    proof (rule ccontr)
      assume "\<not> ?thesis"
      then have ex: "\<exists>r. ppc s k = PExit r" if "k < n" for k using that by blast
      have "p_counted (ppc s k)" if k: "k < n" for k
      proof -
        obtain r where "ppc s k = PExit r" using ex k by blast
        moreover have "\<not> p_failed (ppc s k)" using i k by (simp add: room_inv_def)
        ultimately show ?thesis by simp
      qed
      then have "producers s = 0" using p(1) by (simp add: count_inv_def cnt_0_iff)
      moreover have "\<not> finished s" using p(3) wait unfolding flow_inv_def by auto
      ultimately have "0 < avail s" using p(2) n wait by (simp add: end_inv_def)
      then obtain k where "k < n" "p_signals (ppc s k)" using p(4) wait unfolding wake_inv_def by blast
      then show False using ex by force
    qed
    then show ?thesis using producer_moves free by blast
  next
    case False
    then have "\<exists>t. pipe_step True n cap s Consumer = Some t" using d free
      by (cases "cpc s") (simp_all add: pipe_step_eq consumer_def mutex_lock_def Let_def split: prod.splits)
    then show ?thesis by (auto simp: not_spurious_def)
  qed
qed (use lock_holder_moves i in \<open>simp add: room_inv_def pipe_inv_def\<close>)

lemma room_start: "room_inv n (sdata n)"
  using pipe_start_inv by (simp add: room_inv_def sdata_def)

text \<open>The machine of \<open>n + 1\<close> producers and a pipe with room for them all, and \<open>extra\<close> units more.\<close>

interpretation pipe_cv: machine_term "pipe_step True (Suc n) (Suc n + extra)" "sdata (Suc n)" "room_inv (Suc n)"
  not_spurious "\<lambda>s. cpc s = CDone" "pipe_mu (Suc n)" for n extra
proof unfold_locales
  let ?step = "pipe_step True (Suc n) (Suc n + extra)"
  show "room_inv (Suc n) (sdata (Suc n))" by (rule room_start)
  show "room_inv (Suc n) t" if "room_inv (Suc n) s" "?step s e = Some t" for s e t
    using that(1) _ that(2) by (rule room_inv_step) simp
  show "pipe_mu (Suc n) t < pipe_mu (Suc n) s"
    if "room_inv (Suc n) s" "?step s e = Some t" "not_spurious e" for s e t
    by (rule pipe_mu_step [OF that]) simp
  show "\<exists>e t. not_spurious e \<and> ?step s e = Some t" if "room_inv (Suc n) s" "cpc s \<noteq> CDone" for s
    using that(1) _ that(2) by (rule pipe_progress) simp
qed

section \<open>Properties\<close>

lemma expected_sum_eq: "expected_sum n = (\<Sum>j<n. of_nat j)"
  by (induction n) simp_all

text \<open>
  Both programs print the right sum. Whatever the interleaving, the spurious wake-ups and
  the size of the pipe, a main thread that has left its loop has added up every producer's
  unit once; it never reads from the empty pipe, and each unit is in the pipe, read or not
  yet written.
\<close>

theorem pipe_sum:
  assumes "reach (pipe_step cv n cap) (sdata n) s"
  shows "(cpc s = CDone \<longrightarrow> total s = expected_sum n) \<and> (cpc s = CRead \<longrightarrow> work_pipe s \<noteq> [])
    \<and> total s + sum_list (work_pipe s) = (\<Sum>j<n. if p_wrote (ppc s j) then of_nat j else 0)"
proof -
  have i: "count_inv n s" "sum_inv n s" "flow_inv s" using pipe_safe.reach_inv [OF assms] by (simp_all add: pipe_inv_def)
  have s: "total s + sum_list (work_pipe s) = (\<Sum>j<n. if p_wrote (ppc s j) then of_nat j else 0)"
    using i(2) by (simp add: sum_inv_def)
  have "total s = expected_sum n" if "cpc s = CDone"
  proof -
    have "producers s = 0" "avail s = 0" using i(3) that by (auto simp: flow_inv_def)
    then have "cnt (\<lambda>p. \<not> p_counted p) (ppc s) n = 0" using i(1) by (simp add: count_inv_def)
    then have c: "p_counted (ppc s j)" if "j < n" for j using that by (simp add: cnt_0_iff)
    then have "\<not> p_counting (ppc s j)" if "j < n" for j using c [OF that] by (cases "ppc s j") simp_all
    then have "cnt p_counting (ppc s) n = 0" by (simp add: cnt_0_iff)
    then have "work_pipe s = []" using i(1) \<open>avail s = 0\<close> by (simp add: count_inv_def)
    then show ?thesis using s c by (simp add: p_wrote_def expected_sum_eq)
  qed
  moreover have "cpc s = CRead \<longrightarrow> work_pipe s \<noteq> []" using i(1,3) by (auto simp: flow_inv_def count_inv_def)
  ultimately show ?thesis using s by blast
qed

text \<open>
  A producer that finds the pipe full gives its unit up and never counts itself out, so
  the main thread never comes to its end.
\<close>

theorem pipe_full_hangs:
  assumes "reach (pipe_step cv n cap) (sdata n) s" "i < n" "p_failed (ppc s i)"
  shows "cpc s \<noteq> CDone \<and> 0 < producers s"
proof -
  have i: "count_inv n s" "flow_inv s" using pipe_safe.reach_inv [OF assms(1)] by (simp_all add: pipe_inv_def)
  have "\<not> p_counted (ppc s i)" using assms(3) by (cases "ppc s i") simp_all
  then have "0 < producers s" using i(1) assms(2) cnt_pos [of i n "\<lambda>p. \<not> p_counted p" "ppc s"] by (simp add: count_inv_def)
  then show ?thesis using i(2) by (auto simp: flow_inv_def)
qed

text \<open>
  When the pipe has room for all units the program with the condition variable ends: a run
  without spurious wake-ups has at most \<open>12 * n + 2\<close> steps and stops only when the main thread
  has come to its end.
\<close>

theorem pipe_cv_finishes:
  assumes "0 < n" "n \<le> cap" "run (pipe_step True n cap) (sdata n) es = Some s" "list_all not_spurious es"
  shows "length es \<le> 12 * n + 2
    \<and> ((\<forall>e. not_spurious e \<longrightarrow> pipe_step True n cap s e = None) \<longrightarrow> cpc s = CDone)"
proof -
  obtain m extra where n: "n = Suc m" "cap = Suc m + extra"
    using assms(1,2) by (metis gr0_implies_Suc le_add_diff_inverse)
  have "pipe_mu n (sdata n) = 12 * n + 2" by (simp add: pipe_mu_def sdata_def)
  then have "length es \<le> 12 * n + 2" using pipe_cv.runs_bounded [OF assms(4), of m extra s] assms(3) by (simp add: n)
  then show ?thesis using pipe_cv.stuck_final [of m extra s] run_reach [OF assms(3)] unfolding n by blast
qed

text \<open>Two producers; the main thread sleeps until the first one signals.\<close>

definition two_producers :: "event list" where
  "two_producers = [Consumer, Consumer] @ replicate 5 (Producer 1) @ replicate 5 Consumer
     @ replicate 5 (Producer 0) @ replicate 5 Consumer"

theorem pipe_sum_witness:
  "\<exists>s. reach (pipe_step False 2 1) (sdata 2) s \<and> cpc s = CDone \<and> total s = 1"
proof -
  have "\<exists>s. reach (pipe_step False 2 1) (sdata 2) s \<and> cpc s = CDone"
    by (rule run_example [where es = "replicate 4 (Producer 1) @ replicate 5 Consumer
       @ replicate 4 (Producer 0) @ replicate 5 Consumer"]) code_simp
  then obtain s where s: "reach (pipe_step False 2 1) (sdata 2) s" "cpc s = CDone" by blast
  have "total s = 1" using pipe_sum [OF s(1)] s(2) by (simp add: numeral_2_eq_2)
  then show ?thesis using s by blast
qed

theorem pipe_full_hangs_witness:
  "\<exists>s. reach (pipe_step True 2 1) (sdata 2) s \<and> ppc s 0 = PUnlock False \<and> cpc s \<noteq> CDone"
proof -
  have "\<exists>s. reach (pipe_step True 2 1) (sdata 2) s \<and> ppc s 0 = PUnlock False"
    by (rule run_example [where es = "replicate 4 (Producer 1) @ replicate 2 (Producer 0)"]) code_simp
  then obtain s where s: "reach (pipe_step True 2 1) (sdata 2) s" "ppc s 0 = PUnlock False" by blast
  then show ?thesis using pipe_full_hangs [OF s(1), of 0] by auto
qed

theorem pipe_cv_finishes_witness:
  "\<exists>s. run (pipe_step True 2 2) (sdata 2) two_producers = Some s \<and> cpc s = CDone \<and> length two_producers \<le> 26"
proof -
  have "case run (pipe_step True 2 2) (sdata 2) two_producers of None \<Rightarrow> False
      | Some s \<Rightarrow> cpc s = CDone \<and> ppc s 0 = PExit True \<and> ppc s 1 = PExit True"
    by code_simp
  then obtain s where r: "run (pipe_step True 2 2) (sdata 2) two_producers = Some s"
    "cpc s = CDone" "ppc s 0 = PExit True" "ppc s 1 = PExit True" by (auto split: option.splits)
  have "pipe_step True 2 2 s e = None" if "not_spurious e" for e
    using r(2-4) that by (cases e)
      (auto simp: pipe_step_eq consumer_def producer_def not_spurious_def less_2_cases_iff)
  moreover have "list_all not_spurious two_producers" by code_simp
  ultimately show ?thesis using pipe_cv_finishes [OF _ _ r(1)] r(1) by auto
qed

end
