(* ===== verification/Signalling.thy ===== *)
theory Signalling
  imports Threads
begin

text \<open>
  A thread that changes a value and signals a condition variable, and threads that wait for the
  change: thr/signalling\_using\_condition\_variables\_v1.c (one waiter, the main thread) and v2.c
  (a broadcast to any number of waiters), and sync/mutex/03-simple\_cv.c (a signal that each
  waiter passes on). \<open>n\<close> is the number of waiters.
\<close>

section \<open>State and programs\<close>

datatype wpc = WLock | WTest | WWait | WWake | WAfter | WSignal | WUnlock | WDone
datatype spc = SLock | SSet | SSignal | SUnlock | SDone

text \<open>\<open>heard i\<close> is what waiter \<open>i\<close> found the value to be after its wait, which it prints.\<close>

record my_struct =
  mutex :: mutex
  val :: int
  wpc :: "nat \<Rightarrow> wpc"
  spc :: spc
  heard :: "nat \<Rightarrow> int option"

definition data_start :: my_struct where
  "data_start = \<lparr>mutex = None, val = 0, wpc = (\<lambda>_. WLock), spc = SLock, heard = (\<lambda>_. None)\<rparr>"

text \<open>
  How the programs differ: whether a waiter tests again after its wait (\<open>while\<close>) or not
  (\<open>if\<close>), whether it passes the signal on, and whether the signalling thread signals or
  broadcasts.
\<close>

record style =
  loop :: bool
  chain :: bool
  bcast :: bool

definition v1 :: style where "v1 = \<lparr>loop = False, chain = False, bcast = False\<rparr>"
definition v2 :: style where "v2 = \<lparr>loop = False, chain = False, bcast = True\<rparr>"
definition simple_cv :: style where "simple_cv = \<lparr>loop = True, chain = True, bcast = False\<rparr>"

text \<open>
  A signal wakes one of the threads that wait; the event says which. A broadcast wakes them
  all. The signalling thread owns the mutex under the number \<open>n\<close>.
\<close>

definition cond_signal :: "nat \<Rightarrow> nat option \<Rightarrow> my_struct \<Rightarrow> my_struct option" where
  "cond_signal n w s =
     (case w of
        None \<Rightarrow> if list_all (\<lambda>j. wpc s j \<noteq> WWait) [0..<n] then Some s else None
      | Some j \<Rightarrow> if j < n \<and> wpc s j = WWait then Some (s\<lparr>wpc := (wpc s)(j := WWake)\<rparr>) else None)"

definition cond_broadcast :: "nat \<Rightarrow> my_struct \<Rightarrow> my_struct" where
  "cond_broadcast n s = s\<lparr>wpc := (\<lambda>j. if j < n \<and> wpc s j = WWait then WWake else wpc s j)\<rparr>"

definition waiting_thread :: "style \<Rightarrow> nat \<Rightarrow> nat \<Rightarrow> nat option \<Rightarrow> my_struct \<Rightarrow> my_struct option" where
  "waiting_thread st n i w s =
     (case wpc s i of
        WLock \<Rightarrow> map_option (\<lambda>m. s\<lparr>mutex := m, wpc := (wpc s)(i := WTest)\<rparr>) (mutex_lock (mutex s) i)
      | WTest \<Rightarrow> if val s = 0 then Some (s\<lparr>mutex := mutex_unlock (mutex s), wpc := (wpc s)(i := WWait)\<rparr>)
                 else Some (s\<lparr>wpc := (wpc s)(i := WAfter)\<rparr>)
      | WWait \<Rightarrow> None
      | WWake \<Rightarrow> map_option (\<lambda>m. s\<lparr>mutex := m, wpc := (wpc s)(i := (if loop st then WTest else WAfter))\<rparr>)
                  (mutex_lock (mutex s) i)
      | WAfter \<Rightarrow> Some (s\<lparr>heard := (heard s)(i \<mapsto> val s), wpc := (wpc s)(i := (if chain st then WSignal else WUnlock))\<rparr>)
      | WSignal \<Rightarrow> cond_signal n w (s\<lparr>wpc := (wpc s)(i := WUnlock)\<rparr>)
      | WUnlock \<Rightarrow> Some (s\<lparr>mutex := mutex_unlock (mutex s), wpc := (wpc s)(i := WDone)\<rparr>)
      | WDone \<Rightarrow> None)"

definition signalling_thread :: "style \<Rightarrow> nat \<Rightarrow> nat option \<Rightarrow> my_struct \<Rightarrow> my_struct option" where
  "signalling_thread st n w s =
     (case spc s of
        SLock \<Rightarrow> map_option (\<lambda>m. s\<lparr>mutex := m, spc := SSet\<rparr>) (mutex_lock (mutex s) n)
      | SSet \<Rightarrow> Some (s\<lparr>val := 1, spc := SSignal\<rparr>)
      | SSignal \<Rightarrow> if bcast st then Some (cond_broadcast n (s\<lparr>spc := SUnlock\<rparr>))
                   else cond_signal n w (s\<lparr>spc := SUnlock\<rparr>)
      | SUnlock \<Rightarrow> Some (s\<lparr>mutex := mutex_unlock (mutex s), spc := SDone\<rparr>)
      | SDone \<Rightarrow> None)"

text \<open>The threads of the three programs.\<close>

definition v1_main :: "nat option \<Rightarrow> my_struct \<Rightarrow> my_struct option" where
  "v1_main = waiting_thread v1 1 0"

definition v1_my_thread :: "nat option \<Rightarrow> my_struct \<Rightarrow> my_struct option" where
  "v1_my_thread = signalling_thread v1 1"

definition wait_thread :: "nat \<Rightarrow> nat \<Rightarrow> nat option \<Rightarrow> my_struct \<Rightarrow> my_struct option" where
  "wait_thread = waiting_thread simple_cv"

definition signal_thread :: "nat \<Rightarrow> nat option \<Rightarrow> my_struct \<Rightarrow> my_struct option" where
  "signal_thread = signalling_thread simple_cv"

datatype event = Waiter nat "nat option" | Signaller "nat option" | Spurious nat

definition sig_step :: "style \<Rightarrow> nat \<Rightarrow> my_struct \<Rightarrow> event \<Rightarrow> my_struct option" where
  "sig_step st n s e =
     (case e of
        Waiter i w \<Rightarrow> if i < n then waiting_thread st n i w s else None
      | Signaller w \<Rightarrow> signalling_thread st n w s
      | Spurious i \<Rightarrow> if i < n \<and> wpc s i = WWait then Some (s\<lparr>wpc := (wpc s)(i := WWake)\<rparr>) else None)"

lemma sig_step_programs:
  "i < n \<Longrightarrow> sig_step simple_cv n s (Waiter i w) = wait_thread n i w s"
  "sig_step simple_cv n s (Signaller w) = signal_thread n w s"
  "sig_step v1 1 s (Waiter 0 w) = v1_main w s"
  "sig_step v1 1 s (Signaller w) = v1_my_thread w s"
  by (simp_all add: sig_step_def wait_thread_def signal_thread_def v1_main_def v1_my_thread_def)

text \<open>
  The runs in which the waiters that do not test again are only woken up by a signal, and the
  runs with no spurious wake-up at all.
\<close>

definition safe_step :: "style \<Rightarrow> nat \<Rightarrow> my_struct \<Rightarrow> event \<Rightarrow> my_struct option" where
  "safe_step st n s e =
     (case e of Spurious i \<Rightarrow> if loop st then sig_step st n s e else None | _ \<Rightarrow> sig_step st n s e)"

definition quiet_step :: "style \<Rightarrow> nat \<Rightarrow> my_struct \<Rightarrow> event \<Rightarrow> my_struct option" where
  "quiet_step st n s e = (case e of Spurious i \<Rightarrow> None | _ \<Rightarrow> sig_step st n s e)"

section \<open>Steps\<close>

lemma cond_signal_cases:
  assumes "cond_signal n w s = Some t"
  obtains (none) "w = None" "\<And>j. j < n \<Longrightarrow> wpc s j \<noteq> WWait" "t = s"
  | (one) j where "w = Some j" "j < n" "wpc s j = WWait" "t = s\<lparr>wpc := (wpc s)(j := WWake)\<rparr>"
proof (cases w)
  case None
  then have "list_all (\<lambda>j. wpc s j \<noteq> WWait) [0..<n]" "t = s"
    using assms by (auto simp: cond_signal_def split: if_splits)
  then show ?thesis using None by (intro none) (auto simp: list_all_iff)
next
  case (Some j)
  then show ?thesis using assms by (intro one [of j]) (auto simp: cond_signal_def split: if_splits)
qed

lemma sig_step_cases:
  assumes "sig_step st n s e = Some t"
  obtains (w_lock) i w where "e = Waiter i w" "i < n" "wpc s i = WLock" "mutex s = None"
      "t = s\<lparr>mutex := Some i, wpc := (wpc s)(i := WTest)\<rparr>"
  | (w_wait) i w where "e = Waiter i w" "i < n" "wpc s i = WTest" "val s = 0"
      "t = s\<lparr>mutex := None, wpc := (wpc s)(i := WWait)\<rparr>"
  | (w_pass) i w where "e = Waiter i w" "i < n" "wpc s i = WTest" "val s \<noteq> 0"
      "t = s\<lparr>wpc := (wpc s)(i := WAfter)\<rparr>"
  | (w_wake) i w where "e = Waiter i w" "i < n" "wpc s i = WWake" "mutex s = None"
      "t = s\<lparr>mutex := Some i, wpc := (wpc s)(i := (if loop st then WTest else WAfter))\<rparr>"
  | (w_hear) i w where "e = Waiter i w" "i < n" "wpc s i = WAfter"
      "t = s\<lparr>heard := (heard s)(i \<mapsto> val s), wpc := (wpc s)(i := (if chain st then WSignal else WUnlock))\<rparr>"
  | (w_signal) i w where "e = Waiter i w" "i < n" "wpc s i = WSignal"
      "cond_signal n w (s\<lparr>wpc := (wpc s)(i := WUnlock)\<rparr>) = Some t"
  | (w_unlock) i w where "e = Waiter i w" "i < n" "wpc s i = WUnlock"
      "t = s\<lparr>mutex := None, wpc := (wpc s)(i := WDone)\<rparr>"
  | (s_lock) w where "e = Signaller w" "spc s = SLock" "mutex s = None" "t = s\<lparr>mutex := Some n, spc := SSet\<rparr>"
  | (s_set) w where "e = Signaller w" "spc s = SSet" "t = s\<lparr>val := 1, spc := SSignal\<rparr>"
  | (s_bcast) w where "e = Signaller w" "spc s = SSignal" "bcast st" "t = cond_broadcast n (s\<lparr>spc := SUnlock\<rparr>)"
  | (s_signal) w where "e = Signaller w" "spc s = SSignal" "\<not> bcast st" "cond_signal n w (s\<lparr>spc := SUnlock\<rparr>) = Some t"
  | (s_unlock) w where "e = Signaller w" "spc s = SUnlock" "t = s\<lparr>mutex := None, spc := SDone\<rparr>"
  | (spurious) i where "e = Spurious i" "i < n" "wpc s i = WWait" "t = s\<lparr>wpc := (wpc s)(i := WWake)\<rparr>"
proof (cases e)
  case (Waiter i w)
  then have p: "i < n" "waiting_thread st n i w s = Some t" using assms by (auto simp: sig_step_def split: if_splits)
  show ?thesis
  proof (cases "wpc s i")
    case WLock
    then show ?thesis using p Waiter by (intro w_lock [of i w]) (auto simp: waiting_thread_def step_simps)
  next
    case WTest
    show ?thesis
    proof (cases "val s = 0")
      case True
      then show ?thesis using p Waiter WTest by (intro w_wait [of i w]) (auto simp: waiting_thread_def)
    next
      case False
      then show ?thesis using p Waiter WTest by (intro w_pass [of i w]) (auto simp: waiting_thread_def)
    qed
  next
    case WWake
    then show ?thesis using p Waiter by (intro w_wake [of i w]) (auto simp: waiting_thread_def step_simps)
  next
    case WAfter
    then show ?thesis using p Waiter by (intro w_hear [of i w]) (auto simp: waiting_thread_def)
  next
    case WSignal
    then show ?thesis using p Waiter by (intro w_signal [of i w]) (auto simp: waiting_thread_def)
  next
    case WUnlock
    then show ?thesis using p Waiter by (intro w_unlock [of i w]) (auto simp: waiting_thread_def)
  qed (use p in \<open>simp_all add: waiting_thread_def\<close>)
next
  case (Signaller w)
  then have p: "signalling_thread st n w s = Some t" using assms by (simp add: sig_step_def)
  show ?thesis
  proof (cases "spc s")
    case SLock
    then show ?thesis using p Signaller by (intro s_lock [of w]) (auto simp: signalling_thread_def step_simps)
  next
    case SSet
    then show ?thesis using p Signaller by (intro s_set [of w]) (auto simp: signalling_thread_def)
  next
    case SSignal
    show ?thesis
    proof (cases "bcast st")
      case True
      then show ?thesis using p Signaller SSignal by (intro s_bcast [of w]) (auto simp: signalling_thread_def)
    next
      case False
      then show ?thesis using p Signaller SSignal by (intro s_signal [of w]) (auto simp: signalling_thread_def)
    qed
  next
    case SUnlock
    then show ?thesis using p Signaller by (intro s_unlock [of w]) (auto simp: signalling_thread_def)
  qed (use p in \<open>simp_all add: signalling_thread_def\<close>)
next
  case (Spurious i)
  then show ?thesis using assms by (intro spurious [of i]) (auto simp: sig_step_def split: if_splits)
qed

text \<open>What a signal or a broadcast changes.\<close>

definition woken :: "my_struct \<Rightarrow> my_struct \<Rightarrow> bool" where
  "woken s t \<longleftrightarrow> mutex t = mutex s \<and> val t = val s \<and> spc t = spc s \<and> heard t = heard s
     \<and> (\<forall>j. wpc t j = wpc s j \<or> wpc s j = WWait \<and> wpc t j = WWake)"

lemma cond_signal_woken: "cond_signal n w s = Some t \<Longrightarrow> woken s t"
  by (erule cond_signal_cases) (auto simp: woken_def)

lemma cond_broadcast_woken: "woken s (cond_broadcast n s)"
  by (simp add: woken_def cond_broadcast_def)

section \<open>Invariant\<close>

fun w_owns :: "wpc \<Rightarrow> bool" where
  "w_owns WTest = True" | "w_owns WAfter = True" | "w_owns WSignal = True" | "w_owns WUnlock = True"
| "w_owns _ = False"

fun s_owns :: "spc \<Rightarrow> bool" where
  "s_owns SLock = False" | "s_owns SDone = False" | "s_owns _ = True"

fun s_past :: "spc \<Rightarrow> bool" where
  "s_past SLock = False" | "s_past SSet = False" | "s_past _ = True"

fun s_told :: "spc \<Rightarrow> bool" where
  "s_told SUnlock = True" | "s_told SDone = True" | "s_told _ = False"

fun w_told :: "wpc \<Rightarrow> bool" where
  "w_told WSignal = True" | "w_told WUnlock = True" | "w_told WDone = True" | "w_told _ = False"

definition w_passed :: "style \<Rightarrow> wpc \<Rightarrow> bool" where
  "w_passed st p \<longleftrightarrow> p = WAfter \<or> w_told p \<or> p = WWake \<and> \<not> loop st"

text \<open>A thread that is awake and will still signal, if the style has it.\<close>

fun w_active :: "wpc \<Rightarrow> bool" where
  "w_active WWait = False" | "w_active WUnlock = False" | "w_active WDone = False" | "w_active _ = True"

definition lock_inv :: "nat \<Rightarrow> my_struct \<Rightarrow> bool" where
  "lock_inv n s \<longleftrightarrow> (\<forall>j. mutex s = Some j \<longleftrightarrow> j < n \<and> w_owns (wpc s j) \<or> j = n \<and> s_owns (spc s))"

definition value_inv :: "style \<Rightarrow> nat \<Rightarrow> my_struct \<Rightarrow> bool" where
  "value_inv st n s \<longleftrightarrow> val s = (if s_past (spc s) then 1 else 0)
     \<and> (\<forall>i<n. w_passed st (wpc s i) \<longrightarrow> val s = 1) \<and> (\<forall>i<n. w_told (wpc s i) \<longrightarrow> heard s i = Some 1)"

text \<open>The styles and numbers of waiters for which every waiter gets a signal.\<close>

definition reaches_all :: "style \<Rightarrow> nat \<Rightarrow> bool" where
  "reaches_all st n \<longleftrightarrow> bcast st \<or> chain st \<or> n \<le> 1"

definition asleep_inv :: "style \<Rightarrow> nat \<Rightarrow> my_struct \<Rightarrow> bool" where
  "asleep_inv st n s \<longleftrightarrow> reaches_all st n \<longrightarrow> s_told (spc s) \<longrightarrow> (\<exists>i<n. wpc s i = WWait)
     \<longrightarrow> chain st \<and> (\<exists>i<n. w_active (wpc s i))"

definition sig_inv :: "style \<Rightarrow> nat \<Rightarrow> my_struct \<Rightarrow> bool" where
  "sig_inv st n s \<longleftrightarrow> lock_inv n s \<and> value_inv st n s \<and> asleep_inv st n s"

lemma woken_lock:
  assumes "woken s t"
  shows "lock_inv n t = lock_inv n s"
proof -
  have "w_owns (wpc t j) = w_owns (wpc s j)" for j
    using assms unfolding woken_def by (metis w_owns.simps(6,7))
  then show ?thesis using assms by (simp add: woken_def lock_inv_def)
qed

lemma sig_lock_inv_step:
  assumes i: "lock_inv n s" and st: "sig_step st n s e = Some t"
  shows "lock_inv n t"
proof -
  have m: "mutex s = Some j \<longleftrightarrow> j < n \<and> w_owns (wpc s j) \<or> j = n \<and> s_owns (spc s)" for j
    using i unfolding lock_inv_def by blast
  have free: "\<not> s_owns (spc s)" "\<And>j. j < n \<Longrightarrow> j \<noteq> i \<Longrightarrow> \<not> w_owns (wpc s j)"
    if "i < n" "w_owns (wpc s i)" for i
  proof -
    have o: "mutex s = Some i" using m that by simp
    show "\<not> s_owns (spc s)" using m [of n] o that by auto
    show "\<not> w_owns (wpc s j)" if "j < n" "j \<noteq> i" for j using m [of j] o that by auto
  qed
  show ?thesis using st
  proof (cases rule: sig_step_cases)
    case (w_wait i w)
    then show ?thesis using free [of i] by (auto simp: lock_inv_def)
  next
    case (w_unlock i w)
    then show ?thesis using free [of i] by (auto simp: lock_inv_def)
  next
    case (w_signal i w)
    have "lock_inv n (s\<lparr>wpc := (wpc s)(i := WUnlock)\<rparr>)" using m w_signal by (auto simp: lock_inv_def)
    then show ?thesis using woken_lock [OF cond_signal_woken [OF w_signal(4)]] by simp
  next
    case (s_bcast w)
    have "lock_inv n (s\<lparr>spc := SUnlock\<rparr>)" using m s_bcast by (auto simp: lock_inv_def)
    then show ?thesis using woken_lock [OF cond_broadcast_woken] s_bcast(4) by simp
  next
    case (s_signal w)
    have "lock_inv n (s\<lparr>spc := SUnlock\<rparr>)" using m s_signal by (auto simp: lock_inv_def)
    then show ?thesis using woken_lock [OF cond_signal_woken [OF s_signal(4)]] by simp
  next
    case (s_unlock w)
    have o: "mutex s = Some n" using m s_unlock by simp
    then have "\<not> w_owns (wpc s j)" if "j < n" for j using m [of j] that by auto
    then show ?thesis using s_unlock by (auto simp: lock_inv_def)
  qed (use m in \<open>auto simp: lock_inv_def\<close>)
qed

lemma woken_value: "woken s t \<Longrightarrow> val s = 1 \<Longrightarrow> value_inv st n s \<Longrightarrow> value_inv st n t"
  unfolding woken_def value_inv_def by (metis w_told.simps(7))

lemma value_inv_step:
  assumes i: "value_inv st n s" and st: "safe_step st n s e = Some t"
  shows "value_inv st n t"
proof -
  have v: "val s = (if s_past (spc s) then 1 else 0)" "\<And>i. i < n \<Longrightarrow> w_passed st (wpc s i) \<Longrightarrow> val s = 1"
    "\<And>i. i < n \<Longrightarrow> w_told (wpc s i) \<Longrightarrow> heard s i = Some 1"
    using i unfolding value_inv_def by blast+
  have vs: "\<And>i. i < n \<Longrightarrow> wpc s i = WAfter \<Longrightarrow> val s = 1" "\<And>i. i < n \<Longrightarrow> w_told (wpc s i) \<Longrightarrow> val s = 1"
    "\<And>i. i < n \<Longrightarrow> wpc s i = WWake \<Longrightarrow> loop st \<or> val s = 1"
    using v(2) by (auto simp: w_passed_def)
  have step: "sig_step st n s e = Some t" "\<And>i. e = Spurious i \<Longrightarrow> loop st"
    using st by (auto simp: safe_step_def split: event.splits if_splits)
  show ?thesis using step(1)
  proof (cases rule: sig_step_cases)
    case (w_pass i w)
    then show ?thesis using v(1,3) vs by (auto simp: value_inv_def w_passed_def split: if_splits)
  next
    case (w_wake i w)
    then show ?thesis using v(1,3) vs by (auto simp: value_inv_def w_passed_def)
  next
    case (w_hear i w)
    then have "val s = 1" using v(2) [of i] by (simp add: w_passed_def)
    then show ?thesis using v(1,3) vs w_hear by (auto simp: value_inv_def w_passed_def)
  next
    case (w_signal i w)
    have "val s = 1" using v(2) [of i] w_signal by (simp add: w_passed_def)
    then have "value_inv st n (s\<lparr>wpc := (wpc s)(i := WUnlock)\<rparr>)" using v w_signal by (auto simp: value_inv_def)
    then show ?thesis using woken_value [OF cond_signal_woken [OF w_signal(4)]] \<open>val s = 1\<close> by simp
  next
    case (s_bcast w)
    have "value_inv st n (s\<lparr>spc := SUnlock\<rparr>)" "val s = 1" using v s_bcast by (auto simp: value_inv_def)
    then show ?thesis using woken_value [OF cond_broadcast_woken] s_bcast(4) by simp
  next
    case (s_signal w)
    have "value_inv st n (s\<lparr>spc := SUnlock\<rparr>)" "val s = 1" using v s_signal by (auto simp: value_inv_def)
    then show ?thesis using woken_value [OF cond_signal_woken [OF s_signal(4)]] by simp
  next
    case (spurious i)
    then show ?thesis using v(1,3) vs step(2) by (auto simp: value_inv_def w_passed_def)
  qed (use v(1,3) vs in \<open>auto simp: value_inv_def w_passed_def\<close>)
qed

lemma active_other: "\<exists>j<n. w_active (f j) \<Longrightarrow> \<not> w_active (f k) \<Longrightarrow> \<exists>j<n. w_active ((f(k := x)) j)"
  by (metis fun_upd_other)

lemma active_here: "k < n \<Longrightarrow> w_active x \<Longrightarrow> \<exists>j<n. w_active ((f(k := x)) j)"
  by (metis fun_upd_same)

lemma waiting_less: "\<exists>j<n. (f(k := x)) j = WWait \<Longrightarrow> x \<noteq> WWait \<Longrightarrow> \<exists>j<n. f j = WWait"
  by (metis fun_upd_apply)

lemma asleep_inv_step:
  assumes i: "asleep_inv st n s" "value_inv st n s" and st: "sig_step st n s e = Some t"
  shows "asleep_inv st n t"
proof -
  have a: "chain st \<and> (\<exists>i<n. w_active (wpc s i))"
    if "reaches_all st n" "s_told (spc s)" "\<exists>i<n. wpc s i = WWait"
    using i(1) that unfolding asleep_inv_def by blast
  have v: "s_told (spc s) \<Longrightarrow> val s = 1" using i(2) by (cases "spc s") (auto simp: value_inv_def)
  have here: "?thesis" if "spc t = spc s" "wpc t = (wpc s)(k := x)" "x \<noteq> WWait" "k < n" "w_active x" for k x
    unfolding asleep_inv_def that(1,2)
    using a waiting_less [of n "wpc s" k x] active_here [of k n x "wpc s"] that(3-5) by blast
  have other: "?thesis" if "spc t = spc s" "wpc t = (wpc s)(k := x)" "x \<noteq> WWait" "\<not> w_active (wpc s k)" for k x
    unfolding asleep_inv_def that(1,2)
    using a waiting_less [of n "wpc s" k x] active_other [of n "wpc s" k x] that(3,4) by blast
  show ?thesis using st
  proof (cases rule: sig_step_cases)
    case (w_lock k w)
    then show ?thesis by (intro here [of k WTest]) simp_all
  next
    case (w_wait k w)
    then have "\<not> s_told (spc s)" using v by auto
    then show ?thesis using w_wait by (simp add: asleep_inv_def)
  next
    case (w_pass k w)
    then show ?thesis by (intro here [of k WAfter]) simp_all
  next
    case (w_wake k w)
    then show ?thesis by (intro here [of k "if loop st then WTest else WAfter"]) simp_all
  next
    case (w_hear k w)
    show ?thesis
    proof (cases "chain st")
      case True
      then show ?thesis using w_hear by (intro here [of k WSignal]) simp_all
    next
      case False
      then show ?thesis using a w_hear waiting_less [of n "wpc s" k WUnlock] by (auto simp: asleep_inv_def)
    qed
  next
    case (w_signal k w)
    show ?thesis using w_signal(4)
    proof (cases rule: cond_signal_cases)
      case none
      then have "wpc t j \<noteq> WWait" if "j < n" for j using that by simp
      then show ?thesis by (auto simp: asleep_inv_def)
    next
      case (one j)
      then have "w_active (wpc t j)" by simp
      moreover have "\<exists>i<n. wpc s i = WWait" using one w_signal(3) by (auto split: if_splits)
      moreover have "spc t = spc s" using one by simp
      ultimately have "chain st \<and> w_active (wpc t j)" if "reaches_all st n" "s_told (spc t)"
        using a that by auto
      then show ?thesis using one(2) unfolding asleep_inv_def by blast
    qed
  next
    case (w_unlock k w)
    then show ?thesis by (intro other [of k WDone]) simp_all
  next
    case (s_bcast w)
    then show ?thesis by (auto simp: asleep_inv_def cond_broadcast_def)
  next
    case (s_signal w)
    show ?thesis using s_signal(4)
    proof (cases rule: cond_signal_cases)
      case none
      then have "wpc t j \<noteq> WWait" if "j < n" for j using that by simp
      then show ?thesis by (auto simp: asleep_inv_def)
    next
      case (one j)
      have "w_active (wpc t j)" using one by simp
      moreover have "\<not> (\<exists>i<n. wpc t i = WWait)" if "n \<le> 1"
      proof -
        have "j = 0" "n = 1" using that one(2) by simp_all
        then show ?thesis using one by simp
      qed
      ultimately show ?thesis using s_signal(3) one(2) unfolding asleep_inv_def reaches_all_def by blast
    qed
  next
    case (spurious k)
    then show ?thesis by (intro here [of k WWake]) simp_all
  qed (use a in \<open>auto simp: asleep_inv_def\<close>)
qed

lemma safe_step_sig: "safe_step st n s e = Some t \<Longrightarrow> sig_step st n s e = Some t"
  by (auto simp: safe_step_def split: event.splits if_splits)

lemma sig_inv_step: "sig_inv st n s \<Longrightarrow> safe_step st n s e = Some t \<Longrightarrow> sig_inv st n t"
  unfolding sig_inv_def using sig_lock_inv_step value_inv_step asleep_inv_step safe_step_sig by meson

lemma data_start_inv: "sig_inv st n data_start"
  by (simp add: sig_inv_def lock_inv_def value_inv_def asleep_inv_def data_start_def w_passed_def)

interpretation signal_safe: machine_inv "safe_step st n" data_start "sig_inv st n" for st n
  by unfold_locales (auto intro: data_start_inv sig_inv_step)

section \<open>Termination\<close>

definition quiet_inv :: "style \<Rightarrow> nat \<Rightarrow> my_struct \<Rightarrow> bool" where
  "quiet_inv st n s \<longleftrightarrow> sig_inv st n s \<and> (\<forall>i<n. wpc s i = WWake \<longrightarrow> val s = 1)"

fun w_left :: "bool \<Rightarrow> wpc \<Rightarrow> nat" where
  "w_left v WLock = 8" | "w_left v WTest = (if v then 4 else 7)" | "w_left v WWait = 6" | "w_left v WWake = 5"
| "w_left v WAfter = 3" | "w_left v WSignal = 2" | "w_left v WUnlock = 1" | "w_left v WDone = 0"

fun s_left :: "spc \<Rightarrow> nat" where
  "s_left SLock = 4" | "s_left SSet = 3" | "s_left SSignal = 2" | "s_left SUnlock = 1" | "s_left SDone = 0"

definition sig_mu :: "nat \<Rightarrow> my_struct \<Rightarrow> nat" where
  "sig_mu n s = (\<Sum>j<n. w_left (val s \<noteq> 0) (wpc s j)) + s_left (spc s)"

definition all_done :: "nat \<Rightarrow> my_struct \<Rightarrow> bool" where
  "all_done n s \<longleftrightarrow> spc s = SDone \<and> (\<forall>i<n. wpc s i = WDone)"

lemma quiet_step_cases:
  "quiet_step st n s e = Some t \<Longrightarrow> safe_step st n s e = Some t \<and> sig_step st n s e = Some t \<and> (\<forall>i. e \<noteq> Spurious i)"
  by (cases e) (simp_all add: quiet_step_def safe_step_def)

lemma w_left_upd:
  fixes n :: nat
  shows "k < n \<Longrightarrow> (\<Sum>j<n. w_left v ((f(k := x)) j)) + w_left v (f k) = (\<Sum>j<n. w_left v (f j)) + w_left v x"
  using sum_change [of k n "\<lambda>j. w_left v ((f(k := x)) j)" "\<lambda>j. w_left v (f j)"] by simp

lemma woken_mu: "woken s t \<Longrightarrow> sig_mu n t \<le> sig_mu n s"
proof -
  assume w: "woken s t"
  then have "w_left (val t \<noteq> 0) (wpc t j) \<le> w_left (val s \<noteq> 0) (wpc s j)" for j
  proof -
    have "wpc t j = wpc s j \<or> wpc s j = WWait \<and> wpc t j = WWake" using w unfolding woken_def by blast
    then show ?thesis using w by (elim disjE) (simp_all add: woken_def)
  qed
  then show ?thesis unfolding sig_mu_def using w by (intro add_mono sum_mono) (auto simp: woken_def)
qed

lemma w_left_value: "w_left True p \<le> w_left v p"
  by (cases p) simp_all

lemma sig_mu_step:
  assumes "quiet_inv st n s" "quiet_step st n s e = Some t"
  shows "sig_mu n t < sig_mu n s"
proof -
  have i: "wpc s k = WWake \<Longrightarrow> val s = 1" if "k < n" for k using assms(1) that by (simp add: quiet_inv_def)
  have st: "sig_step st n s e = Some t" "\<And>k. e \<noteq> Spurious k" using quiet_step_cases [OF assms(2)] by blast+
  show ?thesis using st(1)
  proof (cases rule: sig_step_cases)
    case (w_lock k w)
    then show ?thesis using w_left_upd [of k n "val s \<noteq> 0" "wpc s" WTest] by (simp add: sig_mu_def split: if_splits)
  next
    case (w_wait k w)
    then show ?thesis using w_left_upd [of k n "val s \<noteq> 0" "wpc s" WWait] by (simp add: sig_mu_def)
  next
    case (w_pass k w)
    then show ?thesis using w_left_upd [of k n "val s \<noteq> 0" "wpc s" WAfter] by (simp add: sig_mu_def)
  next
    case (w_wake k w)
    then show ?thesis using i [of k] w_left_upd [of k n True "wpc s" WTest] w_left_upd [of k n True "wpc s" WAfter]
      by (simp add: sig_mu_def)
  next
    case (w_hear k w)
    then show ?thesis using w_left_upd [of k n "val s \<noteq> 0" "wpc s" "if chain st then WSignal else WUnlock"]
      by (simp add: sig_mu_def split: if_splits)
  next
    case (w_signal k w)
    then show ?thesis using w_left_upd [of k n "val s \<noteq> 0" "wpc s" WUnlock]
      woken_mu [OF cond_signal_woken [OF w_signal(4)], of n] by (simp add: sig_mu_def)
  next
    case (w_unlock k w)
    then show ?thesis using w_left_upd [of k n "val s \<noteq> 0" "wpc s" WDone] by (simp add: sig_mu_def)
  next
    case (s_set w)
    have "(\<Sum>j<n. w_left True (wpc s j)) \<le> (\<Sum>j<n. w_left (val s \<noteq> 0) (wpc s j))"
      by (intro sum_mono w_left_value)
    then show ?thesis using s_set by (simp add: sig_mu_def)
  next
    case (s_bcast w)
    have "sig_mu n (s\<lparr>spc := SUnlock\<rparr>) < sig_mu n s" using s_bcast by (simp add: sig_mu_def)
    then show ?thesis using woken_mu [OF cond_broadcast_woken [of "s\<lparr>spc := SUnlock\<rparr>" n], of n] s_bcast(4) by simp
  next
    case (s_signal w)
    have "sig_mu n (s\<lparr>spc := SUnlock\<rparr>) < sig_mu n s" using s_signal by (simp add: sig_mu_def)
    then show ?thesis using woken_mu [OF cond_signal_woken [OF s_signal(4)], of n] by simp
  next
    case (spurious k)
    then show ?thesis using st(2) by simp
  qed (auto simp: sig_mu_def)
qed

lemma quiet_inv_step:
  assumes "quiet_inv st n s" "quiet_step st n s e = Some t"
  shows "quiet_inv st n t"
proof -
  have st: "safe_step st n s e = Some t" "sig_step st n s e = Some t" "\<And>k. e \<noteq> Spurious k"
    using quiet_step_cases [OF assms(2)] by blast+
  have q: "sig_inv st n s" "\<And>k. k < n \<Longrightarrow> wpc s k = WWake \<Longrightarrow> val s = 1"
    using assms(1) by (simp_all add: quiet_inv_def)
  have v: "\<And>k. k < n \<Longrightarrow> w_passed st (wpc s k) \<Longrightarrow> val s = 1" "s_past (spc s) \<Longrightarrow> val s = 1"
    using q(1) by (auto simp only: sig_inv_def value_inv_def if_True)
  have "val t = 1" if k: "k < n" "wpc t k = WWake" for k using st(2)
  proof (cases rule: sig_step_cases)
    case (w_signal i w)
    then show ?thesis using v(1) [of i] cond_signal_woken [OF w_signal(4)] by (simp add: w_passed_def woken_def)
  next
    case (s_bcast w)
    then show ?thesis using v(2) by (simp add: cond_broadcast_def)
  next
    case (s_signal w)
    then show ?thesis using v(2) cond_signal_woken [OF s_signal(4)] by (simp add: woken_def)
  next
    case (spurious i)
    then show ?thesis using st(3) by simp
  qed (use q(2) [OF k(1)] k in \<open>auto split: if_splits\<close>)
  then show ?thesis using sig_inv_step [OF q(1) st(1)] by (simp add: quiet_inv_def)
qed

lemma cond_signal_possible: "\<exists>w t. cond_signal n w s = Some t"
proof (cases "list_all (\<lambda>j. wpc s j \<noteq> WWait) [0..<n]")
  case True
  then show ?thesis by (intro exI [of _ None]) (simp add: cond_signal_def)
next
  case False
  then obtain j where "j < n" "wpc s j = WWait" by (auto simp: list_all_iff)
  then show ?thesis by (intro exI [of _ "Some j"]) (simp add: cond_signal_def)
qed

lemma waiter_moves:
  assumes "i < n" "w_owns (wpc s i) \<or> mutex s = None \<and> (wpc s i = WLock \<or> wpc s i = WWake)"
  shows "\<exists>e t. quiet_step st n s e = Some t"
proof -
  have "\<exists>w t. waiting_thread st n i w s = Some t"
    using assms(2) cond_signal_possible by (cases "wpc s i") (auto simp: waiting_thread_def mutex_lock_def)
  then obtain w t where "waiting_thread st n i w s = Some t" by blast
  then have "quiet_step st n s (Waiter i w) = Some t" using assms(1) by (simp add: quiet_step_def sig_step_def)
  then show ?thesis by blast
qed

lemma signaller_moves:
  assumes "s_owns (spc s) \<or> mutex s = None \<and> spc s = SLock"
  shows "\<exists>e t. quiet_step st n s e = Some t"
proof -
  have "\<exists>w t. signalling_thread st n w s = Some t"
    using assms cond_signal_possible by (cases "spc s") (auto simp: signalling_thread_def mutex_lock_def)
  then obtain w t where "signalling_thread st n w s = Some t" by blast
  then have "quiet_step st n s (Signaller w) = Some t" by (simp add: quiet_step_def sig_step_def)
  then show ?thesis by blast
qed

lemma sig_progress:
  assumes i: "sig_inv st n s" and r: "reaches_all st n" and d: "\<not> all_done n s"
  shows "\<exists>e t. quiet_step st n s e = Some t"
proof (cases "mutex s")
  case (Some j)
  then have "j < n \<and> w_owns (wpc s j) \<or> j = n \<and> s_owns (spc s)"
    using i unfolding sig_inv_def lock_inv_def by blast
  then show ?thesis using waiter_moves signaller_moves by blast
next
  case None
  then have no: "\<not> s_owns (spc s)" "\<And>j. j < n \<Longrightarrow> \<not> w_owns (wpc s j)"
    using i unfolding sig_inv_def lock_inv_def by (metis option.distinct(1))+
  show ?thesis
  proof (cases "spc s = SLock")
    case True
    then show ?thesis using None signaller_moves by blast
  next
    case False
    then have s: "spc s = SDone" using no(1) by (cases "spc s") simp_all
    then obtain k where k: "k < n" "wpc s k \<noteq> WDone" using d by (auto simp: all_done_def)
    have "\<exists>k<n. wpc s k = WLock \<or> wpc s k = WWake"
    proof (cases "wpc s k = WWait")
      case True
      then obtain j where "j < n" "w_active (wpc s j)"
        using i r s k(1) unfolding sig_inv_def asleep_inv_def by auto
      then show ?thesis using no(2) [of j] by (intro exI [of _ j]) (cases "wpc s j"; simp)
    next
      case False
      then show ?thesis using no(2) [OF k(1)] k by (intro exI [of _ k]) (cases "wpc s k"; simp)
    qed
    then show ?thesis using None waiter_moves by blast
  qed
qed

lemma quiet_start: "quiet_inv st n data_start"
  using data_start_inv by (simp add: quiet_inv_def data_start_def)

interpretation signals: machine_term "quiet_step st n" data_start "quiet_inv st n" "\<lambda>_. True"
  "\<lambda>s. reaches_all st n \<longrightarrow> all_done n s" "sig_mu n" for st n
proof unfold_locales
  show "quiet_inv st n data_start" by (rule quiet_start)
  show "quiet_inv st n t" if "quiet_inv st n s" "quiet_step st n s e = Some t" for s e t
    using that by (rule quiet_inv_step)
  show "sig_mu n t < sig_mu n s" if "quiet_inv st n s" "quiet_step st n s e = Some t" for s e t
    using that by (rule sig_mu_step)
  show "\<exists>e t. True \<and> quiet_step st n s e = Some t"
    if "quiet_inv st n s" "\<not> (reaches_all st n \<longrightarrow> all_done n s)" for s
    using that sig_progress [of st n s] by (simp add: quiet_inv_def)
qed

section \<open>Properties\<close>

text \<open>
  In all three programs a waiter that has come through its wait has found the value
  changed, if waiters that do not test again are woken by signals only; a \<open>while\<close> makes
  this true whatever wakes the waiter up.
\<close>

theorem waiters_hear:
  assumes "reach (safe_step st n) data_start s" "i < n" "wpc s i = WDone"
  shows "heard s i = Some 1"
  using signal_safe.reach_inv [OF assms(1)] assms(2,3) by (simp add: sig_inv_def value_inv_def)

text \<open>
  No waiter is left behind: with a broadcast, with a signal that each waiter passes on, or
  with one waiter, a run without spurious wake-ups has at most \<open>8 * n + 4\<close> steps and stops
  only when every thread has ended, each waiter having found the value changed.
\<close>

theorem waiters_finish:
  assumes "run (quiet_step st n) data_start es = Some s" "st = v2 \<or> st = simple_cv \<or> st = v1 \<and> n = 1"
  shows "length es \<le> 8 * n + 4 \<and> ((\<forall>e. quiet_step st n s e = None) \<longrightarrow>
    all_done n s \<and> (\<forall>i<n. heard s i = Some 1))"
proof -
  have r: "reaches_all st n" using assms(2) by (auto simp: reaches_all_def v1_def v2_def simple_cv_def)
  have "sig_mu n data_start = 8 * n + 4" by (simp add: sig_mu_def data_start_def)
  then have "length es \<le> 8 * n + 4" using signals.runs_bounded [OF _ assms(1)] by (simp add: list_all_iff)
  moreover have q: "quiet_inv st n s" using signals.run_inv [OF assms(1)] .
  then have "all_done n s" if "\<forall>e. quiet_step st n s e = None"
    using signals.stuck_final [OF run_reach [OF assms(1)]] that r by blast
  moreover have "heard s i = Some 1" if "all_done n s" "i < n" for i
    using q that by (simp add: quiet_inv_def sig_inv_def value_inv_def all_done_def)
  ultimately show ?thesis by blast
qed

text \<open>
  A waiter without a loop that is woken up by nobody goes on with the old value: the main
  thread of v1 then says nothing of a signal.
\<close>

theorem spurious_waiter:
  "\<exists>s. reach (sig_step v1 1) data_start s \<and> wpc s 0 = WDone \<and> heard s 0 = Some 0"
  by (rule run_example [where es = "[Waiter 0 None, Waiter 0 None, Spurious 0, Waiter 0 None, Waiter 0 None,
      Waiter 0 None]"]) code_simp

text \<open>Two waiters of simple\_cv: the first passes the signal on.\<close>

definition pass_on :: "event list" where
  "pass_on = [Waiter 0 None, Waiter 0 None, Waiter 1 None, Waiter 1 None] @ replicate 2 (Signaller None)
     @ [Signaller (Some 1), Signaller None] @ replicate 3 (Waiter 1 None) @ [Waiter 1 (Some 0), Waiter 1 None]
     @ replicate 5 (Waiter 0 None)"

theorem waiters_finish_witness:
  "\<exists>s. run (quiet_step simple_cv 2) data_start pass_on = Some s \<and> length pass_on \<le> 20 \<and> heard s 0 = Some 1"
proof -
  have "case run (quiet_step simple_cv 2) data_start pass_on of None \<Rightarrow> False
      | Some s \<Rightarrow> spc s = SDone \<and> wpc s 0 = WDone \<and> wpc s 1 = WDone"
    by code_simp
  then obtain s where r: "run (quiet_step simple_cv 2) data_start pass_on = Some s"
    "spc s = SDone" "wpc s 0 = WDone" "wpc s 1 = WDone" by (auto split: option.splits)
  have "quiet_step simple_cv 2 s e = None" for e
    using r(2-4) by (cases e)
      (auto simp: quiet_step_def sig_step_def waiting_thread_def signalling_thread_def less_2_cases_iff)
  then show ?thesis using waiters_finish [OF r(1)] r(1) by auto
qed

theorem waiters_hear_witness:
  "\<exists>s. reach (safe_step v1 1) data_start s \<and> heard s 0 = Some 1"
proof -
  have "\<exists>s. reach (safe_step v1 1) data_start s \<and> wpc s 0 = WDone"
    by (rule run_example [where es = "[Waiter 0 None, Waiter 0 None, Signaller None, Signaller None,
        Signaller (Some 0), Signaller None, Waiter 0 None, Waiter 0 None, Waiter 0 None]"]) code_simp
  then obtain s where s: "reach (safe_step v1 1) data_start s" "wpc s 0 = WDone" by blast
  then show ?thesis using waiters_hear [OF s(1), of 0] by auto
qed

end
