(* ===== verification/Handshakes.thy ===== *)
theory Handshakes
  imports Threads CString
begin

text \<open>
  Two threads or processes that wait for each other: with a semaphore and a mutex
  (thr/signalling\_using\_semaphores.c and sync/sem/01-signaling\_semaphore.c), with two pipes
  (pipes/sync\_with\_pipes.c), and a parent that waits for its children with one pipe
  (pipes/barrier\_sync\_with\_pipes.c).
\<close>

section \<open>A semaphore and a mutex\<close>

datatype mpc = MLock | MTest | MRelease | MWait | MRelock | MCheck | MUnlock | MJoin | MDone
datatype tpc = TLock | TSet | TUnlock | TPost | TExit

text \<open>\<open>told\<close> is whether the main thread has printed that the change was signalled.\<close>

record signal =
  active :: int
  mutex :: mutex
  semaphore :: nat
  mpc :: mpc
  tpc :: tpc
  told :: bool

definition signal_start :: signal where
  "signal_start = \<lparr>active = 0, mutex = None, semaphore = 0, mpc = MLock, tpc = TLock, told = False\<rparr>"

datatype event = Main | Thread

instantiation event :: enum
begin

definition enum_event :: "event list" where
  "enum_event = [Main, Thread]"

definition enum_all_event :: "(event \<Rightarrow> bool) \<Rightarrow> bool" where
  "enum_all_event P \<longleftrightarrow> P Main \<and> P Thread"

definition enum_ex_event :: "(event \<Rightarrow> bool) \<Rightarrow> bool" where
  "enum_ex_event P \<longleftrightarrow> P Main \<or> P Thread"

instance
proof
  show "(UNIV :: event set) = set enum_class.enum" by (auto simp: enum_event_def intro: event.exhaust)
  show "distinct (enum_class.enum :: event list)" by (simp add: enum_event_def)
  show "enum_class.enum_all P = Ball UNIV P" for P :: "event \<Rightarrow> bool"
    unfolding enum_all_event_def by (metis UNIV_I event.exhaust)
  show "enum_class.enum_ex P = Bex UNIV P" for P :: "event \<Rightarrow> bool"
    unfolding enum_ex_event_def by (metis UNIV_I event.exhaust)
qed

end

text \<open>The main thread owns the mutex under the number 0, the other thread under 1.\<close>

definition my_thread :: "signal \<Rightarrow> signal option" where
  "my_thread s =
     (case tpc s of
        TLock \<Rightarrow> map_option (\<lambda>m. s\<lparr>mutex := m, tpc := TSet\<rparr>) (mutex_lock (mutex s) 1)
      | TSet \<Rightarrow> Some (s\<lparr>active := 1, tpc := TUnlock\<rparr>)
      | TUnlock \<Rightarrow> Some (s\<lparr>mutex := mutex_unlock (mutex s), tpc := TPost\<rparr>)
      | TPost \<Rightarrow> Some (s\<lparr>semaphore := sem_post (semaphore s), tpc := TExit\<rparr>)
      | TExit \<Rightarrow> None)"

text \<open>What the main threads of the two programs share; \<open>again\<close> and \<open>passed\<close> are where they differ.\<close>

definition signal_main :: "mpc \<Rightarrow> mpc \<Rightarrow> signal \<Rightarrow> signal option" where
  "signal_main again passed s =
     (case mpc s of
        MLock \<Rightarrow> map_option (\<lambda>m. s\<lparr>mutex := m, mpc := MTest\<rparr>) (mutex_lock (mutex s) 0)
      | MTest \<Rightarrow> Some (s\<lparr>mpc := (if active s = 0 then MRelease else passed)\<rparr>)
      | MRelease \<Rightarrow> Some (s\<lparr>mutex := mutex_unlock (mutex s), mpc := MWait\<rparr>)
      | MWait \<Rightarrow> map_option (\<lambda>v. s\<lparr>semaphore := v, mpc := MRelock\<rparr>) (sem_wait (semaphore s))
      | MRelock \<Rightarrow> map_option (\<lambda>m. s\<lparr>mutex := m, mpc := again\<rparr>) (mutex_lock (mutex s) 0)
      | MCheck \<Rightarrow> Some (s\<lparr>told := (active s \<noteq> 0), mpc := MUnlock\<rparr>)
      | MUnlock \<Rightarrow> Some (s\<lparr>mutex := mutex_unlock (mutex s), mpc := MJoin\<rparr>)
      | MJoin \<Rightarrow> if tpc s = TExit then Some (s\<lparr>mpc := MDone\<rparr>) else None
      | MDone \<Rightarrow> None)"

text \<open>
  01-signaling\_semaphore.c tests again in a loop; signalling\_using\_semaphores.c has an \<open>if\<close> that
  releases the mutex only when it waits, and locks the mutex after it in cases.
\<close>

definition loop_main :: "signal \<Rightarrow> signal option" where
  "loop_main = signal_main MTest MCheck"

definition if_main :: "signal \<Rightarrow> signal option" where
  "if_main = signal_main MCheck MRelock"

definition signal_step :: "(signal \<Rightarrow> signal option) \<Rightarrow> signal \<Rightarrow> event \<Rightarrow> signal option" where
  "signal_step main s e = (case e of Main \<Rightarrow> main s | Thread \<Rightarrow> my_thread s)"

text \<open>Both programs have few states.\<close>

definition loop_states :: "signal list" where
  "loop_states = explore (signal_step loop_main) 200 [] [signal_start]"

definition if_states :: "signal list" where
  "if_states = explore (signal_step if_main) 200 [] [signal_start]"

fun m_left :: "nat \<Rightarrow> int \<Rightarrow> mpc \<Rightarrow> nat" where
  "m_left k a MLock = 9" | "m_left k a MTest = (if a = 0 then 8 else k)" | "m_left k a MRelease = 7" | "m_left k a MWait = 6"
| "m_left k a MRelock = 5" | "m_left k a MCheck = 3" | "m_left k a MUnlock = 2" | "m_left k a MJoin = 1" | "m_left k a MDone = 0"

fun t_left :: "tpc \<Rightarrow> nat" where
  "t_left TLock = 4" | "t_left TSet = 3" | "t_left TUnlock = 2" | "t_left TPost = 1" | "t_left TExit = 0"

text \<open>\<open>k\<close> is the weight of the test of a changed value.\<close>

definition signal_mu :: "nat \<Rightarrow> signal \<Rightarrow> nat" where
  "signal_mu k s = m_left k (active s) (mpc s) + t_left (tpc s)"

definition m_final :: "signal \<Rightarrow> bool" where
  "m_final s \<longleftrightarrow> mpc s = MDone"

text \<open>The main thread locks the mutex that it owns.\<close>

definition m_stuck :: "signal \<Rightarrow> bool" where
  "m_stuck s \<longleftrightarrow> mpc s = MRelock \<and> mutex s = Some 0"

text \<open>What holds in all of the states, and what every step does.\<close>

definition m_told :: "signal \<Rightarrow> bool" where
  "m_told s \<longleftrightarrow> (mpc s = MDone \<longrightarrow> told s \<and> active s = 1 \<and> tpc s = TExit \<and> mutex s = None)"

definition m_late :: "signal \<Rightarrow> bool" where
  "m_late s \<longleftrightarrow> (mpc s = MTest \<and> active s \<noteq> 0) \<or> m_stuck s"

lemma loop_facts:
  "closed_under (signal_step loop_main) loop_states" "signal_start \<in> set loop_states"
  "each_step (signal_step loop_main) (\<lambda>s t. signal_mu 4 t < signal_mu 4 s) loop_states"
  "moves_unless (signal_step loop_main) m_final loop_states" "list_all m_told loop_states"
  by code_simp+

lemma if_facts:
  "closed_under (signal_step if_main) if_states" "signal_start \<in> set if_states"
  "each_step (signal_step if_main) (\<lambda>s t. signal_mu 6 t < signal_mu 6 s) if_states"
  "moves_unless (signal_step if_main) (\<lambda>s. m_final s \<or> m_stuck s) if_states"
  "each_step (signal_step if_main) (\<lambda>s t. m_late s \<longrightarrow> m_late t) if_states" "list_all m_told if_states"
  by code_simp+

definition m_owner :: "signal \<Rightarrow> bool" where
  "m_owner s \<longleftrightarrow> (mpc s = MTest \<longrightarrow> mutex s = Some 0)"

lemma if_owner: "list_all m_owner if_states"
  by code_simp

interpretation loop: machine_term "signal_step loop_main" signal_start "\<lambda>s. s \<in> set loop_states" "\<lambda>_. True"
  m_final "signal_mu 4"
proof unfold_locales
  show "t \<in> set loop_states" if "s \<in> set loop_states" "signal_step loop_main s e = Some t" for s e t
    using closed_step [OF loop_facts(1)] that by blast
  show "signal_mu 4 t < signal_mu 4 s" if "s \<in> set loop_states" "signal_step loop_main s e = Some t" for s e t
    using each_stepD [OF loop_facts(3)] that by blast
  show "\<exists>e t. True \<and> signal_step loop_main s e = Some t" if "s \<in> set loop_states" "\<not> m_final s" for s
    using moves_unlessD [OF loop_facts(4)] that by blast
qed (rule loop_facts(2))

interpretation once: machine_term "signal_step if_main" signal_start "\<lambda>s. s \<in> set if_states" "\<lambda>_. True"
  "\<lambda>s. m_final s \<or> m_stuck s" "signal_mu 6"
proof unfold_locales
  show "t \<in> set if_states" if "s \<in> set if_states" "signal_step if_main s e = Some t" for s e t
    using closed_step [OF if_facts(1)] that by blast
  show "signal_mu 6 t < signal_mu 6 s" if "s \<in> set if_states" "signal_step if_main s e = Some t" for s e t
    using each_stepD [OF if_facts(3)] that by blast
  show "\<exists>e t. True \<and> signal_step if_main s e = Some t" if "s \<in> set if_states" "\<not> (m_final s \<or> m_stuck s)" for s
    using moves_unlessD [OF if_facts(4)] that by blast
qed (rule if_facts(2))

section \<open>Two pipes\<close>

text \<open>
  The processes of sync\_with\_pipes.c and the file message.txt, which may be there from an
  earlier run. A pipe is the list of the bytes in it; each process holds an end of each, so a
  \<open>read\<close> of an empty pipe blocks.
\<close>

datatype ppc = POpen | PWriteFile | PTell | PWaitChild | PWaitPid | PExit
datatype cpc = CWaitParent | CReadFile | CTell | CExit

record channel =
  pfd1 :: string
  pfd2 :: string
  message :: "string option"
  parent_pc :: ppc
  child_pc :: cpc
  buffer :: "string option"
  child_ok :: bool
  parent_ok :: bool

datatype process = Parent | Child

instantiation process :: enum
begin

definition enum_process :: "process list" where
  "enum_process = [Parent, Child]"

definition enum_all_process :: "(process \<Rightarrow> bool) \<Rightarrow> bool" where
  "enum_all_process P \<longleftrightarrow> P Parent \<and> P Child"

definition enum_ex_process :: "(process \<Rightarrow> bool) \<Rightarrow> bool" where
  "enum_ex_process P \<longleftrightarrow> P Parent \<or> P Child"

instance
proof
  show "(UNIV :: process set) = set enum_class.enum" by (auto simp: enum_process_def intro: process.exhaust)
  show "distinct (enum_class.enum :: process list)" by (simp add: enum_process_def)
  show "enum_class.enum_all P = Ball UNIV P" for P :: "process \<Rightarrow> bool"
    unfolding enum_all_process_def by (metis UNIV_I process.exhaust)
  show "enum_class.enum_ex P = Bex UNIV P" for P :: "process \<Rightarrow> bool"
    unfolding enum_ex_process_def by (metis UNIV_I process.exhaust)
qed

end

definition create_sync_channel :: "string option \<Rightarrow> channel" where
  "create_sync_channel old = \<lparr>pfd1 = [], pfd2 = [], message = old, parent_pc = POpen, child_pc = CWaitParent,
     buffer = None, child_ok = False, parent_ok = False\<rparr>"

definition tell_parent :: "channel \<Rightarrow> channel" where
  "tell_parent s = s\<lparr>pfd2 := pfd2 s @ ''c''\<rparr>"

definition wait_for_parent :: "channel \<Rightarrow> (bool \<times> channel) option" where
  "wait_for_parent s = (case pfd1 s of [] \<Rightarrow> None | c # rest \<Rightarrow> Some (c = CHR ''p'', s\<lparr>pfd1 := rest\<rparr>))"

definition tell_child :: "channel \<Rightarrow> channel" where
  "tell_child s = s\<lparr>pfd1 := pfd1 s @ ''p''\<rparr>"

definition wait_for_child :: "channel \<Rightarrow> (bool \<times> channel) option" where
  "wait_for_child s = (case pfd2 s of [] \<Rightarrow> None | c # rest \<Rightarrow> Some (c = CHR ''c'', s\<lparr>pfd2 := rest\<rparr>))"

definition greeting :: string where "greeting = ''Hello_there. ''"

text \<open>
  \<open>fopen\<close> for writing empties the file. \<open>fscanf\<close> reads the first word; a file that is not there
  is a null pointer for it, here a step that is not possible.
\<close>

definition parent :: "channel \<Rightarrow> channel option" where
  "parent s =
     (case parent_pc s of
        POpen \<Rightarrow> Some (s\<lparr>message := Some [], parent_pc := PWriteFile\<rparr>)
      | PWriteFile \<Rightarrow> Some (s\<lparr>message := map_option (\<lambda>m. m @ greeting @ [CHR 0x0A]) (message s), parent_pc := PTell\<rparr>)
      | PTell \<Rightarrow> Some ((tell_child s)\<lparr>parent_pc := PWaitChild\<rparr>)
      | PWaitChild \<Rightarrow> map_option (\<lambda>(r, s'). s'\<lparr>parent_ok := r, parent_pc := PWaitPid\<rparr>) (wait_for_child s)
      | PWaitPid \<Rightarrow> if child_pc s = CExit then Some (s\<lparr>parent_pc := PExit\<rparr>) else None
      | PExit \<Rightarrow> None)"

definition child :: "channel \<Rightarrow> channel option" where
  "child s =
     (case child_pc s of
        CWaitParent \<Rightarrow> map_option (\<lambda>(r, s'). s'\<lparr>child_ok := r, child_pc := CReadFile\<rparr>) (wait_for_parent s)
      | CReadFile \<Rightarrow> map_option (\<lambda>m. s\<lparr>buffer := Some (takeWhile (\<lambda>c. \<not> isspace c) (dropWhile isspace m)), child_pc := CTell\<rparr>)
                       (message s)
      | CTell \<Rightarrow> Some ((tell_parent s)\<lparr>child_pc := CExit\<rparr>)
      | CExit \<Rightarrow> None)"

definition channel_step :: "channel \<Rightarrow> process \<Rightarrow> channel option" where
  "channel_step s p = (case p of Parent \<Rightarrow> parent s | Child \<Rightarrow> child s)"

text \<open>
  The file may hold anything at first. Nothing but the parent's \<open>fopen\<close> can happen then, and
  the states from there on are few.
\<close>

definition opened :: channel where
  "opened = (create_sync_channel None)\<lparr>message := Some [], parent_pc := PWriteFile\<rparr>"

definition channel_states :: "channel list" where
  "channel_states = explore channel_step 100 [] [opened]"

lemma first_step: "channel_step (create_sync_channel old) p = (case p of Parent \<Rightarrow> Some opened | Child \<Rightarrow> None)"
  by (simp add: channel_step_def parent_def child_def create_sync_channel_def wait_for_parent_def opened_def
      split: process.split)

fun p_left :: "ppc \<Rightarrow> nat" where
  "p_left POpen = 5" | "p_left PWriteFile = 4" | "p_left PTell = 3" | "p_left PWaitChild = 2" | "p_left PWaitPid = 1"
| "p_left PExit = 0"

fun c_left :: "cpc \<Rightarrow> nat" where
  "c_left CWaitParent = 3" | "c_left CReadFile = 2" | "c_left CTell = 1" | "c_left CExit = 0"

definition channel_mu :: "channel \<Rightarrow> nat" where
  "channel_mu s = p_left (parent_pc s) + c_left (child_pc s)"

definition parent_over :: "channel \<Rightarrow> bool" where
  "parent_over s \<longleftrightarrow> parent_pc s = PExit"

text \<open>The child reads the whole greeting, and the parent goes on after that.\<close>

definition in_order :: "channel \<Rightarrow> bool" where
  "in_order s \<longleftrightarrow> (child_pc s = CTell \<or> child_pc s = CExit \<longrightarrow> child_ok s \<and> buffer s = Some ''Hello_there.'')
     \<and> (parent_pc s = PWaitPid \<or> parent_pc s = PExit \<longrightarrow> parent_ok s \<and> child_pc s = CExit)"

lemma channel_facts:
  "closed_under channel_step channel_states" "opened \<in> set channel_states"
  "each_step channel_step (\<lambda>s t. channel_mu t < channel_mu s) channel_states"
  "moves_unless channel_step parent_over channel_states" "list_all in_order channel_states"
  by code_simp+

interpretation channel: machine_term channel_step "create_sync_channel old"
  "\<lambda>s. s = create_sync_channel old \<or> s \<in> set channel_states" "\<lambda>_. True" parent_over channel_mu for old
proof unfold_locales
  show "t = create_sync_channel old \<or> t \<in> set channel_states"
    if "s = create_sync_channel old \<or> s \<in> set channel_states" "channel_step s e = Some t" for s e t
    using that closed_step [OF channel_facts(1)] channel_facts(2) first_step [of old e]
    by (auto split: process.splits)
  show "channel_mu t < channel_mu s"
    if "s = create_sync_channel old \<or> s \<in> set channel_states" "channel_step s e = Some t" for s e t
    using that(1)
  proof
    assume "s = create_sync_channel old"
    then show ?thesis using that(2) first_step [of old e]
      by (auto simp: channel_mu_def opened_def create_sync_channel_def split: process.splits)
  next
    assume "s \<in> set channel_states"
    then show ?thesis using each_stepD [OF channel_facts(3)] that(2) by blast
  qed
  show "\<exists>e t. True \<and> channel_step s e = Some t"
    if "s = create_sync_channel old \<or> s \<in> set channel_states" "\<not> parent_over s" for s
    using that(1)
  proof
    assume "s = create_sync_channel old"
    then have "channel_step s Parent = Some opened" by (simp add: first_step)
    then show ?thesis by blast
  qed (use moves_unlessD [OF channel_facts(4)] that(2) in blast)
qed simp

section \<open>A barrier with one pipe\<close>

text \<open>
  The processes of barrier\_sync\_with\_pipes.c: the parent forks \<open>n\<close> children, all of which hold the
  write end of its pipe, and then reads; the \<open>read\<close> returns when no process holds the write
  end any more. Nobody writes to the pipe.
\<close>

datatype bpc = BNone | BCloseRead | BWork | BCloseWrite | BExit
datatype bmain = Fork nat | CloseWrite | BRead | Crossed

record family =
  kids :: "nat \<Rightarrow> bpc"
  bmain :: bmain

definition family_start :: family where
  "family_start = \<lparr>kids = (\<lambda>_. BNone), bmain = Fork 0\<rparr>"

fun holds_write :: "bpc \<Rightarrow> bool" where
  "holds_write BNone = False" | "holds_write BExit = False" | "holds_write _ = True"

definition barrier_child :: "nat \<Rightarrow> family \<Rightarrow> family option" where
  "barrier_child i s =
     (case kids s i of
        BNone \<Rightarrow> None
      | BCloseRead \<Rightarrow> Some (s\<lparr>kids := (kids s)(i := BWork)\<rparr>)
      | BWork \<Rightarrow> Some (s\<lparr>kids := (kids s)(i := BCloseWrite)\<rparr>)
      | BCloseWrite \<Rightarrow> Some (s\<lparr>kids := (kids s)(i := BExit)\<rparr>)
      | BExit \<Rightarrow> None)"

definition barrier_parent :: "nat \<Rightarrow> family \<Rightarrow> family option" where
  "barrier_parent n s =
     (case bmain s of
        Fork j \<Rightarrow> if j < n then Some (s\<lparr>kids := (kids s)(j := BCloseRead), bmain := Fork (j + 1)\<rparr>)
                  else Some (s\<lparr>bmain := CloseWrite\<rparr>)
      | CloseWrite \<Rightarrow> Some (s\<lparr>bmain := BRead\<rparr>)
      | BRead \<Rightarrow> if list_ex (\<lambda>i. holds_write (kids s i)) [0..<n] then None else Some (s\<lparr>bmain := Crossed\<rparr>)
      | Crossed \<Rightarrow> None)"

datatype relative = TheParent | Kid nat

definition family_step :: "nat \<Rightarrow> family \<Rightarrow> relative \<Rightarrow> family option" where
  "family_step n s r = (case r of TheParent \<Rightarrow> barrier_parent n s | Kid i \<Rightarrow> if i < n then barrier_child i s else None)"

definition forked :: "nat \<Rightarrow> family \<Rightarrow> nat" where
  "forked n s = (case bmain s of Fork j \<Rightarrow> j | _ \<Rightarrow> n)"

definition family_inv :: "nat \<Rightarrow> family \<Rightarrow> bool" where
  "family_inv n s \<longleftrightarrow> forked n s \<le> n \<and> (\<forall>i<n. kids s i = BNone \<longleftrightarrow> forked n s \<le> i)
     \<and> (bmain s = Crossed \<longrightarrow> (\<forall>i<n. kids s i = BExit))"

fun kid_left :: "bpc \<Rightarrow> nat" where
  "kid_left BNone = 4" | "kid_left BCloseRead = 3" | "kid_left BWork = 2" | "kid_left BCloseWrite = 1"
| "kid_left BExit = 0"

fun main_left :: "bmain \<Rightarrow> nat" where
  "main_left (Fork _) = 3" | "main_left CloseWrite = 2" | "main_left BRead = 1" | "main_left Crossed = 0"

definition family_mu :: "nat \<Rightarrow> family \<Rightarrow> nat" where
  "family_mu n s = (\<Sum>i<n. kid_left (kids s i)) + main_left (bmain s)"

lemma kid_upd:
  fixes n :: nat
  shows "k < n \<Longrightarrow> (\<Sum>j<n. kid_left ((f(k := x)) j)) + kid_left (f k) = (\<Sum>j<n. kid_left (f j)) + kid_left x"
  using sum_change [of k n "\<lambda>j. kid_left ((f(k := x)) j)" "\<lambda>j. kid_left (f j)"] by simp

lemma family_step_cases:
  assumes "family_step n s r = Some t"
  obtains (kid) i x where "r = Kid i" "i < n" "kids s i \<noteq> BNone" "x \<noteq> BNone" "kid_left x < kid_left (kids s i)"
      "t = s\<lparr>kids := (kids s)(i := x)\<rparr>"
  | (fork) j where "r = TheParent" "bmain s = Fork j" "j < n"
      "t = s\<lparr>kids := (kids s)(j := BCloseRead), bmain := Fork (j + 1)\<rparr>"
  | (forked) j where "r = TheParent" "bmain s = Fork j" "n \<le> j" "t = s\<lparr>bmain := CloseWrite\<rparr>"
  | (closed) "r = TheParent" "bmain s = CloseWrite" "t = s\<lparr>bmain := BRead\<rparr>"
  | (eof) "r = TheParent" "bmain s = BRead" "\<And>i. i < n \<Longrightarrow> \<not> holds_write (kids s i)" "t = s\<lparr>bmain := Crossed\<rparr>"
proof (cases r)
  case TheParent
  then have p: "barrier_parent n s = Some t" using assms by (simp add: family_step_def)
  show ?thesis
  proof (cases "bmain s")
    case (Fork j)
    then show ?thesis using p TheParent fork [of j] forked [of j] by (cases "j < n") (simp_all add: barrier_parent_def)
  next
    case CloseWrite
    then show ?thesis using p TheParent by (intro closed) (simp_all add: barrier_parent_def)
  next
    case BRead
    then show ?thesis using p TheParent
      by (intro eof) (auto simp: barrier_parent_def list_ex_iff split: if_splits)
  qed (use p in \<open>simp add: barrier_parent_def\<close>)
next
  case (Kid i)
  then have p: "i < n" "barrier_child i s = Some t" using assms by (simp_all add: family_step_def split: if_splits)
  show ?thesis
  proof (cases "kids s i")
    case BCloseRead
    then show ?thesis using p Kid by (intro kid [of i BWork]) (simp_all add: barrier_child_def)
  next
    case BWork
    then show ?thesis using p Kid by (intro kid [of i BCloseWrite]) (simp_all add: barrier_child_def)
  next
    case BCloseWrite
    then show ?thesis using p Kid by (intro kid [of i BExit]) (simp_all add: barrier_child_def)
  qed (use p in \<open>simp_all add: barrier_child_def\<close>)
qed

lemma family_inv_step:
  assumes i: "family_inv n s" and st: "family_step n s r = Some t"
  shows "family_inv n t"
proof -
  have f: "forked n s \<le> n" "\<And>i. i < n \<Longrightarrow> kids s i = BNone \<longleftrightarrow> forked n s \<le> i"
    "bmain s = Crossed \<Longrightarrow> \<forall>i<n. kids s i = BExit"
    using i unfolding family_inv_def by blast+
  show ?thesis using st
  proof (cases rule: family_step_cases)
    case (kid k x)
    have "bmain s = Crossed \<Longrightarrow> False" using f(3) kid(2,5) by auto
    then show ?thesis using f kid by (auto simp: family_inv_def forked_def split: bmain.splits)
  next
    case (eof)
    have "kids s i = BExit" if "i < n" for i
      using eof(3) [OF that] f(2) [OF that] that eof(2) by (cases "kids s i") (simp_all add: forked_def)
    then show ?thesis using f eof by (auto simp: family_inv_def forked_def)
  qed (use f in \<open>auto simp: family_inv_def forked_def\<close>)
qed

lemma family_mu_step:
  assumes "family_inv n s" "family_step n s r = Some t"
  shows "family_mu n t < family_mu n s"
  using assms(2)
proof (cases rule: family_step_cases)
  case (kid k x)
  then show ?thesis using kid_upd [of k n "kids s" x] by (simp add: family_mu_def)
next
  case (fork j)
  then have "kids s j = BNone" using assms(1) by (simp add: family_inv_def forked_def)
  then show ?thesis using fork kid_upd [of j n "kids s" BCloseRead] by (simp add: family_mu_def)
qed (auto simp: family_mu_def)

lemma family_progress:
  assumes "family_inv n s" "bmain s \<noteq> Crossed"
  shows "\<exists>r t. family_step n s r = Some t"
proof (cases "bmain s = BRead \<and> (\<exists>i<n. holds_write (kids s i))")
  case True
  then obtain i where "i < n" "holds_write (kids s i)" by blast
  then have "\<exists>t. family_step n s (Kid i) = Some t"
    by (cases "kids s i") (simp_all add: family_step_def barrier_child_def)
  then show ?thesis by blast
next
  case False
  then have "barrier_parent n s \<noteq> None" using assms(2)
    by (cases "bmain s") (auto simp: barrier_parent_def list_ex_iff)
  then have "\<exists>t. family_step n s TheParent = Some t" by (simp add: family_step_def)
  then show ?thesis by blast
qed

lemma family_start_inv: "family_inv n family_start"
  by (simp add: family_inv_def family_start_def forked_def)

interpretation family: machine_term "family_step n" family_start "family_inv n" "\<lambda>_. True"
  "\<lambda>s. bmain s = Crossed" "family_mu n" for n
  by unfold_locales (use family_start_inv family_inv_step family_mu_step family_progress in blast)+

section \<open>Properties\<close>

text \<open>
  The program with the loop always ends: a run has at most 13 steps and stops only when the
  main thread has been told of the change and has joined the other thread.
\<close>

theorem loop_semaphore_finishes:
  assumes "run (signal_step loop_main) signal_start es = Some s"
  shows "length es \<le> 13 \<and> (signal_step loop_main s Main = None \<and> signal_step loop_main s Thread = None \<longrightarrow>
    mpc s = MDone \<and> told s \<and> tpc s = TExit \<and> mutex s = None)"
proof -
  have "signal_mu 4 signal_start = 13" by code_simp
  then have "length es \<le> 13" using loop.runs_bounded [OF _ assms] by (simp add: list_all_iff)
  moreover have "m_told s" using loop.run_inv [OF assms] loop_facts(5) by (simp add: list_all_iff)
  moreover have "m_final s" if "signal_step loop_main s Main = None" "signal_step loop_main s Thread = None"
  proof -
    have "signal_step loop_main s e = None" for e using that by (cases e) simp_all
    then show ?thesis using loop.stuck_final [OF run_reach [OF assms]] by blast
  qed
  ultimately show ?thesis by (auto simp: m_told_def m_final_def)
qed

text \<open>
  The program without the loop ends well only when the main thread tests the value before
  the other thread has changed it. Once the main thread has tested a changed value it never
  comes to its end: it locks the mutex that it holds.
\<close>

theorem if_semaphore_deadlocks:
  assumes "reach (signal_step if_main) signal_start s" "mpc s = MTest" "active s \<noteq> 0"
    "reach (signal_step if_main) s t"
  shows "mpc t \<noteq> MDone"
proof -
  have "reach (signal_step if_main) signal_start u \<and> m_late u" if "reach (signal_step if_main) s u" for u
    using that
  proof (induction rule: reach.induct)
    case reach_start
    show ?case using assms(1-3) by (simp add: m_late_def)
  next
    case (reach_step u e v)
    then have "m_late v" using each_stepD [OF if_facts(5) once.reach_inv [of u]] by blast
    then show ?case using reach_step by (blast intro: reach.reach_step)
  qed
  then have "m_late t" using assms(4) by blast
  then show ?thesis by (auto simp: m_late_def m_stuck_def)
qed

text \<open>
  The two processes that synchronise with pipes keep their order whatever the file holds at
  first: the child reads the parent's greeting whole, and the parent goes on when the child
  has; a run has at most 8 steps and stops only when the parent has waited for the child.
\<close>

theorem pipes_keep_order:
  assumes "run channel_step (create_sync_channel old) ps = Some s"
  shows "(child_pc s = CTell \<or> child_pc s = CExit \<longrightarrow> child_ok s \<and> buffer s = Some ''Hello_there.'')
    \<and> (parent_pc s = PWaitPid \<or> parent_pc s = PExit \<longrightarrow> parent_ok s \<and> child_pc s = CExit)
    \<and> length ps \<le> 8 \<and> ((\<forall>p. channel_step s p = None) \<longrightarrow> parent_pc s = PExit)"
proof -
  have "channel_mu (create_sync_channel old) = 8" by (simp add: channel_mu_def create_sync_channel_def)
  then have "length ps \<le> 8" using channel.runs_bounded [OF _ assms] by (simp add: list_all_iff)
  moreover have "in_order s"
    using channel.run_inv [OF assms] channel_facts(5) by (auto simp: list_all_iff in_order_def create_sync_channel_def)
  moreover have "parent_over s" if "\<forall>p. channel_step s p = None"
    using channel.stuck_final [OF run_reach [OF assms]] that by blast
  ultimately show ?thesis by (auto simp: in_order_def parent_over_def)
qed

text \<open>
  The barrier with one pipe: the parent crosses it only when every child has finished its
  work, and a run has at most \<open>4 * n + 3\<close> steps and stops only when the parent has crossed.
\<close>

theorem pipe_barrier:
  assumes "run (family_step n) family_start rs = Some s"
  shows "(bmain s = Crossed \<longrightarrow> (\<forall>i<n. kids s i = BExit)) \<and> length rs \<le> 4 * n + 3
    \<and> ((\<forall>r. family_step n s r = None) \<longrightarrow> bmain s = Crossed)"
proof -
  have "family_mu n family_start = 4 * n + 3" by (simp add: family_mu_def family_start_def)
  then have "length rs \<le> 4 * n + 3" using family.runs_bounded [OF _ assms] by (simp add: list_all_iff)
  moreover have "family_inv n s" using family.run_inv [OF assms] .
  ultimately show ?thesis using family.stuck_final [OF run_reach [OF assms]] by (auto simp: family_inv_def)
qed

text \<open>Schedules that go through to the end.\<close>

theorem loop_semaphore_finishes_witness:
  "\<exists>s. run (signal_step loop_main) signal_start (replicate 3 Main @ replicate 4 Thread @ replicate 6 Main) = Some s
    \<and> mpc s = MDone \<and> told s"
proof -
  have "case run (signal_step loop_main) signal_start (replicate 3 Main @ replicate 4 Thread @ replicate 6 Main) of
      None \<Rightarrow> False | Some s \<Rightarrow> signal_step loop_main s Main = None \<and> signal_step loop_main s Thread = None"
    by code_simp
  then obtain s where "run (signal_step loop_main) signal_start (replicate 3 Main @ replicate 4 Thread @ replicate 6 Main)
      = Some s" "signal_step loop_main s Main = None" "signal_step loop_main s Thread = None"
    by (auto split: option.splits)
  then show ?thesis using loop_semaphore_finishes by blast
qed

theorem if_semaphore_deadlocks_witness:
  "\<exists>s t. reach (signal_step if_main) signal_start s \<and> reach (signal_step if_main) s t \<and> mutex t = Some 0
     \<and> mpc t \<noteq> MDone"
proof -
  have "\<exists>s. reach (signal_step if_main) signal_start s \<and> mpc s = MTest \<and> active s \<noteq> 0"
    by (rule run_example [where es = "replicate 4 Thread @ [Main]"]) code_simp
  then obtain s where s: "reach (signal_step if_main) signal_start s" "mpc s = MTest" "active s \<noteq> 0" by blast
  have "signal_step if_main s Main = Some (s\<lparr>mpc := MRelock\<rparr>)"
    using s by (simp add: signal_step_def if_main_def signal_main_def)
  then have t: "reach (signal_step if_main) s (s\<lparr>mpc := MRelock\<rparr>)" by (rule reach.reach_step [OF reach.reach_start])
  have "mutex s = Some 0"
    using once.reach_inv [OF s(1)] s(2,3) if_owner by (auto simp: list_all_iff m_owner_def)
  then show ?thesis using s t if_semaphore_deadlocks [OF s t] by (intro exI conjI) (assumption | simp)+
qed

theorem pipes_keep_order_witness:
  "\<exists>s. run channel_step (create_sync_channel (Some ''old'')) (replicate 3 Parent @ replicate 3 Child @ replicate 2 Parent)
     = Some s \<and> buffer s = Some ''Hello_there.''"
proof -
  have "case run channel_step (create_sync_channel (Some ''old'')) (replicate 3 Parent @ replicate 3 Child @ replicate 2 Parent)
      of None \<Rightarrow> False | Some s \<Rightarrow> child_pc s = CExit" by code_simp
  then obtain s where "run channel_step (create_sync_channel (Some ''old'')) (replicate 3 Parent @ replicate 3 Child
      @ replicate 2 Parent) = Some s" "child_pc s = CExit" by (auto split: option.splits)
  then show ?thesis using pipes_keep_order by blast
qed

theorem pipe_barrier_witness:
  "\<exists>s. run (family_step 2) family_start (replicate 4 TheParent @ replicate 3 (Kid 1) @ replicate 3 (Kid 0) @ [TheParent])
     = Some s \<and> kids s 0 = BExit"
proof -
  have "case run (family_step 2) family_start (replicate 4 TheParent @ replicate 3 (Kid 1) @ replicate 3 (Kid 0)
      @ [TheParent]) of None \<Rightarrow> False | Some s \<Rightarrow> bmain s = Crossed" by code_simp
  then obtain s where r: "run (family_step 2) family_start (replicate 4 TheParent @ replicate 3 (Kid 1)
      @ replicate 3 (Kid 0) @ [TheParent]) = Some s" "bmain s = Crossed" by (auto split: option.splits)
  then show ?thesis using pipe_barrier [OF r(1)] by auto
qed

end
