(* ===== verification/Counters.thy ===== *)
theory Counters
  imports Threads
begin

text \<open>
  Threads that change a shared counter: threads/thread synchronization/pthread\_add.c (unprotected
  and atomic increments), sync/mutex/01-threads\_nomutex.c and 01-threads\_mutex.c (one thread
  increments, the other decrements), and the two mutexes of sync/mutex/02-deadlock.c.
\<close>

section \<open>Counters\<close>

definition OPS :: nat where "OPS = 10000"

text \<open>
  An increment is a load and a store. The argument of a place is the number of rounds that are
  left after the current one.
\<close>

datatype cpc = CLoop nat | CLocked nat | CLoaded nat int | CStored nat

record counter =
  val :: int
  mtx_val :: mutex
  cpc :: "nat \<Rightarrow> cpc"

text \<open>\<open>k\<close> rounds for each thread.\<close>

definition counter_start :: "int \<Rightarrow> nat \<Rightarrow> counter" where
  "counter_start v k = \<lparr>val = v, mtx_val = None, cpc = (\<lambda>_. CLoop k)\<rparr>"

definition goto :: "nat \<Rightarrow> cpc \<Rightarrow> counter \<Rightarrow> counter" where
  "goto i p s = s\<lparr>cpc := (cpc s)(i := p)\<rparr>"

text \<open>\<open>d\<close> is what the thread adds: \<open>val++\<close> or \<open>val--\<close> inside the mutex.\<close>

definition mutex_thread :: "int \<Rightarrow> nat \<Rightarrow> counter \<Rightarrow> counter option" where
  "mutex_thread d i s =
     (case cpc s i of
        CLoop r \<Rightarrow> (case r of 0 \<Rightarrow> None
                     | Suc r' \<Rightarrow> map_option (\<lambda>m. goto i (CLocked r') (s\<lparr>mtx_val := m\<rparr>)) (mutex_lock (mtx_val s) i))
      | CLocked r \<Rightarrow> Some (goto i (CLoaded r (val s)) s)
      | CLoaded r v \<Rightarrow> Some (goto i (CStored r) (s\<lparr>val := v + d\<rparr>))
      | CStored r \<Rightarrow> Some (goto i (CLoop r) (s\<lparr>mtx_val := mutex_unlock (mtx_val s)\<rparr>)))"

definition race_func :: "int \<Rightarrow> nat \<Rightarrow> counter \<Rightarrow> counter option" where
  "race_func d i s =
     (case cpc s i of
        CLoop r \<Rightarrow> (case r of 0 \<Rightarrow> None | Suc r' \<Rightarrow> Some (goto i (CLoaded r' (val s)) s))
      | CLocked r \<Rightarrow> None
      | CLoaded r v \<Rightarrow> Some (goto i (CLoop r) (s\<lparr>val := v + d\<rparr>))
      | CStored r \<Rightarrow> None)"

definition atomic_func :: "int \<Rightarrow> nat \<Rightarrow> counter \<Rightarrow> counter option" where
  "atomic_func d i s =
     (case cpc s i of
        CLoop r \<Rightarrow> (case r of 0 \<Rightarrow> None | Suc r' \<Rightarrow> Some (goto i (CLoop r') (s\<lparr>val := val s + d\<rparr>)))
      | CLocked r \<Rightarrow> None
      | CLoaded r v \<Rightarrow> None
      | CStored r \<Rightarrow> None)"

text \<open>\<open>n\<close> threads; an event is the thread that moves.\<close>

definition counter_step ::
  "(int \<Rightarrow> nat \<Rightarrow> counter \<Rightarrow> counter option) \<Rightarrow> (nat \<Rightarrow> int) \<Rightarrow> nat \<Rightarrow> counter \<Rightarrow> nat \<Rightarrow> counter option" where
  "counter_step f d n s i = (if i < n then f (d i) i s else None)"

text \<open>The deltas of 01-threads: the main thread, 0, increments and the worker, 1, decrements.\<close>

definition up_down :: "nat \<Rightarrow> int" where
  "up_down i = (if i = 0 then 1 else - 1)"

definition ups :: "nat \<Rightarrow> int" where
  "ups i = 1"

section \<open>What the threads have added\<close>

text \<open>The number of rounds whose store is done.\<close>

fun rounds :: "nat \<Rightarrow> cpc \<Rightarrow> int" where
  "rounds k (CLoop r) = int k - int r"
| "rounds k (CLocked r) = int k - int r - 1"
| "rounds k (CLoaded r v) = int k - int r - 1"
| "rounds k (CStored r) = int k - int r"

fun left_ok :: "nat \<Rightarrow> cpc \<Rightarrow> bool" where
  "left_ok k (CLoop r) = (r \<le> k)" | "left_ok k (CLocked r) = (r < k)" | "left_ok k (CLoaded r v) = (r < k)"
| "left_ok k (CStored r) = (r < k)"

definition added :: "(nat \<Rightarrow> int) \<Rightarrow> nat \<Rightarrow> nat \<Rightarrow> counter \<Rightarrow> int" where
  "added d n k s = (\<Sum>j<n. d j * rounds k (cpc s j))"

fun in_lock :: "cpc \<Rightarrow> bool" where
  "in_lock (CLoop r) = False" | "in_lock _ = True"

fun reads :: "int \<Rightarrow> cpc \<Rightarrow> bool" where
  "reads v (CLoaded r w) = (w = v)" | "reads v _ = True"

lemma goto_fields [simp]:
  "val (goto i p s) = val s" "mtx_val (goto i p s) = mtx_val s" "cpc (goto i p s) = (cpc s)(i := p)"
  by (simp_all add: goto_def)

lemma added_cong: "cpc t = cpc s \<Longrightarrow> added d n k t = added d n k s"
  by (simp add: added_def)

lemma added_goto:
  assumes "i < n" "cpc t = (cpc s)(i := p)"
  shows "added d n k t = added d n k s + d i * (rounds k p - rounds k (cpc s i))"
  using sum_change [OF assms(1), of "\<lambda>j. d j * rounds k (cpc t j)" "\<lambda>j. d j * rounds k (cpc s j)"] assms
  by (simp add: added_def algebra_simps)

definition exact_inv :: "int \<Rightarrow> (nat \<Rightarrow> int) \<Rightarrow> nat \<Rightarrow> nat \<Rightarrow> counter \<Rightarrow> bool" where
  "exact_inv v0 d n k s \<longleftrightarrow> val s = v0 + added d n k s \<and> (\<forall>j<n. left_ok k (cpc s j))
     \<and> (\<forall>j. mtx_val s = Some j \<longleftrightarrow> j < n \<and> in_lock (cpc s j)) \<and> (\<forall>j<n. reads (val s) (cpc s j))"


lemma mutex_thread_cases:
  assumes "mutex_thread d i s = Some t"
  obtains (lock) r where "cpc s i = CLoop (Suc r)" "mtx_val s = None" "t = goto i (CLocked r) (s\<lparr>mtx_val := Some i\<rparr>)"
  | (load) r where "cpc s i = CLocked r" "t = goto i (CLoaded r (val s)) s"
  | (store) r v where "cpc s i = CLoaded r v" "t = goto i (CStored r) (s\<lparr>val := v + d\<rparr>)"
  | (unlock) r where "cpc s i = CStored r" "t = goto i (CLoop r) (s\<lparr>mtx_val := None\<rparr>)"
proof (cases "cpc s i")
  case (CLoop r)
  then obtain r' where "r = Suc r'" "mtx_val s = None" "t = goto i (CLocked r') (s\<lparr>mtx_val := Some i\<rparr>)"
    using assms by (auto simp: mutex_thread_def step_simps split: nat.splits)
  then show ?thesis using CLoop by (intro lock [of r']) simp_all
qed (use assms load store unlock in \<open>simp_all add: mutex_thread_def\<close>)

lemma mutex_inv_add:
  assumes i: "exact_inv v0 d n k s" and st: "i < n" "mutex_thread (d i) i s = Some t"
  shows "exact_inv v0 d n k t"
proof -
  have e: "val s = v0 + added d n k s" "\<And>j. j < n \<Longrightarrow> left_ok k (cpc s j)"
    "\<And>j. mtx_val s = Some j \<longleftrightarrow> j < n \<and> in_lock (cpc s j)" "\<And>j. j < n \<Longrightarrow> reads (val s) (cpc s j)"
    using i unfolding exact_inv_def by blast+
  have alone: "\<not> in_lock (cpc s j)" if "in_lock (cpc s i)" "j < n" "j \<noteq> i" for j
    using e(3) [of i] e(3) [of j] that st(1) by auto
  have quiet: "reads w (cpc s j)" if "\<not> in_lock (cpc s j)" for j w
    using that by (cases "cpc s j") simp_all
  show ?thesis using st(2)
  proof (cases rule: mutex_thread_cases)
    case (lock r)
    then show ?thesis using e st(1) added_goto [of i n t s "CLocked r" d k] e(2) [OF st(1)]
      by (auto simp: exact_inv_def)
  next
    case (load r)
    then show ?thesis using e st(1) added_goto [of i n t s "CLoaded r (val s)" d k] e(2) [OF st(1)]
      by (auto simp: exact_inv_def)
  next
    case (store r v)
    then have "v = val s" using e(4) [OF st(1)] by simp
    then show ?thesis using e store st(1) added_goto [of i n t s "CStored r" d k] e(2) [OF st(1)] alone quiet
      by (auto simp: exact_inv_def algebra_simps)
  next
    case (unlock r)
    then show ?thesis using e st(1) added_goto [of i n t s "CLoop r" d k] e(2) [OF st(1)] alone
      by (auto simp: exact_inv_def)
  qed
qed

lemma atomic_inv_add:
  assumes i: "exact_inv v0 d n k s \<and> (\<forall>j<n. \<not> in_lock (cpc s j))" and st: "i < n" "atomic_func (d i) i s = Some t"
  shows "exact_inv v0 d n k t \<and> (\<forall>j<n. \<not> in_lock (cpc t j))"
proof -
  obtain r where r: "cpc s i = CLoop (Suc r)" "t = goto i (CLoop r) (s\<lparr>val := val s + d i\<rparr>)"
    using st(2) by (auto simp: atomic_func_def split: cpc.splits nat.splits)
  have "reads w (cpc t j)" if "j < n" for j w
    using i that r by (cases "cpc s j") auto
  then show ?thesis using i r st(1) added_goto [of i n t s "CLoop r" d k] by (auto simp: exact_inv_def algebra_simps)
qed

section \<open>Termination\<close>

fun c_left :: "cpc \<Rightarrow> nat" where
  "c_left (CLoop r) = 4 * r" | "c_left (CLocked r) = 4 * r + 3" | "c_left (CLoaded r v) = 4 * r + 2"
| "c_left (CStored r) = 4 * r + 1"

definition counter_mu :: "nat \<Rightarrow> counter \<Rightarrow> nat" where
  "counter_mu n s = (\<Sum>j<n. c_left (cpc s j))"

definition counted :: "nat \<Rightarrow> counter \<Rightarrow> bool" where
  "counted n s \<longleftrightarrow> (\<forall>j<n. cpc s j = CLoop 0)"

lemma counter_mu_goto:
  "i < n \<Longrightarrow> cpc t = (cpc s)(i := p) \<Longrightarrow> c_left p < c_left (cpc s i) \<Longrightarrow> counter_mu n t < counter_mu n s"
  using sum_change [of i n "\<lambda>j. c_left (cpc t j)" "\<lambda>j. c_left (cpc s j)"] by (simp add: counter_mu_def)

lemma counter_mu_step:
  assumes "counter_step f d n s i = Some t" "f = mutex_thread \<or> f = race_func \<or> f = atomic_func"
  shows "counter_mu n t < counter_mu n s"
proof -
  have i: "i < n" "f (d i) i s = Some t" using assms(1) by (simp_all add: counter_step_def split: if_splits)
  have "cpc t = (cpc s)(i := cpc t i) \<and> c_left (cpc t i) < c_left (cpc s i)"
    using assms(2) i(2)
    by (cases "cpc s i") (auto simp: mutex_thread_def race_func_def atomic_func_def step_simps split: nat.splits)
  then show ?thesis using counter_mu_goto i(1) by blast
qed

lemma mutex_progress:
  assumes "exact_inv v0 d n k s" "\<not> counted n s"
  shows "\<exists>i t. counter_step mutex_thread d n s i = Some t"
proof (cases "mtx_val s")
  case None
  obtain j where j: "j < n" "cpc s j \<noteq> CLoop 0" using assms(2) by (auto simp: counted_def)
  have "\<not> in_lock (cpc s j)" using assms(1) None j(1) unfolding exact_inv_def by (metis option.distinct(1))
  then obtain r where "cpc s j = CLoop (Suc r)" using j(2)
    by (cases "cpc s j") (auto simp: gr0_conv_Suc)
  then show ?thesis using None j(1)
    by (intro exI [of _ j]) (simp add: counter_step_def mutex_thread_def mutex_lock_def)
next
  case (Some j)
  then have j: "j < n" "in_lock (cpc s j)" using assms(1) unfolding exact_inv_def by blast+
  then show ?thesis
    by (intro exI [of _ j]) (cases "cpc s j"; simp add: counter_step_def mutex_thread_def)
qed

lemma free_progress:
  assumes "f = race_func \<and> (\<forall>j<n. \<forall>r. cpc s j \<noteq> CLocked r \<and> cpc s j \<noteq> CStored r)
      \<or> f = atomic_func \<and> (\<forall>j<n. \<not> in_lock (cpc s j))" "\<not> counted n s"
  shows "\<exists>i t. counter_step f d n s i = Some t"
proof -
  obtain j where j: "j < n" "cpc s j \<noteq> CLoop 0" using assms(2) by (auto simp: counted_def)
  then show ?thesis using assms(1)
    by (intro exI [of _ j]) (cases "cpc s j"; auto simp: counter_step_def race_func_def atomic_func_def split: nat.splits)
qed

lemma counter_start_inv: "exact_inv v0 d n k (counter_start v0 k) \<and> (\<forall>j<n. \<not> in_lock (cpc (counter_start v0 k) j))"
  by (simp add: exact_inv_def counter_start_def added_def)

interpretation locked_counter: machine_term "counter_step mutex_thread d n" "counter_start v0 k" "exact_inv v0 d n k"
  "\<lambda>_. True" "counted n" "counter_mu n" for d n v0 k
proof unfold_locales
  show "exact_inv v0 d n k t" if "exact_inv v0 d n k s" "counter_step mutex_thread d n s i = Some t" for s i t
    using that mutex_inv_add by (auto simp: counter_step_def split: if_splits)
  show "exact_inv v0 d n k (counter_start v0 k)" using counter_start_inv by blast
  show "counter_mu n t < counter_mu n s" if "counter_step mutex_thread d n s i = Some t" for s i t
    using counter_mu_step [OF that] by simp
  show "\<exists>i t. True \<and> counter_step mutex_thread d n s i = Some t" if "exact_inv v0 d n k s" "\<not> counted n s" for s
    using mutex_progress [OF that] by simp
qed

interpretation atomic_counter: machine_term "counter_step atomic_func d n" "counter_start v0 k"
  "\<lambda>s. exact_inv v0 d n k s \<and> (\<forall>j<n. \<not> in_lock (cpc s j))" "\<lambda>_. True" "counted n" "counter_mu n" for d n v0 k
proof unfold_locales
  show "exact_inv v0 d n k t \<and> (\<forall>j<n. \<not> in_lock (cpc t j))"
    if "exact_inv v0 d n k s \<and> (\<forall>j<n. \<not> in_lock (cpc s j))" "counter_step atomic_func d n s i = Some t" for s i t
    using that(2) atomic_inv_add [OF that(1)] by (auto simp: counter_step_def split: if_splits)
  show "counter_mu n t < counter_mu n s" if "counter_step atomic_func d n s i = Some t" for s i t
    using counter_mu_step [OF that] by simp
  show "\<exists>i t. True \<and> counter_step atomic_func d n s i = Some t"
    if "exact_inv v0 d n k s \<and> (\<forall>j<n. \<not> in_lock (cpc s j))" "\<not> counted n s" for s
    using free_progress [OF _ that(2), of atomic_func d] that(1) by simp
qed (rule counter_start_inv)

section \<open>The race\<close>

text \<open>The most and the least that the stores so far can have made of the counter.\<close>

definition most :: "(nat \<Rightarrow> int) \<Rightarrow> nat \<Rightarrow> int" where
  "most d j = max 0 (d j)"

definition least :: "(nat \<Rightarrow> int) \<Rightarrow> nat \<Rightarrow> int" where
  "least d j = min 0 (d j)"

fun loaded_in :: "int \<Rightarrow> int \<Rightarrow> cpc \<Rightarrow> bool" where
  "loaded_in lo hi (CLoaded r v) = (lo \<le> v \<and> v \<le> hi)" | "loaded_in lo hi _ = True"

definition race_inv :: "int \<Rightarrow> (nat \<Rightarrow> int) \<Rightarrow> nat \<Rightarrow> nat \<Rightarrow> counter \<Rightarrow> bool" where
  "race_inv v0 d n k s \<longleftrightarrow>
     (let lo = v0 + added (least d) n k s; hi = v0 + added (most d) n k s in
      lo \<le> val s \<and> val s \<le> hi \<and> (\<forall>j<n. loaded_in lo hi (cpc s j)))
     \<and> (\<forall>j<n. left_ok k (cpc s j)) \<and> (\<forall>j<n. \<forall>r. cpc s j \<noteq> CLocked r \<and> cpc s j \<noteq> CStored r)"

lemma loaded_in_mono: "loaded_in lo hi p \<Longrightarrow> lo' \<le> lo \<Longrightarrow> hi \<le> hi' \<Longrightarrow> loaded_in lo' hi' p"
  by (cases p) auto

lemma race_inv_step:
  assumes i: "race_inv v0 d n k s" and st: "counter_step race_func d n s i = Some t"
  shows "race_inv v0 d n k t"
proof -
  let ?lo = "\<lambda>s. v0 + added (least d) n k s" and ?hi = "\<lambda>s. v0 + added (most d) n k s"
  have e: "?lo s \<le> val s" "val s \<le> ?hi s" "\<And>j. j < n \<Longrightarrow> loaded_in (?lo s) (?hi s) (cpc s j)"
    "\<And>j. j < n \<Longrightarrow> left_ok k (cpc s j)" "\<And>j r. j < n \<Longrightarrow> cpc s j \<noteq> CLocked r \<and> cpc s j \<noteq> CStored r"
    using i unfolding race_inv_def Let_def by blast+
  have n: "i < n" "race_func (d i) i s = Some t" using st by (simp_all add: counter_step_def split: if_splits)
  have l: "left_ok k (cpc s i)" by (rule e(4) [OF n(1)])
  show ?thesis
  proof (cases "cpc s i")
    case (CLoop r)
    then obtain r' where r: "r = Suc r'" "t = goto i (CLoaded r' (val s)) s"
      using n(2) by (auto simp: race_func_def split: nat.splits)
    then have "?lo t = ?lo s" "?hi t = ?hi s"
      using added_goto [OF n(1), of t s "CLoaded r' (val s)"] CLoop by simp_all
    then show ?thesis unfolding race_inv_def Let_def using e r CLoop l by simp
  next
    case (CLoaded r v)
    then have r: "t = goto i (CLoop r) (s\<lparr>val := v + d i\<rparr>)" using n(2) by (simp add: race_func_def)
    have v: "?lo s \<le> v" "v \<le> ?hi s" using e(3) [OF n(1)] CLoaded by simp_all
    have m: "?lo t = ?lo s + least d i" "?hi t = ?hi s + most d i"
      using added_goto [OF n(1), of t s "CLoop r"] r CLoaded by simp_all
    then have le: "?lo t \<le> ?lo s" "?hi s \<le> ?hi t" "?lo t \<le> v + d i" "v + d i \<le> ?hi t"
      using v by (auto simp: least_def most_def)
    then have "loaded_in (?lo t) (?hi t) (cpc t j)" if "j < n" for j
      using loaded_in_mono [OF e(3) [OF that]] r by simp
    then show ?thesis unfolding race_inv_def Let_def using e(4,5) le r CLoaded l by simp
  qed (use n(2) in \<open>simp_all add: race_func_def\<close>)
qed

lemma race_start: "race_inv v0 d n k (counter_start v0 k)"
  by (simp add: race_inv_def counter_start_def added_def)

interpretation race: machine_term "counter_step race_func d n" "counter_start v0 k" "race_inv v0 d n k"
  "\<lambda>_. True" "counted n" "counter_mu n" for d n v0 k
proof unfold_locales
  show "\<exists>i t. True \<and> counter_step race_func d n s i = Some t" if "race_inv v0 d n k s" "\<not> counted n s" for s
    using that(1) free_progress [OF _ that(2), of race_func d] by (simp add: race_inv_def)
  show "counter_mu n t < counter_mu n s" if "counter_step race_func d n s i = Some t" for s i t
    using counter_mu_step [OF that] by simp
  show "race_inv v0 d n k t" if "race_inv v0 d n k s" "counter_step race_func d n s i = Some t" for s i t
    using that by (rule race_inv_step)
qed (rule race_start)

section \<open>Two mutexes\<close>

text \<open>
  02-deadlock.c: \<open>n\<close> threads that lock \<open>mtx_foo\<close>, then \<open>mtx_bar\<close>. The comment says that
  type\_a does not comply with this order, but its code does.
\<close>

datatype lpc = LFoo | LBar | LInc | LAdd | LUnlockBar | LUnlockFoo | LExit

record two_locks =
  foo :: int
  bar :: int
  mtx_foo :: mutex
  mtx_bar :: mutex
  lpc :: "nat \<Rightarrow> lpc"

definition two_locks_start :: two_locks where
  "two_locks_start = \<lparr>foo = 10, bar = 20, mtx_foo = None, mtx_bar = None, lpc = (\<lambda>_. LFoo)\<rparr>"

definition type_a :: "nat \<Rightarrow> two_locks \<Rightarrow> two_locks option" where
  "type_a i s =
     (case lpc s i of
        LFoo \<Rightarrow> map_option (\<lambda>m. s\<lparr>mtx_foo := m, lpc := (lpc s)(i := LBar)\<rparr>) (mutex_lock (mtx_foo s) i)
      | LBar \<Rightarrow> map_option (\<lambda>m. s\<lparr>mtx_bar := m, lpc := (lpc s)(i := LInc)\<rparr>) (mutex_lock (mtx_bar s) i)
      | LInc \<Rightarrow> Some (s\<lparr>bar := bar s + 1, lpc := (lpc s)(i := LAdd)\<rparr>)
      | LAdd \<Rightarrow> Some (s\<lparr>foo := foo s + bar s, lpc := (lpc s)(i := LUnlockBar)\<rparr>)
      | LUnlockBar \<Rightarrow> Some (s\<lparr>mtx_bar := mutex_unlock (mtx_bar s), lpc := (lpc s)(i := LUnlockFoo)\<rparr>)
      | LUnlockFoo \<Rightarrow> Some (s\<lparr>mtx_foo := mutex_unlock (mtx_foo s), lpc := (lpc s)(i := LExit)\<rparr>)
      | LExit \<Rightarrow> None)"

definition type_b :: "nat \<Rightarrow> two_locks \<Rightarrow> two_locks option" where
  "type_b i s =
     (case lpc s i of
        LFoo \<Rightarrow> map_option (\<lambda>m. s\<lparr>mtx_foo := m, lpc := (lpc s)(i := LBar)\<rparr>) (mutex_lock (mtx_foo s) i)
      | LBar \<Rightarrow> map_option (\<lambda>m. s\<lparr>mtx_bar := m, lpc := (lpc s)(i := LInc)\<rparr>) (mutex_lock (mtx_bar s) i)
      | LInc \<Rightarrow> Some (s\<lparr>bar := bar s + 1, lpc := (lpc s)(i := LAdd)\<rparr>)
      | LAdd \<Rightarrow> Some (s\<lparr>foo := foo s + bar s, lpc := (lpc s)(i := LUnlockBar)\<rparr>)
      | LUnlockBar \<Rightarrow> Some (s\<lparr>mtx_bar := mutex_unlock (mtx_bar s), lpc := (lpc s)(i := LUnlockFoo)\<rparr>)
      | LUnlockFoo \<Rightarrow> Some (s\<lparr>mtx_foo := mutex_unlock (mtx_foo s), lpc := (lpc s)(i := LExit)\<rparr>)
      | LExit \<Rightarrow> None)"

text \<open>The threads with an even number are of type a.\<close>

definition locks_step :: "nat \<Rightarrow> two_locks \<Rightarrow> nat \<Rightarrow> two_locks option" where
  "locks_step n s i = (if i < n then (if even i then type_a i s else type_b i s) else None)"

lemma type_b_eq: "type_b i s = type_a i s"
  by (simp add: type_a_def type_b_def)

fun has_foo :: "lpc \<Rightarrow> bool" where
  "has_foo LFoo = False" | "has_foo LExit = False" | "has_foo _ = True"

fun has_bar :: "lpc \<Rightarrow> bool" where
  "has_bar LInc = True" | "has_bar LAdd = True" | "has_bar LUnlockBar = True" | "has_bar _ = False"

fun past_inc :: "lpc \<Rightarrow> bool" where
  "past_inc LFoo = False" | "past_inc LBar = False" | "past_inc LInc = False" | "past_inc _ = True"

fun past_add :: "lpc \<Rightarrow> bool" where
  "past_add LUnlockBar = True" | "past_add LUnlockFoo = True" | "past_add LExit = True" | "past_add _ = False"

definition locks_inv :: "nat \<Rightarrow> two_locks \<Rightarrow> bool" where
  "locks_inv n s \<longleftrightarrow> (\<forall>j. mtx_foo s = Some j \<longleftrightarrow> j < n \<and> has_foo (lpc s j))
     \<and> (\<forall>j. mtx_bar s = Some j \<longleftrightarrow> j < n \<and> has_bar (lpc s j))
     \<and> bar s = 20 + int (cnt past_inc (lpc s) n) \<and> foo s = 10 + (\<Sum>j<cnt past_add (lpc s) n. 21 + int j)"

fun l_left :: "lpc \<Rightarrow> nat" where
  "l_left LFoo = 6" | "l_left LBar = 5" | "l_left LInc = 4" | "l_left LAdd = 3" | "l_left LUnlockBar = 2"
| "l_left LUnlockFoo = 1" | "l_left LExit = 0"

definition locks_mu :: "nat \<Rightarrow> two_locks \<Rightarrow> nat" where
  "locks_mu n s = (\<Sum>j<n. l_left (lpc s j))"

text \<open>A mutex whose owner is the thread at certain places, when a thread moves.\<close>

definition held_at :: "mutex \<Rightarrow> nat \<Rightarrow> (lpc \<Rightarrow> bool) \<Rightarrow> (nat \<Rightarrow> lpc) \<Rightarrow> bool" where
  "held_at m n P f \<longleftrightarrow> (\<forall>j. m = Some j \<longleftrightarrow> j < n \<and> P (f j))"

lemma held_keep: "held_at m n P f \<Longrightarrow> P x = P (f i) \<Longrightarrow> held_at m n P (f(i := x))"
  by (auto simp: held_at_def)

lemma held_take: "held_at None n P f \<Longrightarrow> i < n \<Longrightarrow> P x \<Longrightarrow> held_at (Some i) n P (f(i := x))"
  unfolding held_at_def by (metis fun_upd_apply option.distinct(1) option.inject)

lemma held_drop:
  assumes "held_at m n P f" "i < n" "P (f i)" "\<not> P x"
  shows "held_at None n P (f(i := x))"
proof -
  have "m = Some i" using assms(1-3) by (simp add: held_at_def)
  then have "\<not> P (f j)" if "j < n" "j \<noteq> i" for j using assms(1) that unfolding held_at_def by (metis option.inject)
  then show ?thesis unfolding held_at_def using assms(4) by (metis fun_upd_apply option.distinct(1))
qed

lemma held_alone: "held_at m n P f \<Longrightarrow> i < n \<Longrightarrow> P (f i) \<Longrightarrow> j < n \<Longrightarrow> j \<noteq> i \<Longrightarrow> \<not> P (f j)"
  unfolding held_at_def by (metis option.inject)

lemma locks_inv_eq: "locks_inv n s \<longleftrightarrow> held_at (mtx_foo s) n has_foo (lpc s) \<and> held_at (mtx_bar s) n has_bar (lpc s)
   \<and> bar s = 20 + int (cnt past_inc (lpc s) n) \<and> foo s = 10 + (\<Sum>j<cnt past_add (lpc s) n. 21 + int j)"
  by (simp add: locks_inv_def held_at_def)

lemma locks_inv_step:
  assumes i: "locks_inv n s" and st: "locks_step n s i = Some t"
  shows "locks_inv n t"
proof -
  have h: "held_at (mtx_foo s) n has_foo (lpc s)" "held_at (mtx_bar s) n has_bar (lpc s)"
    using i by (simp_all add: locks_inv_eq)
  have c: "bar s = 20 + int (cnt past_inc (lpc s) n)" "foo s = 10 + (\<Sum>j<cnt past_add (lpc s) n. 21 + int j)"
    using i by (simp_all add: locks_inv_eq)
  have a: "i < n" "type_a i s = Some t" using st by (auto simp: locks_step_def type_b_eq split: if_splits)
  note upd = cnt_upd_same [OF a(1)] cnt_upd_in [OF a(1)]
  show ?thesis
  proof (cases "lpc s i")
    case LFoo
    then have "mtx_foo s = None" "t = s\<lparr>mtx_foo := Some i, lpc := (lpc s)(i := LBar)\<rparr>"
      using a(2) by (auto simp: type_a_def step_simps)
    then show ?thesis using h c a(1) LFoo by (simp add: locks_inv_eq held_keep held_take upd del: fun_upd_apply)
  next
    case LBar
    then have "mtx_bar s = None" "t = s\<lparr>mtx_bar := Some i, lpc := (lpc s)(i := LInc)\<rparr>"
      using a(2) by (auto simp: type_a_def step_simps)
    then show ?thesis using h c a(1) LBar by (simp add: locks_inv_eq held_keep held_take upd del: fun_upd_apply)
  next
    case LInc
    then have "t = s\<lparr>bar := bar s + 1, lpc := (lpc s)(i := LAdd)\<rparr>" using a(2) by (simp add: type_a_def)
    then show ?thesis using h c LInc by (simp add: locks_inv_eq held_keep upd del: fun_upd_apply)
  next
    case LAdd
    have "past_add (lpc s j) = past_inc (((lpc s)(i := LFoo)) j)" if "j < n" for j
      using held_alone [OF h(1) a(1) _ that] LAdd by (cases "j = i"; cases "lpc s j"; simp)
    then have "cnt past_add (lpc s) n = cnt past_inc ((lpc s)(i := LFoo)) n" by (rule cnt_cong)
    moreover have "Suc (cnt past_inc ((lpc s)(i := LFoo)) n) = cnt past_inc (lpc s) n"
      using a(1) LAdd by (intro cnt_upd_del) simp_all
    ultimately have "bar s = 21 + int (cnt past_add (lpc s) n)" using c(1) by simp
    moreover have "t = s\<lparr>foo := foo s + bar s, lpc := (lpc s)(i := LUnlockBar)\<rparr>"
      using a(2) LAdd by (simp add: type_a_def)
    ultimately show ?thesis using h c LAdd by (simp add: locks_inv_eq held_keep upd del: fun_upd_apply)
  next
    case LUnlockBar
    then have "t = s\<lparr>mtx_bar := None, lpc := (lpc s)(i := LUnlockFoo)\<rparr>" using a(2) by (simp add: type_a_def)
    then show ?thesis using h c LUnlockBar held_drop [OF h(2) a(1), of LUnlockFoo]
      by (simp add: locks_inv_eq held_keep upd del: fun_upd_apply)
  next
    case LUnlockFoo
    then have "t = s\<lparr>mtx_foo := None, lpc := (lpc s)(i := LExit)\<rparr>" using a(2) by (simp add: type_a_def)
    then show ?thesis using h c LUnlockFoo held_drop [OF h(1) a(1), of LExit]
      by (simp add: locks_inv_eq held_keep upd del: fun_upd_apply)
  next
    case LExit
    then show ?thesis using a by (simp add: type_a_def)
  qed
qed

lemma locks_mu_step:
  assumes "locks_step n s i = Some t"
  shows "locks_mu n t < locks_mu n s"
proof -
  have a: "i < n" "type_a i s = Some t" using assms by (auto simp: locks_step_def type_b_eq split: if_splits)
  have "lpc t = (lpc s)(i := lpc t i) \<and> l_left (lpc t i) < l_left (lpc s i)"
    using a by (cases "lpc s i") (auto simp: type_a_def step_simps)
  moreover from this have "lpc t j = lpc s j" if "j \<noteq> i" for j using that by (metis fun_upd_other)
  ultimately show ?thesis using sum_change [OF a(1), of "\<lambda>j. l_left (lpc t j)" "\<lambda>j. l_left (lpc s j)"]
    unfolding locks_mu_def by simp
qed

lemma locks_progress:
  assumes i: "locks_inv n s" and d: "\<not> (\<forall>j<n. lpc s j = LExit)"
  shows "\<exists>i t. locks_step n s i = Some t"
proof -
  have m: "mtx_foo s = Some j \<longleftrightarrow> j < n \<and> has_foo (lpc s j)" "mtx_bar s = Some j \<longleftrightarrow> j < n \<and> has_bar (lpc s j)" for j
    using i unfolding locks_inv_def by blast+
  show ?thesis
  proof (cases "mtx_foo s")
    case None
    obtain j where j: "j < n" "lpc s j \<noteq> LExit" using d by blast
    then have "lpc s j = LFoo" using m(1) [of j] None by (cases "lpc s j") simp_all
    then show ?thesis using None j(1)
      by (intro exI [of _ j]) (simp add: locks_step_def type_b_eq type_a_def mutex_lock_def)
  next
    case (Some j)
    then have j: "j < n" "has_foo (lpc s j)" using m(1) by blast+
    have "mtx_bar s = None" if "lpc s j = LBar"
    proof (rule ccontr)
      assume "mtx_bar s \<noteq> None"
      then obtain k where k: "k < n" "has_bar (lpc s k)" using m(2) by auto
      then have "mtx_foo s = Some k" using m(1) [of k] by (cases "lpc s k") simp_all
      then show False using Some k that by simp
    qed
    then show ?thesis using j
      by (intro exI [of _ j]) (cases "lpc s j"; simp add: locks_step_def type_b_eq type_a_def mutex_lock_def)
  qed
qed

lemma locks_start_inv: "locks_inv n two_locks_start"
  by (simp add: locks_inv_def two_locks_start_def cnt_const)

interpretation locks: machine_term "locks_step n" two_locks_start "locks_inv n" "\<lambda>_. True"
  "\<lambda>s. \<forall>j<n. lpc s j = LExit" "locks_mu n" for n
proof unfold_locales
  show "locks_inv n two_locks_start" by (rule locks_start_inv)
  show "locks_inv n t" if "locks_inv n s" "locks_step n s e = Some t" for s e t using that by (rule locks_inv_step)
  show "locks_mu n t < locks_mu n s" if "locks_step n s e = Some t" for s e t using that by (rule locks_mu_step)
  show "\<exists>e t. True \<and> locks_step n s e = Some t" if "locks_inv n s" "\<not> (\<forall>j<n. lpc s j = LExit)" for s
    using locks_progress [OF that] by simp
qed

section \<open>Properties\<close>

text \<open>
  With the mutex, and with atomic increments, no update is lost: when \<open>n\<close> threads with \<open>k\<close>
  rounds each have ended, after at most \<open>4 * k * n\<close> steps, the counter has changed by exactly
  what they have added.
\<close>

theorem counter_exact:
  assumes "run (counter_step f d n) (counter_start v k) es = Some s" "f = mutex_thread \<or> f = atomic_func"
  shows "length es \<le> 4 * k * n \<and> ((\<forall>i. counter_step f d n s i = None) \<longrightarrow> val s = v + (\<Sum>j<n. d j * int k))"
proof -
  have mu: "counter_mu n (counter_start v k) = 4 * k * n" by (simp add: counter_mu_def counter_start_def)
  have "length es \<le> 4 * k * n \<and> exact_inv v d n k s \<and> ((\<forall>i. counter_step f d n s i = None) \<longrightarrow> counted n s)"
    using assms(2)
  proof
    assume f: "f = mutex_thread"
    note r = assms(1) [unfolded f]
    show ?thesis using locked_counter.runs_bounded [OF _ r] locked_counter.run_inv [OF r]
      locked_counter.stuck_final [OF run_reach [OF r]] by (simp add: list_all_iff mu f)
  next
    assume f: "f = atomic_func"
    note r = assms(1) [unfolded f]
    show ?thesis using atomic_counter.runs_bounded [OF _ r] atomic_counter.run_inv [OF r]
      atomic_counter.stuck_final [OF run_reach [OF r]] by (simp add: list_all_iff mu f)
  qed
  moreover have "val s = v + (\<Sum>j<n. d j * int k)" if "exact_inv v d n k s" "counted n s"
  proof -
    have "added d n k s = (\<Sum>j<n. d j * int k)" using that(2) by (simp add: added_def counted_def)
    then show ?thesis using that(1) by (simp add: exact_inv_def)
  qed
  ultimately show ?thesis by blast
qed

text \<open>
  Without protection the counter ends anywhere between what the decrements alone and what the
  increments alone would make of it, and updates can be lost.
\<close>

theorem counter_race:
  assumes "reach (counter_step race_func d n) (counter_start v k) s" "counted n s"
  shows "v + (\<Sum>j<n. least d j * int k) \<le> val s \<and> val s \<le> v + (\<Sum>j<n. most d j * int k)"
proof -
  have "added e n k s = (\<Sum>j<n. e j * int k)" for e using assms(2) by (simp add: added_def counted_def)
  then show ?thesis using race.reach_inv [OF assms(1)] by (simp add: race_inv_def Let_def)
qed

text \<open>
  The two mutexes cannot deadlock, since all threads lock them in the same order: a run has at
  most \<open>6 * n\<close> steps and stops only when all threads have ended; then \<open>bar\<close> and \<open>foo\<close> have the
  values of the threads run one after the other.
\<close>

theorem two_locks_no_deadlock:
  assumes "run (locks_step n) two_locks_start es = Some s"
  shows "length es \<le> 6 * n \<and> ((\<forall>i. locks_step n s i = None) \<longrightarrow>
    (\<forall>j<n. lpc s j = LExit) \<and> bar s = 20 + int n \<and> foo s = 10 + (\<Sum>j<n. 21 + int j))"
proof -
  have "locks_mu n two_locks_start = 6 * n" by (simp add: locks_mu_def two_locks_start_def)
  then have "length es \<le> 6 * n" using locks.runs_bounded [OF _ assms] by (simp add: list_all_iff)
  moreover have i: "locks_inv n s" using locks.run_inv [OF assms] .
  moreover have "\<forall>j<n. lpc s j = LExit" if "\<forall>i. locks_step n s i = None"
    using locks.stuck_final [OF run_reach [OF assms]] that by blast
  moreover have "cnt past_inc (lpc s) n = n \<and> cnt past_add (lpc s) n = n" if "\<forall>j<n. lpc s j = LExit"
    using that by (simp add: cnt_all_iff)
  ultimately show ?thesis by (simp add: locks_inv_def)
qed

text \<open>One round of the two threads of 01-threads: with the mutex 10 stays 10, without it need not.\<close>

theorem counter_exact_witness:
  "\<exists>s. run (counter_step mutex_thread up_down 2) (counter_start 10 1) [0, 0, 0, 0, 1, 1, 1, 1] = Some s \<and> val s = 10"
proof -
  have "case run (counter_step mutex_thread up_down 2) (counter_start 10 1) [0, 0, 0, 0, 1, 1, 1, 1] of
      None \<Rightarrow> False | Some s \<Rightarrow> cpc s 0 = CLoop 0 \<and> cpc s 1 = CLoop 0" by code_simp
  then obtain s where r: "run (counter_step mutex_thread up_down 2) (counter_start 10 1) [0, 0, 0, 0, 1, 1, 1, 1] = Some s"
    "cpc s 0 = CLoop 0" "cpc s 1 = CLoop 0" by (auto split: option.splits)
  have "counter_step mutex_thread up_down 2 s i = None" for i
    using r(2,3) by (auto simp: counter_step_def mutex_thread_def less_2_cases_iff)
  then show ?thesis using counter_exact [OF r(1)] r(1) by (simp add: up_down_def numeral_2_eq_2)
qed

theorem counter_race_witness:
  "\<exists>s. reach (counter_step race_func ups 2) (counter_start 0 1) s \<and> counted 2 s \<and> val s = 1 \<and> val s \<le> 2"
proof -
  have "\<exists>s. reach (counter_step race_func ups 2) (counter_start 0 1) s \<and> cpc s 0 = CLoop 0 \<and> cpc s 1 = CLoop 0
      \<and> val s = 1"
    by (rule run_example [where es = "[0, 1, 0, 1]"]) code_simp
  then obtain s where s: "reach (counter_step race_func ups 2) (counter_start 0 1) s" "cpc s 0 = CLoop 0"
    "cpc s 1 = CLoop 0" "val s = 1" by blast
  then have c: "counted 2 s" by (simp add: counted_def less_2_cases_iff)
  then show ?thesis using counter_race [OF s(1) c] s by (auto simp: most_def ups_def)
qed

theorem two_locks_no_deadlock_witness:
  "\<exists>s. run (locks_step 2) two_locks_start (replicate 6 1 @ replicate 6 0) = Some s \<and> bar s = 22 \<and> foo s = 53"
proof -
  have "case run (locks_step 2) two_locks_start (replicate 6 1 @ replicate 6 0) of None \<Rightarrow> False
      | Some s \<Rightarrow> lpc s 0 = LExit \<and> lpc s 1 = LExit" by code_simp
  then obtain s where r: "run (locks_step 2) two_locks_start (replicate 6 1 @ replicate 6 0) = Some s"
    "lpc s 0 = LExit" "lpc s 1 = LExit" by (auto split: option.splits)
  have "locks_step 2 s i = None" for i
    using r(2,3) by (auto simp: locks_step_def type_a_def type_b_def less_2_cases_iff)
  then show ?thesis using two_locks_no_deadlock [OF r(1)] r(1) by (simp add: numeral_2_eq_2)
qed

end
