(* ===== verification/ThreadCancel.thy ===== *)
theory ThreadCancel
  imports Threads
begin

text \<open>
  The cancellation of POSIX threads, as the example programs use it: the cancelability state
  and type of a thread, the cancellation points, the stack of cleanup handlers, and a main
  thread that creates one thread, cancels it, joins it and prints how it ended. The programs
  are in the theories DeferredCancel, CleanupStack and AsyncCancel; each gives the operation
  that its thread executes next, and proves the laws of the interfaces stated here.
\<close>

section \<open>The control block of a thread\<close>

datatype cancel_state = Enable | Disable
datatype cancel_type = Deferred | Asynchronous

text \<open>
  \<open>Cleaning\<close> is the thread that acts on a request and runs its handlers. \<open>Exited\<close> is the
  process that has called exit, and \<open>Undefined\<close> what C gives no meaning to.
\<close>

datatype life = Running | Cleaning | Canceled | Returned | Exited | Undefined

record 'h thread_ctl =
  cstate :: cancel_state
  ctype :: cancel_type
  requested :: bool
  handlers :: "'h list"
  life :: life

text \<open>
  What the next operation of a thread is for cancellation: no cancellation point, one of
  those that the implementation may make one (printf), or one that POSIX makes one (sleep,
  pthread_testcancel, pthread_cond_wait, pthread_join).
\<close>

datatype point = NoPoint | MayPoint | MustPoint

definition may_act :: "point \<Rightarrow> ('h, 'a) thread_ctl_scheme \<Rightarrow> bool" where
  "may_act p s \<longleftrightarrow> requested s \<and> cstate s = Enable \<and> (ctype s = Asynchronous \<or> p \<noteq> NoPoint)"

definition must_act :: "point \<Rightarrow> ('h, 'a) thread_ctl_scheme \<Rightarrow> bool" where
  "must_act p s \<longleftrightarrow> requested s \<and> cstate s = Enable \<and> p = MustPoint"

lemma must_may: "must_act p s \<Longrightarrow> may_act p s"
  by (auto simp: must_act_def may_act_def)

definition setcancelstate :: "cancel_state \<Rightarrow> ('h, 'a) thread_ctl_scheme \<Rightarrow> ('h, 'a) thread_ctl_scheme" where
  "setcancelstate c s = s\<lparr>cstate := c\<rparr>"

definition setcanceltype :: "cancel_type \<Rightarrow> ('h, 'a) thread_ctl_scheme \<Rightarrow> ('h, 'a) thread_ctl_scheme" where
  "setcanceltype c s = s\<lparr>ctype := c\<rparr>"

definition cleanup_push :: "'h \<Rightarrow> ('h, 'a) thread_ctl_scheme \<Rightarrow> ('h, 'a) thread_ctl_scheme" where
  "cleanup_push h s = s\<lparr>handlers := h # handlers s\<rparr>"

text \<open>\<open>pthread_cleanup_pop\<close> takes the last handler off and runs it when its argument is not 0.\<close>

definition cleanup_pop ::
  "('h \<Rightarrow> ('h, 'a) thread_ctl_scheme \<Rightarrow> ('h, 'a) thread_ctl_scheme) \<Rightarrow> bool \<Rightarrow>
     ('h, 'a) thread_ctl_scheme \<Rightarrow> ('h, 'a) thread_ctl_scheme" where
  "cleanup_pop handler exec s =
     (case handlers s of
        [] \<Rightarrow> s\<lparr>life := Undefined\<rparr>
      | h # hs \<Rightarrow> if exec then handler h (s\<lparr>handlers := hs\<rparr>) else s\<lparr>handlers := hs\<rparr>)"

definition pthread_cancel :: "('h, 'a) thread_ctl_scheme \<Rightarrow> ('h, 'a) thread_ctl_scheme" where
  "pthread_cancel s = s\<lparr>requested := True\<rparr>"

lemmas ctl_defs = setcancelstate_def setcanceltype_def cleanup_push_def cleanup_pop_def
  pthread_cancel_def may_act_def must_act_def

section \<open>One thread\<close>

text \<open>
  A thread executes its next operation (which succeeds or not) or acts on a request; a thread
  that cleans up runs the handlers from the last one pushed to the first, and then ends. At a
  cancellation point a pending request must be acted upon; elsewhere an asynchronous thread
  may be.
\<close>

datatype cancel_event = Exec bool | Act

definition thread_step ::
  "(bool \<Rightarrow> ('h, 'a) thread_ctl_scheme \<Rightarrow> ('h, 'a) thread_ctl_scheme option) \<Rightarrow>
   (('h, 'a) thread_ctl_scheme \<Rightarrow> point) \<Rightarrow>
   ('h \<Rightarrow> ('h, 'a) thread_ctl_scheme \<Rightarrow> ('h, 'a) thread_ctl_scheme) \<Rightarrow>
   ('h, 'a) thread_ctl_scheme \<Rightarrow> cancel_event \<Rightarrow> ('h, 'a) thread_ctl_scheme option" where
  "thread_step exec point handler s e =
     (case e of
        Act \<Rightarrow> if life s = Running \<and> may_act (point s) s then Some (s\<lparr>life := Cleaning\<rparr>) else None
      | Exec ok \<Rightarrow>
          (case life s of
             Running \<Rightarrow> if must_act (point s) s then None else exec ok s
           | Cleaning \<Rightarrow>
               (case handlers s of
                  [] \<Rightarrow> Some (s\<lparr>life := Canceled\<rparr>)
                | h # hs \<Rightarrow> Some (handler h (s\<lparr>handlers := hs\<rparr>)))
           | _ \<Rightarrow> None))"

lemma thread_step_cases [consumes 1, case_names act exec last_one pop]:
  assumes "thread_step exec point handler s e = Some t"
    and "e = Act \<Longrightarrow> life s = Running \<Longrightarrow> may_act (point s) s \<Longrightarrow> t = s\<lparr>life := Cleaning\<rparr> \<Longrightarrow> P"
    and "\<And>ok. e = Exec ok \<Longrightarrow> life s = Running \<Longrightarrow> \<not> must_act (point s) s \<Longrightarrow> exec ok s = Some t \<Longrightarrow> P"
    and "\<And>ok. e = Exec ok \<Longrightarrow> life s = Cleaning \<Longrightarrow> handlers s = [] \<Longrightarrow> t = s\<lparr>life := Canceled\<rparr> \<Longrightarrow> P"
    and "\<And>ok h hs. e = Exec ok \<Longrightarrow> life s = Cleaning \<Longrightarrow> handlers s = h # hs \<Longrightarrow>
           t = handler h (s\<lparr>handlers := hs\<rparr>) \<Longrightarrow> P"
  shows P
  using assms by (auto simp: thread_step_def split: cancel_event.splits life.splits if_splits list.splits)

section \<open>The main thread\<close>

text \<open>
  \<open>Printed b\<close> has printed whether the joined thread was cancelled. The programs of
  shackleford/src/threads check the calls and leave with exit when one fails (\<open>checks\<close>); those
  of the directory thr do not look at the results, and \<open>Wild\<close> is what follows when the thread
  could not be made and its number was never written.
\<close>

datatype main_pc = Creating | Canceling | Joining | JoinThenExit | Printed bool | Gone | Wild

record 's session =
  mpc :: main_pc
  thr :: 's

definition ended :: "life \<Rightarrow> bool" where
  "ended l \<longleftrightarrow> l = Canceled \<or> l = Returned"

definition canceller :: "bool \<Rightarrow> ('h, 'a) thread_ctl_scheme session \<Rightarrow> bool \<Rightarrow>
     ('h, 'a) thread_ctl_scheme session option" where
  "canceller checks m ok =
     (case mpc m of
        Creating \<Rightarrow> Some (m\<lparr>mpc := (if ok then Canceling else if checks then Gone else Wild)\<rparr>)
      | Canceling \<Rightarrow>
          Some (if ok then m\<lparr>mpc := Joining, thr := pthread_cancel (thr m)\<rparr>
                else m\<lparr>mpc := (if checks then JoinThenExit else Joining)\<rparr>)
      | Joining \<Rightarrow> if ended (life (thr m)) then Some (m\<lparr>mpc := Printed (life (thr m) = Canceled)\<rparr>) else None
      | JoinThenExit \<Rightarrow> if ended (life (thr m)) then Some (m\<lparr>mpc := Gone\<rparr>) else None
      | _ \<Rightarrow> None)"

datatype session_event = Main bool | Thread cancel_event

definition alive :: "('h, 'a) thread_ctl_scheme session \<Rightarrow> bool" where
  "alive m \<longleftrightarrow> mpc m \<noteq> Gone \<and> mpc m \<noteq> Wild \<and> life (thr m) \<noteq> Exited \<and> life (thr m) \<noteq> Undefined"

definition session_step ::
  "bool \<Rightarrow> (bool \<Rightarrow> ('h, 'a) thread_ctl_scheme \<Rightarrow> ('h, 'a) thread_ctl_scheme option) \<Rightarrow>
   (('h, 'a) thread_ctl_scheme \<Rightarrow> point) \<Rightarrow>
   ('h \<Rightarrow> ('h, 'a) thread_ctl_scheme \<Rightarrow> ('h, 'a) thread_ctl_scheme) \<Rightarrow>
   ('h, 'a) thread_ctl_scheme session \<Rightarrow> session_event \<Rightarrow> ('h, 'a) thread_ctl_scheme session option" where
  "session_step checks exec point handler m e =
     (if \<not> alive m then None
      else case e of
        Main ok \<Rightarrow> canceller checks m ok
      | Thread c \<Rightarrow> if mpc m = Creating then None
                    else map_option (\<lambda>t. m\<lparr>thr := t\<rparr>) (thread_step exec point handler (thr m) c))"

definition session_start :: "('h, 'a) thread_ctl_scheme \<Rightarrow> ('h, 'a) thread_ctl_scheme session" where
  "session_start s = \<lparr>mpc = Creating, thr = s\<rparr>"

section \<open>What a thread keeps\<close>

text \<open>
  The contract of a thread that may be cancelled: \<open>good\<close> holds of the state it starts in, of
  every state its operations and its handlers lead to, and is not disturbed by a request, by
  acting on one where that is allowed, and by the end of the cleanup.
\<close>

locale cancellable =
  fixes exec :: "bool \<Rightarrow> ('h, 'a) thread_ctl_scheme \<Rightarrow> ('h, 'a) thread_ctl_scheme option"
    and point :: "('h, 'a) thread_ctl_scheme \<Rightarrow> point"
    and handler :: "'h \<Rightarrow> ('h, 'a) thread_ctl_scheme \<Rightarrow> ('h, 'a) thread_ctl_scheme"
    and start :: "('h, 'a) thread_ctl_scheme"
    and good :: "('h, 'a) thread_ctl_scheme \<Rightarrow> bool"
  assumes good_start: "good start"
    and good_request: "good s \<Longrightarrow> good (pthread_cancel s)"
    and good_exec: "good s \<Longrightarrow> life s = Running \<Longrightarrow> \<not> must_act (point s) s \<Longrightarrow> exec ok s = Some t \<Longrightarrow> good t"
    and good_act: "good s \<Longrightarrow> life s = Running \<Longrightarrow> may_act (point s) s \<Longrightarrow> good (s\<lparr>life := Cleaning\<rparr>)"
    and good_handler: "good s \<Longrightarrow> life s = Cleaning \<Longrightarrow> handlers s = h # hs \<Longrightarrow>
                         good (handler h (s\<lparr>handlers := hs\<rparr>))"
    and good_end: "good s \<Longrightarrow> life s = Cleaning \<Longrightarrow> handlers s = [] \<Longrightarrow> good (s\<lparr>life := Canceled\<rparr>)"
begin

lemma thread_step_good: "good s \<Longrightarrow> thread_step exec point handler s e = Some t \<Longrightarrow> good t"
  by (erule thread_step_cases) (auto intro: good_exec good_act good_handler good_end)

definition session_good :: "('h, 'a) thread_ctl_scheme session \<Rightarrow> bool" where
  "session_good m \<longleftrightarrow> good (thr m) \<and>
     (\<forall>b. mpc m = Printed b \<longrightarrow> ended (life (thr m)) \<and> (b \<longleftrightarrow> life (thr m) = Canceled))"

lemma session_step_good:
  assumes "session_good m" "session_step checks exec point handler m e = Some m'"
  shows "session_good m'"
  using assms
  by (auto simp: session_step_def session_good_def canceller_def ended_def thread_step_def
           split: if_splits session_event.splits main_pc.splits cancel_event.splits life.splits list.splits
           intro: thread_step_good good_request good_exec good_act good_handler good_end)

end

sublocale cancellable < session: machine_inv "session_step checks exec point handler"
  "session_start start" session_good for checks
proof
  show "session_good (session_start start)"
    by (simp add: session_good_def session_start_def good_start)
qed (rule session_step_good)

text \<open>
  The contract of a thread that answers: from a \<open>responsive\<close> state with a request, every
  operation brings it nearer to a cancellation point, and it is never blocked elsewhere.
\<close>

locale prompt = cancellable +
  fixes responsive :: "('a, 'b) thread_ctl_scheme \<Rightarrow> bool"
    and dist :: "('a, 'b) thread_ctl_scheme \<Rightarrow> nat"
    and depth :: nat
  assumes depth: "good s \<Longrightarrow> life s = Running \<Longrightarrow> length (handlers s) \<le> depth"
    and handler_pops: "good s \<Longrightarrow> life s = Cleaning \<Longrightarrow> handlers s = h # hs \<Longrightarrow>
           handlers (handler h (s\<lparr>handlers := hs\<rparr>)) = hs \<and> life (handler h (s\<lparr>handlers := hs\<rparr>)) = Cleaning"
    and nearer: "good s \<Longrightarrow> life s = Running \<Longrightarrow> requested s \<Longrightarrow> responsive s \<Longrightarrow> \<not> must_act (point s) s \<Longrightarrow>
           exec ok s = Some t \<Longrightarrow>
           life t = Exited \<or> life t = Running \<and> requested t \<and> responsive t \<and> dist t < dist s"
    and not_blocked: "good s \<Longrightarrow> life s = Running \<Longrightarrow> requested s \<Longrightarrow> responsive s \<Longrightarrow>
           \<not> must_act (point s) s \<Longrightarrow> exec True s \<noteq> None"
begin

definition answering :: "('a, 'b) thread_ctl_scheme \<Rightarrow> bool" where
  "answering s \<longleftrightarrow> good s \<and> life s \<noteq> Returned \<and> life s \<noteq> Undefined \<and>
     (life s = Running \<longrightarrow> requested s \<and> responsive s)"

definition answered :: "('a, 'b) thread_ctl_scheme \<Rightarrow> bool" where
  "answered s \<longleftrightarrow> life s = Canceled \<or> life s = Exited"

definition mu :: "('a, 'b) thread_ctl_scheme \<Rightarrow> nat" where
  "mu s = (case life s of Running \<Rightarrow> dist s + depth + 2 | Cleaning \<Rightarrow> length (handlers s) + 1 | _ \<Rightarrow> 0)"

lemma answering_step:
  assumes "answering s" "thread_step exec point handler s e = Some t"
  shows "answering t \<and> mu t < mu s"
proof -
  have g: "good s" "good t" using assms thread_step_good by (auto simp: answering_def)
  from assms(2) show ?thesis
  proof (cases rule: thread_step_cases)
    case act
    then show ?thesis using g depth [OF g(1) act(2)] by (auto simp: answering_def mu_def)
  next
    case (exec ok)
    then have "life t = Exited \<or> life t = Running \<and> requested t \<and> responsive t \<and> dist t < dist s"
      using assms(1) by (intro nearer) (auto simp: answering_def)
    then show ?thesis using exec g by (auto simp: answering_def mu_def)
  next
    case (last_one ok)
    then show ?thesis using g by (auto simp: answering_def mu_def)
  next
    case (pop ok h hs)
    then show ?thesis using g handler_pops [OF g(1) pop(2,3)] by (auto simp: answering_def mu_def)
  qed
qed

lemma answering_moves:
  assumes "answering s" "\<not> answered s"
  shows "\<exists>e t. thread_step exec point handler s e = Some t"
proof (cases "life s = Running")
  case True
  show ?thesis
  proof (cases "must_act (point s) s")
    case m: True
    then have "thread_step exec point handler s Act \<noteq> None"
      using True must_may by (simp add: thread_step_def)
    then show ?thesis by blast
  next
    case False
    then have "exec True s \<noteq> None"
      using assms(1) True by (intro not_blocked) (auto simp: answering_def)
    then have "thread_step exec point handler s (Exec True) \<noteq> None"
      using True False by (simp add: thread_step_def)
    then show ?thesis by blast
  qed
next
  case False
  then have "life s = Cleaning" using assms by (cases "life s") (auto simp: answering_def answered_def)
  then have "thread_step exec point handler s (Exec True) \<noteq> None"
    by (simp add: thread_step_def split: list.splits)
  then show ?thesis by blast
qed

lemma answering_term:
  "answering s \<Longrightarrow> machine_term (thread_step exec point handler) s answering (\<lambda>_. True) answered mu"
  by unfold_locales (auto dest: answering_step answering_moves)

text \<open>
  A request that reaches a responsive thread is answered: within the distance and the cleanup
  the thread has ended, cancelled, unless the process has ended.
\<close>

lemma request_answered:
  assumes "good s" "life s = Running" "requested s" "responsive s"
    and "run (thread_step exec point handler) s es = Some t"
  shows "length es \<le> dist s + depth + 2 \<and>
    ((\<forall>e. thread_step exec point handler t e = None) \<longrightarrow> life t = Canceled \<or> life t = Exited) \<and>
    life t \<noteq> Returned"
proof -
  have a: "answering s" using assms by (simp add: answering_def)
  note m = answering_term [OF a]
  have "length es \<le> mu s" using machine_term.runs_bounded [OF m _ assms(5)] by (simp add: list_all_iff)
  moreover have "answering t" using machine_inv.run_inv [OF machine_term.axioms(1) [OF m] assms(5)] .
  moreover have "(\<forall>e. thread_step exec point handler t e = None) \<longrightarrow> answered t"
    using machine_term.stuck_final [OF m] run_reach [OF assms(5)] by blast
  ultimately show ?thesis using assms(2) by (auto simp: mu_def answering_def answered_def)
qed

end

end
