(* ===== verification/DeferredCancel.thy ===== *)
theory DeferredCancel
  imports ThreadCancel CInt
begin

text \<open>
  Threads that decide when they may be cancelled: shackleford/src/threads/3-cancel\_deferred.c
  and 4-cancel-async.c, and thr/deferred\_cancellation\_v1.c and deferred\_cancellation\_v2.c.
\<close>

section \<open>3-cancel\_deferred.c\<close>

text \<open>
  \<open>phase\<close> is how far the initialisation is that the thread protects (the code simulates it
  with a sleep; it has begun and not ended while the thread sleeps).
\<close>

datatype phase = Untouched | Half | Ready
datatype dpc = DPrint | DDisable | DSetup | DSleep5 | DPrint2 | DEnable | DSleep | DPrint3 | DReturn

record deferred = "unit thread_ctl" +
  dpc :: dpc
  phase :: phase

definition deferred_start :: deferred where
  "deferred_start = \<lparr>cstate = Enable, ctype = Deferred, requested = False, handlers = [],
     life = Running, dpc = DPrint, phase = Untouched\<rparr>"

definition deferred_thread :: "bool \<Rightarrow> deferred \<Rightarrow> deferred option" where
  "deferred_thread ok s =
     (case dpc s of
        DPrint \<Rightarrow> Some (s\<lparr>dpc := DDisable\<rparr>)
      | DDisable \<Rightarrow> Some (if ok then (setcancelstate Disable s)\<lparr>dpc := DSetup\<rparr> else s\<lparr>life := Exited\<rparr>)
      | DSetup \<Rightarrow> Some (s\<lparr>phase := Half, dpc := DSleep5\<rparr>)
      | DSleep5 \<Rightarrow> Some (s\<lparr>phase := Ready, dpc := DPrint2\<rparr>)
      | DPrint2 \<Rightarrow> Some (s\<lparr>dpc := DEnable\<rparr>)
      | DEnable \<Rightarrow> Some (if ok then (setcancelstate Enable s)\<lparr>dpc := DSleep\<rparr> else s\<lparr>life := Exited\<rparr>)
      | DSleep \<Rightarrow> Some (s\<lparr>dpc := DPrint3\<rparr>)
      | DPrint3 \<Rightarrow> Some (s\<lparr>dpc := DReturn\<rparr>)
      | DReturn \<Rightarrow> Some (s\<lparr>life := Returned\<rparr>))"

definition deferred_point :: "deferred \<Rightarrow> point" where
  "deferred_point s =
     (case dpc s of DPrint \<Rightarrow> MayPoint | DSleep5 \<Rightarrow> MustPoint | DPrint2 \<Rightarrow> MayPoint
      | DSleep \<Rightarrow> MustPoint | DPrint3 \<Rightarrow> MayPoint | _ \<Rightarrow> NoPoint)"

text \<open>None of the four programs pushes a cleanup handler.\<close>

definition no_handler :: "unit \<Rightarrow> (unit, 'a) thread_ctl_scheme \<Rightarrow> (unit, 'a) thread_ctl_scheme" where
  "no_handler h s = s"

definition protected :: "deferred \<Rightarrow> bool" where
  "protected s \<longleftrightarrow> dpc s \<in> {DSetup, DSleep5, DPrint2, DEnable}"

definition deferred_good :: "deferred \<Rightarrow> bool" where
  "deferred_good s \<longleftrightarrow> handlers s = [] \<and> ctype s = Deferred \<and> life s \<noteq> Undefined \<and>
     (phase s = Half \<longleftrightarrow> dpc s = DSleep5) \<and> (dpc s \<in> {DPrint, DDisable, DSetup} \<longleftrightarrow> phase s = Untouched) \<and>
     cstate s = (if protected s then Disable else Enable) \<and>
     (life s = Cleaning \<or> life s = Canceled \<longrightarrow> \<not> protected s) \<and>
     (life s = Returned \<longrightarrow> dpc s = DReturn)"

definition before_end :: "deferred \<Rightarrow> bool" where
  "before_end s \<longleftrightarrow> dpc s \<noteq> DPrint3 \<and> dpc s \<noteq> DReturn"

definition deferred_dist :: "deferred \<Rightarrow> nat" where
  "deferred_dist s =
     (case dpc s of DPrint \<Rightarrow> 6 | DDisable \<Rightarrow> 5 | DSetup \<Rightarrow> 4 | DSleep5 \<Rightarrow> 3 | DPrint2 \<Rightarrow> 2 | DEnable \<Rightarrow> 1 | _ \<Rightarrow> 0)"

lemmas deferred_defs = deferred_good_def deferred_thread_def deferred_point_def protected_def
  no_handler_def deferred_start_def before_end_def deferred_dist_def ctl_defs

interpretation dfr: prompt deferred_thread deferred_point no_handler deferred_start deferred_good
  before_end deferred_dist 0
proof
  show "deferred_good t"
    if "deferred_good s" "life s = Running" "\<not> must_act (deferred_point s) s" "deferred_thread ok s = Some t"
    for s ok t
    using that by (cases "dpc s"; clarsimp simp: deferred_defs split: if_splits)
  show "deferred_good (s\<lparr>life := Cleaning\<rparr>)"
    if "deferred_good s" "life s = Running" "may_act (deferred_point s) s" for s
    using that by (cases "dpc s"; clarsimp simp: deferred_defs)
  show "life t = Exited \<or> life t = Running \<and> requested t \<and> before_end t \<and> deferred_dist t < deferred_dist s"
    if "deferred_good s" "life s = Running" "requested s" "before_end s" "\<not> must_act (deferred_point s) s"
      "deferred_thread ok s = Some t" for s ok t
    using that by (cases "dpc s"; clarsimp simp: deferred_defs split: if_splits)
  show "deferred_thread True s \<noteq> None" for s
    by (simp add: deferred_thread_def split: dpc.splits)
qed (auto simp: deferred_defs)

abbreviation deferred_session :: "deferred session \<Rightarrow> session_event \<Rightarrow> deferred session option" where
  "deferred_session \<equiv> session_step True deferred_thread deferred_point no_handler"

lemma setup_not_torn:
  "reach deferred_session (session_start deferred_start) m \<Longrightarrow> mpc m = Printed b \<Longrightarrow>
     phase (thr m) \<noteq> Half \<and> (\<not> b \<longrightarrow> phase (thr m) = Ready)"
  using dfr.session.reach_inv [of True m]
  by (cases "phase (thr m)") (auto simp: dfr.session_good_def ended_def deferred_good_def protected_def)

lemma setup_then_cancelled:
  "reach deferred_session (session_start deferred_start) m \<Longrightarrow> life (thr m) = Running \<Longrightarrow>
     requested (thr m) \<Longrightarrow> before_end (thr m) \<Longrightarrow>
     run (thread_step deferred_thread deferred_point no_handler) (thr m) es = Some t \<Longrightarrow>
     length es \<le> 8 \<and> life t \<noteq> Returned \<and>
     ((\<forall>e. thread_step deferred_thread deferred_point no_handler t e = None) \<longrightarrow>
       life t = Canceled \<or> life t = Exited)"
  using dfr.request_answered [of "thr m" es t] dfr.session.reach_inv [of True m]
  by (auto simp: dfr.session_good_def deferred_dist_def split: dpc.splits)

section \<open>4-cancel-async.c\<close>

text \<open>The lines after the loop that does not end are there (\<open>ARestore\<close> and later).\<close>

datatype apc = APrint | ADisable | APrint2 | ASetType | APrint3 | AEnable | ALoop | ARestore | APrint4 | AReturn

record asyn = "unit thread_ctl" +
  apc :: apc
  old_type :: "cancel_type option"

definition async_start :: asyn where
  "async_start = \<lparr>cstate = Enable, ctype = Deferred, requested = False, handlers = [],
     life = Running, apc = APrint, old_type = None\<rparr>"

definition async_thread :: "bool \<Rightarrow> asyn \<Rightarrow> asyn option" where
  "async_thread ok s =
     (case apc s of
        APrint \<Rightarrow> Some (s\<lparr>apc := ADisable\<rparr>)
      | ADisable \<Rightarrow> Some (if ok then (setcancelstate Disable s)\<lparr>apc := APrint2\<rparr> else s\<lparr>life := Exited\<rparr>)
      | APrint2 \<Rightarrow> Some (s\<lparr>apc := ASetType\<rparr>)
      | ASetType \<Rightarrow>
          Some (if ok then (setcanceltype Asynchronous s)\<lparr>old_type := Some (ctype s), apc := APrint3\<rparr>
                else s\<lparr>life := Exited\<rparr>)
      | APrint3 \<Rightarrow> Some (s\<lparr>apc := AEnable\<rparr>)
      | AEnable \<Rightarrow> Some (if ok then (setcancelstate Enable s)\<lparr>apc := ALoop\<rparr> else s\<lparr>life := Exited\<rparr>)
      | ALoop \<Rightarrow> Some s
      | ARestore \<Rightarrow>
          (case old_type s of
             None \<Rightarrow> Some (s\<lparr>life := Undefined\<rparr>)
           | Some c \<Rightarrow> Some (if ok then (setcanceltype c s)\<lparr>apc := APrint4\<rparr> else s\<lparr>life := Exited\<rparr>))
      | APrint4 \<Rightarrow> Some (s\<lparr>apc := AReturn\<rparr>)
      | AReturn \<Rightarrow> Some (s\<lparr>life := Returned\<rparr>))"

definition async_point :: "asyn \<Rightarrow> point" where
  "async_point s = (if apc s \<in> {APrint, APrint2, APrint3, APrint4} then MayPoint else NoPoint)"

definition async_good :: "asyn \<Rightarrow> bool" where
  "async_good s \<longleftrightarrow> handlers s = [] \<and> life s \<noteq> Undefined \<and> life s \<noteq> Returned \<and>
     apc s \<notin> {ARestore, APrint4, AReturn} \<and>
     cstate s = (if apc s \<in> {APrint, ADisable, ALoop} then Enable else Disable) \<and>
     ctype s = (if apc s \<in> {APrint3, AEnable, ALoop} then Asynchronous else Deferred) \<and>
     (life s = Cleaning \<or> life s = Canceled \<longrightarrow> apc s = APrint \<or> apc s = ALoop)"

lemmas async_defs = async_good_def async_thread_def async_point_def no_handler_def async_start_def ctl_defs

interpretation asy: cancellable async_thread async_point no_handler async_start async_good
proof
  show "async_good t"
    if "async_good s" "life s = Running" "\<not> must_act (async_point s) s" "async_thread ok s = Some t"
    for s ok t
    using that by (cases "apc s"; clarsimp simp: async_defs split: if_splits)
  show "async_good (s\<lparr>life := Cleaning\<rparr>)"
    if "async_good s" "life s = Running" "may_act (async_point s) s" for s
    using that by (cases "apc s"; clarsimp simp: async_defs)
qed (auto simp: async_defs)

abbreviation async_session :: "asyn session \<Rightarrow> session_event \<Rightarrow> asyn session option" where
  "async_session \<equiv> session_step True async_thread async_point no_handler"

text \<open>
  The thread is cancelled before it has switched cancellation off or in the loop, where the
  request can be acted upon at any moment; nothing after the loop is executed.
\<close>

lemma async_cancelled:
  "reach async_session (session_start async_start) m \<Longrightarrow>
     apc (thr m) \<notin> {ARestore, APrint4, AReturn} \<and> mpc m \<noteq> Printed False \<and>
     (life (thr m) = Canceled \<longrightarrow> apc (thr m) = APrint \<or> apc (thr m) = ALoop) \<and>
     (life (thr m) = Running \<longrightarrow> apc (thr m) = ALoop \<longrightarrow> requested (thr m) \<longrightarrow>
       thread_step async_thread async_point no_handler (thr m) Act \<noteq> None)"
  using asy.session.reach_inv [of True m]
  by (auto simp: asy.session_good_def async_good_def thread_step_def may_act_def ended_def)

section \<open>deferred\_cancellation\_v1.c\<close>

text \<open>
  The thread counts, and tests for a request when the counter is a multiple of 1000. The counter
  is an int, and the loop has no end: past \<open>INT_MAX\<close> the program is undefined.
\<close>

datatype vpc = VInit | VTest | VPoint | VIncr

record counting = "unit thread_ctl" +
  vpc :: vpc
  counter :: int

definition counting_start :: counting where
  "counting_start = \<lparr>cstate = Enable, ctype = Deferred, requested = False, handlers = [],
     life = Running, vpc = VInit, counter = 0\<rparr>"

definition v1_thread :: "bool \<Rightarrow> counting \<Rightarrow> counting option" where
  "v1_thread ok s =
     (case vpc s of
        VInit \<Rightarrow> Some (s\<lparr>counter := 0, vpc := VTest\<rparr>)
      | VTest \<Rightarrow> Some (s\<lparr>vpc := (if counter s mod 1000 = 0 then VPoint else VIncr)\<rparr>)
      | VPoint \<Rightarrow> Some (s\<lparr>vpc := VIncr\<rparr>)
      | VIncr \<Rightarrow>
          (case iadd (counter s) 1 of
             Inl _ \<Rightarrow> Some (s\<lparr>life := Undefined\<rparr>)
           | Inr c \<Rightarrow> Some (s\<lparr>counter := c, vpc := VTest\<rparr>)))"

definition v1_point :: "counting \<Rightarrow> point" where
  "v1_point s = (if vpc s = VPoint then MustPoint else NoPoint)"

definition v1_good :: "counting \<Rightarrow> bool" where
  "v1_good s \<longleftrightarrow> handlers s = [] \<and> cstate s = Enable \<and> ctype s = Deferred \<and>
     life s \<noteq> Returned \<and> life s \<noteq> Exited \<and> 0 \<le> counter s \<and> counter s \<le> INT_MAX \<and> (vpc s = VInit \<longrightarrow> counter s = 0) \<and>
     (vpc s = VPoint \<longrightarrow> counter s mod 1000 = 0) \<and>
     (life s = Cleaning \<or> life s = Canceled \<longrightarrow> vpc s = VPoint)"

text \<open>Below the last multiple of the period that an int holds, the next test will come.\<close>

definition v1_responsive :: "counting \<Rightarrow> bool" where
  "v1_responsive s \<longleftrightarrow> counter s < 2147483000 \<or> (counter s = 2147483000 \<and> vpc s \<noteq> VIncr)"

definition v1_dist :: "counting \<Rightarrow> nat" where
  "v1_dist s =
     (case vpc s of
        VInit \<Rightarrow> 2
      | VTest \<Rightarrow> nat (2 * ((- counter s) mod 1000) + 1)
      | VPoint \<Rightarrow> 0
      | VIncr \<Rightarrow> nat (2 * ((- counter s - 1) mod 1000) + 2))"

lemmas v1_defs = v1_good_def v1_thread_def v1_point_def no_handler_def counting_start_def ctl_defs

lemma next_multiple:
  assumes "c mod n \<noteq> 0" "0 < n"
  shows "(- c - 1) mod n + 1 = (- c) mod (n :: int)"
proof -
  have "(- c) mod n \<noteq> 0" using assms(1) by (simp add: mod_eq_0_iff_dvd)
  then have r: "(- c) mod n \<noteq> 0" "0 \<le> (- c) mod n" "(- c) mod n < n" using assms(2) by simp_all
  have "(- c - 1) mod n = ((- c) mod n - 1) mod n" by (metis mod_diff_left_eq)
  also have "\<dots> = (- c) mod n - 1" using r by (intro mod_pos_pos_trivial) auto
  finally show ?thesis by simp
qed

lemma iadd_one: "iadd c 1 = (if c + 1 \<le> INT_MAX \<and> INT_MIN \<le> c + 1 then Inr (c + 1) else Inl Overflow)"
  by (auto simp: iadd_def int_val_def)

interpretation v1: prompt v1_thread v1_point no_handler counting_start v1_good v1_responsive v1_dist 0
proof
  show "v1_good t"
    if "v1_good s" "life s = Running" "\<not> must_act (v1_point s) s" "v1_thread ok s = Some t" for s ok t
    using that by (cases "vpc s"; clarsimp simp: v1_defs iadd_one INT_MAX_def split: if_splits)
  show "life t = Exited \<or> life t = Running \<and> requested t \<and> v1_responsive t \<and> v1_dist t < v1_dist s"
    if "v1_good s" "life s = Running" "requested s" "v1_responsive s" "\<not> must_act (v1_point s) s"
      "v1_thread ok s = Some t" for s ok t
    using that next_multiple [of "counter s" 1000]
    by (cases "vpc s") (auto simp: v1_defs iadd_one v1_responsive_def v1_dist_def INT_MAX_def INT_MIN_def split: if_splits)
  show "v1_thread True s \<noteq> None" for s
    by (simp add: v1_thread_def split: vpc.splits sum.splits)
qed (auto simp: v1_defs INT_MAX_def split: if_splits)

abbreviation v1_session :: "counting session \<Rightarrow> session_event \<Rightarrow> counting session option" where
  "v1_session \<equiv> session_step False v1_thread v1_point no_handler"

lemma v1_cancelled_at_1000s:
  "reach v1_session (session_start counting_start) m \<Longrightarrow>
     mpc m \<noteq> Printed False \<and> (life (thr m) = Canceled \<longrightarrow> counter (thr m) mod 1000 = 0)"
  using v1.session.reach_inv [of False m] by (auto simp: v1.session_good_def v1_good_def ended_def)

lemma weight_le: "0 < n \<Longrightarrow> 0 \<le> a \<Longrightarrow> nat (a * (x mod n) + b) \<le> nat (a * (n - 1) + b)"
  by (rule nat_mono) (simp add: mult_left_mono)

lemma v1_dist_le: "v1_dist s \<le> 2000"
  using weight_le [of 1000 2 "- counter s" 1] weight_le [of 1000 2 "- counter s - 1" 2]
  by (cases "vpc s") (simp_all add: v1_dist_def)

text \<open>
  A request to the thread of deferred\_cancellation\_v1.c whose counter has not come to the
  last multiple of 1000 of an int is answered: after at most 2002 steps the thread has ended,
  cancelled, with a counter that is a multiple of 1000.
\<close>

theorem v1_answers:
  assumes "reach v1_session (session_start counting_start) m"
    and "life (thr m) = Running" "requested (thr m)" "counter (thr m) < 2147483000"
    and "run (thread_step v1_thread v1_point no_handler) (thr m) es = Some t"
  shows "length es \<le> 2002 \<and>
    ((\<forall>e. thread_step v1_thread v1_point no_handler t e = None) \<longrightarrow> life t = Canceled \<and> counter t mod 1000 = 0)"
proof -
  have g: "v1_good (thr m)" using v1.session.reach_inv [OF assms(1)] by (simp add: v1.session_good_def)
  have "v1_responsive (thr m)" using assms(4) by (simp add: v1_responsive_def)
  note r = v1.request_answered [OF g assms(2,3) this assms(5)]
  have "v1_good t" using run_reach [OF assms(5)] g by (induction rule: reach.induct) (auto intro: v1.thread_step_good)
  then show ?thesis using r v1_dist_le [of "thr m"] by (auto simp: v1_good_def)
qed

text \<open>A request that comes after the last test of the range is not answered: the counter overflows.\<close>

definition v1_late :: "counting \<Rightarrow> bool" where
  "v1_late s \<longleftrightarrow> v1_good s \<and> (life s = Undefined \<or> life s = Running \<and> \<not> v1_responsive s \<and> vpc s \<noteq> VPoint)"

lemma no_more_tests: "2147483000 < c \<Longrightarrow> c \<le> INT_MAX \<Longrightarrow> c mod 1000 \<noteq> (0 :: int)"
  using div_mult_mod_eq [of c 1000] by (auto simp: INT_MAX_def)

lemma v1_late_step:
  assumes "v1_late s" "thread_step v1_thread v1_point no_handler s e = Some t"
  shows "v1_late t"
proof -
  have g: "v1_good t" using assms v1.thread_step_good by (auto simp: v1_late_def)
  show ?thesis using assms(2,1) g no_more_tests [of "counter s"]
    by (cases rule: thread_step_cases)
      (cases "vpc s"; clarsimp simp: v1_late_def v1_responsive_def v1_defs iadd_one split: if_splits; linarith?)+
qed

lemma v1_too_late:
  assumes "reach (thread_step v1_thread v1_point no_handler) s t" "v1_late s"
  shows "life t = Undefined \<or> life t = Running"
proof -
  have "v1_late t" using assms by (induction rule: reach.induct) (auto intro: v1_late_step)
  then show ?thesis by (auto simp: v1_late_def)
qed

section \<open>deferred\_cancellation\_v2.c\<close>

text \<open>
  The thread sleeps with cancellation switched off when the counter is a multiple of 1000, and
  tests for a request when it is a multiple of 1500. \<open>saved\<close> is the variable \<open>state\<close>.
\<close>

datatype wpc = WInit | WTest1000 | WDisable | WSleep | WRestore | WTest1500 | WPoint | WIncr

record sleeping = "unit thread_ctl" +
  wpc :: wpc
  count :: int
  saved :: "cancel_state option"

definition v2_start :: sleeping where
  "v2_start = \<lparr>cstate = Enable, ctype = Deferred, requested = False, handlers = [],
     life = Running, wpc = WInit, count = 0, saved = None\<rparr>"

definition v2_thread :: "bool \<Rightarrow> sleeping \<Rightarrow> sleeping option" where
  "v2_thread ok s =
     (case wpc s of
        WInit \<Rightarrow> Some (s\<lparr>count := 0, wpc := WTest1000\<rparr>)
      | WTest1000 \<Rightarrow> Some (s\<lparr>wpc := (if count s mod 1000 = 0 then WDisable else WTest1500)\<rparr>)
      | WDisable \<Rightarrow> Some ((setcancelstate Disable s)\<lparr>saved := Some (cstate s), wpc := WSleep\<rparr>)
      | WSleep \<Rightarrow> Some (s\<lparr>wpc := WRestore\<rparr>)
      | WRestore \<Rightarrow>
          (case saved s of
             None \<Rightarrow> Some (s\<lparr>life := Undefined\<rparr>)
           | Some c \<Rightarrow> Some ((setcancelstate c s)\<lparr>saved := Some (cstate s), wpc := WTest1500\<rparr>))
      | WTest1500 \<Rightarrow> Some (s\<lparr>wpc := (if count s mod 1500 = 0 then WPoint else WIncr)\<rparr>)
      | WPoint \<Rightarrow> Some (s\<lparr>wpc := WIncr\<rparr>)
      | WIncr \<Rightarrow>
          (case iadd (count s) 1 of
             Inl _ \<Rightarrow> Some (s\<lparr>life := Undefined\<rparr>)
           | Inr c \<Rightarrow> Some (s\<lparr>count := c, wpc := WTest1000\<rparr>)))"

definition v2_point :: "sleeping \<Rightarrow> point" where
  "v2_point s = (if wpc s = WPoint \<or> wpc s = WSleep then MustPoint else NoPoint)"

definition v2_good :: "sleeping \<Rightarrow> bool" where
  "v2_good s \<longleftrightarrow> handlers s = [] \<and> ctype s = Deferred \<and>
     life s \<noteq> Returned \<and> life s \<noteq> Exited \<and> 0 \<le> count s \<and> count s \<le> INT_MAX \<and> (wpc s = WInit \<longrightarrow> count s = 0) \<and>
     cstate s = (if wpc s = WSleep \<or> wpc s = WRestore then Disable else Enable) \<and>
     (wpc s = WSleep \<or> wpc s = WRestore \<longrightarrow> saved s = Some Enable) \<and>
     (life s = Undefined \<longrightarrow> count s = INT_MAX) \<and>
     (wpc s = WPoint \<longrightarrow> count s mod 1500 = 0) \<and>
     (life s = Cleaning \<or> life s = Canceled \<longrightarrow> wpc s = WPoint)"

definition v2_responsive :: "sleeping \<Rightarrow> bool" where
  "v2_responsive s \<longleftrightarrow> count s < 2147482500 \<or> (count s = 2147482500 \<and> wpc s \<noteq> WIncr)"

definition v2_dist :: "sleeping \<Rightarrow> nat" where
  "v2_dist s =
     (let k = 6 * ((- count s) mod 1500) in
      case wpc s of
        WInit \<Rightarrow> 6
      | WTest1000 \<Rightarrow> nat (k + 5) | WDisable \<Rightarrow> nat (k + 4) | WSleep \<Rightarrow> nat (k + 3)
      | WRestore \<Rightarrow> nat (k + 2) | WTest1500 \<Rightarrow> nat (k + 1) | WPoint \<Rightarrow> 0
      | WIncr \<Rightarrow> nat (6 * ((- count s - 1) mod 1500) + 6))"

lemmas v2_defs = v2_good_def v2_thread_def v2_point_def no_handler_def v2_start_def ctl_defs

interpretation v2: prompt v2_thread v2_point no_handler v2_start v2_good v2_responsive v2_dist 0
proof
  show "v2_good t"
    if "v2_good s" "life s = Running" "\<not> must_act (v2_point s) s" "v2_thread ok s = Some t" for s ok t
    using that by (cases "wpc s"; clarsimp simp: v2_defs iadd_one INT_MAX_def INT_MIN_def split: if_splits)
  show "life t = Exited \<or> life t = Running \<and> requested t \<and> v2_responsive t \<and> v2_dist t < v2_dist s"
    if "v2_good s" "life s = Running" "requested s" "v2_responsive s" "\<not> must_act (v2_point s) s"
      "v2_thread ok s = Some t" for s ok t
    using that next_multiple [of "count s" 1500]
    by (cases "wpc s") (auto simp: v2_defs iadd_one v2_responsive_def v2_dist_def INT_MAX_def INT_MIN_def Let_def split: if_splits)
  show "v2_thread True s \<noteq> None" for s
    by (simp add: v2_thread_def split: wpc.splits sum.splits option.splits)
qed (auto simp: v2_defs INT_MAX_def split: if_splits)

abbreviation v2_session :: "sleeping session \<Rightarrow> session_event \<Rightarrow> sleeping session option" where
  "v2_session \<equiv> session_step False v2_thread v2_point no_handler"

text \<open>
  The sleep is never interrupted by a request, and the thread ends at a multiple of 1500: the
  comment in the code says 2000.
\<close>

lemma v2_cancelled_at_1500s:
  "reach v2_session (session_start v2_start) m \<Longrightarrow>
     mpc m \<noteq> Printed False \<and>
     (life (thr m) = Canceled \<longrightarrow> count (thr m) mod 1500 = 0 \<and> wpc (thr m) \<noteq> WSleep) \<and>
     (wpc (thr m) = WSleep \<longrightarrow> cstate (thr m) = Disable)"
  using v2.session.reach_inv [of False m] by (auto simp: v2.session_good_def v2_good_def ended_def)

lemma v2_dist_le: "v2_dist s \<le> 9000"
proof -
  have "nat (6 * ((- count s) mod 1500) + b) \<le> nat (8994 + b)" for b using weight_le [of 1500 6] by force
  moreover have "nat (6 * ((- count s - 1) mod 1500) + 6) \<le> 9000" using weight_le [of 1500 6 _ 6] by force
  ultimately show ?thesis using order_trans by (cases "wpc s") (force simp: v2_dist_def)+
qed

lemma v2_answers:
  assumes "reach v2_session (session_start v2_start) m"
    and "life (thr m) = Running" "requested (thr m)" "count (thr m) < 2147482500"
    and "run (thread_step v2_thread v2_point no_handler) (thr m) es = Some t"
  shows "length es \<le> 9002 \<and>
    ((\<forall>e. thread_step v2_thread v2_point no_handler t e = None) \<longrightarrow> life t = Canceled \<and> count t mod 1500 = 0)"
proof -
  have g: "v2_good (thr m)" using v2.session.reach_inv [OF assms(1)] by (simp add: v2.session_good_def)
  have "v2_responsive (thr m)" using assms(4) by (simp add: v2_responsive_def)
  note r = v2.request_answered [OF g assms(2,3) this assms(5)]
  have "v2_good t" using run_reach [OF assms(5)] g by (induction rule: reach.induct) (auto intro: v2.thread_step_good)
  then show ?thesis using r v2_dist_le [of "thr m"] by (auto simp: v2_good_def)
qed

text \<open>A session that comes to its end: the request arrives while the thread sleeps.\<close>

lemma v2_session_example:
  "\<exists>m. reach v2_session (session_start v2_start) m \<and> mpc m = Printed True"
  by (rule run_example [where es = "map Main [True] @ map Thread (replicate 3 (Exec True)) @ [Main True] @
        map Thread (replicate 3 (Exec True)) @ map Thread [Act, Exec True] @ [Main True]"]) code_simp

theorem v1_answers_witness:
  "\<exists>m t. reach v1_session (session_start counting_start) m \<and> counter (thr m) = 0 \<and>
     run (thread_step v1_thread v1_point no_handler) (thr m) [Exec True, Act, Exec True] = Some t \<and> life t = Canceled"
proof -
  have "\<exists>m. reach v1_session (session_start counting_start) m \<and> (life (thr m) = Running \<and> requested (thr m) \<and>
      counter (thr m) = 0 \<and> (case run (thread_step v1_thread v1_point no_handler) (thr m) [Exec True, Act, Exec True] of
         None \<Rightarrow> False | Some t \<Rightarrow> life t = Canceled))"
    by (rule run_example [where es = "[Main True, Thread (Exec True), Main True]"]) code_simp
  then obtain m t where m: "reach v1_session (session_start counting_start) m" "life (thr m) = Running" "requested (thr m)"
      "counter (thr m) = 0" "run (thread_step v1_thread v1_point no_handler) (thr m) [Exec True, Act, Exec True] = Some t"
      "life t = Canceled" by (auto split: option.splits)
  have "thread_step v1_thread v1_point no_handler t e = None" for e
    using m(6) by (auto simp: thread_step_def split: cancel_event.splits)
  then show ?thesis using v1_answers [OF m(1-3) _ m(5)] m by auto
qed

end
