(* ===== verification/CleanupStack.thy ===== *)
theory CleanupStack
  imports ThreadCancel "HOL-Library.Word"
begin

text \<open>
  shackleford/src/threads/5-cancel\_cleanup.c: a thread that allocates a matrix row by row with
  cancellation switched off, pushes a cleanup handler for the array of pointers and one for the
  rows, and works on the elements until it is cancelled.
\<close>

section \<open>The heap\<close>

datatype cleanup = Cleanup_a | Cleanup_b

datatype kpc = KPrint | KDisable | KMalloc | KPushA | KRow | KPushB | KPrint2 | KEnable | KWork | KTest
  | KPrint3 | KPopB | KPopA | KResult

text \<open>
  Blocks are numbered in the order they are allocated in; \<open>live\<close> are those not freed.
  \<open>row i\<close> is what \<open>matrix[i]\<close> holds (\<open>None\<close> before it is written) and \<open>cell i j\<close> is
  \<open>matrix[i][j]\<close>. malloc leaves the contents as they are.
\<close>

record cleaner = "cleanup thread_ctl" +
  kpc :: kpc
  ki :: nat
  kj :: nat
  live :: "nat list"
  fresh :: nat
  matrix :: "nat option"
  row :: "nat \<Rightarrow> nat option"
  cell :: "nat \<Rightarrow> nat \<Rightarrow> 32 word"

definition cleaner_start :: "(nat \<Rightarrow> nat \<Rightarrow> 32 word) \<Rightarrow> cleaner" where
  "cleaner_start junk = \<lparr>cstate = Enable, ctype = Deferred, requested = False, handlers = [],
     life = Running, kpc = KPrint, ki = 0, kj = 0, live = [], fresh = 0, matrix = None,
     row = (\<lambda>_. None), cell = junk\<rparr>"

definition allocated :: "nat option \<Rightarrow> cleaner \<Rightarrow> bool" where
  "allocated p s = (case p of None \<Rightarrow> False | Some b \<Rightarrow> b \<in> set (live s))"

definition malloc_block :: "cleaner \<Rightarrow> cleaner" where
  "malloc_block s = s\<lparr>live := live s @ [fresh s], fresh := fresh s + 1\<rparr>"

text \<open>Freeing what is not allocated (a block that was freed, or a pointer never written) is undefined.\<close>

definition free_block :: "nat option \<Rightarrow> cleaner \<Rightarrow> cleaner" where
  "free_block p s = (if allocated p s then s\<lparr>live := remove1 (the p) (live s)\<rparr> else s\<lparr>life := Undefined\<rparr>)"

definition cleanup_a :: "cleaner \<Rightarrow> cleaner" where
  "cleanup_a s = free_block (matrix s) s"

definition cleanup_b :: "cleaner \<Rightarrow> cleaner" where
  "cleanup_b s =
     fold (\<lambda>i s. if allocated (matrix s) s then free_block (row s i) s else s\<lparr>life := Undefined\<rparr>) [0..<10] s"

fun run_cleanup :: "cleanup \<Rightarrow> cleaner \<Rightarrow> cleaner" where
  "run_cleanup Cleanup_a s = cleanup_a s"
| "run_cleanup Cleanup_b s = cleanup_b s"

section \<open>The thread\<close>

definition incr_cell :: "cleaner \<Rightarrow> cleaner" where
  "incr_cell s =
     (if allocated (matrix s) s \<and> allocated (row s (ki s)) s
      then s\<lparr>cell := (cell s)(ki s := (cell s (ki s))(kj s := cell s (ki s) (kj s) + 1))\<rparr>
      else s\<lparr>life := Undefined\<rparr>)"

definition cleaner_thread :: "bool \<Rightarrow> cleaner \<Rightarrow> cleaner option" where
  "cleaner_thread ok s =
     (case kpc s of
        KPrint \<Rightarrow> Some (s\<lparr>kpc := KDisable\<rparr>)
      | KDisable \<Rightarrow> Some (if ok then (setcancelstate Disable s)\<lparr>kpc := KMalloc\<rparr> else s\<lparr>life := Exited\<rparr>)
      | KMalloc \<Rightarrow>
          Some (if ok then (malloc_block s)\<lparr>matrix := Some (fresh s), kpc := KPushA\<rparr> else s\<lparr>life := Exited\<rparr>)
      | KPushA \<Rightarrow> Some ((cleanup_push Cleanup_a s)\<lparr>ki := 0, kpc := KRow\<rparr>)
      | KRow \<Rightarrow>
          if ki s < 10 then
            Some (if ok then (malloc_block s)\<lparr>row := (row s)(ki s := Some (fresh s)), ki := ki s + 1\<rparr>
                  else s\<lparr>life := Exited\<rparr>)
          else Some (s\<lparr>kpc := KPushB\<rparr>)
      | KPushB \<Rightarrow> Some ((cleanup_push Cleanup_b s)\<lparr>kpc := KPrint2\<rparr>)
      | KPrint2 \<Rightarrow> Some (s\<lparr>kpc := KEnable\<rparr>)
      | KEnable \<Rightarrow>
          Some (if ok then (setcancelstate Enable s)\<lparr>kj := 0, ki := 0, kpc := KWork\<rparr> else s\<lparr>life := Exited\<rparr>)
      | KWork \<Rightarrow>
          if ki s < 10 then Some ((incr_cell s)\<lparr>ki := ki s + 1\<rparr>)
          else if kj s + 1 < 5 then Some (s\<lparr>kj := kj s + 1, ki := 0\<rparr>)
          else Some (s\<lparr>kj := kj s + 1, kpc := KTest\<rparr>)
      | KTest \<Rightarrow> Some (s\<lparr>kj := 0, ki := 0, kpc := KWork\<rparr>)
      | KPrint3 \<Rightarrow> Some (s\<lparr>kpc := KPopB\<rparr>)
      | KPopB \<Rightarrow> Some ((cleanup_pop run_cleanup True s)\<lparr>kpc := KPopA\<rparr>)
      | KPopA \<Rightarrow> Some ((cleanup_pop run_cleanup True s)\<lparr>kpc := KResult\<rparr>)
      | KResult \<Rightarrow> Some (if ok then (malloc_block s)\<lparr>life := Returned\<rparr> else s\<lparr>life := Undefined\<rparr>))"

definition cleaner_point :: "cleaner \<Rightarrow> point" where
  "cleaner_point s =
     (if kpc s = KTest then MustPoint else if kpc s \<in> {KPrint, KPrint2, KPrint3} then MayPoint else NoPoint)"

section \<open>What it keeps\<close>

text \<open>The rows allocated and the handlers pushed at each place.\<close>

fun rows_made :: "kpc \<Rightarrow> nat \<Rightarrow> nat" where
  "rows_made KRow i = i"
| "rows_made k i = (if k \<in> {KPrint, KDisable, KMalloc, KPushA} then 0 else 10)"

definition first_blocks :: "nat \<Rightarrow> nat list" where
  "first_blocks n = [0..<n + 1]"

definition first_rows :: "nat \<Rightarrow> nat \<Rightarrow> nat option" where
  "first_rows n = (\<lambda>i. if i < n then Some (i + 1) else None)"

definition blocks :: "cleaner \<Rightarrow> nat list" where
  "blocks s = (if kpc s \<in> {KPrint, KDisable, KMalloc} then [] else first_blocks (rows_made (kpc s) (ki s)))"

definition pushed :: "cleaner \<Rightarrow> cleanup list" where
  "pushed s = (if kpc s \<in> {KPrint, KDisable, KMalloc, KPushA} then []
     else if kpc s \<in> {KRow, KPushB} then [Cleanup_a] else [Cleanup_b, Cleanup_a])"

text \<open>Every element has been incremented \<open>p\<close> times, those before the current one once more.\<close>

definition passes :: "(nat \<Rightarrow> nat \<Rightarrow> 32 word) \<Rightarrow> nat \<Rightarrow> nat \<Rightarrow> nat \<Rightarrow> (nat \<Rightarrow> nat \<Rightarrow> 32 word) \<Rightarrow> bool" where
  "passes junk p j0 i0 c \<longleftrightarrow>
     (\<forall>i<10. \<forall>j<5. c i j = junk i j + of_nat p + (if j < j0 \<or> j = j0 \<and> i < i0 then 1 else 0))"

text \<open>What is left of the blocks and of the handlers while the thread cleans up.\<close>

definition cleaned :: "cleaner \<Rightarrow> bool" where
  "cleaned s \<longleftrightarrow>
     (kpc s = KPrint \<and> handlers s = [] \<and> live s = []) \<or>
     (kpc s = KTest \<and> (handlers s, live s) \<in>
       {([Cleanup_b, Cleanup_a], first_blocks 10), ([Cleanup_a], [0]), ([], [])})"

definition cleaner_good :: "(nat \<Rightarrow> nat \<Rightarrow> 32 word) \<Rightarrow> cleaner \<Rightarrow> bool" where
  "cleaner_good junk s \<longleftrightarrow>
     ctype s = Deferred \<and> kpc s \<notin> {KPrint3, KPopB, KPopA, KResult} \<and>
     cstate s = (if kpc s \<in> {KPrint, KDisable, KWork, KTest} then Enable else Disable) \<and>
     ki s \<le> 10 \<and> kj s \<le> (if kpc s = KTest then 5 else 4) \<and> (kpc s = KTest \<longrightarrow> kj s = 5) \<and>
     (kpc s \<notin> {KWork, KTest} \<longrightarrow> cell s = junk) \<and>
     matrix s = (if kpc s \<in> {KPrint, KDisable, KMalloc} then None else Some 0) \<and>
     row s = first_rows (rows_made (kpc s) (ki s)) \<and>
     (life s = Running \<longrightarrow> live s = blocks s \<and> fresh s = length (blocks s) \<and> handlers s = pushed s) \<and>
     (life s = Cleaning \<longrightarrow> cleaned s) \<and> (life s = Canceled \<longrightarrow> cleaned s \<and> handlers s = []) \<and>
     life s \<noteq> Returned \<and> life s \<noteq> Undefined"

definition cells_good :: "(nat \<Rightarrow> nat \<Rightarrow> 32 word) \<Rightarrow> cleaner \<Rightarrow> bool" where
  "cells_good junk s \<longleftrightarrow> (kpc s \<in> {KWork, KTest} \<longrightarrow> (\<exists>p. passes junk p (kj s) (ki s) (cell s)))"

definition clean_inv :: "(nat \<Rightarrow> nat \<Rightarrow> 32 word) \<Rightarrow> cleaner \<Rightarrow> bool" where
  "clean_inv junk s \<longleftrightarrow> cleaner_good junk s \<and> cells_good junk s"

lemma passes_first: "passes junk 0 0 0 junk"
  by (simp add: passes_def)

lemma passes_incr:
  "passes junk p j i c \<Longrightarrow> i < 10 \<Longrightarrow> j < 5 \<Longrightarrow> passes junk p j (Suc i) (c(i := (c i)(j := c i j + 1)))"
  by (auto simp: passes_def less_Suc_eq)

lemma passes_column: "passes junk p j 10 c \<longleftrightarrow> passes junk p (Suc j) 0 c"
  by (auto simp: passes_def less_Suc_eq)

lemma passes_again: "passes junk p 5 i c \<longleftrightarrow> passes junk (Suc p) 0 0 c"
  by (auto simp: passes_def algebra_simps)

lemma first_blocks_simps [simp]:
  "first_blocks 0 = [0]" "first_blocks n @ [Suc n] = first_blocks (Suc n)"
  "length (first_blocks n) = Suc n" "b \<in> set (first_blocks n) \<longleftrightarrow> b \<le> n"
  by (auto simp: first_blocks_def)

lemma first_rows_simps [simp]:
  "first_rows 0 = (\<lambda>_. None)" "(first_rows n)(n \<mapsto> Suc n) = first_rows (Suc n)"
  "i < n \<Longrightarrow> first_rows n i = Some (Suc i)"
  by (auto simp: first_rows_def less_Suc_eq)

lemma first_blocks_10: "first_blocks 10 = [0, 1, 2, 3, 4, 5, 6, 7, 8, 9, 10]"
  by (simp add: first_blocks_def upt_rec)

lemma upt_10: "[0..<10] = [0, 1, 2, 3, 4, 5, 6, 7, 8, 9 :: nat]"
  by (simp add: upt_rec)

lemma cleanup_b_frees_rows:
  assumes "live s = first_blocks 10" "matrix s = Some 0" "row s = first_rows 10"
  shows "cleanup_b s = s\<lparr>live := [0]\<rparr>"
  using assms by (simp add: cleanup_b_def first_blocks_10 upt_10 allocated_def free_block_def)

lemma cleanup_a_frees_matrix:
  "live s = [0] \<Longrightarrow> matrix s = Some 0 \<Longrightarrow> cleanup_a s = s\<lparr>live := []\<rparr>"
  by (simp add: cleanup_a_def allocated_def free_block_def)

lemmas cleaner_defs = cleaner_good_def cleaner_thread_def blocks_def pushed_def ctl_defs malloc_block_def

lemma cleaner_exec_good:
  assumes "cleaner_good junk s" "life s = Running" "\<not> must_act (cleaner_point s) s" "cleaner_thread ok s = Some t"
  shows "cleaner_good junk t"
  using assms
  by (cases "kpc s"; clarsimp simp: cleaner_defs incr_cell_def allocated_def le_less_Suc_eq split: if_splits)

lemma cleaner_exec_cells:
  assumes g: "cleaner_good junk s" and c: "cells_good junk s" and l: "life s = Running" and t: "cleaner_thread ok s = Some t"
  shows "cells_good junk t"
proof (cases "kpc s = KWork \<or> kpc s = KTest")
  case True
  then obtain p where p: "passes junk p (kj s) (ki s) (cell s)" using c by (auto simp: cells_good_def)
  have b: "ki s \<le> 10" "kj s \<le> 5" "kpc s = KWork \<Longrightarrow> kj s < 5" "kpc s = KTest \<Longrightarrow> kj s = 5"
    using g by (auto simp: cleaner_good_def split: if_splits)
  consider "kpc s = KTest" | "kpc s = KWork" "ki s < 10" | "kpc s = KWork" "ki s = 10"
    using True b(1) by linarith
  then show ?thesis
  proof cases
    case 1
    then have "passes junk (Suc p) 0 0 (cell s)" using p b by (simp add: passes_again)
    then show ?thesis using 1 t by (auto simp: cells_good_def cleaner_thread_def)
  next
    case 2
    then have "allocated (matrix s) s" "allocated (row s (ki s)) s"
      using g l by (auto simp: cleaner_good_def blocks_def allocated_def)
    then show ?thesis using 2 t passes_incr [OF p 2(2) b(3)]
      by (auto simp: cells_good_def cleaner_thread_def incr_cell_def)
  next
    case 3
    have n: "passes junk p (Suc (kj s)) 0 (cell s)" using p 3 by (simp add: passes_column)
    show ?thesis
    proof (cases "kj s = 4")
      case True
      then have "passes junk p 5 10 (cell s)" using n by (simp add: passes_again)
      moreover have "t = s\<lparr>kj := 5, kpc := KTest\<rparr>" using t 3 True by (simp add: cleaner_thread_def)
      ultimately show ?thesis using 3 by (auto simp: cells_good_def)
    next
      case False
      then have "t = s\<lparr>kj := Suc (kj s), ki := 0\<rparr>" using t 3 b(3) by (simp add: cleaner_thread_def)
      then show ?thesis using n 3 by (auto simp: cells_good_def)
    qed
  qed
next
  case False
  then have "cell s = junk" "cell t = cell s" "kpc t = KWork \<or> kpc t = KTest \<Longrightarrow> kj t = 0 \<and> ki t = 0 \<and> kpc t = KWork"
    using g t by (cases "kpc s"; clarsimp simp: cleaner_good_def cleaner_thread_def ctl_defs malloc_block_def split: if_splits)+
  then show ?thesis using passes_first by (auto simp: cells_good_def)
qed

lemma asked_same [simp]:
  "blocks (s\<lparr>requested := b\<rparr>) = blocks s" "pushed (s\<lparr>requested := b\<rparr>) = pushed s"
  "cleaned (s\<lparr>requested := b\<rparr>) = cleaned s"
  by (simp_all add: blocks_def pushed_def cleaned_def)

lemma asked_good [simp]:
  "cells_good junk (s\<lparr>requested := b\<rparr>) = cells_good junk s"
  "cleaner_good junk (s\<lparr>requested := b\<rparr>) = cleaner_good junk s"
  by (simp_all add: cells_good_def cleaner_good_def)

definition clean_dist :: "cleaner \<Rightarrow> nat" where
  "clean_dist s =
     (case kpc s of
        KPrint \<Rightarrow> 76 | KDisable \<Rightarrow> 75 | KMalloc \<Rightarrow> 74 | KPushA \<Rightarrow> 73 | KRow \<Rightarrow> 62 + (10 - ki s)
      | KPushB \<Rightarrow> 60 | KPrint2 \<Rightarrow> 59 | KEnable \<Rightarrow> 58 | KWork \<Rightarrow> 11 * (4 - kj s) + (10 - ki s) + 1
      | _ \<Rightarrow> 0)"

lemma clean_dist_le: "clean_dist s \<le> 76"
  by (cases "kpc s") (auto simp: clean_dist_def)

lemma incr_cell_same [simp]:
  "kpc (incr_cell s) = kpc s" "kj (incr_cell s) = kj s" "requested (incr_cell s) = requested s"
  by (simp_all add: incr_cell_def)

lemma incr_cell_defined: "cleaner_good junk s \<Longrightarrow> kpc s = KWork \<Longrightarrow> life s = Running \<Longrightarrow> ki s < 10 \<Longrightarrow>
    life (incr_cell s) = Running"
  by (simp add: incr_cell_def cleaner_good_def blocks_def allocated_def)

lemma cleaner_nearer:
  assumes "cleaner_good junk s" "life s = Running" "kpc s \<noteq> KTest" "cleaner_thread ok s = Some t"
  shows "life t = Exited \<or> life t = Running \<and> requested t = requested s \<and> clean_dist t < clean_dist s"
proof -
  have "ki s \<le> 10" "kj s \<le> 4" "kpc s \<notin> {KPrint3, KPopB, KPopA, KResult}"
    using assms(1,3) by (auto simp: cleaner_good_def)
  then show ?thesis using assms(2-4) incr_cell_defined [OF assms(1)]
    by (cases "kpc s"; clarsimp simp: cleaner_thread_def clean_dist_def ctl_defs malloc_block_def split: if_splits)
      arith+
qed

interpretation cln: prompt cleaner_thread cleaner_point run_cleanup "cleaner_start junk" "clean_inv junk"
  "\<lambda>_. True" clean_dist 2 for junk
proof
  show "clean_inv junk (cleaner_start junk)"
    by (simp add: clean_inv_def cells_good_def cleaner_good_def cleaner_start_def blocks_def pushed_def)
  show "clean_inv junk (pthread_cancel s)" if "clean_inv junk s" for s
    using that by (simp add: clean_inv_def pthread_cancel_def)
  show "clean_inv junk t"
    if "clean_inv junk s" "life s = Running" "\<not> must_act (cleaner_point s) s" "cleaner_thread ok s = Some t"
    for s ok t
    using that cleaner_exec_good cleaner_exec_cells unfolding clean_inv_def by blast
  show "clean_inv junk (s\<lparr>life := Cleaning\<rparr>)"
    if "clean_inv junk s" "life s = Running" "may_act (cleaner_point s) s" for s
    using that
    by (cases "kpc s") (auto simp: clean_inv_def cells_good_def cleaner_good_def may_act_def cleaner_point_def
        cleaned_def blocks_def pushed_def)
  show "clean_inv junk (s\<lparr>life := Canceled\<rparr>)"
    if "clean_inv junk s" "life s = Cleaning" "handlers s = []" for s
    using that by (auto simp: clean_inv_def cells_good_def cleaner_good_def cleaned_def)
  have h: "clean_inv junk (run_cleanup h (s\<lparr>handlers := hs\<rparr>)) \<and>
      handlers (run_cleanup h (s\<lparr>handlers := hs\<rparr>)) = hs \<and> life (run_cleanup h (s\<lparr>handlers := hs\<rparr>)) = Cleaning"
    if "clean_inv junk s" "life s = Cleaning" "handlers s = h # hs" for s h hs
  proof -
    have g: "cleaner_good junk s" "cleaned s" "kpc s = KTest"
      using that by (auto simp: clean_inv_def cleaner_good_def cleaned_def)
    then have "matrix s = Some 0" "row s = first_rows 10" by (auto simp: cleaner_good_def)
    then show ?thesis
      using that g by (auto simp: cleaned_def cleanup_a_frees_matrix cleanup_b_frees_rows
        clean_inv_def cells_good_def cleaner_good_def)
  qed
  show "clean_inv junk (run_cleanup h (s\<lparr>handlers := hs\<rparr>))"
    if "clean_inv junk s" "life s = Cleaning" "handlers s = h # hs" for s h hs
    using h [OF that] by blast
  show "handlers (run_cleanup h (s\<lparr>handlers := hs\<rparr>)) = hs \<and> life (run_cleanup h (s\<lparr>handlers := hs\<rparr>)) = Cleaning"
    if "clean_inv junk s" "life s = Cleaning" "handlers s = h # hs" for s h hs
    using h [OF that] by blast
  show "length (handlers s) \<le> 2" if "clean_inv junk s" "life s = Running" for s
    using that by (auto simp: clean_inv_def cleaner_good_def pushed_def)
  show "life t = Exited \<or> life t = Running \<and> requested t \<and> True \<and> clean_dist t < clean_dist s"
    if "clean_inv junk s" "life s = Running" "requested s" True "\<not> must_act (cleaner_point s) s"
      "cleaner_thread ok s = Some t" for s ok t
    proof -
    have g: "cleaner_good junk s" using that by (simp add: clean_inv_def)
    then have "kpc s \<noteq> KTest" using that by (auto simp: cleaner_good_def must_act_def cleaner_point_def)
    then show ?thesis using cleaner_nearer [OF g that(2) _ that(6)] that(3) by auto
  qed
  show "cleaner_thread True s \<noteq> None" if "clean_inv junk s" for s
    by (simp add: cleaner_thread_def split: kpc.splits)
qed

section \<open>Properties\<close>

abbreviation cleaner_session :: "cleaner session \<Rightarrow> session_event \<Rightarrow> cleaner session option" where
  "cleaner_session \<equiv> session_step True cleaner_thread cleaner_point run_cleanup"

lemma cleaner_session_good:
  "reach cleaner_session (session_start (cleaner_start junk)) m \<Longrightarrow>
     cleaner_good junk (thr m) \<and> cells_good junk (thr m) \<and> mpc m \<noteq> Printed False"
  using cln.session.reach_inv [of True junk m]
  by (auto simp: cln.session_good_def clean_inv_def cleaner_good_def ended_def)

lemma canceled_cells:
  assumes "cleaner_good junk t" "cells_good junk t" "life t = Canceled"
  shows "live t = [] \<and> (\<exists>p. \<forall>i<10. \<forall>j<5. cell t i j = junk i j + of_nat p)"
proof
  from assms have d: "cleaned t" "handlers t = []" by (auto simp: cleaner_good_def)
  then show "live t = []" by (auto simp: cleaned_def)
  from d consider "kpc t = KPrint" | "kpc t = KTest" by (auto simp: cleaned_def)
  then show "\<exists>p. \<forall>i<10. \<forall>j<5. cell t i j = junk i j + of_nat p"
  proof cases
    case 1
    then have "cell t = junk" using assms by (auto simp: cleaner_good_def)
    then show ?thesis by (intro exI [of _ 0]) simp
  next
    case 2
    then obtain p where "passes junk p 5 (ki t) (cell t)"
      using assms by (auto simp: cells_good_def cleaner_good_def)
    then show ?thesis by (intro exI [of _ "p + 1"]) (auto simp: passes_def)
  qed
qed

text \<open>
  C17: in every state of 5-cancel\_cleanup.c that any schedule reaches, no block is freed twice
  and no pointer is used that was not written; when the thread has been cancelled, its handlers
  have freed all blocks, and every element of the matrix has been incremented the same number
  of times from what malloc left in it. The thread is never reported as not cancelled.
\<close>

theorem cleanup_frees_all:
  assumes "reach cleaner_session (session_start (cleaner_start junk)) m"
  shows "life (thr m) \<noteq> Undefined \<and> mpc m \<noteq> Printed False \<and>
    (life (thr m) = Canceled \<longrightarrow> live (thr m) = [] \<and>
      (\<exists>p. \<forall>i<10. \<forall>j<5. cell (thr m) i j = junk i j + of_nat p))"
proof -
  note g = cleaner_session_good [OF assms]
  then have "life (thr m) \<noteq> Undefined" by (auto simp: cleaner_good_def)
  with g canceled_cells [of junk "thr m"] show ?thesis by blast
qed

text \<open>A request is answered within 80 steps of the thread, the handlers included.\<close>

lemma cleaner_answers:
  assumes "reach cleaner_session (session_start (cleaner_start junk)) m"
    and "life (thr m) = Running" "requested (thr m)"
    and "run (thread_step cleaner_thread cleaner_point run_cleanup) (thr m) es = Some t"
  shows "length es \<le> 80 \<and> life t \<noteq> Undefined \<and>
    ((\<forall>e. thread_step cleaner_thread cleaner_point run_cleanup t e = None) \<longrightarrow>
       life t = Exited \<or> life t = Canceled \<and> live t = [])"
proof -
  have g: "clean_inv junk (thr m)" using cln.session.reach_inv [OF assms(1)] by (simp add: cln.session_good_def)
  have t: "clean_inv junk t" using run_reach [OF assms(4)] g
    by (induction rule: reach.induct) (auto intro: cln.thread_step_good)
  show ?thesis using cln.request_answered [OF g assms(2,3) TrueI assms(4)] t clean_dist_le [of "thr m"]
    by (auto simp: clean_inv_def cleaner_good_def cleaned_def)
qed

text \<open>A session that ends in the middle of the work, after one pass over the matrix.\<close>

theorem cleanup_frees_all_witness:
  "\<exists>m. reach cleaner_session (session_start (cleaner_start (\<lambda>_ _. 7))) m \<and> mpc m = Printed True \<and> live (thr m) = []"
proof -
  have "\<exists>m. reach cleaner_session (session_start (cleaner_start (\<lambda>_ _. 7))) m \<and>
      mpc m = Printed True \<and> life (thr m) = Canceled"
    by (rule run_example [where es = "[Main True] @ replicate 73 (Thread (Exec True)) @ [Main True, Thread Act] @
          replicate 3 (Thread (Exec True)) @ [Main True]"]) code_simp
  then show ?thesis using cleanup_frees_all by blast
qed

end
