(* ===== verification/CleanupTeam.thy ===== *)
theory CleanupTeam
  imports Threads
begin

text \<open>
  thr cleanup\_v1.c: threads that count themselves under a mutex and wait on a condition variable
  for what never comes, with a cleanup handler around the wait; the main thread cancels and
  joins them one after the other.
\<close>

section \<open>The program\<close>

text \<open>
  \<open>TNone\<close> is a thread that is not created yet. The flag of \<open>TDec\<close> and of the places after it
  is whether the handler runs because of a cancellation. A thread that acts on a request in the
  wait locks the mutex again before its handler runs (\<open>TAct\<close>).
\<close>

datatype tpc = TNone | TPush | TLock | TIncr | TTest | TWait | TWake | TAct
  | TDec bool | TPrint bool | TUnlock bool | TEnd bool

datatype mpc = CCreate nat | CCancel nat | CJoin nat | CDone

record control =
  counter :: int
  busy :: int
  mutex :: mutex
  tpc :: "nat \<Rightarrow> tpc"
  asked :: "nat \<Rightarrow> bool"
  joined :: "bool list"
  mpc :: mpc

definition control_start :: control where
  "control_start = \<lparr>counter = 0, busy = 1, mutex = None, tpc = (\<lambda>_. TNone), asked = (\<lambda>_. False),
     joined = [], mpc = CCreate 0\<rparr>"

definition cleanup_handler :: "bool \<Rightarrow> nat \<Rightarrow> control \<Rightarrow> control option" where
  "cleanup_handler b i s =
     (case tpc s i of
        TDec _ \<Rightarrow> Some (s\<lparr>counter := counter s - 1, tpc := (tpc s)(i := TPrint b)\<rparr>)
      | TPrint _ \<Rightarrow> Some (s\<lparr>tpc := (tpc s)(i := TUnlock b)\<rparr>)
      | TUnlock _ \<Rightarrow> Some (s\<lparr>mutex := mutex_unlock (mutex s), tpc := (tpc s)(i := TEnd b)\<rparr>)
      | _ \<Rightarrow> None)"

definition my_thread :: "nat \<Rightarrow> control \<Rightarrow> control option" where
  "my_thread i s =
     (case tpc s i of
        TNone \<Rightarrow> None
      | TPush \<Rightarrow> Some (s\<lparr>tpc := (tpc s)(i := TLock)\<rparr>)
      | TLock \<Rightarrow> map_option (\<lambda>m. s\<lparr>mutex := m, tpc := (tpc s)(i := TIncr)\<rparr>) (mutex_lock (mutex s) i)
      | TIncr \<Rightarrow> Some (s\<lparr>counter := counter s + 1, tpc := (tpc s)(i := TTest)\<rparr>)
      | TTest \<Rightarrow>
          Some (if busy s \<noteq> 0 then s\<lparr>mutex := mutex_unlock (mutex s), tpc := (tpc s)(i := TWait)\<rparr>
                else s\<lparr>tpc := (tpc s)(i := TDec False)\<rparr>)
      | TWait \<Rightarrow> if asked s i then Some (s\<lparr>tpc := (tpc s)(i := TAct)\<rparr>) else None
      | TWake \<Rightarrow> map_option (\<lambda>m. s\<lparr>mutex := m, tpc := (tpc s)(i := TTest)\<rparr>) (mutex_lock (mutex s) i)
      | TAct \<Rightarrow> map_option (\<lambda>m. s\<lparr>mutex := m, tpc := (tpc s)(i := TDec True)\<rparr>) (mutex_lock (mutex s) i)
      | TDec b \<Rightarrow> cleanup_handler b i s
      | TPrint b \<Rightarrow> cleanup_handler b i s
      | TUnlock b \<Rightarrow> cleanup_handler b i s
      | TEnd _ \<Rightarrow> None)"

definition control_main :: "nat \<Rightarrow> control \<Rightarrow> control option" where
  "control_main n s =
     (case mpc s of
        CCreate i \<Rightarrow>
          Some (if i < n then s\<lparr>tpc := (tpc s)(i := TPush), mpc := CCreate (i + 1)\<rparr> else s\<lparr>mpc := CCancel 0\<rparr>)
      | CCancel i \<Rightarrow>
          Some (if i < n then s\<lparr>asked := (asked s)(i := True), mpc := CJoin i\<rparr> else s\<lparr>mpc := CDone\<rparr>)
      | CJoin i \<Rightarrow>
          (case tpc s i of
             TEnd b \<Rightarrow> Some (s\<lparr>joined := joined s @ [b], mpc := CCancel (i + 1)\<rparr>)
           | _ \<Rightarrow> None)
      | CDone \<Rightarrow> None)"

text \<open>
  \<open>Act i\<close> is the request that is acted upon where the handler runs on normal termination, in
  its printf: the handler is off the stack, and the mutex stays locked.
\<close>

datatype event = Main | T nat | Spurious nat | Act nat

definition control_step :: "nat \<Rightarrow> control \<Rightarrow> event \<Rightarrow> control option" where
  "control_step n s e =
     (case e of
        Main \<Rightarrow> control_main n s
      | T i \<Rightarrow> if i < n then my_thread i s else None
      | Spurious i \<Rightarrow> if i < n \<and> tpc s i = TWait then Some (s\<lparr>tpc := (tpc s)(i := TWake)\<rparr>) else None
      | Act i \<Rightarrow> if i < n \<and> asked s i \<and> tpc s i = TPrint False then Some (s\<lparr>tpc := (tpc s)(i := TEnd True)\<rparr>) else None)"

section \<open>Invariant\<close>

fun owns :: "tpc \<Rightarrow> bool" where
  "owns TIncr = True" | "owns TTest = True" | "owns (TDec _) = True" | "owns (TPrint _) = True"
| "owns (TUnlock _) = True" | "owns _ = False"

fun counted :: "tpc \<Rightarrow> bool" where
  "counted TTest = True" | "counted TWait = True" | "counted TWake = True" | "counted TAct = True"
| "counted (TDec _) = True" | "counted _ = False"

fun normally :: "tpc \<Rightarrow> bool" where
  "normally (TDec b) = (\<not> b)" | "normally (TPrint b) = (\<not> b)" | "normally (TUnlock b) = (\<not> b)"
| "normally (TEnd b) = (\<not> b)" | "normally _ = False"

fun created_to :: "nat \<Rightarrow> mpc \<Rightarrow> nat" where
  "created_to n (CCreate i) = i" | "created_to n _ = n"

fun asked_to :: "nat \<Rightarrow> mpc \<Rightarrow> nat" where
  "asked_to n (CCreate i) = 0" | "asked_to n (CCancel i) = i" | "asked_to n (CJoin i) = Suc i" | "asked_to n CDone = n"

fun joined_to :: "nat \<Rightarrow> mpc \<Rightarrow> nat" where
  "joined_to n (CCreate i) = 0" | "joined_to n (CCancel i) = i" | "joined_to n (CJoin i) = i" | "joined_to n CDone = n"

fun in_range :: "nat \<Rightarrow> mpc \<Rightarrow> bool" where
  "in_range n (CCreate i) = (i \<le> n)" | "in_range n (CCancel i) = (i \<le> n)" | "in_range n (CJoin i) = (i < n)"
| "in_range n CDone = True"

definition control_inv :: "nat \<Rightarrow> control \<Rightarrow> bool" where
  "control_inv n s \<longleftrightarrow>
     (\<forall>j. mutex s = Some j \<longleftrightarrow> j < n \<and> owns (tpc s j)) \<and>
     counter s = int (cnt counted (tpc s) n) \<and> busy s = 1 \<and> in_range n (mpc s) \<and>
     (\<forall>j<n. \<not> normally (tpc s j)) \<and>
     (\<forall>j<n. tpc s j = TNone \<longleftrightarrow> created_to n (mpc s) \<le> j) \<and>
     (\<forall>j<n. asked s j \<longleftrightarrow> j < asked_to n (mpc s)) \<and>
     (\<forall>j<joined_to n (mpc s). tpc s j = TEnd True) \<and>
     joined s = replicate (joined_to n (mpc s)) True"

lemma control_step_cases:
  assumes "control_step n s e = Some t"
  obtains (create) i where "mpc s = CCreate i" "i < n" "e = Main"
      "t = s\<lparr>tpc := (tpc s)(i := TPush), mpc := CCreate (i + 1)\<rparr>"
  | (created) i where "mpc s = CCreate i" "\<not> i < n" "e = Main" "t = s\<lparr>mpc := CCancel 0\<rparr>"
  | (cancel) i where "mpc s = CCancel i" "i < n" "e = Main" "t = s\<lparr>asked := (asked s)(i := True), mpc := CJoin i\<rparr>"
  | (all_done) i where "mpc s = CCancel i" "\<not> i < n" "e = Main" "t = s\<lparr>mpc := CDone\<rparr>"
  | (join) i b where "mpc s = CJoin i" "tpc s i = TEnd b" "e = Main" "t = s\<lparr>joined := joined s @ [b], mpc := CCancel (i + 1)\<rparr>"
  | (push) i where "i < n" "tpc s i = TPush" "e = T i" "t = s\<lparr>tpc := (tpc s)(i := TLock)\<rparr>"
  | (lock) i pc where "i < n" "(tpc s i, pc) \<in> {(TLock, TIncr), (TWake, TTest), (TAct, TDec True)}" "mutex s = None"
      "e = T i" "t = s\<lparr>mutex := Some i, tpc := (tpc s)(i := pc)\<rparr>"
  | (incr) i where "i < n" "tpc s i = TIncr" "e = T i" "t = s\<lparr>counter := counter s + 1, tpc := (tpc s)(i := TTest)\<rparr>"
  | (wait) i where "i < n" "tpc s i = TTest" "busy s \<noteq> 0" "e = T i" "t = s\<lparr>mutex := None, tpc := (tpc s)(i := TWait)\<rparr>"
  | (go) i where "i < n" "tpc s i = TTest" "busy s = 0" "e = T i" "t = s\<lparr>tpc := (tpc s)(i := TDec False)\<rparr>"
  | (act) i where "i < n" "tpc s i = TWait" "asked s i" "e = T i" "t = s\<lparr>tpc := (tpc s)(i := TAct)\<rparr>"
  | (decr) i b where "i < n" "tpc s i = TDec b" "e = T i" "t = s\<lparr>counter := counter s - 1, tpc := (tpc s)(i := TPrint b)\<rparr>"
  | (tell) i b where "i < n" "tpc s i = TPrint b" "e = T i" "t = s\<lparr>tpc := (tpc s)(i := TUnlock b)\<rparr>"
  | (unlock) i b where "i < n" "tpc s i = TUnlock b" "e = T i" "t = s\<lparr>mutex := None, tpc := (tpc s)(i := TEnd b)\<rparr>"
  | (spurious) i where "i < n" "tpc s i = TWait" "e = Spurious i" "t = s\<lparr>tpc := (tpc s)(i := TWake)\<rparr>"
  | (late) i where "i < n" "tpc s i = TPrint False" "e = Act i" "t = s\<lparr>tpc := (tpc s)(i := TEnd True)\<rparr>"
proof (cases e)
  case Main
  then show ?thesis using assms create created cancel all_done join
    by (auto simp: control_step_def control_main_def split: mpc.splits if_splits tpc.splits)
next
  case (T i)
  then have w: "i < n" "my_thread i s = Some t" using assms by (auto simp: control_step_def split: if_splits)
  show ?thesis
  proof (cases "tpc s i")
    case TTest
    then show ?thesis using w T wait go by (cases "busy s = 0") (simp_all add: my_thread_def)
  next
    case TLock
    then show ?thesis using w T by (intro lock [of i TIncr]) (auto simp: my_thread_def step_simps)
  next
    case TWake
    then show ?thesis using w T by (intro lock [of i TTest]) (auto simp: my_thread_def step_simps)
  next
    case TAct
    then show ?thesis using w T by (intro lock [of i "TDec True"]) (auto simp: my_thread_def step_simps)
  next
    case TPush
    then show ?thesis using w T by (intro push) (auto simp: my_thread_def)
  next
    case TIncr
    then show ?thesis using w T by (intro incr) (auto simp: my_thread_def)
  next
    case TWait
    then show ?thesis using w T by (intro act) (auto simp: my_thread_def split: if_splits)
  next
    case (TDec b)
    then show ?thesis using w T by (intro decr) (auto simp: my_thread_def cleanup_handler_def)
  next
    case (TPrint b)
    then show ?thesis using w T by (intro tell) (auto simp: my_thread_def cleanup_handler_def)
  next
    case (TUnlock b)
    then show ?thesis using w T by (intro unlock) (auto simp: my_thread_def cleanup_handler_def)
  qed (use w in \<open>simp_all add: my_thread_def\<close>)
next
  case (Spurious i)
  then show ?thesis using assms by (intro spurious) (auto simp: control_step_def split: if_splits)
next
  case (Act i)
  then show ?thesis using assms by (intro late) (auto simp: control_step_def split: if_splits)
qed

lemma control_start_inv: "control_inv n control_start"
  by (auto simp: control_inv_def control_start_def cnt_const)

text \<open>What a move of a thread has to show: the owner of the mutex and the count.\<close>

lemma thread_moves:
  assumes i: "control_inv n s" and k: "k < n" "tpc s k \<noteq> TNone" "tpc s k \<noteq> TEnd True" "pc \<noteq> TNone" "\<not> normally pc"
    and m: "\<forall>j. m = Some j \<longleftrightarrow> j < n \<and> owns (((tpc s)(k := pc)) j)"
    and c: "c = int (cnt counted ((tpc s)(k := pc)) n)"
  shows "control_inv n (s\<lparr>mutex := m, counter := c, tpc := (tpc s)(k := pc)\<rparr>)"
proof -
  have "\<forall>j<joined_to n (mpc s). tpc s j = TEnd True" using i by (simp add: control_inv_def)
  then have "joined_to n (mpc s) \<le> k" using k(3) by (metis not_less)
  then show ?thesis using i k m c by (simp add: control_inv_def)
qed

lemma owner_stays:
  "control_inv n s \<Longrightarrow> owns (tpc s k) = owns pc \<Longrightarrow> \<forall>j. mutex s = Some j \<longleftrightarrow> j < n \<and> owns (((tpc s)(k := pc)) j)"
  by (simp add: control_inv_def)

lemma owner_leaves:
  assumes "control_inv n s" "k < n" "owns (tpc s k)" "\<not> owns pc"
  shows "\<forall>j. None = Some j \<longleftrightarrow> j < n \<and> owns (((tpc s)(k := pc)) j)"
proof -
  have m: "\<forall>j. mutex s = Some j \<longleftrightarrow> j < n \<and> owns (tpc s j)" using assms(1) unfolding control_inv_def by blast
  then have "mutex s = Some k" using assms by simp
  then have "\<forall>j<n. owns (tpc s j) \<longrightarrow> j = k" using m by (metis option.inject)
  then show ?thesis using assms(4) by auto
qed

lemma count_now: "control_inv n s \<Longrightarrow> counter s = int (cnt counted (tpc s) n)"
  by (simp add: control_inv_def)

lemma count_stays:
  "control_inv n s \<Longrightarrow> k < n \<Longrightarrow> counted (tpc s k) = counted pc \<Longrightarrow>
     counter s = int (cnt counted ((tpc s)(k := pc)) n)"
  by (simp add: count_now cnt_upd_same)

lemma control_inv_step:
  assumes i: "control_inv n s" and st: "control_step n s e = Some t"
  shows "control_inv n t"
  using st
proof (cases rule: control_step_cases)
  case (create k)
  then have "tpc s k = TNone" using i by (simp add: control_inv_def)
  then show ?thesis using i create by (auto simp: control_inv_def cnt_upd_same)
next
  case (join k b)
  then have "b" using i by (force simp: control_inv_def)
  then show ?thesis using i join by (auto simp: control_inv_def less_Suc_eq replicate_append_same)
next
  case (push k)
  then show ?thesis
    using thread_moves [OF i push(1) _ _ _ _ owner_stays [OF i] count_stays [OF i push(1)]] by simp
next
  case (lock k pc)
  then have pc: "counted (tpc s k) = counted pc" "tpc s k \<noteq> TNone" "tpc s k \<noteq> TEnd True" "pc \<noteq> TNone"
    "\<not> normally pc" "owns pc" by auto
  have "\<forall>j<n. \<not> owns (tpc s j)" using i lock(3) by (simp add: control_inv_def)
  then have m: "\<forall>j. Some k = Some j \<longleftrightarrow> j < n \<and> owns (((tpc s)(k := pc)) j)" using pc(6) lock(1) by auto
  show ?thesis using thread_moves [OF i lock(1) pc(2-5) m count_stays [OF i lock(1) pc(1)]] lock(5) by simp
next
  case (incr k)
  have "counter s + 1 = int (cnt counted ((tpc s)(k := TTest)) n)"
    using incr cnt_upd_in [of k n counted "tpc s" TTest] by (simp add: count_now [OF i])
  then show ?thesis using thread_moves [OF i incr(1) _ _ _ _ owner_stays [OF i]] incr by simp
next
  case (wait k)
  then show ?thesis
    using thread_moves [OF i wait(1) _ _ _ _ owner_leaves [OF i wait(1)] count_stays [OF i wait(1)]] by simp
next
  case (go k)
  then show ?thesis using i by (simp add: control_inv_def)
next
  case (act k)
  then show ?thesis
    using thread_moves [OF i act(1) _ _ _ _ owner_stays [OF i] count_stays [OF i act(1)]] by simp
next
  case (decr k b)
  then have b: "b" using i by (force simp: control_inv_def)
  have "counter s - 1 = int (cnt counted ((tpc s)(k := TPrint b)) n)"
    using decr cnt_upd_del [of k n counted "tpc s" "TPrint b"] by (simp add: count_now [OF i])
  then show ?thesis using thread_moves [OF i decr(1) _ _ _ _ owner_stays [OF i]] decr b by simp
next
  case (tell k b)
  then have b: "b" using i by (force simp: control_inv_def)
  then show ?thesis
    using thread_moves [OF i tell(1) _ _ _ _ owner_stays [OF i] count_stays [OF i tell(1)]] tell by simp
next
  case (unlock k b)
  then have b: "b" using i by (force simp: control_inv_def)
  then show ?thesis
    using thread_moves [OF i unlock(1) _ _ _ _ owner_leaves [OF i unlock(1)] count_stays [OF i unlock(1)]] unlock
    by simp
next
  case (spurious k)
  then show ?thesis
    using thread_moves [OF i spurious(1) _ _ _ _ owner_stays [OF i] count_stays [OF i spurious(1)]] by simp
next
  case (late k)
  then show ?thesis using i by (force simp: control_inv_def)
qed (use i in \<open>auto simp: control_inv_def less_Suc_eq\<close>)

section \<open>Termination\<close>

fun t_left :: "tpc \<Rightarrow> nat" where
  "t_left TNone = 12" | "t_left TPush = 11" | "t_left TLock = 10" | "t_left TIncr = 9" | "t_left TWake = 8"
| "t_left TTest = 7" | "t_left TWait = 6" | "t_left TAct = 5" | "t_left (TDec _) = 4" | "t_left (TPrint _) = 3"
| "t_left (TUnlock _) = 2" | "t_left (TEnd _) = 0"

fun m_left :: "nat \<Rightarrow> mpc \<Rightarrow> nat" where
  "m_left n (CCreate i) = (n - i) + 2 * n + 2" | "m_left n (CCancel i) = 2 * (n - i) + 1"
| "m_left n (CJoin i) = 2 * (n - i)" | "m_left n CDone = 0"

definition control_mu :: "nat \<Rightarrow> control \<Rightarrow> nat" where
  "control_mu n s = (\<Sum>j<n. t_left (tpc s j)) + m_left n (mpc s)"

fun by_program :: "event \<Rightarrow> bool" where
  "by_program Main = True" | "by_program (T _) = True" | "by_program _ = False"

lemma t_left_upd:
  fixes n :: nat
  shows "k < n \<Longrightarrow> (\<Sum>j<n. t_left ((f(k := x)) j)) + t_left (f k) = (\<Sum>j<n. t_left (f j)) + t_left x"
  using sum_change [of k n "\<lambda>j. t_left ((f(k := x)) j)" "\<lambda>j. t_left (f j)"] by simp

lemma control_mu_step:
  assumes "control_inv n s" "control_step n s e = Some t" "by_program e"
  shows "control_mu n t < control_mu n s"
  using assms(2)
proof (cases rule: control_step_cases)
  case (create k)
  then have "tpc s k = TNone" using assms(1) by (simp add: control_inv_def)
  then show ?thesis using create t_left_upd [of k n "tpc s" TPush] by (simp add: control_mu_def)
next
  case (join k b)
  then have "k < n" using assms(1) by (simp add: control_inv_def)
  then show ?thesis using join by (simp add: control_mu_def)
next
  case (lock k pc)
  then show ?thesis using t_left_upd [of k n "tpc s" pc] by (auto simp: control_mu_def)
next
  case (go k)
  then show ?thesis using assms(1) by (simp add: control_inv_def)
next
  case (push k)
  then show ?thesis using t_left_upd [of k n "tpc s" TLock] by (simp add: control_mu_def)
next
  case (incr k)
  then show ?thesis using t_left_upd [of k n "tpc s" TTest] by (simp add: control_mu_def)
next
  case (wait k)
  then show ?thesis using t_left_upd [of k n "tpc s" TWait] by (simp add: control_mu_def)
next
  case (act k)
  then show ?thesis using t_left_upd [of k n "tpc s" TAct] by (simp add: control_mu_def)
next
  case (decr k b)
  then show ?thesis using t_left_upd [of k n "tpc s" "TPrint b"] by (simp add: control_mu_def)
next
  case (tell k b)
  then show ?thesis using t_left_upd [of k n "tpc s" "TUnlock b"] by (simp add: control_mu_def)
next
  case (unlock k b)
  then show ?thesis using t_left_upd [of k n "tpc s" "TEnd b"] by (simp add: control_mu_def)
qed (use assms(3) in \<open>auto simp: control_mu_def\<close>)

lemma team_owner_moves: "owns (tpc s i) \<Longrightarrow> my_thread i s \<noteq> None"
  by (cases "tpc s i") (auto simp: my_thread_def cleanup_handler_def)

definition control_final :: "control \<Rightarrow> bool" where
  "control_final s \<longleftrightarrow> mpc s = CDone"

lemma control_progress:
  assumes "control_inv n s" "\<not> control_final s"
  shows "\<exists>e t. by_program e \<and> control_step n s e = Some t"
proof (cases "control_main n s = None")
  case False
  then have "control_step n s Main \<noteq> None" by (simp add: control_step_def)
  then show ?thesis using by_program.simps(1) by blast
next
  case True
  then obtain i where i: "mpc s = CJoin i" "\<forall>b. tpc s i \<noteq> TEnd b"
    using assms(2) by (auto simp: control_main_def control_final_def split: mpc.splits tpc.splits if_splits)
  then have n: "i < n" "asked s i" "tpc s i \<noteq> TNone" using assms(1) by (auto simp: control_inv_def)
  have "\<exists>j<n. my_thread j s \<noteq> None"
  proof (cases "mutex s")
    case None
    then have "my_thread i s \<noteq> None" using i n
      by (cases "tpc s i") (auto simp: my_thread_def cleanup_handler_def step_simps)
    then show ?thesis using n(1) by blast
  next
    case (Some j)
    then have "j < n" "owns (tpc s j)" using assms(1) unfolding control_inv_def by blast+
    then show ?thesis using team_owner_moves by blast
  qed
  then obtain j t where "j < n" "my_thread j s = Some t" by blast
  then have "by_program (T j)" "control_step n s (T j) = Some t" by (simp_all add: control_step_def)
  then show ?thesis by blast
qed

interpretation team: machine_term "control_step n" control_start "control_inv n" by_program control_final
  "control_mu n" for n
  by unfold_locales
    (use control_start_inv control_inv_step control_mu_step control_progress in blast)+

section \<open>Properties\<close>

lemma all_cancelled:
  assumes "control_inv n s" "mpc s = CDone"
  shows "counter s = 0 \<and> mutex s = None \<and> joined s = replicate n True"
proof -
  have e: "\<forall>j<n. tpc s j = TEnd True" using assms by (simp add: control_inv_def)
  have m: "\<forall>j. mutex s = Some j \<longleftrightarrow> j < n \<and> owns (tpc s j)" using assms(1) unfolding control_inv_def by blast
  have "mutex s = None"
  proof (cases "mutex s")
    case (Some j)
    then show ?thesis using m e by (metis owns.simps(12))
  qed simp
  moreover have "cnt counted (tpc s) n = 0" using e by (simp add: cnt_0_iff)
  ultimately show ?thesis using assms by (simp add: control_inv_def)
qed

lemma team_mu_start: "control_mu n control_start = 15 * n + 2"
  by (simp add: control_mu_def control_start_def)

text \<open>
  For any number of threads, the counter of cleanup\_v1.c never leaves the range from 0 to
  their number, and when the main thread has cancelled and joined them all, each was reported
  as cancelled, the counter is 0 again and the mutex is free.
\<close>

theorem team_cleans_up:
  assumes "reach (control_step n) control_start s"
  shows "0 \<le> counter s \<and> counter s \<le> int n \<and>
    (mpc s = CDone \<longrightarrow> counter s = 0 \<and> mutex s = None \<and> joined s = replicate n True)"
  using cnt_le [of counted "tpc s" n] team.reach_inv [OF assms] all_cancelled [OF team.reach_inv [OF assms]]
  by (simp add: control_inv_def)

text \<open>
  Cleanup\_v1.c ends: apart from spurious wake-ups, \<open>n\<close> threads and the main thread make at
  most \<open>15 n + 2\<close> moves, and a state in which nobody can move is one in which the main thread
  has joined all of them.
\<close>

theorem team_finishes:
  assumes "list_all by_program es" "run (control_step n) control_start es = Some s"
  shows "length es \<le> 15 * n + 2"
    and "(\<forall>e. by_program e \<longrightarrow> control_step n s e = None) \<longrightarrow> mpc s = CDone"
proof -
  show "length es \<le> 15 * n + 2" using team.runs_bounded [OF assms] by (simp add: team_mu_start)
  show "(\<forall>e. by_program e \<longrightarrow> control_step n s e = None) \<longrightarrow> mpc s = CDone"
    using team.stuck_final [OF run_reach [OF assms(2)]] by (auto simp: control_final_def)
qed

theorem team_cleans_up_witness:
  "\<exists>s. reach (control_step 1) control_start s \<and> joined s = [True] \<and> counter s = 0"
proof -
  have "\<exists>s. reach (control_step 1) control_start s \<and> mpc s = CDone"
    by (rule run_example [where es = "[Main, Main] @ replicate 4 (T 0) @ [Main] @ replicate 5 (T 0) @ [Main, Main]"])
      code_simp
  then show ?thesis using team_cleans_up [of 1] by auto
qed

theorem team_finishes_witness:
  "\<exists>s. run (control_step 1) control_start [Main, Main, T 0, T 0] = Some s \<and> mpc s \<noteq> CDone \<and>
     (\<exists>e. control_step 1 s e \<noteq> None)"
proof -
  have "case run (control_step 1) control_start [Main, Main, T 0, T 0] of None \<Rightarrow> False | Some s \<Rightarrow> mpc s = CCancel 0"
    by code_simp
  then obtain s where s: "run (control_step 1) control_start [Main, Main, T 0, T 0] = Some s" "mpc s = CCancel 0"
    by (auto split: option.splits)
  then show ?thesis using team_finishes(2) [OF _ s(1)] by auto
qed

end
