(* ===== verification/Contractor.thy ===== *)
theory Contractor
  imports DeferredCancel
begin

text \<open>
  cleanup\_v2.c: a contractor thread creates five workers, pushes a handler that cancels and
  detaches them, and joins them; the main thread cancels the contractor.
\<close>

section \<open>The workers\<close>

text \<open>
  \<open>sub_contractor\<close> tests for a request unless the counter is a multiple of 1000 (the comment
  says every 1000 iterations). The counter is a variable of the thread's own.
\<close>

definition sub_start :: counting where
  "sub_start = counting_start"

definition sub_contractor :: "bool \<Rightarrow> counting \<Rightarrow> counting option" where
  "sub_contractor ok s =
     (case vpc s of
        VInit \<Rightarrow> Some (s\<lparr>counter := 0, vpc := VTest\<rparr>)
      | VTest \<Rightarrow> Some (s\<lparr>vpc := (if counter s mod 1000 \<noteq> 0 then VPoint else VIncr)\<rparr>)
      | VPoint \<Rightarrow> Some (s\<lparr>vpc := VIncr\<rparr>)
      | VIncr \<Rightarrow>
          (case iadd (counter s) 1 of
             Inl _ \<Rightarrow> Some (s\<lparr>life := Undefined\<rparr>)
           | Inr c \<Rightarrow> Some (s\<lparr>counter := c, vpc := VTest\<rparr>)))"

definition sub_good :: "counting \<Rightarrow> bool" where
  "sub_good s \<longleftrightarrow> handlers s = [] \<and> cstate s = Enable \<and> ctype s = Deferred \<and>
     life s \<noteq> Returned \<and> life s \<noteq> Exited \<and> 0 \<le> counter s \<and> counter s \<le> INT_MAX \<and>
     (vpc s = VInit \<longrightarrow> counter s = 0) \<and> (life s = Cleaning \<or> life s = Canceled \<longrightarrow> requested s)"

definition sub_responsive :: "counting \<Rightarrow> bool" where
  "sub_responsive s \<longleftrightarrow> \<not> (vpc s = VIncr \<and> counter s = INT_MAX)"

definition sub_dist :: "counting \<Rightarrow> nat" where
  "sub_dist s =
     (case vpc s of
        VInit \<Rightarrow> 4
      | VTest \<Rightarrow> (if counter s mod 1000 = 0 then 3 else 1)
      | VPoint \<Rightarrow> 0
      | VIncr \<Rightarrow> (if (counter s + 1) mod 1000 = 0 then 4 else 2))"

lemma after_multiple: "c mod 1000 = 0 \<Longrightarrow> (c + 1) mod 1000 \<noteq> (0 :: int)"
  using mod_add_left_eq [of c 1000 1] by simp

lemmas sub_defs = sub_good_def sub_contractor_def v1_point_def no_handler_def counting_start_def sub_start_def ctl_defs

interpretation sub: prompt sub_contractor v1_point no_handler sub_start sub_good sub_responsive sub_dist 0
proof
  show "sub_good t"
    if "sub_good s" "life s = Running" "\<not> must_act (v1_point s) s" "sub_contractor ok s = Some t" for s ok t
    using that by (cases "vpc s"; clarsimp simp: sub_defs iadd_one INT_MAX_def split: if_splits)
  show "life t = Exited \<or> life t = Running \<and> requested t \<and> sub_responsive t \<and> sub_dist t < sub_dist s"
    if "sub_good s" "life s = Running" "requested s" "sub_responsive s" "\<not> must_act (v1_point s) s"
      "sub_contractor ok s = Some t" for s ok t
    using that after_multiple [of "counter s"]
    by (cases "vpc s"; clarsimp simp: sub_defs iadd_one sub_responsive_def sub_dist_def INT_MAX_def INT_MIN_def
        split: if_splits)
  show "sub_contractor True s \<noteq> None" for s
    by (simp add: sub_contractor_def split: vpc.splits sum.splits)
qed (auto simp: sub_defs INT_MAX_def split: if_splits)

lemma sub_answers:
  assumes "sub_good w" "life w = Running" "requested w" "counter w < INT_MAX"
    and "run (thread_step sub_contractor v1_point no_handler) w es = Some t"
  shows "length es \<le> 6 \<and> ((\<forall>e. thread_step sub_contractor v1_point no_handler t e = None) \<longrightarrow> life t = Canceled)"
proof -
  have "sub_responsive w" using assms(4) by (simp add: sub_responsive_def)
  note r = sub.request_answered [OF assms(1-3) this assms(5)]
  moreover have "sub_good t" using run_reach [OF assms(5)] assms(1)
    by (induction rule: reach.induct) (auto intro: sub.thread_step_good)
  moreover have "sub_dist w \<le> 4" by (simp add: sub_dist_def split: vpc.splits)
  ultimately show ?thesis by (auto simp: sub_good_def)
qed

section \<open>The contractor\<close>

definition NUM_THREADS :: nat where "NUM_THREADS = 5"

datatype opc = OPrint | OMake | OPush | OJoin | OPop | OReturn

text \<open>\<open>team i\<close> is the worker that \<open>team.worker[i]\<close> names, once it is created.\<close>

record contractor_state = "unit thread_ctl" +
  opc :: opc
  oi :: nat
  team :: "nat \<Rightarrow> counting option"
  detached :: "nat \<Rightarrow> bool"

definition contractor_start :: contractor_state where
  "contractor_start = \<lparr>cstate = Enable, ctype = Deferred, requested = False, handlers = [],
     life = Running, opc = OPrint, oi = 0, team = (\<lambda>_. None), detached = (\<lambda>_. False)\<rparr>"

definition cleanup_handler :: "unit \<Rightarrow> contractor_state \<Rightarrow> contractor_state" where
  "cleanup_handler h s =
     (if list_all (\<lambda>i. team s i \<noteq> None) [0..<NUM_THREADS]
      then s\<lparr>team := (\<lambda>i. if i < NUM_THREADS then map_option pthread_cancel (team s i) else team s i),
             detached := (\<lambda>i. i < NUM_THREADS \<or> detached s i)\<rparr>
      else s\<lparr>life := Undefined\<rparr>)"

definition contractor_main :: "bool \<Rightarrow> contractor_state \<Rightarrow> contractor_state option" where
  "contractor_main ok s =
     (case opc s of
        OPrint \<Rightarrow> Some (if oi s < NUM_THREADS then s\<lparr>opc := OMake\<rparr> else s\<lparr>opc := OPush\<rparr>)
      | OMake \<Rightarrow> Some (s\<lparr>team := (team s)(oi s \<mapsto> sub_start), oi := oi s + 1, opc := OPrint\<rparr>)
      | OPush \<Rightarrow> Some ((cleanup_push () s)\<lparr>oi := 0, opc := OJoin\<rparr>)
      | OJoin \<Rightarrow>
          if oi s < NUM_THREADS then
            (case team s (oi s) of
               None \<Rightarrow> Some (s\<lparr>life := Undefined\<rparr>)
             | Some w \<Rightarrow> if ended (life w) then Some (s\<lparr>oi := oi s + 1\<rparr>) else None)
          else Some (s\<lparr>opc := OPop\<rparr>)
      | OPop \<Rightarrow> Some ((cleanup_pop cleanup_handler False s)\<lparr>opc := OReturn\<rparr>)
      | OReturn \<Rightarrow> Some (s\<lparr>life := Returned\<rparr>))"

definition contractor_point :: "contractor_state \<Rightarrow> point" where
  "contractor_point s =
     (if opc s = OPrint \<and> oi s < NUM_THREADS then MayPoint
      else if opc s = OJoin \<and> oi s < NUM_THREADS then MustPoint else NoPoint)"

text \<open>The main thread and the contractor as in the other programs, and the five workers.\<close>

datatype site_event = Base session_event | Worker nat cancel_event

definition site_step :: "contractor_state session \<Rightarrow> site_event \<Rightarrow> contractor_state session option" where
  "site_step m e =
     (case e of
        Base b \<Rightarrow> session_step False contractor_main contractor_point cleanup_handler m b
      | Worker i c \<Rightarrow>
          if \<not> alive m then None
          else (case team (thr m) i of
                  None \<Rightarrow> None
                | Some w \<Rightarrow> map_option (\<lambda>w'. m\<lparr>thr := (thr m)\<lparr>team := (team (thr m))(i \<mapsto> w')\<rparr>\<rparr>)
                              (thread_step sub_contractor v1_point no_handler w c)))"

section \<open>What they keep\<close>

text \<open>Whether the handler has run.\<close>

definition handled :: "contractor_state \<Rightarrow> bool" where
  "handled s \<longleftrightarrow> opc s = OJoin \<and> handlers s = [] \<and> (life s = Cleaning \<or> life s = Canceled)"

definition contractor_good :: "contractor_state \<Rightarrow> bool" where
  "contractor_good s \<longleftrightarrow>
     cstate s = Enable \<and> ctype s = Deferred \<and> opc s \<noteq> OPop \<and> opc s \<noteq> OReturn \<and>
     life s \<noteq> Returned \<and> life s \<noteq> Undefined \<and> life s \<noteq> Exited \<and>
     (opc s = OPrint \<longrightarrow> oi s \<le> NUM_THREADS) \<and> (opc s = OMake \<longrightarrow> oi s < NUM_THREADS) \<and>
     (opc s = OPush \<longrightarrow> oi s = NUM_THREADS) \<and> (opc s = OJoin \<longrightarrow> oi s = 0) \<and>
     (life s = Running \<longrightarrow> handlers s = (if opc s = OJoin then [()] else [])) \<and>
     (life s = Cleaning \<or> life s = Canceled \<longrightarrow>
        opc s = OPrint \<and> handlers s = [] \<or> opc s = OJoin \<and> handlers s \<in> {[()], []}) \<and>
     (life s = Canceled \<longrightarrow> handlers s = []) \<and>
     (\<forall>i. team s i \<noteq> None \<longleftrightarrow> i < (if opc s = OJoin then NUM_THREADS else oi s)) \<and>
     (\<forall>i. detached s i \<longleftrightarrow> handled s \<and> i < NUM_THREADS) \<and>
     (\<forall>i w. team s i = Some w \<longrightarrow> sub_good w \<and> requested w = handled s)"

lemma sub_keeps_request:
  "thread_step sub_contractor v1_point no_handler w c = Some w' \<Longrightarrow> requested w' = requested w"
  by (erule thread_step_cases)
    (auto simp: sub_contractor_def no_handler_def split: vpc.splits sum.splits)

lemma not_ended_unasked: "sub_good w \<Longrightarrow> \<not> requested w \<Longrightarrow> \<not> ended (life w)"
  by (auto simp: sub_good_def ended_def)

lemma sub_start_good [simp]: "sub_good sub_start" "\<not> requested sub_start"
  by (simp_all add: sub.good_start) (simp add: sub_start_def counting_start_def)

lemmas contractor_defs = contractor_good_def contractor_main_def contractor_point_def handled_def ctl_defs

lemma contractor_exec_good:
  assumes g: "contractor_good s" and l: "life s = Running" and t: "contractor_main ok s = Some t"
  shows "contractor_good t"
proof (cases "opc s")
  case OPrint
  then show ?thesis using assms by (auto simp: contractor_defs split: if_splits)
next
  case OMake
  then have "t = s\<lparr>team := (team s)(oi s \<mapsto> sub_start), oi := oi s + 1, opc := OPrint\<rparr>" using t by (simp add: contractor_main_def)
  then show ?thesis using g l OMake by (auto simp: contractor_good_def handled_def less_Suc_eq)
next
  case OPush
  then show ?thesis using assms by (auto simp: contractor_defs)
next
  case OJoin
  then have j: "oi s = 0" "team s 0 \<noteq> None" using g by (auto simp: contractor_good_def NUM_THREADS_def)
  then obtain w where w: "team s 0 = Some w" by blast
  then have "\<not> ended (life w)" using g l by (intro not_ended_unasked) (auto simp: contractor_good_def handled_def)
  then show ?thesis using t OJoin j w by (simp add: contractor_main_def NUM_THREADS_def)
qed (use g in \<open>simp_all add: contractor_good_def\<close>)

lemma contractor_asked: "contractor_good (s\<lparr>requested := b\<rparr>) = contractor_good s"
  by (simp add: contractor_good_def handled_def)

interpretation con: cancellable contractor_main contractor_point cleanup_handler contractor_start contractor_good
proof
  show "contractor_good contractor_start"
    by (simp add: contractor_good_def contractor_start_def handled_def)
  show "contractor_good (pthread_cancel s)" if "contractor_good s" for s
    using that by (simp add: pthread_cancel_def contractor_asked)
  show "contractor_good t"
    if "contractor_good s" "life s = Running" "\<not> must_act (contractor_point s) s" "contractor_main ok s = Some t" for s ok t
    using contractor_exec_good [OF that(1,2,4)] .
  show "contractor_good (s\<lparr>life := Cleaning\<rparr>)"
    if "contractor_good s" "life s = Running" "may_act (contractor_point s) s" for s
    using that by (cases "opc s"; simp add: contractor_good_def contractor_point_def may_act_def handled_def split: if_splits)
  show "contractor_good (cleanup_handler h (s\<lparr>handlers := hs\<rparr>))"
    if "contractor_good s" "life s = Cleaning" "handlers s = h # hs" for s h hs
  proof -
    have o: "opc s = OJoin" "hs = []" using that by (auto simp: contractor_good_def)
    then have "\<forall>i. team s i \<noteq> None \<longleftrightarrow> i < NUM_THREADS" using that by (simp add: contractor_good_def)
    then show ?thesis using that o
      by (auto simp: contractor_good_def cleanup_handler_def handled_def list_all_iff sub.good_request
          pthread_cancel_def [symmetric]) (auto simp: pthread_cancel_def)
  qed
  show "contractor_good (s\<lparr>life := Canceled\<rparr>)"
    if "contractor_good s" "life s = Cleaning" "handlers s = []" for s
    using that by (auto simp: contractor_good_def handled_def)
qed

lemma contractor_team: "contractor_good s \<Longrightarrow> team s i = Some w \<Longrightarrow> sub_good w \<and> requested w = handled s"
  by (simp add: contractor_good_def)

lemma contractor_created:
  "contractor_good s \<Longrightarrow> team s i \<noteq> None \<longleftrightarrow> i < (if opc s = OJoin then NUM_THREADS else oi s)"
  by (simp add: contractor_good_def)

lemma sub_moves:
  assumes "contractor_good s" "team s i = Some w" "sub_good w'" "requested w' = handled s"
  shows "contractor_good (s\<lparr>team := (team s)(i \<mapsto> w')\<rparr>)"
proof -
  have h: "handled (s\<lparr>team := x\<rparr>) = handled s" for x by (simp add: handled_def)
  have "\<forall>j. ((team s)(i \<mapsto> w')) j \<noteq> None \<longleftrightarrow> team s j \<noteq> None" using assms(2) by simp
  moreover have "\<forall>j v. ((team s)(i \<mapsto> w')) j = Some v \<longrightarrow> sub_good v \<and> requested v = handled s"
    using assms by (simp add: contractor_good_def)
  ultimately show ?thesis using assms(1) unfolding contractor_good_def h
    by (elim conjE, intro conjI) simp_all
qed

lemma site_step_good:
  assumes "con.session_good m" "site_step m e = Some m'"
  shows "con.session_good m'"
proof (cases e)
  case (Base b)
  then show ?thesis using assms con.session_step_good by (simp add: site_step_def)
next
  case (Worker i c)
  then obtain w w' where w: "team (thr m) i = Some w"
    "thread_step sub_contractor v1_point no_handler w c = Some w'"
    "m' = m\<lparr>thr := (thr m)\<lparr>team := (team (thr m))(i \<mapsto> w')\<rparr>\<rparr>"
    using assms(2) by (auto simp: site_step_def split: if_splits option.splits)
  have g: "contractor_good (thr m)" using assms(1) by (simp add: con.session_good_def)
  note contractor_team [OF g w(1)]
  then have w': "sub_good w'" "requested w' = handled (thr m)"
    using sub.thread_step_good w(2) sub_keeps_request by blast+
  have "contractor_good ((thr m)\<lparr>team := (team (thr m))(i \<mapsto> w')\<rparr>)"
    by (rule sub_moves [OF g w(1) w'])
  then show ?thesis using assms(1) w(3) by (simp add: con.session_good_def)
qed

interpretation site: machine_inv site_step "session_start contractor_start" con.session_good
  by unfold_locales (use con.session.inv_start site_step_good in blast)+

section \<open>Properties\<close>

text \<open>
  When the contractor of cleanup\_v2.c has been cancelled while it joins its workers, its
  handler has sent a request to each of the five and detached it; and a worker with a request
  whose counter has not reached \<open>INT_MAX\<close> has ended, cancelled, after at most 6 steps.
\<close>

theorem contractor_cancels_team:
  assumes "reach site_step (session_start contractor_start) m" "life (thr m) = Canceled" "opc (thr m) = OJoin"
    and "i < NUM_THREADS"
  shows "\<exists>w. team (thr m) i = Some w \<and> requested w \<and> detached (thr m) i \<and>
    (\<forall>es t. life w = Running \<longrightarrow> counter w < INT_MAX \<longrightarrow>
       run (thread_step sub_contractor v1_point no_handler) w es = Some t \<longrightarrow> length es \<le> 6 \<and>
         ((\<forall>e. thread_step sub_contractor v1_point no_handler t e = None) \<longrightarrow> life t = Canceled))"
proof -
  have g: "contractor_good (thr m)" using site.reach_inv [OF assms(1)] by (simp add: con.session_good_def)
  then have h: "handled (thr m)" using assms by (auto simp: handled_def contractor_good_def)
  have "team (thr m) i \<noteq> None" using contractor_created [OF g, of i] assms(3,4) by simp
  then obtain w where w: "team (thr m) i = Some w" by blast
  have "sub_good w" "requested w" using contractor_team [OF g w] h by simp_all
  moreover have "\<forall>es t. life w = Running \<longrightarrow> counter w < INT_MAX \<longrightarrow>
       run (thread_step sub_contractor v1_point no_handler) w es = Some t \<longrightarrow> length es \<le> 6 \<and>
         ((\<forall>e. thread_step sub_contractor v1_point no_handler t e = None) \<longrightarrow> life t = Canceled)"
    using sub_answers [OF calculation(1) _ calculation(2)] by simp
  moreover have "detached (thr m) i" using g h assms(4) by (simp add: contractor_good_def)
  ultimately show ?thesis using w by simp
qed

text \<open>
  A request that is acted upon while the workers are being created, before the handler is
  pushed, leaves those that exist running, and nobody cancels them any more.
\<close>

lemma orphans_run_on:
  assumes "reach site_step (session_start contractor_start) m" "life (thr m) = Canceled" "opc (thr m) = OPrint"
    and "team (thr m) i = Some w"
  shows "\<not> requested w \<and> \<not> detached (thr m) i \<and> (life w = Running \<or> life w = Undefined)"
proof -
  have g: "contractor_good (thr m)" using site.reach_inv [OF assms(1)] by (simp add: con.session_good_def)
  then have w: "sub_good w" "requested w = handled (thr m)" "detached (thr m) i = (handled (thr m) \<and> i < NUM_THREADS)"
    using assms(4) by (auto simp: contractor_good_def)
  then show ?thesis using assms(3) by (cases "life w") (auto simp: handled_def sub_good_def)
qed

lemma orphans_example:
  "\<exists>m. reach site_step (session_start contractor_start) m \<and>
     mpc m = Printed True \<and> opc (thr m) = OPrint \<and> (case team (thr m) 2 of None \<Rightarrow> False | Some w \<Rightarrow> \<not> requested w)"
  by (rule run_example [where es = "map Base ([Main True] @ replicate 6 (Thread (Exec True)) @
        [Main True, Thread Act, Thread (Exec True), Main True])"]) code_simp

theorem contractor_cancels_team_witness:
  "\<exists>m w. reach site_step (session_start contractor_start) m \<and> team (thr m) 3 = Some w \<and> requested w"
proof -
  have "\<exists>m. reach site_step (session_start contractor_start) m \<and> life (thr m) = Canceled \<and> opc (thr m) = OJoin"
    by (rule run_example [where es = "map Base ([Main True] @ replicate 12 (Thread (Exec True)) @
          [Main True, Thread Act, Thread (Exec True), Thread (Exec True)])"]) code_simp
  moreover have "(3 :: nat) < NUM_THREADS" by (simp add: NUM_THREADS_def)
  ultimately show ?thesis using contractor_cancels_team by blast
qed

end
