(* ===== verification/AsyncMatrix.thy ===== *)
theory AsyncMatrix
  imports DeferredCancel
begin

text \<open>
  async\_cancellation.c: a thread that multiplies matrices for ever, and may be cancelled at any
  moment while it computes the product, but not while it copies the product into its operand.
\<close>

section \<open>The program\<close>

definition SIZE :: nat where "SIZE = 25"

datatype xpc = XInit | XPrint | XSetAsync | XMul | XAcc | XReset | XCopy

record matrices = "unit thread_ctl" +
  xpc :: xpc
  xi :: nat
  xj :: nat
  xk :: nat
  matrix_a :: "nat \<Rightarrow> nat \<Rightarrow> int"
  matrix_b :: "nat \<Rightarrow> nat \<Rightarrow> int"
  matrix_c :: "nat \<Rightarrow> nat \<Rightarrow> int"
  cancel_type :: "cancel_type option"

definition matrices_start :: matrices where
  "matrices_start = \<lparr>cstate = Enable, ctype = Deferred, requested = False, handlers = [], life = Running,
     xpc = XInit, xi = 0, xj = 0, xk = 0, matrix_a = (\<lambda>_ _. 0), matrix_b = (\<lambda>_ _. 0), matrix_c = (\<lambda>_ _. 0),
     cancel_type = None\<rparr>"

definition put :: "(nat \<Rightarrow> nat \<Rightarrow> int) \<Rightarrow> nat \<Rightarrow> nat \<Rightarrow> int \<Rightarrow> nat \<Rightarrow> nat \<Rightarrow> int" where
  "put m i j x = m(i := (m i)(j := x))"

definition matrix_thread :: "bool \<Rightarrow> matrices \<Rightarrow> matrices option" where
  "matrix_thread ok s =
     (let i = xi s; j = xj s; k = xk s in
      case xpc s of
        XInit \<Rightarrow>
          Some (if i < SIZE then
                  if j < SIZE then s\<lparr>matrix_a := put (matrix_a s) i j (int i),
                                     matrix_b := put (matrix_b s) i j (int j), xj := j + 1\<rparr>
                  else s\<lparr>xi := i + 1, xj := 0\<rparr>
                else s\<lparr>xpc := XPrint\<rparr>)
      | XPrint \<Rightarrow> Some (s\<lparr>xpc := XSetAsync\<rparr>)
      | XSetAsync \<Rightarrow>
          Some ((setcanceltype Asynchronous s)\<lparr>cancel_type := Some (ctype s), xi := 0, xj := 0, xpc := XMul\<rparr>)
      | XMul \<Rightarrow>
          Some (if i < SIZE then
                  if j < SIZE then s\<lparr>matrix_c := put (matrix_c s) i j 0, xk := 0, xpc := XAcc\<rparr>
                  else s\<lparr>xi := i + 1, xj := 0\<rparr>
                else s\<lparr>xpc := XReset\<rparr>)
      | XAcc \<Rightarrow>
          if k < SIZE then
            (case ebind (imul (matrix_a s i k) (matrix_b s k j)) (iadd (matrix_c s i j)) of
               Inl _ \<Rightarrow> Some (s\<lparr>life := Undefined\<rparr>)
             | Inr x \<Rightarrow> Some (s\<lparr>matrix_c := put (matrix_c s) i j x, xk := k + 1\<rparr>))
          else Some (s\<lparr>xj := j + 1, xpc := XMul\<rparr>)
      | XReset \<Rightarrow>
          (case cancel_type s of
             None \<Rightarrow> Some (s\<lparr>life := Undefined\<rparr>)
           | Some c \<Rightarrow> Some ((setcanceltype c s)\<lparr>cancel_type := Some (ctype s), xi := 0, xj := 0, xpc := XCopy\<rparr>))
      | XCopy \<Rightarrow>
          Some (if i < SIZE then
                  if j < SIZE then s\<lparr>matrix_a := put (matrix_a s) i j (matrix_c s i j), xj := j + 1\<rparr>
                  else s\<lparr>xi := i + 1, xj := 0\<rparr>
                else s\<lparr>xpc := XPrint\<rparr>))"

definition matrix_point :: "matrices \<Rightarrow> point" where
  "matrix_point s = (if xpc s = XPrint then MayPoint else NoPoint)"

section \<open>The operand of each round\<close>

text \<open>
  The first operand has its row number in each element, and \<open>b\<close> its column number; the products
  have a closed form. The elements grow by 300 in each round.
\<close>

fun operand :: "nat \<Rightarrow> nat \<Rightarrow> nat \<Rightarrow> int" where
  "operand 0 i j = int i"
| "operand (Suc n) i j = 25 * 300 ^ n * int i * int j"

lemma operand_0: "operand 0 = (\<lambda>i j. int i)"
  by (intro ext) simp

definition partial :: "nat \<Rightarrow> nat \<Rightarrow> nat \<Rightarrow> nat \<Rightarrow> int" where
  "partial n i j k = (\<Sum>l<k. operand n i l * int j)"

lemma partial_Suc [simp]: "partial n i j (Suc k) = partial n i j k + operand n i k * int j"
  by (simp add: partial_def)

lemma partial_0 [simp]: "partial n i j 0 = 0"
  by (simp add: partial_def)

lemma sum_25: "(\<Sum>l<SIZE. int l) = 300"
  by (simp add: SIZE_def eval_nat_numeral)

lemma partial_full: "partial n i j SIZE = operand (Suc n) i j"
proof (cases n)
  case 0
  then show ?thesis by (simp add: partial_def SIZE_def)
next
  case (Suc m)
  have "partial n i j SIZE = (\<Sum>l<SIZE. int l) * (25 * 300 ^ m * int i * int j)"
    unfolding partial_def sum_distrib_right Suc by (intro sum.cong) (simp_all add: ac_simps)
  then show ?thesis by (simp add: sum_25 Suc)
qed

lemma operand_pos [simp]: "0 \<le> operand n i j"
  by (cases n) simp_all

lemma partial_pos [simp]: "0 \<le> partial n i j k"
  by (simp add: partial_def sum_nonneg)

lemma partial_le: "k \<le> SIZE \<Longrightarrow> partial n i j k \<le> operand (Suc n) i j"
  unfolding partial_full [symmetric] partial_def by (intro sum_mono2) auto

text \<open>The first three products fit into an int, the last element of the fourth does not.\<close>

lemma operand_le: "i < SIZE \<Longrightarrow> j < SIZE \<Longrightarrow> operand (Suc n) i j \<le> 14400 * 300 ^ n"
proof -
  assume "i < SIZE" "j < SIZE"
  then have "int i * int j \<le> 24 * 24" by (intro mult_mono) (auto simp: SIZE_def)
  then have "25 * 300 ^ n * (int i * int j) \<le> 25 * 300 ^ n * (24 * 24)" by (intro mult_left_mono) auto
  then show ?thesis by (simp add: mult.assoc)
qed

lemma operand_fits: "i < SIZE \<Longrightarrow> j < SIZE \<Longrightarrow> n \<le> 2 \<Longrightarrow> operand (Suc n) i j \<le> INT_MAX"
proof -
  assume a: "i < SIZE" "j < SIZE" "n \<le> 2"
  have "operand (Suc n) i j \<le> 14400 * 300 ^ n" by (rule operand_le [OF a(1,2)])
  also have "\<dots> \<le> 14400 * 90000" using power_increasing [OF a(3), of "300 :: int"] by simp
  finally show ?thesis by (simp only: INT_MAX_def)
qed

lemma operand_overflows: "operand (Suc n) 24 24 \<le> INT_MAX \<Longrightarrow> n \<le> 2"
  using power_increasing [of 3 n "300 :: int"] by (cases "n \<le> 2") (auto simp: INT_MAX_def)

section \<open>Invariant\<close>

text \<open>\<open>P\<close> holds of the elements before the one at \<open>(i, j)\<close>, row by row.\<close>

type_synonym elems = "nat \<Rightarrow> nat \<Rightarrow> int \<Rightarrow> bool"

definition rows_to :: "nat \<Rightarrow> nat \<Rightarrow> elems \<Rightarrow> (nat \<Rightarrow> nat \<Rightarrow> int) \<Rightarrow> bool" where
  "rows_to i j P m \<longleftrightarrow> (\<forall>i'<SIZE. \<forall>j'<SIZE. i' < i \<or> i' = i \<and> j' < j \<longrightarrow> P i' j' (m i' j'))"

definition rows_from :: "nat \<Rightarrow> nat \<Rightarrow> elems \<Rightarrow> (nat \<Rightarrow> nat \<Rightarrow> int) \<Rightarrow> bool" where
  "rows_from i j P m \<longleftrightarrow> (\<forall>i'<SIZE. \<forall>j'<SIZE. \<not> (i' < i \<or> i' = i \<and> j' < j) \<longrightarrow> P i' j' (m i' j'))"

abbreviation everywhere :: "elems \<Rightarrow> (nat \<Rightarrow> nat \<Rightarrow> int) \<Rightarrow> bool" where
  "everywhere \<equiv> rows_from 0 0"

definition is_elem :: "(nat \<Rightarrow> nat \<Rightarrow> int) \<Rightarrow> elems" where
  "is_elem f i j x \<longleftrightarrow> x = f i j"

lemma everywhereD: "everywhere P m \<Longrightarrow> i < SIZE \<Longrightarrow> j < SIZE \<Longrightarrow> P i j (m i j)"
  by (simp add: rows_from_def)

lemma rows_to_0 [simp]: "rows_to 0 0 P m"
  by (simp add: rows_to_def)

lemma rows_to_all: "rows_to SIZE j P m \<longleftrightarrow> everywhere P m"
  by (auto simp: rows_to_def rows_from_def)

lemma rows_to_row: "rows_to i SIZE P m \<longleftrightarrow> rows_to (Suc i) 0 P m"
  by (auto simp: rows_to_def less_Suc_eq)

lemma rows_from_row: "rows_from i SIZE P m \<longleftrightarrow> rows_from (Suc i) 0 P m"
  by (auto simp: rows_from_def less_Suc_eq)

lemma rows_to_Suc: "rows_to i j P m \<Longrightarrow> P i j (m i j) \<Longrightarrow> rows_to i (Suc j) P m"
  by (auto simp: rows_to_def less_Suc_eq)

lemma rows_to_put: "rows_to i j P m \<Longrightarrow> rows_to i j P (put m i j x)"
  by (auto simp: rows_to_def put_def)

lemma rows_from_put: "rows_from i j P m \<Longrightarrow> rows_from i (Suc j) P (put m i j x)"
  by (auto simp: rows_from_def put_def less_Suc_eq)

lemma put_here [simp]: "put m i j x i j = x"
  by (simp add: put_def)

text \<open>In round \<open>n\<close>: what the matrices hold at each place.\<close>

definition is_product :: "nat \<Rightarrow> nat \<Rightarrow> nat \<Rightarrow> int \<Rightarrow> bool" where
  "is_product n i j x \<longleftrightarrow> x = operand (Suc n) i j \<and> x \<le> INT_MAX"

definition at_place :: "nat \<Rightarrow> matrices \<Rightarrow> bool" where
  "at_place n s =
     (let i = xi s; j = xj s; k = xk s; a = matrix_a s; c = matrix_c s in
      case xpc s of
        XInit \<Rightarrow> n = 0 \<and> i \<le> SIZE \<and> j \<le> SIZE \<and> rows_to i j (is_elem (\<lambda>i j. int i)) a \<and>
                 rows_to i j (is_elem (\<lambda>i j. int j)) (matrix_b s)
      | XPrint \<Rightarrow> everywhere (is_elem (operand n)) a
      | XSetAsync \<Rightarrow> everywhere (is_elem (operand n)) a
      | XMul \<Rightarrow> i \<le> SIZE \<and> j \<le> SIZE \<and> everywhere (is_elem (operand n)) a \<and>
                rows_to i j (is_product n) c
      | XAcc \<Rightarrow> i < SIZE \<and> j < SIZE \<and> k \<le> SIZE \<and> everywhere (is_elem (operand n)) a \<and>
                rows_to i j (is_product n) c \<and> c i j = partial n i j k \<and> c i j \<le> INT_MAX
      | XReset \<Rightarrow> n \<le> 2 \<and> everywhere (is_elem (operand n)) a \<and> everywhere (is_elem (operand (Suc n))) c
      | XCopy \<Rightarrow> i \<le> SIZE \<and> j \<le> SIZE \<and> n \<le> 2 \<and> everywhere (is_elem (operand (Suc n))) c \<and>
                rows_to i j (is_elem (operand (Suc n))) a \<and> rows_from i j (is_elem (operand n)) a)"

definition matrix_ctl :: "matrices \<Rightarrow> bool" where
  "matrix_ctl s \<longleftrightarrow> handlers s = [] \<and> cstate s = Enable \<and>
     ctype s = (if xpc s \<in> {XMul, XAcc, XReset} then Asynchronous else Deferred) \<and>
     (xpc s \<in> {XMul, XAcc, XReset} \<longrightarrow> cancel_type s = Some Deferred) \<and>
     (xpc s \<noteq> XInit \<longrightarrow> everywhere (is_elem (\<lambda>i j. int j)) (matrix_b s)) \<and>
     (life s = Cleaning \<or> life s = Canceled \<longrightarrow> xpc s \<in> {XPrint, XMul, XAcc, XReset}) \<and>
     life s \<noteq> Returned \<and> life s \<noteq> Exited"

definition matrix_round :: "nat \<Rightarrow> matrices \<Rightarrow> bool" where
  "matrix_round n s \<longleftrightarrow> n \<le> 3 \<and> at_place n s \<and> (life s = Undefined \<longrightarrow> n = 3 \<and> xpc s = XAcc)"

definition matrix_good :: "matrices \<Rightarrow> bool" where
  "matrix_good s \<longleftrightarrow> matrix_ctl s \<and> (\<exists>n. matrix_round n s)"

lemma put_rows: "rows_to i j P m \<Longrightarrow> P i j x \<Longrightarrow> rows_to i (Suc j) P (put m i j x)"
  by (simp add: rows_to_Suc rows_to_put)

lemma matrix_ctl_step:
  assumes "matrix_ctl s" "at_place n s" "life s = Running" "matrix_thread ok s = Some t"
  shows "matrix_ctl t"
  using assms
  by (cases "xpc s"; clarsimp simp: matrix_ctl_def matrix_thread_def at_place_def ctl_defs rows_to_all Let_def le_less
      split: if_splits sum.splits)

text \<open>One addition to an element.\<close>

lemma int_val_pos: "0 \<le> x \<Longrightarrow> x \<le> INT_MAX \<Longrightarrow> int_val x = Inr x"
  by (simp add: int_val_def INT_MIN_def)

lemma acc_step:
  assumes "k < SIZE" "i < SIZE" "j < SIZE" "n \<le> 3" "x = partial n i j k" "y = operand n i k" "z = int j"
  shows "ebind (imul y z) (iadd x) = Inr (partial n i j (Suc k)) \<and> partial n i j (Suc k) \<le> INT_MAX \<or>
    (\<exists>e. ebind (imul y z) (iadd x) = Inl e) \<and> n = 3"
proof (cases "partial n i j (Suc k) \<le> INT_MAX")
  case True
  have pos: "0 \<le> operand n i k * int j" "0 \<le> partial n i j k" by simp_all
  have le: "partial n i j k + operand n i k * int j \<le> INT_MAX" using True by simp
  have "int_val (operand n i k * int j) = Inr (operand n i k * int j)"
    by (rule int_val_pos [OF pos(1)]) (use le pos(2) in linarith)
  moreover have "int_val (partial n i j (Suc k)) = Inr (partial n i j (Suc k))"
    by (rule int_val_pos [OF partial_pos True])
  ultimately show ?thesis using True assms(5-7) by (simp add: imul_def iadd_def)
next
  case False
  have "partial n i j (Suc k) \<le> operand (Suc n) i j" using assms(1) by (intro partial_le) simp
  then have "\<not> n \<le> 2" using operand_fits [OF assms(2,3), of n] False by linarith
  moreover have "\<exists>e. ebind (imul y z) (iadd x) = Inl e"
    using False assms(5-7) by (auto simp: imul_def iadd_def int_val_def)
  ultimately show ?thesis using assms(4) by auto
qed

lemma matrix_round_step:
  assumes c: "matrix_ctl s" and r: "matrix_round n s" and l: "life s = Running" and t: "matrix_thread ok s = Some t"
  shows "\<exists>n'. matrix_round n' t"
proof -
  have n: "n \<le> 3" and p: "at_place n s" using r by (simp_all add: matrix_round_def)
  note defs = matrix_round_def at_place_def matrix_thread_def ctl_defs Let_def
  show ?thesis
  proof (cases "xpc s")
    case XInit
    then have z: "n = 0" "xi s \<le> SIZE" "xj s \<le> SIZE" "rows_to (xi s) (xj s) (is_elem (\<lambda>i j. int i)) (matrix_a s)"
      "rows_to (xi s) (xj s) (is_elem (\<lambda>i j. int j)) (matrix_b s)" using p by (simp_all add: at_place_def Let_def)
    consider "xi s < SIZE" "xj s < SIZE" | "xi s < SIZE" "xj s = SIZE" | "xi s = SIZE" using z by linarith
    then have "matrix_round 0 t"
    proof cases
      case 1
      then show ?thesis using t XInit l z put_rows [OF z(4)] put_rows [OF z(5)] by (auto simp: defs is_elem_def)
    next
      case 2
      then show ?thesis using t XInit l z rows_to_row by (auto simp: defs)
    next
      case 3
      then show ?thesis using t XInit l z rows_to_all by (auto simp: defs operand_0)
    qed
    then show ?thesis by blast
  next
    case XMul
    then have z: "xi s \<le> SIZE" "xj s \<le> SIZE" "everywhere (is_elem (operand n)) (matrix_a s)"
      "rows_to (xi s) (xj s) (is_product n) (matrix_c s)" using p by (simp_all add: at_place_def Let_def)
    consider "xi s < SIZE" "xj s < SIZE" | "xi s < SIZE" "xj s = SIZE" | "xi s = SIZE" using z by linarith
    then have "matrix_round n t"
    proof cases
      case 1
      then show ?thesis using t XMul l z n rows_to_put [OF z(4)] by (auto simp: defs INT_MAX_def)
    next
      case 2
      then show ?thesis using t XMul l z n rows_to_row by (auto simp: defs)
    next
      case 3
      then have e: "everywhere (is_product n) (matrix_c s)" using z(4) rows_to_all by simp
      have "operand (Suc n) 24 24 \<le> INT_MAX"
        using everywhereD [OF e, of 24 24] by (simp add: is_product_def SIZE_def)
      then have "n \<le> 2" by (rule operand_overflows)
      moreover have "everywhere (is_elem (operand (Suc n))) (matrix_c s)"
        using e by (simp add: rows_from_def is_product_def is_elem_def)
      ultimately show ?thesis using t XMul l z(3) n 3 by (auto simp: defs)
    qed
    then show ?thesis by blast
  next
    case XAcc
    then have z: "xi s < SIZE" "xj s < SIZE" "xk s \<le> SIZE" "everywhere (is_elem (operand n)) (matrix_a s)"
      "rows_to (xi s) (xj s) (is_product n) (matrix_c s)"
      "matrix_c s (xi s) (xj s) = partial n (xi s) (xj s) (xk s)" "matrix_c s (xi s) (xj s) \<le> INT_MAX"
      using p by (simp_all add: at_place_def Let_def)
    have "matrix_round n t"
    proof (cases "xk s < SIZE")
      case True
      have b: "everywhere (is_elem (\<lambda>i j. int j)) (matrix_b s)" using c XAcc by (simp add: matrix_ctl_def)
      note acc_step [OF True z(1,2) n z(6) everywhereD [OF z(4,1) True, unfolded is_elem_def] everywhereD [OF b True z(2), unfolded is_elem_def]]
      then show ?thesis
        using t XAcc l z n True rows_to_put [OF z(5)] by (elim disjE conjE exE) (auto simp: defs)
    next
      case False
      then have k: "xk s = SIZE" using z(3) by simp
      then have "is_product n (xi s) (xj s) (matrix_c s (xi s) (xj s))" using z(6,7) by (simp add: is_product_def partial_full)
      then show ?thesis using t XAcc l z n k rows_to_Suc [OF z(5)] by (auto simp: defs)
    qed
    then show ?thesis by blast
  next
    case XReset
    then show ?thesis using c p t l n by (intro exI [of _ n]) (auto simp: matrix_ctl_def defs)
  next
    case XCopy
    then have z: "xi s \<le> SIZE" "xj s \<le> SIZE" "n \<le> 2" "everywhere (is_elem (operand (Suc n))) (matrix_c s)"
      "rows_to (xi s) (xj s) (is_elem (operand (Suc n))) (matrix_a s)"
      "rows_from (xi s) (xj s) (is_elem (operand n)) (matrix_a s)" using p by (simp_all add: at_place_def Let_def)
    consider "xi s < SIZE" "xj s < SIZE" | "xi s < SIZE" "xj s = SIZE" | "xi s = SIZE" using z by linarith
    then show ?thesis
    proof cases
      case 1
      then have "matrix_round n t"
        using t XCopy l z everywhereD [OF z(4) 1, unfolded is_elem_def] put_rows [OF z(5)] rows_from_put [OF z(6)] by (auto simp: defs is_elem_def)
      then show ?thesis by blast
    next
      case 2
      then have "matrix_round n t" using t XCopy l z rows_to_row rows_from_row by (auto simp: defs)
      then show ?thesis by blast
    next
      case 3
      then have "matrix_round (Suc n) t" using t XCopy l z rows_to_all by (auto simp: defs)
      then show ?thesis by blast
    qed
  qed (use p t l n in \<open>auto simp: defs\<close>)
qed

interpretation mtx: cancellable matrix_thread matrix_point no_handler matrices_start matrix_good
proof
  show "matrix_good matrices_start"
    unfolding matrix_good_def
    by (intro conjI exI [of _ 0]) (simp_all add: matrix_ctl_def matrix_round_def at_place_def matrices_start_def SIZE_def)
  have round: "matrix_round n (s\<lparr>requested := b\<rparr>) = matrix_round n s" for n s b
    by (cases "xpc s") (simp_all add: matrix_round_def at_place_def Let_def)
  have round': "life s \<noteq> Undefined \<Longrightarrow> l \<noteq> Undefined \<Longrightarrow> matrix_round n (s\<lparr>life := l\<rparr>) = matrix_round n s" for n s l
    by (cases "xpc s") (simp_all add: matrix_round_def at_place_def Let_def)
  show "matrix_good (pthread_cancel s)" if "matrix_good s" for s
    using that by (auto simp: matrix_good_def pthread_cancel_def round matrix_ctl_def)
  show "matrix_good t"
    if g: "matrix_good s" and l: "life s = Running" and "\<not> must_act (matrix_point s) s" and t: "matrix_thread ok s = Some t"
    for s ok t
  proof -
    obtain n where n: "matrix_ctl s" "matrix_round n s" using g by (auto simp: matrix_good_def)
    then show ?thesis
      using matrix_ctl_step [OF n(1) _ l t] matrix_round_step [OF n l t]
      by (auto simp: matrix_good_def matrix_round_def)
  qed
  show "matrix_good (s\<lparr>life := Cleaning\<rparr>)"
    if "matrix_good s" "life s = Running" "may_act (matrix_point s) s" for s
    using that by (cases "xpc s"; clarsimp simp: matrix_good_def round' matrix_ctl_def may_act_def matrix_point_def; blast)
  show "matrix_good (s\<lparr>life := Canceled\<rparr>)"
    if "matrix_good s" "life s = Cleaning" "handlers s = []" for s
    using that by (auto simp: matrix_good_def round' matrix_ctl_def)
  show "matrix_good (no_handler h (s\<lparr>handlers := hs\<rparr>))"
    if "matrix_good s" "life s = Cleaning" "handlers s = h # hs" for s h hs
    using that by (simp add: matrix_good_def matrix_ctl_def)
qed

abbreviation matrix_session :: "matrices session \<Rightarrow> session_event \<Rightarrow> matrices session option" where
  "matrix_session \<equiv> session_step False matrix_thread matrix_point no_handler"

text \<open>
  The thread of async\_cancellation.c may be cancelled at any moment of a multiplication, but
  when it has been, its operand is complete: it is the operand of one of the rounds, whose
  elements have a closed form, and never a mixture of two. A multiplication that is completed
  has the product for the next round. The elements outgrow the type int in the fourth one, and
  only there is the program undefined.
\<close>

theorem operand_never_torn:
  assumes "reach matrix_session (session_start matrices_start) m"
  shows "\<exists>n\<le>3.
    (life (thr m) = Canceled \<longrightarrow> (\<forall>i<SIZE. \<forall>j<SIZE. matrix_a (thr m) i j = operand n i j)) \<and>
    (xpc (thr m) = XReset \<longrightarrow> n \<le> 2 \<and> (\<forall>i<SIZE. \<forall>j<SIZE. matrix_c (thr m) i j = operand (Suc n) i j)) \<and>
    (life (thr m) = Undefined \<longrightarrow> n = 3)"
proof -
  have "matrix_good (thr m)" using mtx.session.reach_inv [OF assms] by (simp add: mtx.session_good_def)
  then obtain n where c: "matrix_ctl (thr m)" and r: "matrix_round n (thr m)" by (auto simp: matrix_good_def)
  have "n \<le> 3" "life (thr m) = Undefined \<longrightarrow> n = 3" using r by (auto simp: matrix_round_def)
  moreover have "\<forall>i<SIZE. \<forall>j<SIZE. matrix_a (thr m) i j = operand n i j" if "life (thr m) = Canceled"
  proof -
    have "xpc (thr m) \<in> {XPrint, XMul, XAcc, XReset}" using that c by (simp add: matrix_ctl_def)
    then have "everywhere (is_elem (operand n)) (matrix_a (thr m))"
      using r by (auto simp: matrix_round_def at_place_def Let_def)
    then show ?thesis by (simp add: rows_from_def is_elem_def)
  qed
  moreover have "n \<le> 2 \<and> (\<forall>i<SIZE. \<forall>j<SIZE. matrix_c (thr m) i j = operand (Suc n) i j)" if "xpc (thr m) = XReset"
  proof -
    have "n \<le> 2" "everywhere (is_elem (operand (Suc n))) (matrix_c (thr m))"
      using r that by (simp_all add: matrix_round_def at_place_def Let_def)
    then show ?thesis by (simp add: rows_from_def is_elem_def)
  qed
  ultimately show ?thesis by blast
qed

theorem operand_never_torn_witness:
  "\<exists>m. reach matrix_session (session_start matrices_start) m \<and> requested (thr m) \<and> xj (thr m) = 3 \<and>
     life (thr m) \<noteq> Canceled"
proof -
  have "\<exists>m. reach matrix_session (session_start matrices_start) m \<and>
      (requested (thr m) \<and> xj (thr m) = 3 \<and> xi (thr m) = 0 \<and> matrix_a (thr m) 5 5 = 0)"
    by (rule run_example [where es = "[Main True] @ replicate 3 (Thread (Exec True)) @ [Main True]"]) code_simp
  then obtain m where m: "reach matrix_session (session_start matrices_start) m" "requested (thr m)" "xj (thr m) = 3"
    "matrix_a (thr m) 5 5 = 0" by blast
  obtain n where "life (thr m) = Canceled \<longrightarrow> (\<forall>i<SIZE. \<forall>j<SIZE. matrix_a (thr m) i j = operand n i j)"
    using operand_never_torn [OF m(1)] by blast
  moreover have "operand n 5 5 \<noteq> 0" by (cases n) simp_all
  ultimately show ?thesis using m by (auto simp: SIZE_def)
qed

end
