(* ===== verification/MessageBoard.thy ===== *)
theory MessageBoard
  imports Threads CString
begin

text \<open>
  shm/SystemV: a server that prints the messages which clients leave in a segment of shared
  memory, and a semaphore on which a client tells it that there is one (server\_code.c and
  client\_code.c; sv\_xfr.c, cl\_xfr.c and sem\_ops.c are the same programs in other files).
\<close>

section \<open>Semaphores and segments of System V\<close>

definition MAX_LENGTH :: nat where "MAX_LENGTH = 1000"
definition SHARED_MEMORY_KEY :: int where "SHARED_MEMORY_KEY = 3228"
definition SEMAPHORE_KEY :: int where "SEMAPHORE_KEY = 32281"

record segment =
  client_id :: int
  buffer :: "nat \<Rightarrow> char"

text \<open>
  What the kernel keeps: segments and semaphores by their keys, the values of the semaphores
  by their identifiers. It outlives the processes.
\<close>

record kernel =
  segs :: "int \<Rightarrow> segment option"
  sem_ids :: "int \<Rightarrow> int option"
  sem_vals :: "int \<Rightarrow> nat option"
  next_id :: int

definition semget :: "int \<Rightarrow> bool \<Rightarrow> kernel \<Rightarrow> (int \<times> kernel) option" where
  "semget key create k =
     (case sem_ids k key of
        Some i \<Rightarrow> Some (i, k)
      | None \<Rightarrow>
          if create then
            Some (next_id k, k\<lparr>sem_ids := (sem_ids k)(key \<mapsto> next_id k),
                               sem_vals := (sem_vals k)(next_id k \<mapsto> 0), next_id := next_id k + 1\<rparr>)
          else None)"

definition ipc_rmid :: "int \<Rightarrow> kernel \<Rightarrow> kernel" where
  "ipc_rmid i k = k\<lparr>sem_ids := (\<lambda>key. if sem_ids k key = Some i then None else sem_ids k key),
     sem_vals := (sem_vals k)(i := None)\<rparr>"

text \<open>
  \<open>P\<close> and \<open>V\<close> leave the program when the semaphore is not found, and go on when the operation
  fails.
\<close>

datatype op = Exits | Waits | Returns kernel

definition P :: "int \<Rightarrow> kernel \<Rightarrow> op" where
  "P key k =
     (case semget key False k of
        None \<Rightarrow> Exits
      | Some (i, _) \<Rightarrow>
          (case sem_vals k i of
             None \<Rightarrow> Returns k
           | Some v \<Rightarrow> (case sem_wait v of None \<Rightarrow> Waits
                        | Some v' \<Rightarrow> Returns (k\<lparr>sem_vals := (sem_vals k)(i \<mapsto> v')\<rparr>))))"

definition V :: "int \<Rightarrow> kernel \<Rightarrow> op" where
  "V key k =
     (case semget key False k of
        None \<Rightarrow> Exits
      | Some (i, _) \<Rightarrow>
          (case sem_vals k i of
             None \<Rightarrow> Returns k
           | Some v \<Rightarrow> Returns (k\<lparr>sem_vals := (sem_vals k)(i \<mapsto> sem_post v)\<rparr>)))"

definition zero_segment :: segment where
  "zero_segment = \<lparr>client_id = 0, buffer = (\<lambda>_. NUL)\<rparr>"

definition create_shared_memory_area :: "int \<Rightarrow> kernel \<Rightarrow> kernel" where
  "create_shared_memory_area key k =
     (case segs k key of None \<Rightarrow> k\<lparr>segs := (segs k)(key \<mapsto> zero_segment)\<rparr> | Some _ \<Rightarrow> k)"

text \<open>
  \<open>create_semaphore\<close> makes the semaphore, or finds one that was left, and sets its value. It
  returns TRUE, not the identifier.
\<close>

definition create_semaphore :: "int \<Rightarrow> kernel \<Rightarrow> int \<times> kernel" where
  "create_semaphore key k =
     (case semget key True k of
        None \<Rightarrow> (0, k)
      | Some (i, k') \<Rightarrow> (1, k'\<lparr>sem_vals := (sem_vals k')(i \<mapsto> 0)\<rparr>))"

text \<open>The string in a buffer; \<open>strcmp\<close> and \<open>printf\<close> read up to the first NUL.\<close>

fun string_from :: "nat \<Rightarrow> (nat \<Rightarrow> char) \<Rightarrow> nat \<Rightarrow> string" where
  "string_from 0 b j = []"
| "string_from (Suc n) b j = (if b j = NUL then [] else b j # string_from n b (Suc j))"

definition string_in :: "(nat \<Rightarrow> char) \<Rightarrow> string" where
  "string_in b = string_from MAX_LENGTH b 0"

section \<open>The programs\<close>

datatype spc = SShm | SSem | SP | SCheck | SPrint | SDetach | SRemove | SExit
datatype cpc = CStart | CLocate | CSetId | CCopy nat | CPost | CDone | CFail | CCrash

text \<open>\<open>said\<close> is what the server has printed.\<close>

record board =
  kern :: kernel
  spc :: spc
  semaphore_id :: int
  said :: "(int \<times> string) list"
  cpc :: "nat \<Rightarrow> cpc"

definition board_start :: "kernel \<Rightarrow> board" where
  "board_start k = \<lparr>kern = k, spc = SShm, semaphore_id = 0, said = [], cpc = (\<lambda>_. CStart)\<rparr>"

definition shm :: "board \<Rightarrow> segment" where
  "shm s = (case segs (kern s) SHARED_MEMORY_KEY of None \<Rightarrow> zero_segment | Some g \<Rightarrow> g)"

definition set_shm :: "segment \<Rightarrow> board \<Rightarrow> board" where
  "set_shm g s = s\<lparr>kern := (kern s)\<lparr>segs := (segs (kern s))(SHARED_MEMORY_KEY \<mapsto> g)\<rparr>\<rparr>"

definition server_main :: "board \<Rightarrow> board option" where
  "server_main s =
     (case spc s of
        SShm \<Rightarrow> Some (s\<lparr>kern := create_shared_memory_area SHARED_MEMORY_KEY (kern s), spc := SSem\<rparr>)
      | SSem \<Rightarrow> (case create_semaphore SEMAPHORE_KEY (kern s) of
                   (i, k) \<Rightarrow> Some (s\<lparr>kern := k, semaphore_id := i, spc := SP\<rparr>))
      | SP \<Rightarrow> (case P SEMAPHORE_KEY (kern s) of
                 Exits \<Rightarrow> Some (s\<lparr>spc := SExit\<rparr>)
               | Waits \<Rightarrow> None
               | Returns k \<Rightarrow> Some (s\<lparr>kern := k, spc := SCheck\<rparr>))
      | SCheck \<Rightarrow> Some (s\<lparr>spc := (if string_in (buffer (shm s)) = ''quit'' then SDetach else SPrint)\<rparr>)
      | SPrint \<Rightarrow> Some (s\<lparr>said := said s @ [(client_id (shm s), string_in (buffer (shm s)))], spc := SP\<rparr>)
      | SDetach \<Rightarrow> Some (s\<lparr>spc := SRemove\<rparr>)
      | SRemove \<Rightarrow> Some (s\<lparr>kern := ipc_rmid (semaphore_id s) (kern s), spc := SExit\<rparr>)
      | SExit \<Rightarrow> None)"

text \<open>
  A client with its arguments. \<open>strcpy\<close> writes one character after the other, with no check of
  the length; a missing \<open>argv[2]\<close> is a null pointer.
\<close>

definition client_main :: "string list \<Rightarrow> nat \<Rightarrow> board \<Rightarrow> board option" where
  "client_main argv i s =
     (let to = (\<lambda>pc s. s\<lparr>cpc := (cpc s)(i := pc)\<rparr>) in
      case cpc s i of
        CStart \<Rightarrow> Some (to (if length argv < 2 then CDone else CLocate) s)
      | CLocate \<Rightarrow> Some (to (if segs (kern s) SHARED_MEMORY_KEY = None then CFail else CSetId) s)
      | CSetId \<Rightarrow> Some (to (CCopy 0) (set_shm ((shm s)\<lparr>client_id := atoi (argv ! 1)\<rparr>) s))
      | CCopy k \<Rightarrow>
          if length argv < 3 \<or> MAX_LENGTH \<le> k then Some (to CCrash s)
          else let m = argv ! 2; c = (if k < length m then m ! k else NUL) in
            Some (to (if k < length m then CCopy (k + 1) else CPost)
                    (set_shm ((shm s)\<lparr>buffer := (buffer (shm s))(k := c)\<rparr>) s))
      | CPost \<Rightarrow> (case V SEMAPHORE_KEY (kern s) of
                    Exits \<Rightarrow> Some (to CFail s)
                  | Waits \<Rightarrow> None
                  | Returns k \<Rightarrow> Some (to CDone (s\<lparr>kern := k\<rparr>)))
      | _ \<Rightarrow> None)"

datatype event = Server | Client nat

definition board_step :: "(nat \<Rightarrow> string list) \<Rightarrow> board \<Rightarrow> event \<Rightarrow> board option" where
  "board_step args s e = (case e of Server \<Rightarrow> server_main s | Client i \<Rightarrow> client_main (args i) i s)"

text \<open>
  Clients that take turns: one is started only when those before it have ended and the server
  waits.
\<close>

definition sem_value :: "kernel \<Rightarrow> nat option" where
  "sem_value k = (case sem_ids k SEMAPHORE_KEY of None \<Rightarrow> None | Some i \<Rightarrow> sem_vals k i)"

fun may_start :: "board \<Rightarrow> event \<Rightarrow> bool" where
  "may_start s Server = True"
| "may_start s (Client i) =
     (cpc s i = CStart \<longrightarrow> list_all (\<lambda>j. cpc s j = CDone) [0..<i] \<and> spc s = SP \<and> sem_value (kern s) = Some 0)"

definition turns_step :: "(nat \<Rightarrow> string list) \<Rightarrow> board \<Rightarrow> event \<Rightarrow> board option" where
  "turns_step args s e = (if may_start s e then board_step args s e else None)"

section \<open>Clients that take turns\<close>

definition msg :: "(nat \<Rightarrow> string list) \<Rightarrow> nat \<Rightarrow> string" where
  "msg args i = args i ! 2"

definition entry :: "(nat \<Rightarrow> string list) \<Rightarrow> nat \<Rightarrow> int \<times> string" where
  "entry args i = (atoi (args i ! 1), msg args i)"

text \<open>Every client has its two arguments, and its message fits into the buffer.\<close>

definition fit :: "(nat \<Rightarrow> string list) \<Rightarrow> bool" where
  "fit args \<longleftrightarrow> (\<forall>i. 3 \<le> length (args i) \<and> length (msg args i) < MAX_LENGTH \<and> NUL \<notin> set (msg args i))"

definition holds :: "int \<times> string \<Rightarrow> segment \<Rightarrow> bool" where
  "holds m g \<longleftrightarrow> client_id g = fst m \<and> string_in (buffer g) = snd m"

lemma string_from_takeWhile: "string_from n b j = takeWhile (\<lambda>c. c \<noteq> NUL) (map b [j..<j + n])"
proof (induction n b j rule: string_from.induct)
  case (2 n b j)
  then show ?case by (simp add: upt_conv_Cons del: upt_Suc)
qed simp

lemma string_in_copied:
  assumes "\<forall>j<length m. b j = m ! j" "b (length m) = NUL" "length m < MAX_LENGTH" "NUL \<notin> set m"
  shows "string_in b = m"
proof -
  have "map b [0..<length m] = m" using assms(1) by (intro nth_equalityI) auto
  moreover have "[0..<MAX_LENGTH] = [0..<length m] @ length m # [Suc (length m)..<MAX_LENGTH]"
    using assms(3) upt_add_eq_append [of 0 "length m" "MAX_LENGTH - length m"] by (simp add: upt_conv_Cons)
  ultimately have "map b [0..<MAX_LENGTH] = m @ NUL # map b [Suc (length m)..<MAX_LENGTH]"
    using assms(2) by simp
  then show ?thesis using assms(4) by (auto simp: string_in_def string_from_takeWhile intro!: takeWhile_append_stop)
qed

text \<open>How far the client has come that writes the entry \<open>m\<close>.\<close>

fun writes :: "int \<times> string \<Rightarrow> segment \<Rightarrow> cpc \<Rightarrow> bool" where
  "writes m g CStart = True" | "writes m g CLocate = True" | "writes m g CSetId = True"
| "writes m g (CCopy c) = (client_id g = fst m \<and> c \<le> length (snd m) \<and> (\<forall>j<c. buffer g j = snd m ! j))"
| "writes m g CPost = (client_id g = fst m \<and> (\<forall>j<length (snd m). buffer g j = snd m ! j) \<and>
     buffer g (length (snd m)) = NUL)"
| "writes m g _ = False"

definition board_made :: "board \<Rightarrow> bool" where
  "board_made s \<longleftrightarrow> segs (kern s) SHARED_MEMORY_KEY \<noteq> None"

definition phase :: "(nat \<Rightarrow> string list) \<Rightarrow> nat \<Rightarrow> board \<Rightarrow> bool" where
  "phase args k s \<longleftrightarrow>
     (case spc s of
        SShm \<Rightarrow> cpc s k = CStart
      | SSem \<Rightarrow> cpc s k = CStart \<and> board_made s
      | SP \<Rightarrow> board_made s \<and>
           (sem_value (kern s) = Some 0 \<and> writes (entry args k) (shm s) (cpc s k) \<or>
            sem_value (kern s) = Some 1 \<and> cpc s k = CDone \<and> holds (entry args k) (shm s))
      | SCheck \<Rightarrow> board_made s \<and> sem_value (kern s) = Some 0 \<and> cpc s k = CDone \<and> holds (entry args k) (shm s)
      | SPrint \<Rightarrow> board_made s \<and> sem_value (kern s) = Some 0 \<and> cpc s k = CDone \<and> holds (entry args k) (shm s) \<and>
           msg args k \<noteq> ''quit''
      | _ \<Rightarrow> cpc s k = CDone \<and> msg args k = ''quit'')"

definition turn :: "(nat \<Rightarrow> string list) \<Rightarrow> nat \<Rightarrow> board \<Rightarrow> bool" where
  "turn args k s \<longleftrightarrow> said s = map (entry args) [0..<k] \<and> (\<forall>j<k. msg args j \<noteq> ''quit'') \<and>
     (\<forall>j<k. cpc s j = CDone) \<and> (\<forall>j>k. cpc s j = CStart) \<and> phase args k s"

lemma shm_set [simp]: "shm (set_shm g s) = g"
  by (simp add: shm_def set_shm_def)

lemma set_shm_same [simp]:
  "sem_value (kern (set_shm g s)) = sem_value (kern s)" "board_made (set_shm g s)" "spc (set_shm g s) = spc s"
  "cpc (set_shm g s) = cpc s" "said (set_shm g s) = said s"
  by (simp_all add: set_shm_def sem_value_def board_made_def split: option.splits)

lemma cpc_same [simp]: "shm (s\<lparr>cpc := f\<rparr>) = shm s" "board_made (s\<lparr>cpc := f\<rparr>) = board_made s"
  by (simp_all add: shm_def board_made_def)

lemma shm_kern: "segs (kern t) = segs (kern s) \<Longrightarrow> shm t = shm s \<and> board_made t = board_made s"
  by (simp add: shm_def board_made_def)

lemma P_returns:
  assumes "P SEMAPHORE_KEY k = Returns k'" "sem_value k = Some v"
  shows "v = Suc (v - 1) \<and> sem_value k' = Some (v - 1) \<and> segs k' = segs k"
  using assms by (auto simp: P_def semget_def sem_value_def sem_wait_def split: option.splits if_splits)

lemma P_not_exits: "sem_value k = Some v \<Longrightarrow> P SEMAPHORE_KEY k \<noteq> Exits"
  by (auto simp: P_def semget_def sem_value_def split: option.splits)

lemma P_waits: "sem_value k = Some v \<Longrightarrow> P SEMAPHORE_KEY k = Waits \<longleftrightarrow> v = 0"
  by (auto simp: P_def semget_def sem_value_def sem_wait_def split: option.splits)

lemma V_returns:
  "sem_value k = Some v \<Longrightarrow> \<exists>k'. V SEMAPHORE_KEY k = Returns k' \<and> sem_value k' = Some (Suc v) \<and> segs k' = segs k"
  by (auto simp: V_def semget_def sem_value_def sem_post_def split: option.splits)

lemma made_semaphore:
  "create_semaphore SEMAPHORE_KEY k = (i, k') \<Longrightarrow> sem_value k' = Some 0 \<and> segs k' = segs k \<and> i = 1"
  by (auto simp: create_semaphore_def semget_def sem_value_def split: option.splits)

text \<open>The move of the client whose turn it is.\<close>

lemma client_turn:
  assumes f: "fit args" and t: "turn args k s" and p: "spc s = SP" "sem_value (kern s) = Some 0"
    and c: "client_main (args k) k s = Some u"
  shows "turn args k u"
proof -
  have w: "writes (entry args k) (shm s) (cpc s k)" "board_made s"
    using t p by (auto simp: turn_def phase_def)
  have a: "3 \<le> length (args k)" "length (msg args k) < MAX_LENGTH" "NUL \<notin> set (msg args k)"
    using f by (simp_all add: fit_def)
  have o: "turn args k (s\<lparr>cpc := (cpc s)(k := pc)\<rparr>)" if "writes (entry args k) (shm s) pc" for pc
    using t p w that by (auto simp: turn_def phase_def)
  have o': "turn args k ((set_shm g s)\<lparr>cpc := (cpc s)(k := pc)\<rparr>)" if "writes (entry args k) g pc" for g pc
    using t p that by (auto simp: turn_def phase_def)
  show ?thesis
  proof (cases "cpc s k")
    case CStart
    then show ?thesis using c a o [of CLocate] by (auto simp: client_main_def)
  next
    case CLocate
    then show ?thesis using c w o [of CSetId] by (auto simp: client_main_def board_made_def)
  next
    case CSetId
    then show ?thesis using c o' [of "(shm s)\<lparr>client_id := atoi (args k ! 1)\<rparr>" "CCopy 0"]
      by (auto simp: client_main_def entry_def)
  next
    case (CCopy j)
    then have j: "client_id (shm s) = fst (entry args k)" "j \<le> length (msg args k)"
      "\<forall>i<j. buffer (shm s) i = msg args k ! i" using w by (simp_all add: entry_def)
    show ?thesis
    proof (cases "j < length (msg args k)")
      case True
      then show ?thesis using c a CCopy j
          o' [of "(shm s)\<lparr>buffer := (buffer (shm s))(j := msg args k ! j)\<rparr>" "CCopy (Suc j)"]
        by (auto simp: client_main_def Let_def entry_def msg_def less_Suc_eq)
    next
      case False
      then show ?thesis using c a CCopy j
          o' [of "(shm s)\<lparr>buffer := (buffer (shm s))(j := NUL)\<rparr>" CPost]
        by (auto simp: client_main_def Let_def entry_def msg_def)
    qed
  next
    case CPost
    then have h: "holds (entry args k) (shm s)"
      using w a string_in_copied [of "msg args k" "buffer (shm s)"] by (simp add: holds_def entry_def)
    obtain k' where k': "V SEMAPHORE_KEY (kern s) = Returns k'" "sem_value k' = Some (Suc 0)" "segs k' = segs (kern s)"
      using V_returns [OF p(2)] by blast
    then have "u = s\<lparr>kern := k', cpc := (cpc s)(k := CDone)\<rparr>" using c CPost by (simp add: client_main_def)
    then show ?thesis using t p h k' by (auto simp: turn_def phase_def shm_def board_made_def)
  qed (use w in simp_all)
qed


lemma server_turn:
  assumes t: "turn args k s" and c: "server_main s = Some u"
  shows "\<exists>k'. turn args k' u"
proof -
  note defs = turn_def phase_def server_main_def
  show ?thesis
  proof (cases "spc s")
    case SShm
    then have "turn args k u" using t c
      by (auto simp: defs create_shared_memory_area_def board_made_def split: option.splits)
    then show ?thesis by blast
  next
    case SSem
    obtain i k' where m: "create_semaphore SEMAPHORE_KEY (kern s) = (i, k')" by fastforce
    then have "turn args k u" using t c SSem made_semaphore [OF m] by (auto simp: defs board_made_def)
    then show ?thesis by blast
  next
    case SP
    show ?thesis
    proof (cases "P SEMAPHORE_KEY (kern s)")
      case Exits
      then show ?thesis using t SP P_not_exits by (auto simp: turn_def phase_def)
    next
      case Waits
      then show ?thesis using c SP by (simp add: server_main_def)
    next
      case (Returns k')
      then have u: "u = s\<lparr>kern := k', spc := SCheck\<rparr>" using c SP by (simp add: server_main_def)
      have "sem_value (kern s) \<noteq> Some 0" using Returns P_waits [of "kern s" 0] by auto
      then have v: "sem_value (kern s) = Some 1" "board_made s" "cpc s k = CDone" "holds (entry args k) (shm s)"
        using t SP by (auto simp: turn_def phase_def)
      then have "sem_value k' = Some 0" "segs k' = segs (kern s)" using P_returns [OF Returns v(1)] by simp_all
      then have "turn args k u" using t SP u v by (auto simp: turn_def phase_def shm_def board_made_def)
      then show ?thesis by blast
    qed
  next
    case SCheck
    have sh: "shm (s\<lparr>spc := x\<rparr>) = shm s" "board_made (s\<lparr>spc := x\<rparr>) = board_made s" for x
      by (simp_all add: shm_def board_made_def)
    have "holds (entry args k) (shm s)" using t SCheck by (simp add: turn_def phase_def)
    then have "string_in (buffer (shm s)) = msg args k" by (simp add: holds_def entry_def)
    then have "turn args k u" using t c SCheck by (auto simp: defs sh)
    then show ?thesis by blast
  next
    case SPrint
    have sh: "shm (s\<lparr>said := l, spc := x\<rparr>) = shm s" "board_made (s\<lparr>said := l, spc := x\<rparr>) = board_made s" for l x
      by (simp_all add: shm_def board_made_def)
    have h: "(client_id (shm s), string_in (buffer (shm s))) = entry args k"
      using t SPrint by (simp add: turn_def phase_def holds_def prod_eq_iff)
    then have u: "u = s\<lparr>said := said s @ [entry args k], spc := SP\<rparr>" using c SPrint by (simp add: server_main_def)
    have "cpc s (Suc k) = CStart" "cpc s k = CDone" "msg args k \<noteq> ''quit''"
      using t SPrint by (auto simp: turn_def phase_def)
    then have "turn args (Suc k) u" using t SPrint u by (auto simp: turn_def phase_def sh less_Suc_eq)
    then show ?thesis by blast
  next
    case SDetach
    then have "turn args k u" using t c by (auto simp: defs)
    then show ?thesis by blast
  next
    case SRemove
    then have "turn args k u" using t c by (auto simp: defs)
    then show ?thesis by blast
  next
    case SExit
    then show ?thesis using c by (simp add: server_main_def)
  qed
qed

lemma turns_inv_step:
  assumes f: "fit args" and t: "turn args k s" and st: "turns_step args s e = Some u"
  shows "\<exists>k'. turn args k' u"
proof (cases e)
  case Server
  then show ?thesis using server_turn [OF t] st by (simp add: turns_step_def board_step_def)
next
  case (Client i)
  then have c: "client_main (args i) i s = Some u" "may_start s (Client i)"
    using st by (auto simp: turns_step_def board_step_def split: if_splits)
  consider "i < k" | "i = k" | "k < i" by linarith
  then show ?thesis
  proof cases
    case 1
    then show ?thesis using t c by (simp add: turn_def client_main_def)
  next
    case 2
    have "cpc s k \<noteq> CDone" using c(1) 2 by (auto simp: client_main_def)
    moreover have "spc s = SP" "sem_value (kern s) = Some 0"
      using t c(2) 2 \<open>cpc s k \<noteq> CDone\<close> by (auto simp: turn_def phase_def split: spc.splits)
    ultimately show ?thesis using client_turn [OF f t _ _ c(1) [unfolded 2]] by blast
  next
    case 3
    then have "cpc s i = CStart" using t by (simp add: turn_def)
    then have "cpc s k = CDone" "spc s = SP" "sem_value (kern s) = Some 0"
      using c(2) 3 by (auto simp: list_all_iff)
    then show ?thesis using t by (simp add: turn_def phase_def)
  qed
qed

lemma turns_inv_start: "turn args 0 (board_start k)"
  by (simp add: turn_def phase_def board_start_def)

interpretation turns: machine_inv "turns_step args" "board_start k" "\<lambda>s. fit args \<longrightarrow> (\<exists>n. turn args n s)" for args k
  by unfold_locales (use turns_inv_start turns_inv_step in blast)+

text \<open>In every state somebody can move, until the server has left.\<close>

lemma turns_progress:
  assumes "fit args" "turn args k s" "spc s \<noteq> SExit"
  shows "turns_step args s Server \<noteq> None \<or> turns_step args s (Client k) \<noteq> None"
proof (cases "server_main s = None")
  case False
  then show ?thesis by (simp add: turns_step_def board_step_def)
next
  case True
  have p: "spc s = SP"
  proof (cases "spc s")
    case SSem
    then show ?thesis using True by (cases "create_semaphore SEMAPHORE_KEY (kern s)") (simp add: server_main_def)
  qed (use True assms(3) in \<open>simp_all add: server_main_def\<close>)
  then have w: "P SEMAPHORE_KEY (kern s) = Waits" using True by (auto simp: server_main_def split: op.splits)
  then have v: "sem_value (kern s) = Some 0" "writes (entry args k) (shm s) (cpc s k)" "board_made s"
    using assms(2) p P_waits [of "kern s" 1] by (auto simp: turn_def phase_def)
  have "\<forall>j<k. cpc s j = CDone" using assms(2) by (simp add: turn_def)
  then have m: "may_start s (Client k)" using p v by (simp add: list_all_iff)
  have "client_main (args k) k s \<noteq> None"
    using v V_returns [OF v(1)] by (cases "cpc s k") (auto simp: client_main_def Let_def)
  then show ?thesis using m by (simp add: turns_step_def board_step_def)
qed

section \<open>Properties\<close>


definition empty_kernel :: kernel where
  "empty_kernel = \<lparr>segs = (\<lambda>_. None), sem_ids = (\<lambda>_. None), sem_vals = (\<lambda>_. None), next_id = 0\<rparr>"


text \<open>Clients that do not take turns: the second overwrites the message of the first.\<close>

lemma message_lost:
  "\<exists>s. reach (board_step (\<lambda>i. if i = 0 then [''client'', ''7'', ''a''] else [''client'', ''8'', ''b'']))
         (board_start empty_kernel) s \<and> said s = [(8, ''b''), (8, ''b'')]"
  by (rule run_example [where es = "[Server, Server] @ replicate 6 (Client 0) @ replicate 6 (Client 1) @
        replicate 6 Server"]) code_simp

text \<open>
  A client with one argument follows a null pointer, and a message that does not fit is written
  past the buffer.
\<close>

lemma one_argument_crashes:
  "cpc s i = CCopy 0 \<Longrightarrow> length argv = 2 \<Longrightarrow> \<exists>t. client_main argv i s = Some t \<and> cpc t i = CCrash"
  by (simp add: client_main_def)

lemma long_message_crashes:
  "cpc s i = CCopy MAX_LENGTH \<Longrightarrow> \<exists>t. client_main argv i s = Some t \<and> cpc t i = CCrash"
  by (simp add: client_main_def)

text \<open>
  The server removes the semaphore with the number that create\_semaphore returned, which is 1:
  its own stays, unless it happens to have this number.
\<close>

lemma quit_keeps_semaphore:
  assumes "sem_ids (kern s) SEMAPHORE_KEY = Some i" "semaphore_id s = 1" "spc s = SRemove" "server_main s = Some t"
  shows "spc t = SExit \<and> (i \<noteq> 1 \<longrightarrow> sem_ids (kern t) SEMAPHORE_KEY = Some i) \<and> sem_vals (kern t) 1 = None"
  using assms by (auto simp: server_main_def ipc_rmid_def)

end
