(* ===== verification/SignalHandlers.thy ===== *)
theory SignalHandlers
  imports Threads CInt
begin

text \<open>
  Programs that a signal interrupts: a jump out of a handler (6-sigsetjmp.c), children that a
  handler waits for (5-sigchld.c), a signal that is blocked for a while (4-sigprocmask.c), all
  of shackleford/src/signals, and handlers that are set again (signals/simple\_signal\_handler.c).
\<close>

section \<open>A jump out of the handler\<close>

definition CALC_SIZE :: nat where "CALC_SIZE = 30"

text \<open>
  \<open>JLeave\<close> is after the buffer is freed and before exit. \<open>JKilled\<close> is the end by a signal that
  has no handler yet, and \<open>JUndefined\<close> what C gives no meaning to.
\<close>

datatype jpc = JMalloc | JMemset | JSignal | JSet | JCalc | JNormal | JCtrlC | JSum | JPrint | JFree
  | JLeave | JExit | JKilled | JUndefined

record jump =
  jpc :: jpc
  result_buffer :: "nat \<Rightarrow> 32 word"
  allocated :: bool
  ji :: nat
  total :: "64 word"
  totals :: "64 word list"

definition jump_start :: "(nat \<Rightarrow> 32 word) \<Rightarrow> jump" where
  "jump_start junk = \<lparr>jpc = JMalloc, result_buffer = junk, allocated = False, ji = 0, total = 0, totals = []\<rparr>"

text \<open>
  \<open>do_calculation\<close> writes an element and sleeps in each round. The jump to \<open>sigsetjmp\<close> with
  \<open>NORMAL\<close> or \<open>CTRLC\<close> continues in the switch.
\<close>

definition do_calculation :: "jump \<Rightarrow> jump option" where
  "do_calculation s =
     Some (if ji s < CALC_SIZE
           then s\<lparr>result_buffer := (result_buffer s)(ji s := of_nat (ji s) * of_nat (ji s)), ji := ji s + 1\<rparr>
           else s\<lparr>jpc := JNormal\<rparr>)"

definition jump_main :: "jump \<Rightarrow> jump option" where
  "jump_main s =
     (case jpc s of
        JMalloc \<Rightarrow> Some (s\<lparr>allocated := True, jpc := JMemset\<rparr>)
      | JMemset \<Rightarrow> Some (s\<lparr>result_buffer := (\<lambda>j. if j < CALC_SIZE then 0 else result_buffer s j), jpc := JSignal\<rparr>)
      | JSignal \<Rightarrow> Some (s\<lparr>jpc := JSet\<rparr>)
      | JSet \<Rightarrow> Some (s\<lparr>ji := 0, jpc := JCalc\<rparr>)
      | JCalc \<Rightarrow> do_calculation s
      | JNormal \<Rightarrow> Some (s\<lparr>ji := 0, total := 0, jpc := JSum\<rparr>)
      | JCtrlC \<Rightarrow> Some (s\<lparr>ji := 0, total := 0, jpc := JSum\<rparr>)
      | JSum \<Rightarrow>
          Some (if ji s < CALC_SIZE then
                  if allocated s then s\<lparr>total := total s + ucast (result_buffer s (ji s)), ji := ji s + 1\<rparr>
                  else s\<lparr>jpc := JUndefined\<rparr>
                else s\<lparr>jpc := JPrint\<rparr>)
      | JPrint \<Rightarrow> Some (s\<lparr>totals := totals s @ [total s], jpc := JFree\<rparr>)
      | JFree \<Rightarrow> Some (if allocated s then s\<lparr>allocated := False, jpc := JLeave\<rparr> else s\<lparr>jpc := JUndefined\<rparr>)
      | JLeave \<Rightarrow> Some (s\<lparr>jpc := JExit\<rparr>)
      | _ \<Rightarrow> None)"

text \<open>
  The handler of SIGINT jumps; before \<open>sigsetjmp\<close> has been called there is nowhere to jump to.
  The mask is restored by the jump, so that the next SIGINT is caught again.
\<close>

definition ctrl_c :: "jump \<Rightarrow> jump option" where
  "ctrl_c s =
     (if jpc s \<in> {JMalloc, JMemset, JSignal} then Some (s\<lparr>jpc := JKilled\<rparr>)
      else if jpc s = JSet then Some (s\<lparr>jpc := JUndefined\<rparr>)
      else if jpc s \<in> {JExit, JKilled, JUndefined} then None
      else Some (s\<lparr>jpc := JCtrlC\<rparr>))"

datatype jump_event = Go | CtrlC

definition jump_step :: "jump \<Rightarrow> jump_event \<Rightarrow> jump option" where
  "jump_step s e = (case e of Go \<Rightarrow> jump_main s | CtrlC \<Rightarrow> ctrl_c s)"

text \<open>The sum of the squares below \<open>k\<close>, and the buffer when \<open>k\<close> of them are computed.\<close>

definition squares :: "nat \<Rightarrow> 64 word" where
  "squares k = (\<Sum>j<k. of_nat (j * j))"

definition computed :: "nat \<Rightarrow> (nat \<Rightarrow> 32 word) \<Rightarrow> bool" where
  "computed k b \<longleftrightarrow> k \<le> CALC_SIZE \<and> (\<forall>j<CALC_SIZE. b j = (if j < k then of_nat (j * j) else 0))"

definition jump_inv :: "nat \<Rightarrow> jump \<Rightarrow> bool" where
  "jump_inv k s \<longleftrightarrow>
     (jpc s \<in> {JMalloc, JMemset, JSignal, JSet, JCalc} \<longrightarrow> totals s = []) \<and>
     (jpc s \<in> {JSignal, JSet} \<longrightarrow> computed 0 (result_buffer s)) \<and>
     (jpc s = JCalc \<longrightarrow> ji s = k) \<and>
     (jpc s \<in> {JCalc, JNormal, JCtrlC, JSum, JPrint, JFree, JLeave, JExit} \<longrightarrow> computed k (result_buffer s)) \<and>
     (jpc s = JSum \<longrightarrow> ji s \<le> CALC_SIZE \<and> total s = squares (min (ji s) k)) \<and>
     (jpc s = JPrint \<longrightarrow> total s = squares k) \<and> (jpc s = JNormal \<longrightarrow> k = CALC_SIZE) \<and>
     (jpc s \<notin> {JMalloc, JLeave, JExit} \<longrightarrow> allocated s) \<and> jpc s \<noteq> JKilled \<and> jpc s \<noteq> JUndefined \<and>
     (jpc s \<in> {JFree, JLeave, JExit} \<longrightarrow> totals s \<noteq> []) \<and> (\<forall>t\<in>set (totals s). t = squares k)"

text \<open>The moments at which the handler may safely jump.\<close>

definition jump_window :: "jump \<Rightarrow> bool" where
  "jump_window s \<longleftrightarrow> jpc s \<in> {JCalc, JNormal, JCtrlC, JSum, JPrint, JFree}"

definition window_step :: "jump \<Rightarrow> jump_event \<Rightarrow> jump option" where
  "window_step s e = (if e = CtrlC \<and> \<not> jump_window s then None else jump_step s e)"

lemma squares_Suc: "squares (Suc k) = squares k + of_nat (k * k)"
  by (simp add: squares_def)

lemma squares_0 [simp]: "squares 0 = 0"
  by (simp add: squares_def)

lemma ucast_small: "n < 2 ^ 32 \<Longrightarrow> (ucast (of_nat n :: 32 word) :: 64 word) = of_nat n"
  by (simp add: unsigned_of_nat take_bit_nat_eq_self)

lemma square_small: "j < CALC_SIZE \<Longrightarrow> j * j < 2 ^ 32"
proof -
  assume "j < CALC_SIZE"
  then have "j * j \<le> 30 * 30" by (intro mult_mono) (auto simp: CALC_SIZE_def)
  then show ?thesis by simp
qed

lemma sum_next:
  assumes "computed k b" "j < CALC_SIZE" "t = squares (min j k)"
  shows "t + ucast (b j) = squares (min (Suc j) k)"
proof (cases "j < k")
  case True
  then have "b j = of_nat (j * j)" using assms by (simp add: computed_def)
  moreover have "ucast (of_nat (j * j) :: 32 word) = (of_nat (j * j) :: 64 word)"
    by (rule ucast_small) (rule square_small [OF assms(2)])
  ultimately show ?thesis using True assms(3) by (simp add: squares_Suc del: of_nat_mult)
next
  case False
  then show ?thesis using assms by (simp add: computed_def)
qed

lemma computed_next: "computed k b \<Longrightarrow> k < CALC_SIZE \<Longrightarrow> computed (Suc k) (b(k := of_nat k * of_nat k))"
  by (auto simp: computed_def less_Suc_eq)

lemma jump_inv_step:
  assumes "jump_inv k s" "window_step s e = Some t"
  shows "\<exists>k'. jump_inv k' t"
proof (cases e)
  case CtrlC
  then have "jump_inv k t" using assms
    by (cases "jpc s") (auto simp: window_step_def jump_step_def jump_window_def ctrl_c_def jump_inv_def)
  then show ?thesis by blast
next
  case Go
  then have t: "jump_main s = Some t" using assms(2) by (simp add: window_step_def jump_step_def)
  show ?thesis
  proof (cases "jpc s")
    case JMemset
    then have "jump_inv 0 t" using assms(1) t by (auto simp: jump_main_def jump_inv_def computed_def)
    then show ?thesis by blast
  next
    case JSet
    then have "jump_inv 0 t" using assms(1) t by (auto simp: jump_main_def jump_inv_def)
    then show ?thesis by blast
  next
    case JCalc
    show ?thesis
    proof (cases "k < CALC_SIZE")
      case True
      have "computed (Suc k) ((result_buffer s)(k := of_nat k * of_nat k))"
        using assms(1) JCalc True by (intro computed_next) (simp_all add: jump_inv_def)
      then have "jump_inv (Suc k) t" using assms(1) t JCalc True
        by (auto simp: jump_main_def do_calculation_def jump_inv_def)
      then show ?thesis by blast
    next
      case False
      then have "k = CALC_SIZE" using assms(1) JCalc by (simp add: jump_inv_def computed_def)
      then have "jump_inv k t" using assms(1) t JCalc
        by (auto simp: jump_main_def do_calculation_def jump_inv_def)
      then show ?thesis by blast
    qed
  next
    case JSum
    then have z: "computed k (result_buffer s)" "ji s \<le> CALC_SIZE" "total s = squares (min (ji s) k)" "allocated s"
      using assms(1) by (simp_all add: jump_inv_def)
    have "jump_inv k t"
    proof (cases "ji s < CALC_SIZE")
      case True
      then show ?thesis using assms(1) t JSum z sum_next [OF z(1) True z(3)] by (auto simp: jump_main_def jump_inv_def)
    next
      case False
      then have "ji s = CALC_SIZE" using z(2) by simp
      moreover have "k \<le> CALC_SIZE" using z(1) by (simp add: computed_def)
      ultimately show ?thesis using assms(1) t JSum z by (auto simp: jump_main_def jump_inv_def min_def)
    qed
    then show ?thesis by blast
  next
    case JMalloc
    then have "jump_inv k t" using assms(1) t by (auto simp: jump_main_def jump_inv_def)
    then show ?thesis by blast
  qed (use assms(1) t in \<open>auto simp: jump_main_def jump_inv_def intro!: exI [of _ k]\<close>)
qed

lemma jump_start_inv: "jump_inv 0 (jump_start junk)"
  by (simp add: jump_inv_def jump_start_def)

interpretation jump: machine_inv window_step "jump_start junk" "\<lambda>s. \<exists>k. jump_inv k s" for junk
  by unfold_locales (use jump_start_inv jump_inv_step in blast)+

definition jump_left :: "jump \<Rightarrow> nat" where
  "jump_left s =
     (case jpc s of
        JMalloc \<Rightarrow> 72 | JMemset \<Rightarrow> 71 | JSignal \<Rightarrow> 70 | JSet \<Rightarrow> 69 | JCalc \<Rightarrow> 37 + (31 - ji s) | JNormal \<Rightarrow> 36 | JCtrlC \<Rightarrow> 36
      | JSum \<Rightarrow> 4 + (31 - ji s) | JPrint \<Rightarrow> 3 | JFree \<Rightarrow> 2 | JLeave \<Rightarrow> 1 | _ \<Rightarrow> 0)"

text \<open>Between two interruptions the program is over after at most 72 steps.\<close>

lemma jump_left_step: "jump_main s = Some t \<Longrightarrow> jump_left t < jump_left s"
  by (cases "jpc s") (auto simp: jump_main_def do_calculation_def jump_left_def CALC_SIZE_def split: if_splits)

lemma jump_moves: "jump_inv k s \<Longrightarrow> jpc s \<noteq> JExit \<Longrightarrow> jump_main s \<noteq> None"
  by (cases "jpc s") (auto simp: jump_main_def do_calculation_def jump_inv_def)



text \<open>A second SIGINT after the buffer has been freed makes the program read it again.\<close>

lemma late_ctrl_c:
  "jpc s = JLeave \<Longrightarrow> \<not> allocated s \<Longrightarrow> \<exists>t. run jump_step s [CtrlC, Go, Go] = Some t \<and> jpc t = JUndefined"
  by (simp add: jump_step_def ctrl_c_def jump_main_def CALC_SIZE_def)

section \<open>A handler that waits for the children\<close>

text \<open>
  5-sigchld.c: \<open>fate j\<close> is what has become of the child that the \<open>j\<close>-th fork made. SIGCHLD is
  pending or not (it does not queue), and blocked while the handler runs.
\<close>

definition CHILDREN :: nat where "CHILDREN = 5"

datatype fate = Unborn | Alive | Zombie | Reaped
datatype hpc = HFork | HCount nat | HExit | HFailed

record family =
  hpc :: hpc
  hi :: nat
  fate :: "nat \<Rightarrow> fate"
  sigchld :: bool
  in_handler :: bool
  waited :: "nat list"

definition family_start :: family where
  "family_start = \<lparr>hpc = HFork, hi = 0, fate = (\<lambda>_. Unborn), sigchld = False, in_handler = False, waited = []\<rparr>"

text \<open>One call of \<open>waitpid\<close> in the handler; \<open>j\<close> is the child that it finds, if there is one.\<close>

definition chld_handler :: "nat option \<Rightarrow> family \<Rightarrow> family option" where
  "chld_handler found s =
     (case found of
        Some j \<Rightarrow> if j < CHILDREN \<and> fate s j = Zombie
                  then Some (s\<lparr>fate := (fate s)(j := Reaped), waited := waited s @ [j]\<rparr>) else None
      | None \<Rightarrow> if list_all (\<lambda>j. fate s j \<noteq> Zombie) [0..<CHILDREN] then Some (s\<lparr>in_handler := False\<rparr>) else None)"

definition family_main :: "bool \<Rightarrow> family \<Rightarrow> family option" where
  "family_main ok s =
     (case hpc s of
        HFork \<Rightarrow>
          Some (if hi s < CHILDREN then
                  if ok then s\<lparr>fate := (fate s)(hi s := Alive), hi := hi s + 1\<rparr> else s\<lparr>hpc := HFailed\<rparr>
                else s\<lparr>hpc := HCount 0\<rparr>)
      | HCount i \<Rightarrow> Some (if i \<le> 12 then s\<lparr>hpc := HCount (i + 1)\<rparr> else s\<lparr>hpc := HExit\<rparr>)
      | _ \<Rightarrow> None)"

text \<open>
  The parent makes a move of its program or of its handler, a pending signal is delivered, or a
  child exits.
\<close>

datatype family_event = Parent bool | Wait "nat option" | Deliver | ChildExits nat

definition family_step :: "family \<Rightarrow> family_event \<Rightarrow> family option" where
  "family_step s e =
     (case e of
        Parent ok \<Rightarrow> if in_handler s then None else family_main ok s
      | Wait j \<Rightarrow> if in_handler s then chld_handler j s else None
      | Deliver \<Rightarrow> if sigchld s \<and> \<not> in_handler s \<and> hpc s \<noteq> HExit \<and> hpc s \<noteq> HFailed
                   then Some (s\<lparr>sigchld := False, in_handler := True\<rparr>) else None
      | ChildExits j \<Rightarrow> if fate s j = Alive then Some (s\<lparr>fate := (fate s)(j := Zombie), sigchld := True\<rparr>) else None)"

definition family_inv :: "family \<Rightarrow> bool" where
  "family_inv s \<longleftrightarrow>
     ((\<exists>j. fate s j = Zombie) \<longrightarrow> sigchld s \<or> in_handler s) \<and> hi s \<le> CHILDREN \<and>
     (\<forall>j. fate s j = Unborn \<longleftrightarrow> hi s \<le> j) \<and> (\<forall>i. hpc s = HCount i \<longrightarrow> hi s = CHILDREN) \<and>
     (hpc s = HExit \<longrightarrow> hi s = CHILDREN) \<and> distinct (waited s) \<and> (\<forall>j. j \<in> set (waited s) \<longleftrightarrow> fate s j = Reaped)"

lemma unborn_iff: "family_inv s \<Longrightarrow> fate s j = Unborn \<longleftrightarrow> hi s \<le> j"
  by (simp add: family_inv_def)

lemma waited_iff: "family_inv s \<Longrightarrow> j \<in> set (waited s) \<longleftrightarrow> fate s j = Reaped"
  by (simp add: family_inv_def)

lemma kids_inv_step:
  assumes i: "family_inv s" and t: "family_step s e = Some t"
  shows "family_inv t"
proof (cases e)
  case (Parent ok)
  have "fate s (hi s) = Unborn" using i by (simp add: family_inv_def)
  then have "fate s (hi s) \<noteq> Reaped" by simp
  then show ?thesis using Parent i t
    by (auto simp: family_step_def family_main_def family_inv_def split: hpc.splits if_splits)
next
  case (Wait found)
  then have h: "in_handler s" "chld_handler found s = Some t" using t by (auto simp: family_step_def split: if_splits)
  show ?thesis
  proof (cases found)
    case None
    then have n: "\<forall>j<CHILDREN. fate s j \<noteq> Zombie" "t = s\<lparr>in_handler := False\<rparr>"
      using h(2) by (auto simp: chld_handler_def list_all_iff split: if_splits)
    have "fate s j = Unborn" if "\<not> j < CHILDREN" for j using i that by (simp add: family_inv_def)
    then have "\<forall>j. fate s j \<noteq> Zombie" using n(1) by (metis fate.distinct(3))
    then show ?thesis using i n(2) by (simp add: family_inv_def)
  next
    case (Some j)
    then have j: "fate s j = Zombie" "t = s\<lparr>fate := (fate s)(j := Reaped), waited := waited s @ [j]\<rparr>"
      using h(2) by (auto simp: chld_handler_def split: if_splits)
    then have "j \<notin> set (waited s)" "\<not> hi s \<le> j" using unborn_iff [OF i, of j] waited_iff [OF i, of j] by simp_all
    then show ?thesis using i j h(1) by (auto simp: family_inv_def)
  qed
next
  case Deliver
  then show ?thesis using i t by (auto simp: family_step_def family_inv_def split: if_splits)
next
  case (ChildExits j)
  then have j: "fate s j = Alive" "t = s\<lparr>fate := (fate s)(j := Zombie), sigchld := True\<rparr>"
    using t by (auto simp: family_step_def split: if_splits)
  then have "\<not> hi s \<le> j" "j \<notin> set (waited s)" using unborn_iff [OF i, of j] waited_iff [OF i, of j] by simp_all
  then show ?thesis using i j by (auto simp: family_inv_def)
qed

lemma kids_start_inv: "family_inv family_start"
  by (auto simp: family_inv_def family_start_def)

interpretation family: machine_inv family_step family_start family_inv
  by unfold_locales (use kids_start_inv kids_inv_step in blast)+

text \<open>
  In 5-sigchld.c a child that has exited and is not waited for is never forgotten: whenever
  there is one, SIGCHLD is pending or the handler is running; when the handler is not
  running and no signal is pending, each child that has exited has been waited for, once.
\<close>

theorem no_zombie_forgotten:
  assumes "reach family_step family_start s"
  shows "distinct (waited s) \<and>
    (\<not> in_handler s \<and> \<not> sigchld s \<longrightarrow> (\<forall>j. fate s j = Unborn \<or> fate s j = Alive \<or> j \<in> set (waited s)))"
proof (intro conjI impI allI)
  have i: "family_inv s" by (rule family.reach_inv [OF assms])
  then show "distinct (waited s)" by (simp add: family_inv_def)
  fix j assume "\<not> in_handler s \<and> \<not> sigchld s"
  then have "fate s j \<noteq> Zombie" using i by (auto simp: family_inv_def)
  moreover have "fate s j = Reaped \<longrightarrow> j \<in> set (waited s)" using i by (simp add: family_inv_def)
  ultimately show "fate s j = Unborn \<or> fate s j = Alive \<or> j \<in> set (waited s)" by (cases "fate s j") auto
qed

text \<open>Two children exit while the handler waits for a third: the signals merge, and all are waited for.\<close>

theorem no_zombie_forgotten_witness:
  "\<exists>s. reach family_step family_start s \<and> set (waited s) = {0, 1, 2}"
proof -
  have "\<exists>s. reach family_step family_start s \<and> (\<not> in_handler s \<and> \<not> sigchld s \<and>
      list_all (\<lambda>j. fate s j \<noteq> Unborn \<and> fate s j \<noteq> Alive) [0, 1, 2] \<and>
      list_all (\<lambda>j. j \<in> {0, 1, 2}) (waited s))"
    by (rule run_example [where es = "[Parent True, Parent True, Parent True, ChildExits 1, Deliver, ChildExits 0, ChildExits 2,
          Wait (Some 2), Wait (Some 1), Wait (Some 0), Wait None, Deliver, Wait None]"]) code_simp
  then obtain s where s: "reach family_step family_start s" "\<not> in_handler s" "\<not> sigchld s"
    "list_all (\<lambda>j. fate s j \<noteq> Unborn \<and> fate s j \<noteq> Alive) [0, 1, 2]" "list_all (\<lambda>j. j \<in> {0, 1, 2}) (waited s)" by blast
  then have "\<forall>j\<in>{0, 1, 2}. j \<in> set (waited s)" using no_zombie_forgotten [OF s(1)] by auto
  then show ?thesis using s by (auto simp: list_all_iff)
qed


section \<open>A signal that is blocked\<close>

text \<open>
  4-sigprocmask.c. \<open>do_calculation\<close> adds up all unsigned ints but the last, in 64 bits.
\<close>

function add_up :: "32 word \<Rightarrow> 64 word \<Rightarrow> 64 word" where
  "add_up i acc = (if i < - 1 then add_up (i + 1) (acc + ucast i) else acc)"
  by pat_completeness auto
termination
proof (relation "measure (\<lambda>(i, acc). 2 ^ 32 - unat i)")
  fix i :: "32 word" and acc :: "64 word" assume "i < - 1"
  then have "unat (i + 1) = unat i + 1" by (rule unat_plus1_less)
  then show "((i + 1, acc + ucast i), i, acc) \<in> measure (\<lambda>(i, acc). 2 ^ 32 - unat i)"
    using unat_below [of "i + 1"] by simp
qed simp

declare add_up.simps [simp del]

definition sum_calculation :: "64 word" where
  "sum_calculation = add_up 0 0"

lemma unat_last: "unat (- 1 :: 32 word) = 4294967295"
  by (simp add: unsigned_minus_1_eq_mask mask_eq_exp_minus_1)

lemma add_up_sum: "add_up i acc = acc + of_nat (\<Sum>j\<in>{unat i..<4294967295}. j)"
proof (induction i acc rule: add_up.induct)
  case (1 i acc)
  show ?case
  proof (cases "i < - 1")
    case True
    then have u: "unat (i + 1) = unat i + 1" by (rule unat_plus1_less)
    have "unat i < 4294967295" using True unat_last by (simp add: word_less_nat_alt)
    then have "(\<Sum>j\<in>{unat i..<4294967295}. j) = unat i + (\<Sum>j\<in>{unat (i + 1)..<4294967295}. j)"
      unfolding u by (simp add: sum.atLeast_Suc_lessThan)
    then show ?thesis using 1 [OF True] True by (simp add: add_up.simps [of i] unsigned_ucast_eq add.assoc)
  next
    case False
    then have "i = - 1" by (metis word_n1_ge order_le_less)
    then show ?thesis by (subst add_up.simps) (simp add: unat_last)
  qed
qed

lemma sum_calculation_value: "sum_calculation = 9223372030412324865"
  by (simp add: sum_calculation_def add_up_sum Sum_Ico_nat)

datatype qpc = QBlock | QStart | QCalc | QResult | QUnblock | QStart2 | QCalc2 | QResult2 | QExit | QKilled

text \<open>\<open>printed\<close> holds the results that the program has printed.\<close>

record masked =
  qpc :: qpc
  blocked :: bool
  pending :: bool
  result :: "64 word"
  printed :: "64 word list"

definition masked_start :: masked where
  "masked_start = \<lparr>qpc = QBlock, blocked = False, pending = False, result = 0, printed = []\<rparr>"

definition masked_main :: "masked \<Rightarrow> masked option" where
  "masked_main s =
     (case qpc s of
        QBlock \<Rightarrow> Some (s\<lparr>blocked := True, qpc := QStart\<rparr>)
      | QStart \<Rightarrow> Some (s\<lparr>qpc := QCalc\<rparr>)
      | QCalc \<Rightarrow> Some (s\<lparr>result := sum_calculation, qpc := QResult\<rparr>)
      | QResult \<Rightarrow> Some (s\<lparr>printed := printed s @ [result s], qpc := QUnblock\<rparr>)
      | QUnblock \<Rightarrow> Some (s\<lparr>blocked := False, qpc := (if pending s then QKilled else QStart2)\<rparr>)
      | QStart2 \<Rightarrow> Some (s\<lparr>qpc := QCalc2\<rparr>)
      | QCalc2 \<Rightarrow> Some (s\<lparr>result := sum_calculation, qpc := QResult2\<rparr>)
      | QResult2 \<Rightarrow> Some (s\<lparr>printed := printed s @ [result s], qpc := QExit\<rparr>)
      | _ \<Rightarrow> None)"

text \<open>SIGINT, with its default action: pending while it is blocked, the end of the process otherwise.\<close>

definition masked_int :: "masked \<Rightarrow> masked option" where
  "masked_int s =
     (if qpc s = QExit \<or> qpc s = QKilled then None
      else Some (if blocked s then s\<lparr>pending := True\<rparr> else s\<lparr>qpc := QKilled\<rparr>))"

definition masked_step :: "masked \<Rightarrow> jump_event \<Rightarrow> masked option" where
  "masked_step s e = (case e of Go \<Rightarrow> masked_main s | CtrlC \<Rightarrow> masked_int s)"

definition masked_inv :: "masked \<Rightarrow> bool" where
  "masked_inv s \<longleftrightarrow>
     (blocked s \<longleftrightarrow> qpc s \<in> {QStart, QCalc, QResult, QUnblock}) \<and>
     (qpc s \<in> {QBlock, QStart2, QCalc2, QResult2, QExit} \<longrightarrow> \<not> pending s) \<and>
     (qpc s = QResult \<or> qpc s = QResult2 \<longrightarrow> result s = sum_calculation) \<and>
     (qpc s \<in> {QBlock, QStart, QCalc, QResult} \<longrightarrow> printed s = []) \<and>
     (qpc s \<in> {QUnblock, QStart2, QCalc2, QResult2} \<longrightarrow> printed s = [sum_calculation]) \<and>
     (qpc s = QExit \<longrightarrow> printed s = [sum_calculation, sum_calculation]) \<and>
     (qpc s = QKilled \<longrightarrow> printed s = [] \<and> \<not> pending s \<or> printed s = [sum_calculation])"

interpretation masked: machine_inv masked_step masked_start masked_inv
proof
  show "masked_inv masked_start" by (simp add: masked_inv_def masked_start_def)
  show "masked_inv t" if i: "masked_inv s" and t: "masked_step s e = Some t" for s e t
  proof (cases e)
    case Go
    then show ?thesis using i t
      by (cases "qpc s"; clarsimp simp: masked_step_def masked_main_def masked_inv_def split: if_splits)
  next
    case CtrlC
    then show ?thesis using i t
      by (cases "qpc s"; clarsimp simp: masked_step_def masked_int_def masked_inv_def split: if_splits)
  qed
qed

text \<open>
  In 4-sigprocmask.c a SIGINT that arrives while it is blocked never ends the first
  calculation: the program has then printed its result, 9223372030412324865, which fits into 64
  bits, when it is killed, and it does not come to the second one.
\<close>

theorem blocked_calculation_completes:
  assumes "reach masked_step masked_start s" "pending s"
  shows "qpc s \<in> {QStart, QCalc, QResult, QUnblock} \<or> qpc s = QKilled \<and> printed s = [9223372030412324865]"
proof -
  have i: "masked_inv s" by (rule masked.reach_inv [OF assms(1)])
  then show ?thesis using assms(2)
    by (cases "qpc s") (auto simp: masked_inv_def sum_calculation_value)
qed

theorem blocked_calculation_completes_witness:
  "\<exists>s. reach masked_step masked_start s \<and> printed s = [9223372030412324865] \<and> qpc s = QKilled"
proof -
  have "run masked_step masked_start [Go, Go, CtrlC, CtrlC, Go, Go, Go] \<noteq> None"
    by (simp add: masked_step_def masked_main_def masked_int_def masked_start_def)
  then obtain s where r: "run masked_step masked_start [Go, Go, CtrlC, CtrlC, Go, Go, Go] = Some s" by blast
  then have s: "pending s" "qpc s = QKilled"
    by (auto simp: masked_step_def masked_main_def masked_int_def masked_start_def)
  then show ?thesis using blocked_calculation_completes [OF run_reach [OF r] s(1)] run_reach [OF r] by auto
qed

section \<open>Handlers that are set again\<close>

text \<open>
  signals/simple\_signal\_handler.c. \<open>resets\<close> is what the standard leaves open and the code
  provides for: the disposition goes back to the default when the handler is called.
\<close>

datatype signal_no = SIGFPE | SIGINT | SIGQUIT | SIGUSR1 | SIGUSR2 | Other
datatype disposition = Custom | Default

record process =
  disp :: "signal_no \<Rightarrow> disposition"
  running :: bool
  shouts :: "string list"

text \<open>\<open>custom_signal_handler\<close>; \<open>exit\<close> ends the process.\<close>

definition set_handler :: "signal_no \<Rightarrow> process \<Rightarrow> process" where
  "set_handler g p = p\<lparr>disp := (disp p)(g := Custom)\<rparr>"

definition say :: "string \<Rightarrow> process \<Rightarrow> process" where
  "say m p = p\<lparr>shouts := shouts p @ [m]\<rparr>"

definition custom_signal_handler :: "signal_no \<Rightarrow> process \<Rightarrow> process" where
  "custom_signal_handler g p =
     (case g of
        SIGFPE \<Rightarrow> (say ''FPE'' p)\<lparr>running := False\<rparr>
      | SIGINT \<Rightarrow> say ''INT'' (set_handler SIGINT p)
      | SIGQUIT \<Rightarrow> (say ''QUIT'' p)\<lparr>running := False\<rparr>
      | SIGUSR1 \<Rightarrow> say ''USR1'' (set_handler SIGUSR1 p)
      | SIGUSR2 \<Rightarrow> say ''USR1'' (set_handler SIGUSR1 p)
      | Other \<Rightarrow> p)"

definition handlers_set :: process where
  "handlers_set = set_handler SIGUSR2 (set_handler SIGUSR1 (set_handler SIGQUIT (set_handler SIGINT
     (set_handler SIGFPE \<lparr>disp = (\<lambda>_. Default), running = True, shouts = []\<rparr>))))"

definition deliver :: "bool \<Rightarrow> process \<Rightarrow> signal_no \<Rightarrow> process option" where
  "deliver resets p g =
     (if \<not> running p then None
      else Some (case disp p g of
           Default \<Rightarrow> p\<lparr>running := False\<rparr>
         | Custom \<Rightarrow> custom_signal_handler g (if resets then p\<lparr>disp := (disp p)(g := Default)\<rparr> else p)))"

definition kept :: "bool \<Rightarrow> process \<Rightarrow> bool" where
  "kept resets p \<longleftrightarrow> disp p SIGINT = Custom \<and> disp p SIGUSR1 = Custom \<and> (resets \<or> disp p SIGUSR2 = Custom)"

lemma kept_step: "kept resets p \<Longrightarrow> deliver resets p g = Some q \<Longrightarrow> kept resets q"
  by (cases resets; cases g; cases "disp p g")
    (auto simp: kept_def deliver_def custom_signal_handler_def set_handler_def say_def split: if_splits)

interpretation handlers: machine_inv "deliver resets" handlers_set "kept resets" for resets
proof
  show "kept resets handlers_set" by (simp add: kept_def handlers_set_def set_handler_def)
qed (rule kept_step)

text \<open>SIGINT and SIGUSR1 never end the process, however often they come.\<close>

lemma survives_int_usr1:
  assumes "reach (deliver resets) handlers_set p" "g = SIGINT \<or> g = SIGUSR1" "deliver resets p g = Some q"
  shows "running q"
  using handlers.reach_inv [OF assms(1)] assms(2,3)
  by (auto simp: kept_def deliver_def custom_signal_handler_def set_handler_def say_def split: if_splits)

text \<open>
  The branch of SIGUSR2 sets the handler of SIGUSR1 and names SIGUSR1: where dispositions are
  reset, the second SIGUSR2 ends the process.
\<close>

lemma second_usr2_kills:
  "run (deliver True) handlers_set [SIGUSR2, SIGUSR2] = Some q \<Longrightarrow> \<not> running q \<and> shouts q = [''USR1'']"
  by (auto simp: handlers_set_def deliver_def custom_signal_handler_def set_handler_def say_def)


end
