(* ===== verification/Foreground.thy ===== *)
theory Foreground
  imports Threads
begin

text \<open>
  shackleford/src/pgroups: a parent that gives the terminal to the process group of its child,
  prints what becomes of the child from a handler of SIGCHLD, and takes the terminal back
  (1-foreground.c, 2-sigttou.c and 3-pause.c). The terminal stops a process that writes to it
  from the background, as with the setting that the programs ask for.
\<close>

section \<open>Terminal, child and parent\<close>

datatype program = Plain | Sigttou | Pausing

text \<open>The groups of the parent and of the child, and what the parent does on SIGTTOU.\<close>

datatype group = Parents | Childs
datatype ttou = Stops | Ignored | Caught

datatype child = Unborn | Runs | Stopped | Zombie | Reaped

datatype fpc = FStart | FFork | FSetpgid | FCreated | FSave | FGive | FRestore | FHi | FTest | FCall | FPaused
  | FSave2 | FTake | FRestore2 | FPrint | FExit | FFailed | TTest | TCall | TPaused

text \<open>
  \<open>FCall\<close> is between the test and the call of pause, \<open>FPaused\<close> in it; \<open>TTest\<close> and after are the
  places of the handler of SIGTTOU. \<open>news\<close> is whether waitpid has something to report of a
  living child. \<open>halted\<close> is the parent that SIGTTOU has stopped.
\<close>

record console =
  fg :: group
  ttou :: ttou
  old :: ttou
  fpc :: fpc
  child :: child
  news :: bool
  sigchld :: bool
  in_handler :: bool
  child_dead :: bool
  halted :: bool
  lines :: "string list"

definition console_start :: console where
  "console_start = \<lparr>fg = Parents, ttou = Stops, old = Stops, fpc = FStart, child = Unborn, news = False,
     sigchld = False, in_handler = False, child_dead = False, halted = False, lines = []\<rparr>"

text \<open>The terminal cannot be given to a group that has no process.\<close>

definition tcsetpgrp :: "group \<Rightarrow> console \<Rightarrow> console" where
  "tcsetpgrp g s = (if g = Childs \<and> (child s = Unborn \<or> child s = Reaped) then s else s\<lparr>fg := g\<rparr>)"

definition set_fg_pgid :: "group \<Rightarrow> console \<Rightarrow> console" where
  "set_fg_pgid g s = (let saved = ttou s in (tcsetpgrp g (s\<lparr>ttou := Ignored\<rparr>))\<lparr>ttou := saved\<rparr>)"

text \<open>
  A write to the terminal: from the background it depends on the disposition of SIGTTOU
  (\<open>None\<close> is the call of the handler).
\<close>

definition write_tty :: "string \<Rightarrow> console \<Rightarrow> console option" where
  "write_tty t s =
     (if fg s = Parents \<or> ttou s = Ignored then Some (s\<lparr>lines := lines s @ [t]\<rparr>)
      else if ttou s = Stops then Some (s\<lparr>halted := True\<rparr>) else None)"

definition safe_print :: "string \<Rightarrow> console \<Rightarrow> console" where
  "safe_print t s =
     (let before = fg s; u = set_fg_pgid Parents s
      in set_fg_pgid before (case write_tty t u of None \<Rightarrow> u | Some v \<Rightarrow> v))"

text \<open>
  One round of the loop in the handler of SIGCHLD; it returns when there is nothing to report,
  and a pause that it has interrupted returns too.
\<close>

definition fg_handler :: "program \<Rightarrow> console \<Rightarrow> console" where
  "fg_handler v s =
     (case child s of
        Zombie \<Rightarrow>
          let u = (safe_print ''Child terminated'' (s\<lparr>child := Reaped, news := False\<rparr>))\<lparr>child_dead := True\<rparr>
          in if v = Pausing then set_fg_pgid Parents u else u
      | _ \<Rightarrow>
          if news s \<and> child s = Stopped then safe_print ''Child Stopped'' (s\<lparr>news := False\<rparr>)
          else if news s \<and> child s = Runs then safe_print ''Child Continued'' (s\<lparr>news := False\<rparr>)
          else s\<lparr>in_handler := False,
                 fpc := (case fpc s of FPaused \<Rightarrow> FTest | TPaused \<Rightarrow> TTest | p \<Rightarrow> p)\<rparr>)"

text \<open>\<open>handler_sigttou\<close> of 3-pause.c.\<close>

definition handler_sigttou :: "console \<Rightarrow> console option" where
  "handler_sigttou s =
     (case fpc s of
        TTest \<Rightarrow> Some (s\<lparr>fpc := (if fg s \<noteq> Parents then TCall else FHi)\<rparr>)
      | TCall \<Rightarrow> Some (s\<lparr>fpc := TPaused\<rparr>)
      | _ \<Rightarrow> None)"

definition print_then :: "string \<Rightarrow> fpc \<Rightarrow> console \<Rightarrow> console option" where
  "print_then t p s =
     (case write_tty t s of
        None \<Rightarrow> Some (s\<lparr>fpc := TTest\<rparr>)
      | Some u \<Rightarrow> Some (if halted u then u else u\<lparr>fpc := p\<rparr>))"

text \<open>The main function; the bodies of its two calls of \<open>set_fg_pgid\<close> may be interrupted.\<close>

definition foreground_main :: "program \<Rightarrow> bool \<Rightarrow> console \<Rightarrow> console option" where
  "foreground_main v ok s =
     (case fpc s of
        FStart \<Rightarrow> Some (s\<lparr>ttou := (if v = Pausing then Caught else Stops), fpc := FFork\<rparr>)
      | FFork \<Rightarrow> Some (if ok then s\<lparr>child := Runs, fpc := FSetpgid\<rparr> else s\<lparr>fpc := FFailed\<rparr>)
      | FSetpgid \<Rightarrow> Some (s\<lparr>fpc := FCreated\<rparr>)
      | FCreated \<Rightarrow> print_then ''Created child'' FSave s
      | FSave \<Rightarrow> Some (s\<lparr>old := ttou s, ttou := Ignored, fpc := FGive\<rparr>)
      | FGive \<Rightarrow> Some ((tcsetpgrp Childs s)\<lparr>fpc := FRestore\<rparr>)
      | FRestore \<Rightarrow> Some (s\<lparr>ttou := old s, fpc := (if v = Plain then FTest else FHi)\<rparr>)
      | FHi \<Rightarrow> print_then ''HI MOM!'' FTest s
      | FTest \<Rightarrow> Some (s\<lparr>fpc := (if child_dead s then FSave2 else FCall)\<rparr>)
      | FCall \<Rightarrow> Some (s\<lparr>fpc := FPaused\<rparr>)
      | FSave2 \<Rightarrow> Some (s\<lparr>old := ttou s, ttou := Ignored, fpc := FTake\<rparr>)
      | FTake \<Rightarrow> Some ((tcsetpgrp Parents s)\<lparr>fpc := FRestore2\<rparr>)
      | FRestore2 \<Rightarrow> Some (s\<lparr>ttou := old s, fpc := FPrint\<rparr>)
      | FPrint \<Rightarrow> print_then ''parent -- have FG: exiting'' FExit s
      | TTest \<Rightarrow> handler_sigttou s
      | TCall \<Rightarrow> handler_sigttou s
      | _ \<Rightarrow> None)"

datatype console_event = Main bool | Deliver | Handle | Stop | Cont | Die

definition console_step :: "program \<Rightarrow> console \<Rightarrow> console_event \<Rightarrow> console option" where
  "console_step v s e =
     (case e of
        Main ok \<Rightarrow> if in_handler s \<or> halted s then None else foreground_main v ok s
      | Deliver \<Rightarrow> if sigchld s \<and> \<not> in_handler s \<and> \<not> halted s \<and> fpc s \<noteq> FExit
                  then Some (s\<lparr>sigchld := False, in_handler := True\<rparr>) else None
      | Handle \<Rightarrow> if in_handler s then Some (fg_handler v s) else None
      | Stop \<Rightarrow> if child s = Runs then Some (s\<lparr>child := Stopped, news := True, sigchld := True\<rparr>) else None
      | Cont \<Rightarrow> if child s = Stopped then Some (s\<lparr>child := Runs, news := True, sigchld := True\<rparr>) else None
      | Die \<Rightarrow> if child s = Runs \<or> child s = Stopped
               then Some (s\<lparr>child := Zombie, sigchld := True\<rparr>) else None)"

section \<open>Invariant\<close>

definition normal_ttou :: "program \<Rightarrow> ttou" where
  "normal_ttou v = (if v = Pausing then Caught else Stops)"

text \<open>Groups of places of the parent.\<close>

definition switching :: "fpc \<Rightarrow> bool" where "switching p \<longleftrightarrow> p \<in> {FGive, FRestore, FTake, FRestore2}"
definition childless :: "fpc \<Rightarrow> bool" where "childless p \<longleftrightarrow> p \<in> {FStart, FFork, FFailed}"
definition past_loop :: "fpc \<Rightarrow> bool" where "past_loop p \<longleftrightarrow> p \<in> {FSave2, FTake, FRestore2, FPrint, FExit}"
definition in_ttou :: "fpc \<Rightarrow> bool" where "in_ttou p \<longleftrightarrow> p \<in> {TTest, TCall, TPaused}"
definition in_front :: "fpc \<Rightarrow> bool" where
  "in_front p \<longleftrightarrow> p \<in> {FStart, FFork, FSetpgid, FCreated, FSave, FGive, FRestore2, FPrint, FExit}"

lemmas place_defs = switching_def childless_def past_loop_def in_ttou_def in_front_def

definition console_inv :: "program \<Rightarrow> console \<Rightarrow> bool" where
  "console_inv v s \<longleftrightarrow>
     (ttou s = (if fpc s = FStart then Stops else if switching (fpc s) then Ignored else normal_ttou v)) \<and>
     (switching (fpc s) \<longrightarrow> old s = normal_ttou v) \<and> (childless (fpc s) \<longleftrightarrow> child s = Unborn) \<and>
     (in_front (fpc s) \<longrightarrow> fg s = Parents) \<and> (child_dead s \<longleftrightarrow> child s = Reaped) \<and>
     (past_loop (fpc s) \<longrightarrow> child s = Reaped) \<and>
     (child s = Unborn \<longrightarrow> \<not> sigchld s \<and> \<not> in_handler s) \<and>
     (child s = Zombie \<longrightarrow> sigchld s \<or> in_handler s) \<and>
     (in_ttou (fpc s) \<longrightarrow> v = Pausing) \<and> (fpc s = FHi \<longrightarrow> v \<noteq> Plain) \<and> (halted s \<longrightarrow> v = Sigttou)"

text \<open>
  What safe\_print does: it writes, and gives the terminal back to the group that had it, if
  that still has a process; the disposition of SIGTTOU is the same after it.
\<close>

lemma safe_print_effect:
  "safe_print t s = s\<lparr>fg := (if child s = Unborn \<or> child s = Reaped then Parents else fg s), lines := lines s @ [t]\<rparr>"
  by (cases "fg s"; cases "child s") (simp_all add: safe_print_def set_fg_pgid_def tcsetpgrp_def write_tty_def Let_def)

lemma set_fg_parents: "set_fg_pgid Parents s = s\<lparr>fg := Parents\<rparr>"
  by (simp add: set_fg_pgid_def tcsetpgrp_def Let_def)

lemma console_handler_inv:
  assumes i: "console_inv v s" and h: "in_handler s"
  shows "console_inv v (fg_handler v s)"
proof (cases "child s = Zombie")
  case True
  then show ?thesis using i h
    by (cases v) (simp_all add: fg_handler_def console_inv_def safe_print_effect set_fg_parents Let_def)
next
  case False
  show ?thesis
  proof (cases "news s \<and> (child s = Stopped \<or> child s = Runs)")
    case True
    then obtain l where "fg_handler v s = s\<lparr>news := False, fg := fg s, lines := l\<rparr>"
      by (auto simp: fg_handler_def safe_print_effect)
    then show ?thesis using i by (simp add: console_inv_def)
  next
    case False
    then have "fg_handler v s = s\<lparr>in_handler := False,
        fpc := (case fpc s of FPaused \<Rightarrow> FTest | TPaused \<Rightarrow> TTest | p \<Rightarrow> p)\<rparr>"
      using \<open>child s \<noteq> Zombie\<close> by (cases "child s") (auto simp: fg_handler_def)
    then show ?thesis using i h \<open>child s \<noteq> Zombie\<close>
      by (cases "fpc s"; simp add: console_inv_def place_defs)
  qed
qed

lemma main_inv:
  assumes i: "console_inv v s" and n: "\<not> in_handler s" "\<not> halted s" and m: "foreground_main v ok s = Some t"
  shows "console_inv v t"
proof (cases "fpc s")
  case FHi
  then show ?thesis using assms
    by (cases v; cases "fg s"; clarsimp simp: foreground_main_def print_then_def write_tty_def console_inv_def
        normal_ttou_def place_defs)
next
  case FCreated
  then show ?thesis using assms
    by (clarsimp simp: foreground_main_def print_then_def write_tty_def console_inv_def place_defs)
next
  case FPrint
  then show ?thesis using assms
    by (clarsimp simp: foreground_main_def print_then_def write_tty_def console_inv_def place_defs)
next
  case FTest
  then show ?thesis using assms
    by (cases "child_dead s"; clarsimp simp: foreground_main_def console_inv_def place_defs)
qed (use assms in \<open>clarsimp simp: foreground_main_def handler_sigttou_def tcsetpgrp_def console_inv_def
      normal_ttou_def place_defs split: if_splits\<close>)+

lemma console_inv_step:
  assumes i: "console_inv v s" and t: "console_step v s e = Some t"
  shows "console_inv v t"
proof (cases e)
  case (Main ok)
  then show ?thesis using main_inv [OF i] t by (simp add: console_step_def split: if_splits)
next
  case Handle
  then show ?thesis using console_handler_inv [OF i] t by (auto simp: console_step_def split: if_splits)
next
  case Deliver
  then have "t = s\<lparr>sigchld := False, in_handler := True\<rparr>" "sigchld s"
    using t by (auto simp: console_step_def split: if_splits)
  then show ?thesis using i by (simp add: console_inv_def)
next
  case Stop
  then have "t = s\<lparr>child := Stopped, news := True, sigchld := True\<rparr>" "child s = Runs"
    using t by (auto simp: console_step_def split: if_splits)
  then show ?thesis using i by (simp add: console_inv_def)
next
  case Cont
  then have "t = s\<lparr>child := Runs, news := True, sigchld := True\<rparr>" "child s = Stopped"
    using t by (auto simp: console_step_def split: if_splits)
  then show ?thesis using i by (simp add: console_inv_def)
next
  case Die
  then have "t = s\<lparr>child := Zombie, sigchld := True\<rparr>" "child s = Runs \<or> child s = Stopped"
    using t by (auto simp: console_step_def split: if_splits)
  then show ?thesis using i by (elim disjE) (simp_all add: console_inv_def)
qed

lemma console_start_inv: "console_inv v console_start"
  by (simp add: console_inv_def console_start_def place_defs)

interpretation fgm: machine_inv "console_step v" console_start "console_inv v" for v
  by unfold_locales (use console_start_inv console_inv_step in blast)+


section \<open>Properties\<close>

lemma main_moves:
  assumes "console_inv v s" "\<not> in_handler s" "\<not> halted s" "fpc s \<notin> {FExit, FFailed, FPaused, TPaused}"
  shows "foreground_main v True s \<noteq> None"
  using assms by (cases "fpc s") (auto simp: foreground_main_def handler_sigttou_def print_then_def split: option.splits)

text \<open>
  C19: 1-foreground.c and 3-pause.c are never stopped by the terminal. Whichever of the three
  programs has ended, the terminal belongs to the parent's group, SIGTTOU has the disposition that
  the program gave it, and the child has been waited for. A state in which nothing can
  happen any more is the end of the program, or the parent is in a pause although its handler has
  recorded the death of the child, or (2-sigttou.c) the terminal has stopped it.
\<close>

theorem foreground_returns:
  assumes "reach (console_step v) console_start s"
  shows "(v \<noteq> Sigttou \<longrightarrow> \<not> halted s) \<and>
    (fpc s = FExit \<longrightarrow> fg s = Parents \<and> ttou s = normal_ttou v \<and> child s = Reaped) \<and>
    ((\<forall>e. console_step v s e = None) \<longrightarrow>
       fpc s = FExit \<or> fpc s = FFailed \<or> (fpc s = FPaused \<or> fpc s = TPaused) \<and> child_dead s \<or> halted s)"
proof -
  have i: "console_inv v s" by (rule fgm.reach_inv [OF assms])
  have "fpc s = FExit \<longrightarrow> fg s = Parents \<and> ttou s = normal_ttou v \<and> child s = Reaped"
    using i by (auto simp: console_inv_def place_defs)
  moreover have "v \<noteq> Sigttou \<longrightarrow> \<not> halted s" using i unfolding console_inv_def by blast
  moreover have "fpc s = FExit \<or> fpc s = FFailed \<or> (fpc s = FPaused \<or> fpc s = TPaused) \<and> child_dead s \<or> halted s"
    if n: "\<forall>e. console_step v s e = None"
  proof (rule ccontr)
    assume c: "\<not> ?thesis"
    have h: "\<not> in_handler s" using n [rule_format, of Handle] by (auto simp: console_step_def)
    have p: "fpc s = FPaused \<or> fpc s = TPaused"
      using main_moves [OF i h] n [rule_format, of "Main True"] c h by (auto simp: console_step_def)
    have "\<not> sigchld s" using n [rule_format, of Deliver] c h by (auto simp: console_step_def)
    then have "child s \<noteq> Zombie" using i h unfolding console_inv_def by blast
    moreover have "child s \<noteq> Runs" "child s \<noteq> Stopped"
      using n [rule_format, of Die] by (auto simp: console_step_def)
    moreover have "child s \<noteq> Unborn" using i p by (elim disjE) (simp_all add: console_inv_def place_defs)
    ultimately have "child s = Reaped" by (cases "child s") auto
    then have "child_dead s" using i by (simp add: console_inv_def)
    then show False using c p by blast
  qed
  ultimately show ?thesis by blast
qed

theorem foreground_returns_witness:
  "\<exists>s. reach (console_step Pausing) console_start s \<and> fpc s = FExit \<and> fg s = Parents \<and> child s = Reaped"
proof -
  have "\<exists>s. reach (console_step Pausing) console_start s \<and> fpc s = FExit"
    by (rule run_example [where es = "replicate 8 (Main True) @ [Main True, Main True, Stop, Deliver, Handle, Handle,
          Main True, Main True, Die, Deliver, Handle, Handle] @ replicate 7 (Main True)"]) code_simp
  then show ?thesis using foreground_returns [of Pausing] by blast
qed

text \<open>
  The lost wake-up: the child dies between the test of \<open>child_dead\<close> and the call of pause, and
  the parent waits for ever.
\<close>

lemma pause_hangs:
  "\<exists>s. reach (console_step Plain) console_start s \<and> fpc s = FPaused \<and> child_dead s \<and>
     (\<forall>e. console_step Plain s e = None)"
proof -
  have "\<exists>s. reach (console_step Plain) console_start s \<and>
      (fpc s = FPaused \<and> child_dead s \<and> \<not> sigchld s \<and> \<not> in_handler s \<and> child s = Reaped)"
    by (rule run_example [where es = "replicate 8 (Main True) @ [Die, Deliver, Handle, Handle, Main True]"]) code_simp
  then obtain s where s: "reach (console_step Plain) console_start s"
    "fpc s = FPaused" "child_dead s" "\<not> sigchld s" "\<not> in_handler s" "child s = Reaped" by blast
  have "console_step Plain s e = None" for e
    using s by (cases e) (auto simp: console_step_def foreground_main_def)
  then show ?thesis using s by blast
qed

text \<open>2-sigttou.c is stopped when it writes while its child has the terminal.\<close>

lemma sigttou_stops: "\<exists>s. reach (console_step Sigttou) console_start s \<and> halted s"
  by (rule run_example [where es = "replicate 8 (Main True)"]) code_simp


end
