(* ===== verification/Descriptors.thy ===== *)
theory Descriptors
  imports Threads
begin

text \<open>
  The descriptor table of a process and the calls that change it, as the programs of
  src/code\_examples/pipes and shackleford/src/processes/ipc use them: pipe gives the two lowest
  free descriptors, close frees one, dup2 makes the second name the file of the first, and a
  child starts with a copy of its parent's table. A pipe is at its end for its readers when no
  table has its writing side any more.
\<close>

section \<open>Tables\<close>

text \<open>\<open>Other\<close> stands for the files that were open before (terminal, redirections).\<close>

datatype open_file = Other nat | ReadEnd | WriteEnd

type_synonym fdtable = "open_file option list"

definition STDIN_FILENO :: nat where "STDIN_FILENO = 0"
definition STDOUT_FILENO :: nat where "STDOUT_FILENO = 1"

definition file_of :: "fdtable \<Rightarrow> nat \<Rightarrow> open_file option" where
  "file_of t d = (if d < length t then t ! d else None)"

definition close_fd :: "nat \<Rightarrow> fdtable \<Rightarrow> fdtable option" where
  "close_fd d t = (if file_of t d = None then None else Some (t[d := None]))"

definition dup2_fd :: "nat \<Rightarrow> nat \<Rightarrow> fdtable \<Rightarrow> fdtable option" where
  "dup2_fd a b t = (if file_of t a = None \<or> length t \<le> b then None else Some (t[b := file_of t a]))"

fun lowest_free :: "fdtable \<Rightarrow> nat option" where
  "lowest_free [] = None"
| "lowest_free (None # t) = Some 0"
| "lowest_free (Some f # t) = map_option Suc (lowest_free t)"

definition pipe_fds :: "fdtable \<Rightarrow> (nat \<times> nat \<times> fdtable) option" where
  "pipe_fds t =
     (case lowest_free t of None \<Rightarrow> None
      | Some r \<Rightarrow> (case lowest_free (t[r := Some ReadEnd]) of None \<Rightarrow> None
         | Some w \<Rightarrow> Some (r, w, t[r := Some ReadEnd, w := Some WriteEnd])))"

definition has_end :: "open_file \<Rightarrow> fdtable \<Rightarrow> bool" where
  "has_end f t \<longleftrightarrow> Some f \<in> set t"

text \<open>The calls whose result a program does not look at.\<close>

definition close_quietly :: "nat \<Rightarrow> fdtable \<Rightarrow> fdtable" where
  "close_quietly d t = t[d := None]"

lemma close_quietly_close: "close_quietly d t = (case close_fd d t of None \<Rightarrow> t | Some u \<Rightarrow> u)"
  by (auto simp: close_quietly_def close_fd_def file_of_def list_update_same_conv list_update_beyond)

section \<open>What the calls give\<close>

lemma lowest_free_Some: "lowest_free t = Some d \<Longrightarrow> d < length t \<and> t ! d = None \<and> (\<forall>i<d. t ! i \<noteq> None)"
proof (induction t arbitrary: d rule: lowest_free.induct)
  case (3 f t)
  then obtain k where k: "lowest_free t = Some k" "d = Suc k" by auto
  then show ?case using "3.IH" [OF k(1)] by (auto simp: nth_Cons split: nat.splits)
qed auto

lemma lowest_free_None: "lowest_free t = None \<longleftrightarrow> None \<notin> set t"
  by (induction t rule: lowest_free.induct) auto

lemma pipe_fds_Some:
  assumes "pipe_fds t = Some (r, w, u)"
  shows "r < w \<and> w < length t \<and> t ! r = None \<and> t ! w = None \<and> u = t[r := Some ReadEnd, w := Some WriteEnd]"
proof -
  from assms obtain r: "lowest_free t = Some r" and w: "lowest_free (t[r := Some ReadEnd]) = Some w"
    and u: "u = t[r := Some ReadEnd, w := Some WriteEnd]"
    by (auto simp: pipe_fds_def split: option.splits)
  note R = lowest_free_Some [OF r] and W = lowest_free_Some [OF w]
  from R W have "w \<noteq> r" by auto
  with R W have "t ! w = None" by auto
  with R \<open>w \<noteq> r\<close> have "r < w" by (metis linorder_neqE_nat)
  then show ?thesis using R W \<open>t ! w = None\<close> u by auto
qed

lemma file_of_update [simp]:
  "file_of (t[d := f]) i = (if i = d \<and> d < length t then f else file_of t i)"
  by (auto simp: file_of_def)

lemma close_fd_length [simp]: "close_fd d t = Some u \<Longrightarrow> length u = length t"
  by (auto simp: close_fd_def split: if_splits)

lemma has_end_file: "has_end f t \<longleftrightarrow> (\<exists>d. file_of t d = Some f)"
  by (auto simp: has_end_def file_of_def in_set_conv_nth split: if_splits)

text \<open>Two tables are the same when they have the same files.\<close>

lemma table_eqI: "length t = length u \<Longrightarrow> (\<And>d. file_of t d = file_of u d) \<Longrightarrow> t = u"
  by (rule nth_equalityI) (auto simp: file_of_def split: if_splits, metis+)

lemma update_None: "file_of t d = None \<Longrightarrow> t[d := None] = t"
  by (cases "d < length t") (auto simp: file_of_def list_update_same_conv list_update_beyond)

text \<open>
  A table without the two sides of the pipe, and the descriptors that pipe has given.
\<close>

definition no_ends :: "fdtable \<Rightarrow> bool" where
  "no_ends t \<longleftrightarrow> \<not> has_end ReadEnd t \<and> \<not> has_end WriteEnd t"

definition pipe_made :: "fdtable \<Rightarrow> nat \<Rightarrow> nat \<Rightarrow> bool" where
  "pipe_made t r w \<longleftrightarrow> no_ends t \<and> r < w \<and> w < length t \<and> file_of t r = None \<and> file_of t w = None"

lemma pipe_makes: "no_ends t \<Longrightarrow> pipe_fds t = Some (r, w, u) \<Longrightarrow> pipe_made t r w"
  using pipe_fds_Some [of t r w u] by (auto simp: pipe_made_def file_of_def)

lemma no_ends_update:
  "no_ends t \<Longrightarrow> has_end f (t[d := g]) \<longleftrightarrow> d < length t \<and> g = Some f" if "f = ReadEnd \<or> f = WriteEnd"
  using that by (auto simp: no_ends_def has_end_file)

lemma no_ends_update2:
  "no_ends t \<Longrightarrow> a \<noteq> b \<Longrightarrow>
     has_end f (t[a := g, b := h]) \<longleftrightarrow> a < length t \<and> g = Some f \<or> b < length t \<and> h = Some f"
  if "f = ReadEnd \<or> f = WriteEnd"
  using that by (auto simp: no_ends_def has_end_file split: if_splits)

lemma pipe_ends_other:
  "no_ends t \<Longrightarrow> file_of t d \<noteq> Some ReadEnd \<and> file_of t d \<noteq> Some WriteEnd"
  by (auto simp: no_ends_def has_end_file)

section \<open>Putting an end of the pipe in the place of a standard descriptor\<close>

text \<open>
  After the other side has been closed, the duplicated descriptor takes the place of the
  standard one and is closed: of the pipe only that descriptor remains.
\<close>

lemma wire_write:
  assumes "pipe_made t r w" "w \<noteq> d"
  shows "t[w := Some WriteEnd, d := Some WriteEnd, w := None] = t[d := Some WriteEnd]"
  using assms by (intro table_eqI) (auto simp: pipe_made_def)

lemma wire_read:
  assumes "pipe_made t r w" "r \<noteq> d"
  shows "t[r := Some ReadEnd, d := Some ReadEnd, r := None] = t[d := Some ReadEnd]"
  using assms by (intro table_eqI) (auto simp: pipe_made_def)

lemma drop_read:
  assumes "pipe_made t r w"
  shows "t[r := Some ReadEnd, w := Some WriteEnd, r := None] = t[w := Some WriteEnd]"
  using assms by (intro table_eqI) (auto simp: pipe_made_def)

lemma drop_write:
  assumes "pipe_made t r w"
  shows "t[r := Some ReadEnd, w := None] = t[r := Some ReadEnd]"
  using assms by (intro table_eqI) (auto simp: pipe_made_def)

lemma drop_last:
  assumes "pipe_made t r w"
  shows "t[w := None] = t"
  using assms by (intro table_eqI) (auto simp: pipe_made_def)

end
