(* ===== verification/PipeFilter.thy ===== *)
theory PipeFilter
  imports Descriptors
begin

text \<open>
  ls | wc: a parent makes a pipe and two children, which put its ends in the place of their
  standard output and input and execute ls and wc (pipes/pipe\_ls\_wc.c, and 2-pipes-dup.c of
  shackleford/src/processes/ipc). Of the programs that are executed only what the pipe sees of
  them is here: the first writes an arbitrary output, byte by byte, and ends; the second reads
  until the end of its input.
\<close>

section \<open>Processes\<close>

text \<open>\<open>Extra\<close> is the process that the child for ls of 2-pipes-dup.c starts when exec fails.\<close>

datatype role = Parent | Ls | Wc | Extra

datatype place = PPipe | PFork1 | PFork2 | PClose1 | PClose2 | PWait1 | PWait2 | PExit
  | LClose1 | LDup | LClose2 | LExec | LRun
  | WClose1 | WDup | WClose2 | WExec | WRun

datatype status = Code int | Killed

datatype life = Absent | At place | Zombie status | Reaped status

text \<open>
  \<open>todo\<close> is what ls has still to write, \<open>taken\<close> what wc has read; \<open>eof\<close> is that wc has seen the
  end of its input.
\<close>

record pipeline_state =
  life :: "role \<Rightarrow> life"
  fds :: "role \<Rightarrow> fdtable"
  pfd :: "nat \<times> nat"
  buf :: string
  todo :: string
  taken :: string
  eof :: bool

datatype event = Do role bool | Collect role role

definition pipeline_start :: "fdtable \<Rightarrow> string \<Rightarrow> pipeline_state" where
  "pipeline_start t out = \<lparr>life = (\<lambda>_. Absent)(Parent := At PPipe), fds = (\<lambda>_. [])(Parent := t),
     pfd = (0, 0), buf = [], todo = out, taken = [], eof = False\<rparr>"

definition EXIT_FAILURE :: status where "EXIT_FAILURE = Code 1"
definition EXIT_SUCCESS :: status where "EXIT_SUCCESS = Code 0"

text \<open>A process that ends closes its descriptors.\<close>

definition leave :: "role \<Rightarrow> status \<Rightarrow> pipeline_state \<Rightarrow> pipeline_state" where
  "leave x st s = s\<lparr>life := (life s)(x := Zombie st), fds := (fds s)(x := [])\<rparr>"

definition move :: "role \<Rightarrow> fdtable \<Rightarrow> place \<Rightarrow> pipeline_state \<Rightarrow> pipeline_state" where
  "move x t p s = s\<lparr>life := (life s)(x := At p), fds := (fds s)(x := t)\<rparr>"

text \<open>A call that ends the process when it fails.\<close>

definition checked :: "role \<Rightarrow> fdtable option \<Rightarrow> place \<Rightarrow> pipeline_state \<Rightarrow> pipeline_state" where
  "checked x res p s = (case res of None \<Rightarrow> leave x EXIT_FAILURE s | Some t \<Rightarrow> move x t p s)"

definition make_pipe :: "role \<Rightarrow> bool \<Rightarrow> pipeline_state \<Rightarrow> pipeline_state" where
  "make_pipe x ok s =
     (case if ok then pipe_fds (fds s x) else None of
        None \<Rightarrow> leave x EXIT_FAILURE s
      | Some (r, w, t) \<Rightarrow> move x t PFork1 (s\<lparr>pfd := (r, w)\<rparr>))"

definition fork_child :: "role \<Rightarrow> bool \<Rightarrow> role \<Rightarrow> place \<Rightarrow> place \<Rightarrow> pipeline_state \<Rightarrow> pipeline_state" where
  "fork_child x ok c p q s =
     (if ok then move x (fds s x) q (move c (fds s x) p s) else leave x EXIT_FAILURE s)"

definition ends :: "open_file \<Rightarrow> pipeline_state \<Rightarrow> bool" where
  "ends f s \<longleftrightarrow> has_end f (fds s Parent) \<or> has_end f (fds s Ls) \<or> has_end f (fds s Wc) \<or> has_end f (fds s Extra)"

text \<open>
  The two programs that are executed, with a pipe that holds \<open>cap\<close> bytes: a write to a pipe
  without readers kills the process, a write to a full one waits, a read of an empty one waits
  as long as there is a writer.
\<close>

definition run_first :: "nat \<Rightarrow> role \<Rightarrow> pipeline_state \<Rightarrow> pipeline_state option" where
  "run_first cap x s =
     (case todo s of
        [] \<Rightarrow> Some (leave x EXIT_SUCCESS s)
      | c # cs \<Rightarrow>
         (case file_of (fds s x) STDOUT_FILENO of
            Some WriteEnd \<Rightarrow>
              if \<not> ends ReadEnd s then Some (leave x Killed s)
              else if length (buf s) < cap then Some (s\<lparr>buf := buf s @ [c], todo := cs\<rparr>) else None
          | Some (Other _) \<Rightarrow> Some (s\<lparr>todo := cs\<rparr>)
          | _ \<Rightarrow> Some (leave x (Code 2) s)))"

definition run_second :: "role \<Rightarrow> pipeline_state \<Rightarrow> pipeline_state option" where
  "run_second x s =
     (case file_of (fds s x) STDIN_FILENO of
        Some ReadEnd \<Rightarrow>
          (case buf s of
             c # cs \<Rightarrow> Some (s\<lparr>buf := cs, taken := taken s @ [c]\<rparr>)
           | [] \<Rightarrow> if ends WriteEnd s then None else Some (leave x EXIT_SUCCESS (s\<lparr>eof := True\<rparr>)))
      | Some (Other _) \<Rightarrow> Some (leave x EXIT_SUCCESS s)
      | _ \<Rightarrow> Some (leave x EXIT_FAILURE s))"

text \<open>wait: it takes a child that has ended, fails without children, and waits otherwise.\<close>

fun parent_of :: "role \<Rightarrow> role option" where
  "parent_of Parent = None"
| "parent_of Ls = Some Parent"
| "parent_of Wc = Some Parent"
| "parent_of Extra = Some Ls"

fun to_collect :: "life \<Rightarrow> bool" where
  "to_collect (At _) = True"
| "to_collect (Zombie _) = True"
| "to_collect _ = False"

definition has_children :: "role \<Rightarrow> pipeline_state \<Rightarrow> bool" where
  "has_children x s \<longleftrightarrow> list_ex (\<lambda>c. parent_of c = Some x \<and> to_collect (life s c)) [Ls, Wc, Extra]"

fun after_wait :: "place \<Rightarrow> place option" where
  "after_wait PWait1 = Some PWait2"
| "after_wait PWait2 = Some PExit"
| "after_wait _ = None"

definition place_of :: "life \<Rightarrow> place option" where
  "place_of l = (case l of At p \<Rightarrow> Some p | _ \<Rightarrow> None)"

definition collect :: "role \<Rightarrow> role \<Rightarrow> pipeline_state \<Rightarrow> pipeline_state option" where
  "collect x c s =
     (case Option.bind (place_of (life s x)) after_wait of
        None \<Rightarrow> None
      | Some q \<Rightarrow>
         (case life s c of
            Zombie st \<Rightarrow> if parent_of c = Some x
              then Some (move x (fds s x) q (s\<lparr>life := (life s)(c := Reaped st)\<rparr>)) else None
          | _ \<Rightarrow> None))"

section \<open>pipe\_ls\_wc.c\<close>

definition lswc_main :: "nat \<Rightarrow> role \<Rightarrow> bool \<Rightarrow> place \<Rightarrow> pipeline_state \<Rightarrow> pipeline_state option" where
  "lswc_main cap x ok p s =
     (let (r, w) = pfd s; t = fds s x in
      case p of
        PPipe \<Rightarrow> Some (make_pipe x ok s)
      | PFork1 \<Rightarrow> Some (fork_child x ok Ls LClose1 PFork2 s)
      | LClose1 \<Rightarrow> Some (checked x (close_fd r t) LDup s)
      | LDup \<Rightarrow> Some (if w \<noteq> STDOUT_FILENO
                      then checked x (if ok then dup2_fd w STDOUT_FILENO t else None) LClose2 s
                      else move x t LExec s)
      | LClose2 \<Rightarrow> Some (checked x (close_fd w t) LExec s)
      | LExec \<Rightarrow> Some (if ok then move x t LRun s else leave x EXIT_FAILURE s)
      | LRun \<Rightarrow> run_first cap x s
      | PFork2 \<Rightarrow> Some (fork_child x ok Wc WClose1 PClose1 s)
      | WClose1 \<Rightarrow> Some (checked x (close_fd w t) WDup s)
      | WDup \<Rightarrow> Some (if r \<noteq> STDIN_FILENO
                      then checked x (if ok then dup2_fd r STDIN_FILENO t else None) WClose2 s
                      else move x t WExec s)
      | WClose2 \<Rightarrow> Some (checked x (close_fd r t) WExec s)
      | WExec \<Rightarrow> Some (if ok then move x t WRun s else leave x EXIT_FAILURE s)
      | WRun \<Rightarrow> run_second x s
      | PClose1 \<Rightarrow> Some (checked x (close_fd r t) PClose2 s)
      | PClose2 \<Rightarrow> Some (checked x (close_fd w t) PWait1 s)
      | PWait1 \<Rightarrow> if has_children x s then None else Some (leave x EXIT_FAILURE s)
      | PWait2 \<Rightarrow> if has_children x s then None else Some (leave x EXIT_FAILURE s)
      | PExit \<Rightarrow> Some (leave x EXIT_SUCCESS s))"

definition pipeline_step :: "(role \<Rightarrow> bool \<Rightarrow> place \<Rightarrow> pipeline_state \<Rightarrow> pipeline_state option) \<Rightarrow>
    pipeline_state \<Rightarrow> event \<Rightarrow> pipeline_state option" where
  "pipeline_step program s e =
     (case e of
        Do x ok \<Rightarrow> (case life s x of At p \<Rightarrow> program x ok p s | _ \<Rightarrow> None)
      | Collect x c \<Rightarrow> collect x c s)"

abbreviation lswc_step :: "nat \<Rightarrow> pipeline_state \<Rightarrow> event \<Rightarrow> pipeline_state option" where
  "lswc_step cap \<equiv> pipeline_step (lswc_main cap)"

section \<open>2-pipes-dup.c\<close>

text \<open>
  The results of close and wait are not looked at, the descriptors are not compared with the
  standard ones, and a child whose exec fails goes on in the program of its parent.
\<close>

definition dup_main :: "nat \<Rightarrow> role \<Rightarrow> bool \<Rightarrow> place \<Rightarrow> pipeline_state \<Rightarrow> pipeline_state option" where
  "dup_main cap x ok p s =
     (let (r, w) = pfd s; t = fds s x in
      case p of
        PPipe \<Rightarrow> Some (make_pipe x ok s)
      | PFork1 \<Rightarrow> Some (fork_child x ok Ls LClose1 PFork2 s)
      | LClose1 \<Rightarrow> Some (move x (close_quietly r t) LDup s)
      | LDup \<Rightarrow> Some (checked x (if ok then dup2_fd w STDOUT_FILENO t else None) LClose2 s)
      | LClose2 \<Rightarrow> Some (move x (close_quietly w t) LExec s)
      | LExec \<Rightarrow> Some (move x t (if ok then LRun else PFork2) s)
      | LRun \<Rightarrow> run_first cap x s
      | PFork2 \<Rightarrow> Some (fork_child x ok (if x = Parent then Wc else Extra) WClose1 PClose1 s)
      | WClose1 \<Rightarrow> Some (move x (close_quietly w t) WDup s)
      | WDup \<Rightarrow> Some (checked x (if ok then dup2_fd r STDIN_FILENO t else None) WClose2 s)
      | WClose2 \<Rightarrow> Some (move x (close_quietly r t) WExec s)
      | WExec \<Rightarrow> Some (move x t (if ok then WRun else PClose1) s)
      | WRun \<Rightarrow> run_second x s
      | PClose1 \<Rightarrow> Some (move x (close_quietly r t) PClose2 s)
      | PClose2 \<Rightarrow> Some (move x (close_quietly w t) PWait1 s)
      | PWait1 \<Rightarrow> if has_children x s then None else Some (move x t PWait2 s)
      | PWait2 \<Rightarrow> if has_children x s then None else Some (move x t PExit s)
      | PExit \<Rightarrow> Some (leave x EXIT_SUCCESS s))"

abbreviation dup_step :: "nat \<Rightarrow> pipeline_state \<Rightarrow> event \<Rightarrow> pipeline_state option" where
  "dup_step cap \<equiv> pipeline_step (dup_main cap)"

section \<open>Tables and places\<close>

lemmas call_defs = make_pipe_def fork_child_def checked_def leave_def move_def collect_def place_of_def
  EXIT_FAILURE_def EXIT_SUCCESS_def

text \<open>
  A table \<open>T r w x p\<close> that belongs to every place: both programs keep it, and which ends of the
  pipe are open follows from the places alone.
\<close>

fun proc_ok :: "(nat \<Rightarrow> nat \<Rightarrow> role \<Rightarrow> place \<Rightarrow> fdtable) \<Rightarrow> (nat \<Rightarrow> nat \<Rightarrow> role \<Rightarrow> place \<Rightarrow> bool) \<Rightarrow> fdtable \<Rightarrow>
    nat \<times> nat \<Rightarrow> role \<Rightarrow> life \<Rightarrow> fdtable \<Rightarrow> bool" where
  "proc_ok T pl t (r, w) x (At p) u \<longleftrightarrow> pl r w x p \<and> u = T r w x p \<and> (p \<noteq> PPipe \<longrightarrow> pipe_made t r w)"
| "proc_ok T pl t rw x _ u \<longleftrightarrow> u = []"

definition procs_ok :: "(nat \<Rightarrow> nat \<Rightarrow> role \<Rightarrow> place \<Rightarrow> fdtable) \<Rightarrow> (nat \<Rightarrow> nat \<Rightarrow> role \<Rightarrow> place \<Rightarrow> bool) \<Rightarrow> fdtable \<Rightarrow>
    pipeline_state \<Rightarrow> bool" where
  "procs_ok T pl t s \<longleftrightarrow> (\<forall>x. proc_ok T pl t (pfd s) x (life s x) (fds s x))"

lemma procs_okI: "(\<And>x. proc_ok T pl t (pfd s) x (life s x) (fds s x)) \<Longrightarrow> procs_ok T pl t s"
  by (simp add: procs_ok_def)

lemma proc_ok_At: "proc_ok T pl t rw x (At p) u \<longleftrightarrow>
    pl (fst rw) (snd rw) x p \<and> u = T (fst rw) (snd rw) x p \<and> (p \<noteq> PPipe \<longrightarrow> pipe_made t (fst rw) (snd rw))"
  by (cases rw) simp

lemma procs_okD:
  "procs_ok T pl t s \<Longrightarrow> life s x = At p \<Longrightarrow> pl (fst (pfd s)) (snd (pfd s)) x p \<and> fds s x = T (fst (pfd s)) (snd (pfd s)) x p \<and>
     (p \<noteq> PPipe \<longrightarrow> pipe_made t (fst (pfd s)) (snd (pfd s)))"
  unfolding procs_ok_def using proc_ok_At by metis

lemma procs_ok_over:
  assumes "procs_ok T pl t s" "\<And>p. life s x \<noteq> At p"
  shows "fds s x = []"
proof -
  have "proc_ok T pl t (pfd s) x (life s x) (fds s x)" using assms by (simp add: procs_ok_def)
  then show ?thesis using assms(2) by (cases "life s x") auto
qed

lemma procs_ok_leave: "procs_ok T pl t s \<Longrightarrow> procs_ok T pl t (leave x st s)"
  by (simp add: procs_ok_def leave_def)

lemma procs_ok_move:
  "procs_ok T pl t s \<Longrightarrow> pl (fst (pfd s)) (snd (pfd s)) x p \<Longrightarrow> u = T (fst (pfd s)) (snd (pfd s)) x p \<Longrightarrow>
     (p \<noteq> PPipe \<Longrightarrow> pipe_made t (fst (pfd s)) (snd (pfd s))) \<Longrightarrow> procs_ok T pl t (move x u p s)"
  by (simp add: procs_ok_def move_def proc_ok_At)

lemma procs_ok_data [simp]:
  "procs_ok T pl t (s\<lparr>buf := b\<rparr>) = procs_ok T pl t s"
  "procs_ok T pl t (s\<lparr>todo := b\<rparr>) = procs_ok T pl t s"
  "procs_ok T pl t (s\<lparr>taken := b\<rparr>) = procs_ok T pl t s"
  "procs_ok T pl t (s\<lparr>eof := e\<rparr>) = procs_ok T pl t s"
  by (simp_all add: procs_ok_def)

lemma procs_ok_reap:
  "procs_ok T pl t s \<Longrightarrow> life s c = Zombie st \<Longrightarrow> procs_ok T pl t (s\<lparr>life := (life s)(c := Reaped st)\<rparr>)"
  by (rule procs_okI) (auto simp: procs_ok_def dest: spec [of _ c])

lemma procs_ok_first: "procs_ok T pl t s \<Longrightarrow> run_first cap x s = Some u \<Longrightarrow> procs_ok T pl t u"
  using procs_ok_leave [of T pl t s x]
  by (clarsimp simp: run_first_def split: list.splits option.splits open_file.splits if_splits)

lemma procs_ok_second: "procs_ok T pl t s \<Longrightarrow> run_second x s = Some u \<Longrightarrow> procs_ok T pl t u"
  using procs_ok_leave [of T pl t s x] procs_ok_leave [of T pl t "s\<lparr>eof := True\<rparr>" x]
  by (clarsimp simp: run_second_def split: list.splits option.splits open_file.splits if_splits)

lemma procs_ok_checked:
  "procs_ok T pl t s \<Longrightarrow> pl (fst (pfd s)) (snd (pfd s)) x p \<Longrightarrow> p \<noteq> PPipe \<Longrightarrow> pipe_made t (fst (pfd s)) (snd (pfd s)) \<Longrightarrow>
     (\<And>u. res = Some u \<Longrightarrow> u = T (fst (pfd s)) (snd (pfd s)) x p) \<Longrightarrow> procs_ok T pl t (checked x res p s)"
  by (auto simp: checked_def intro: procs_ok_leave procs_ok_move split: option.splits)

lemma procs_ok_fork:
  "procs_ok T pl t s \<Longrightarrow> pl (fst (pfd s)) (snd (pfd s)) x q \<Longrightarrow> pl (fst (pfd s)) (snd (pfd s)) c p \<Longrightarrow> p \<noteq> PPipe \<Longrightarrow> q \<noteq> PPipe \<Longrightarrow>
     pipe_made t (fst (pfd s)) (snd (pfd s)) \<Longrightarrow> fds s x = T (fst (pfd s)) (snd (pfd s)) x q \<Longrightarrow>
     fds s x = T (fst (pfd s)) (snd (pfd s)) c p \<Longrightarrow> procs_ok T pl t (fork_child x ok c p q s)"
  by (simp add: fork_child_def procs_ok_def leave_def move_def proc_ok_At)

lemma collect_Some:
  assumes "collect x c s = Some u"
  obtains p q st where "life s x = At p" "after_wait p = Some q" "life s c = Zombie st" "parent_of c = Some x"
    "u = move x (fds s x) q (s\<lparr>life := (life s)(c := Reaped st)\<rparr>)"
proof -
  from assms obtain q where q: "Option.bind (place_of (life s x)) after_wait = Some q"
    by (auto simp: collect_def split: option.splits)
  then obtain p where "life s x = At p" "after_wait p = Some q"
    by (auto simp: bind_eq_Some_conv place_of_def split: life.splits)
  moreover obtain st where "life s c = Zombie st" "parent_of c = Some x"
    "u = move x (fds s x) q (s\<lparr>life := (life s)(c := Reaped st)\<rparr>)"
    using assms q by (auto simp: collect_def split: life.splits if_splits)
  ultimately show ?thesis using that by blast
qed

lemma procs_ok_collect:
  assumes "procs_ok T pl t s" "collect x c s = Some u"
    and "\<And>p q. life s x = At p \<Longrightarrow> after_wait p = Some q \<Longrightarrow> p \<noteq> PPipe \<and>
        pl (fst (pfd s)) (snd (pfd s)) x q \<and> T (fst (pfd s)) (snd (pfd s)) x p = T (fst (pfd s)) (snd (pfd s)) x q"
  shows "procs_ok T pl t u"
  using assms(2)
proof (cases rule: collect_Some)
  case (1 p q st)
  have "procs_ok T pl t (s\<lparr>life := (life s)(c := Reaped st)\<rparr>)" by (rule procs_ok_reap [OF assms(1) 1(3)])
  then show ?thesis using 1 procs_okD [OF assms(1) 1(1)] assms(3) [OF 1(1,2)]
    by (simp add: procs_ok_move)
qed


section \<open>The tables of pipe\_ls\_wc.c\<close>

text \<open>
  \<open>t\<close> is the table with which the program is started, whatever is open in it.
\<close>

definition lswc_table :: "fdtable \<Rightarrow> nat \<Rightarrow> nat \<Rightarrow> role \<Rightarrow> place \<Rightarrow> fdtable" where
  "lswc_table t r w x p =
     (let both = t[r := Some ReadEnd, w := Some WriteEnd] in
      case p of
        PFork1 \<Rightarrow> both | PFork2 \<Rightarrow> both | PClose1 \<Rightarrow> both | LClose1 \<Rightarrow> both | WClose1 \<Rightarrow> both
      | PClose2 \<Rightarrow> t[w := Some WriteEnd]
      | LDup \<Rightarrow> t[w := Some WriteEnd]
      | LClose2 \<Rightarrow> t[w := Some WriteEnd, 1 := Some WriteEnd]
      | LExec \<Rightarrow> t[1 := Some WriteEnd] | LRun \<Rightarrow> t[1 := Some WriteEnd]
      | WDup \<Rightarrow> t[r := Some ReadEnd]
      | WClose2 \<Rightarrow> t[r := Some ReadEnd, 0 := Some ReadEnd]
      | WExec \<Rightarrow> t[0 := Some ReadEnd] | WRun \<Rightarrow> t[0 := Some ReadEnd]
      | _ \<Rightarrow> t)"

fun owner :: "place \<Rightarrow> role" where
  "owner LClose1 = Ls" | "owner LDup = Ls" | "owner LClose2 = Ls" | "owner LExec = Ls" | "owner LRun = Ls"
| "owner WClose1 = Wc" | "owner WDup = Wc" | "owner WClose2 = Wc" | "owner WExec = Wc" | "owner WRun = Wc"
| "owner _ = Parent"

definition lswc_place :: "nat \<Rightarrow> nat \<Rightarrow> role \<Rightarrow> place \<Rightarrow> bool" where
  "lswc_place r w x p \<longleftrightarrow> x = owner p \<and> (p = LClose2 \<longrightarrow> w \<noteq> 1) \<and> (p = WClose2 \<longrightarrow> r \<noteq> 0)"

definition places_ok :: "fdtable \<Rightarrow> pipeline_state \<Rightarrow> bool" where
  "places_ok t s \<longleftrightarrow> procs_ok (lswc_table t) lswc_place t s"

lemma close_fd_Some: "close_fd d t = Some u \<Longrightarrow> u = t[d := None]"
  by (auto simp: close_fd_def split: if_splits)

lemma dup2_fd_Some: "dup2_fd a b t = Some u \<Longrightarrow> u = t[b := file_of t a]"
  by (auto simp: dup2_fd_def split: if_splits)

lemma made_file: "pipe_made t r w \<Longrightarrow> r \<noteq> w \<and> r < length t \<and> w < length t \<and> 1 < length t \<and> 0 < length t"
  by (auto simp: pipe_made_def)

lemmas table_rules = wire_write wire_read drop_read drop_write drop_last made_file

lemma lswc_main_table:
  assumes "places_ok t s" "life s x = At p" "lswc_main cap x ok p s = Some u" "p \<notin> {PPipe, PFork1, PFork2}"
  shows "places_ok t u"
proof -
  obtain r w where rw: "pfd s = (r, w)" by (cases "pfd s")
  note i = assms(1) [unfolded places_ok_def]
  have at: "lswc_place r w x p" "fds s x = lswc_table t r w x p" "pipe_made t r w"
    using procs_okD [OF i assms(2)] assms(4) rw by auto
  note rules = procs_ok_checked procs_ok_move procs_ok_leave
  note d = close_fd_Some dup2_fd_Some
  show ?thesis unfolding places_ok_def
    using i assms(3,4) at rw
    by (cases p) (auto simp: lswc_main_def Let_def lswc_table_def lswc_place_def table_rules STDIN_FILENO_def
      STDOUT_FILENO_def split: if_splits dest!: d intro!: rules intro: procs_ok_first procs_ok_second)
qed


section \<open>Who has started, ended and been waited for\<close>

text \<open>
  What the children can be when the parent is at a given place. Only the parent, before it forks,
  can be at \<open>PPipe\<close>.
\<close>

fun reaped :: "life \<Rightarrow> bool" where
  "reaped (Reaped _) = True"
| "reaped _ = False"

definition parent_stage :: "place \<Rightarrow> life \<Rightarrow> life \<Rightarrow> bool" where
  "parent_stage p l c \<longleftrightarrow>
     (case p of
        PPipe \<Rightarrow> l = Absent \<and> c = Absent
      | PFork1 \<Rightarrow> l = Absent \<and> c = Absent
      | PFork2 \<Rightarrow> to_collect l \<and> c = Absent
      | PClose1 \<Rightarrow> to_collect l \<and> to_collect c
      | PClose2 \<Rightarrow> to_collect l \<and> to_collect c
      | PWait1 \<Rightarrow> to_collect l \<and> to_collect c
      | PWait2 \<Rightarrow> to_collect l \<and> reaped c \<or> reaped l \<and> to_collect c
      | PExit \<Rightarrow> reaped l \<and> reaped c
      | _ \<Rightarrow> False)"

fun over :: "life \<Rightarrow> bool" where
  "over (Zombie _) = True"
| "over (Reaped _) = True"
| "over _ = False"

fun ended_with :: "status \<Rightarrow> life \<Rightarrow> bool" where
  "ended_with st (Zombie st') = (st' = st)"
| "ended_with st (Reaped st') = (st' = st)"
| "ended_with st _ = False"

definition family_ok :: "pipeline_state \<Rightarrow> bool" where
  "family_ok s \<longleftrightarrow>
     life s Extra = Absent \<and> life s Parent \<noteq> Absent \<and>
     (\<forall>p. life s Parent = At p \<longrightarrow> parent_stage p (life s Ls) (life s Wc)) \<and>
     (life s Parent = Zombie EXIT_SUCCESS \<longrightarrow> reaped (life s Ls) \<and> reaped (life s Wc)) \<and>
     \<not> reaped (life s Parent) \<and> (life s Wc \<noteq> Absent \<longrightarrow> life s Ls \<noteq> Absent)"

definition data_ok :: "string \<Rightarrow> pipeline_state \<Rightarrow> bool" where
  "data_ok out s \<longleftrightarrow>
     taken s @ buf s @ todo s = out \<and>
     (ended_with EXIT_SUCCESS (life s Ls) \<longrightarrow> todo s = []) \<and>
     (ended_with EXIT_SUCCESS (life s Wc) \<longrightarrow> eof s) \<and>
     (eof s \<longrightarrow> buf s = [] \<and> over (life s Ls) \<and> ended_with EXIT_SUCCESS (life s Wc))"

definition lswc_inv :: "fdtable \<Rightarrow> string \<Rightarrow> pipeline_state \<Rightarrow> bool" where
  "lswc_inv t out s \<longleftrightarrow> no_ends t \<and> places_ok t s \<and> family_ok s \<and> data_ok out s"

definition write_place :: "place \<Rightarrow> bool" where
  "write_place p \<longleftrightarrow> p \<in> {PFork1, PFork2, PClose1, PClose2, LClose1, LDup, LClose2, LExec, LRun, WClose1}"

definition read_place :: "place \<Rightarrow> bool" where
  "read_place p \<longleftrightarrow> p \<in> {PFork1, PFork2, PClose1, LClose1, WClose1, WDup, WClose2, WExec, WRun}"

lemma has_end_write_place:
  assumes "places_ok t s" "no_ends t" "life s x = At p"
  shows "has_end WriteEnd (fds s x) \<longleftrightarrow> write_place p"
proof -
  obtain r w where rw: "pfd s = (r, w)" by (cases "pfd s")
  have "fds s x = lswc_table t r w x p" "p \<noteq> PPipe \<longrightarrow> pipe_made t r w" "lswc_place r w x p"
    using procs_okD [OF assms(1) [unfolded places_ok_def] assms(3)] rw by auto
  then show ?thesis using assms(2) made_file [of t r w]
    by (cases p) (auto simp: lswc_table_def write_place_def no_ends_update no_ends_update2 lswc_place_def, auto simp: no_ends_def)
qed

lemma has_end_read_place:
  assumes "places_ok t s" "no_ends t" "life s x = At p"
  shows "has_end ReadEnd (fds s x) \<longleftrightarrow> read_place p"
proof -
  obtain r w where rw: "pfd s = (r, w)" by (cases "pfd s")
  have "fds s x = lswc_table t r w x p" "p \<noteq> PPipe \<longrightarrow> pipe_made t r w" "lswc_place r w x p"
    using procs_okD [OF assms(1) [unfolded places_ok_def] assms(3)] rw by auto
  then show ?thesis using assms(2) made_file [of t r w]
    by (cases p) (auto simp: lswc_table_def read_place_def no_ends_update no_ends_update2 lswc_place_def, auto simp: no_ends_def)
qed


lemma ends_WriteEnd:
  assumes "places_ok t s" "no_ends t" "ends WriteEnd s"
  shows "\<exists>x p. life s x = At p \<and> write_place p"
proof -
  obtain x where x: "has_end WriteEnd (fds s x)" using assms(3) by (auto simp: ends_def)
  then have "fds s x \<noteq> []" by (auto simp: has_end_def)
  then obtain p where "life s x = At p" using procs_ok_over [OF assms(1) [unfolded places_ok_def]] by blast
  then show ?thesis using x has_end_write_place [OF assms(1,2)] by blast
qed

lemma ends_ReadEnd:
  assumes "places_ok t s" "no_ends t" "life s x = At p" "read_place p"
  shows "ends ReadEnd s"
  using has_end_read_place [OF assms(1-3)] assms(4) by (cases x) (auto simp: ends_def)

lemma place_owner: "places_ok t s \<Longrightarrow> life s x = At p \<Longrightarrow> x = owner p"
  using procs_okD by (fastforce simp: places_ok_def lswc_place_def)

lemma places_pipe:
  assumes "places_ok t s" "no_ends t" "life s x = At PPipe" "family_ok s"
  shows "places_ok t (make_pipe x ok s)"
proof -
  have x: "x = Parent" using place_owner [OF assms(1,3)] by simp
  have "fds s Parent = t" using procs_okD [OF assms(1) [unfolded places_ok_def] assms(3)] x by (simp add: lswc_table_def)
  moreover have "life s Ls = Absent" "life s Wc = Absent" "life s Extra = Absent"
    using assms(3,4) x by (auto simp: family_ok_def parent_stage_def)
  moreover have "fds s y = []" if "y \<noteq> Parent" for y
    using procs_ok_over [OF assms(1) [unfolded places_ok_def], of y] calculation that by (cases y) auto
  ultimately show ?thesis using assms(1) x pipe_makes [OF assms(2)] pipe_fds_Some [of t]
    by (auto simp: places_ok_def make_pipe_def procs_ok_leave move_def lswc_place_def lswc_table_def
        split: option.splits intro!: procs_okI) (metis life.exhaust proc_ok.simps role.exhaust)+
qed

lemma places_fork1:
  assumes "places_ok t s" "life s x = At PFork1"
  shows "places_ok t (fork_child x ok Ls LClose1 PFork2 s)"
  using procs_okD [OF assms(1) [unfolded places_ok_def] assms(2)] assms(1) unfolding places_ok_def
  by (intro procs_ok_fork) (auto simp: lswc_place_def lswc_table_def)

lemma places_fork2:
  assumes "places_ok t s" "life s x = At PFork2"
  shows "places_ok t (fork_child x ok Wc WClose1 PClose1 s)"
  using procs_okD [OF assms(1) [unfolded places_ok_def] assms(2)] assms(1) unfolding places_ok_def
  by (intro procs_ok_fork) (auto simp: lswc_place_def lswc_table_def)

lemma places_step:
  assumes "lswc_inv t out s" "lswc_step cap s e = Some u"
  shows "places_ok t u"
proof (cases e)
  case (Do x ok)
  then obtain p where p: "life s x = At p" "lswc_main cap x ok p s = Some u"
    using assms(2) by (auto simp: pipeline_step_def split: life.splits)
  have i: "places_ok t s" "no_ends t" "family_ok s" using assms(1) by (auto simp: lswc_inv_def)
  show ?thesis
  proof (cases "p \<in> {PPipe, PFork1, PFork2}")
    case True
    then show ?thesis using p i places_pipe [OF i(1,2) _ i(3), of x ok] places_fork1 [OF i(1), of x ok]
      places_fork2 [OF i(1), of x ok] by (auto simp: lswc_main_def)
  next
    case False
    then show ?thesis using lswc_main_table [OF i(1) p] by blast
  qed
next
  case (Collect x c)
  then have "collect x c s = Some u" using assms(2) by (simp add: pipeline_step_def)
  moreover have "procs_ok (lswc_table t) lswc_place t s" using assms(1) by (simp add: lswc_inv_def places_ok_def)
  ultimately show ?thesis unfolding places_ok_def using place_owner [of t s x]
    by (elim procs_ok_collect [rotated]) (auto elim!: after_wait.elims simp: lswc_place_def lswc_table_def places_ok_def)
qed


lemma run_first_Some:
  assumes "run_first cap x s = Some u"
  obtains "todo s = []" "u = leave x EXIT_SUCCESS s"
  | "u = leave x Killed s" "\<not> ends ReadEnd s"
  | c cs where "todo s = c # cs" "u = s\<lparr>buf := buf s @ [c], todo := cs\<rparr>" "length (buf s) < cap"
  | c cs where "todo s = c # cs" "file_of (fds s x) STDOUT_FILENO \<noteq> Some WriteEnd" "u = s\<lparr>todo := cs\<rparr>"
  | "file_of (fds s x) STDOUT_FILENO \<noteq> Some WriteEnd" "u = leave x (Code 2) s"
  using assms by (auto simp: run_first_def split: list.splits option.splits open_file.splits if_splits)

lemma run_second_Some:
  assumes "run_second x s = Some u"
  obtains c cs where "buf s = c # cs" "u = s\<lparr>buf := cs, taken := taken s @ [c]\<rparr>"
  | "buf s = []" "\<not> ends WriteEnd s" "u = leave x EXIT_SUCCESS (s\<lparr>eof := True\<rparr>)"
  | st where "file_of (fds s x) STDIN_FILENO \<noteq> Some ReadEnd" "u = leave x st s"
  using assms by (auto simp: run_second_def split: list.splits option.splits open_file.splits if_splits)

lemma exec_ls_stdout:
  assumes "places_ok t s" "life s x = At LRun"
  shows "fds s x = t[1 := Some WriteEnd]" "file_of (fds s x) STDOUT_FILENO = Some WriteEnd"
proof -
  note p = procs_okD [OF assms(1) [unfolded places_ok_def] assms(2)]
  show "fds s x = t[1 := Some WriteEnd]" using p by (simp add: lswc_table_def)
  then show "file_of (fds s x) STDOUT_FILENO = Some WriteEnd"
    using p made_file by (auto simp: STDOUT_FILENO_def)
qed

lemma exec_wc_stdin:
  assumes "places_ok t s" "life s x = At WRun"
  shows "fds s x = t[0 := Some ReadEnd]" "file_of (fds s x) STDIN_FILENO = Some ReadEnd"
proof -
  note p = procs_okD [OF assms(1) [unfolded places_ok_def] assms(2)]
  show "fds s x = t[0 := Some ReadEnd]" using p by (simp add: lswc_table_def)
  then show "file_of (fds s x) STDIN_FILENO = Some ReadEnd"
    using p made_file by (auto simp: STDIN_FILENO_def)
qed

text \<open>What a step does to the processes, apart from their tables.\<close>

lemma life_checked: "life (checked x res p s) = (life s)(x := (if res = None then Zombie EXIT_FAILURE else At p))"
  by (auto simp: checked_def leave_def move_def split: option.splits)

lemma life_move: "life (move x u p s) = (life s)(x := At p)"
  by (simp add: move_def)

lemma life_leave: "life (leave x st s) = (life s)(x := Zombie st)"
  by (simp add: leave_def)

lemma life_pipe: "life (make_pipe x ok s) x = At PFork1 \<and> ok \<or> life (make_pipe x ok s) x = Zombie EXIT_FAILURE"
  by (auto simp: make_pipe_def leave_def move_def split: option.splits)

lemma life_pipe_other: "y \<noteq> x \<Longrightarrow> life (make_pipe x ok s) y = life s y"
  by (auto simp: make_pipe_def leave_def move_def split: option.splits)

lemmas life_simps = life_checked life_move life_leave life_pipe_other fork_child_def

lemma data_calls [simp]:
  "todo (checked x res p s) = todo s" "buf (checked x res p s) = buf s" "taken (checked x res p s) = taken s"
  "eof (checked x res p s) = eof s"
  "todo (move x u p s) = todo s" "buf (move x u p s) = buf s" "taken (move x u p s) = taken s" "eof (move x u p s) = eof s"
  "todo (leave x st s) = todo s" "buf (leave x st s) = buf s" "taken (leave x st s) = taken s" "eof (leave x st s) = eof s"
  "todo (make_pipe x ok s) = todo s" "buf (make_pipe x ok s) = buf s" "taken (make_pipe x ok s) = taken s"
  "eof (make_pipe x ok s) = eof s"
  by (auto simp: checked_def leave_def move_def make_pipe_def split: option.splits)

lemma parent_stage_child:
  "parent_stage p k c \<Longrightarrow> to_collect k \<Longrightarrow> to_collect l \<Longrightarrow> parent_stage p l c"
  "parent_stage p k c \<Longrightarrow> to_collect c \<Longrightarrow> to_collect l \<Longrightarrow> parent_stage p k l"
  by (cases k; cases c; cases p; simp add: parent_stage_def)+

lemma family_child:
  assumes "family_ok s" "life s x = At p" "x \<noteq> Parent" "life u = (life s)(x := l)" "to_collect l"
  shows "family_ok u"
proof -
  have l: "l \<noteq> Absent" "\<not> reaped l" using assms(5) by (cases l; simp)+
  show ?thesis
  proof (cases x)
    case Ls
    then show ?thesis using assms l parent_stage_child(1) [of _ "life s Ls" "life s Wc" l]
      by (auto simp: family_ok_def)
  next
    case Wc
    then show ?thesis using assms l parent_stage_child(2) [of _ "life s Ls" "life s Wc" l]
      by (auto simp: family_ok_def)
  qed (use assms in \<open>auto simp: family_ok_def\<close>)
qed

lemma family_parent:
  assumes "family_ok s" "life u = (life s)(Parent := l)" "l \<noteq> Absent" "\<not> reaped l"
    "\<And>p. l = At p \<Longrightarrow> parent_stage p (life s Ls) (life s Wc)"
    "l = Zombie EXIT_SUCCESS \<Longrightarrow> reaped (life s Ls) \<and> reaped (life s Wc)"
  shows "family_ok u"
  using assms by (auto simp: family_ok_def)

lemma run_life:
  "run_first cap x s = Some u \<Longrightarrow> life s x = At p \<Longrightarrow> \<exists>l. life u = (life s)(x := l) \<and> to_collect l"
  "run_second x s = Some u \<Longrightarrow> life s x = At p \<Longrightarrow> \<exists>l. life u = (life s)(x := l) \<and> to_collect l"
  by (erule run_first_Some; force simp: life_leave) (erule run_second_Some; force simp: life_leave)

lemma child_life:
  assumes "life s x = At p" "lswc_main cap x ok p s = Some u" "owner p \<noteq> Parent"
  shows "\<exists>l. life u = (life s)(x := l) \<and> to_collect l"
  using assms run_life(1) [of cap x s u p] run_life(2) [of x s u p]
  by (cases p) (auto simp: lswc_main_def Let_def life_simps split: if_splits prod.splits)

lemma parent_life:
  assumes "family_ok s" "life s Parent = At p" "lswc_main cap Parent ok p s = Some u" "owner p = Parent"
  shows "family_ok u"
proof -
  have st: "parent_stage p (life s Ls) (life s Wc)" using assms(1,2) by (simp add: family_ok_def)
  have fail: "family_ok (leave Parent EXIT_FAILURE s)"
    by (rule family_parent [OF assms(1)]) (auto simp: life_leave EXIT_FAILURE_def EXIT_SUCCESS_def)
  have chk: "family_ok (checked Parent res q s)" if "parent_stage q (life s Ls) (life s Wc)" for res q
    by (rule family_parent [OF assms(1) life_checked]) (use that in \<open>auto simp: EXIT_FAILURE_def EXIT_SUCCESS_def split: if_splits\<close>)
  show ?thesis
  proof (cases p)
    case PPipe
    then show ?thesis using st assms(1,3) life_pipe [of Parent ok s] life_pipe_other [of _ Parent ok s]
      by (simp add: lswc_main_def family_ok_def parent_stage_def)
        (auto simp: EXIT_FAILURE_def EXIT_SUCCESS_def parent_stage_def)
  next
    case PFork1
    then show ?thesis using st assms(1,3) fail
      by (auto simp: lswc_main_def family_ok_def parent_stage_def fork_child_def life_move split: if_splits)
  next
    case PFork2
    then show ?thesis using st assms(1,3) fail
      by (auto simp: lswc_main_def family_ok_def parent_stage_def fork_child_def life_move split: if_splits)
  next
    case PExit
    then show ?thesis using st assms(1,3)
      by (auto simp: lswc_main_def family_ok_def parent_stage_def life_leave)
  qed (use st assms(3,4) fail chk in \<open>auto simp: lswc_main_def Let_def parent_stage_def split: if_splits prod.splits\<close>)
qed

lemma family_step:
  assumes "lswc_inv t out s" "lswc_step cap s e = Some u"
  shows "family_ok u"
proof (cases e)
  case (Do x ok)
  then obtain p where p: "life s x = At p" "lswc_main cap x ok p s = Some u"
    using assms(2) by (auto simp: pipeline_step_def split: life.splits)
  have f: "family_ok s" and o: "x = owner p" using assms(1) place_owner [OF _ p(1)] by (auto simp: lswc_inv_def)
  show ?thesis
  proof (cases "x = Parent")
    case True
    then show ?thesis using parent_life f p o by metis
  next
    case False
    then show ?thesis using child_life [OF p] family_child [OF f p(1)] o by metis
  qed
next
  case (Collect x c)
  then have "collect x c s = Some u" using assms(2) by (simp add: pipeline_step_def)
  then show ?thesis
  proof (cases rule: collect_Some)
    case (1 p q st)
    have "x = owner p" using assms(1) place_owner [OF _ 1(1)] by (auto simp: lswc_inv_def)
    moreover from 1(2) have "p = PWait1 \<and> q = PWait2 \<or> p = PWait2 \<and> q = PExit" by (auto elim!: after_wait.elims)
    ultimately show ?thesis using 1 assms(1) by (cases c) (auto simp: lswc_inv_def family_ok_def parent_stage_def life_move)
  qed
qed


section \<open>What goes through the pipe\<close>

text \<open>A step that is not one of the two programs leaves the data and does not end with success.\<close>

lemma reaped_over: "reaped l \<Longrightarrow> over l"
  by (cases l) auto

lemma over_ended: "ended_with st l \<Longrightarrow> over l"
  by (cases l) auto

lemma data_child:
  assumes "data_ok out s" "todo u = todo s" "buf u = buf s" "taken u = taken s" "eof u = eof s"
    and "life u Ls = life s Ls \<or> \<not> over (life s Ls) \<and> \<not> ended_with EXIT_SUCCESS (life u Ls)"
    and "life u Wc = life s Wc \<or> \<not> over (life s Wc) \<and> \<not> ended_with EXIT_SUCCESS (life u Wc)"
  shows "data_ok out u"
  using assms over_ended [of EXIT_SUCCESS "life s Wc"] by (auto simp: data_ok_def)

lemma main_data:
  assumes "life s x = At p" "lswc_main cap x ok p s = Some u" "p \<notin> {LRun, WRun}"
  shows "todo u = todo s \<and> buf u = buf s \<and> taken u = taken s \<and> eof u = eof s"
  using assms by (cases p) (auto simp: lswc_main_def Let_def fork_child_def split: if_splits prod.splits)

lemma main_life:
  assumes "life s x = At p" "lswc_main cap x ok p s = Some u" "p \<notin> {LRun, WRun}" "x = owner p" "y \<noteq> Parent"
    "family_ok s"
  shows "life u y = life s y \<or> \<not> over (life s y) \<and> \<not> ended_with EXIT_SUCCESS (life u y)"
  using assms life_pipe_other [of y x ok s]
  by (cases p; cases y) (auto simp: lswc_main_def Let_def life_simps EXIT_FAILURE_def EXIT_SUCCESS_def family_ok_def
      parent_stage_def split: if_splits prod.splits)

lemma first_data:
  assumes "lswc_inv t out s" "life s Ls = At LRun" "run_first cap Ls s = Some u"
  shows "data_ok out u"
proof -
  have d: "data_ok out s" and o: "file_of (fds s Ls) STDOUT_FILENO = Some WriteEnd"
    using assms exec_ls_stdout [of t s Ls] by (auto simp: lswc_inv_def)
  from assms(3) show ?thesis by (rule run_first_Some)
    (use d o assms(2) in \<open>auto simp: data_ok_def life_leave EXIT_SUCCESS_def\<close>)
qed

lemma no_writer_left:
  assumes "lswc_inv t out s" "\<not> ends WriteEnd s" "life s Wc = At WRun"
  shows "over (life s Ls)"
proof -
  have i: "places_ok t s" "no_ends t" "family_ok s" using assms(1) by (auto simp: lswc_inv_def)
  have "life s Ls \<noteq> At p" for p
  proof
    assume l: "life s Ls = At p"
    then have "owner p = Ls" using place_owner [OF i(1) l] by simp
    then have "write_place p" by (cases p) (auto simp: write_place_def)
    then show False using has_end_write_place [OF i(1,2) l] assms(2) by (simp add: ends_def)
  qed
  then show ?thesis using i(3) assms(3) by (cases "life s Ls") (auto simp: family_ok_def)
qed

lemma second_data:
  assumes "lswc_inv t out s" "life s Wc = At WRun" "run_second Wc s = Some u"
  shows "data_ok out u"
proof -
  have d: "data_ok out s" and o: "file_of (fds s Wc) STDIN_FILENO = Some ReadEnd"
    using assms exec_wc_stdin [of t s Wc] by (auto simp: lswc_inv_def)
  from assms(3) show ?thesis by (rule run_second_Some)
    (use d o assms(2) no_writer_left [OF assms(1) _ assms(2)] in \<open>auto simp: data_ok_def life_leave EXIT_SUCCESS_def\<close>)
qed

lemma data_step:
  assumes "lswc_inv t out s" "lswc_step cap s e = Some u"
  shows "data_ok out u"
proof (cases e)
  case (Do x ok)
  then obtain p where p: "life s x = At p" "lswc_main cap x ok p s = Some u"
    using assms(2) by (auto simp: pipeline_step_def split: life.splits)
  have f: "family_ok s" "data_ok out s" and o: "x = owner p"
    using assms(1) place_owner [OF _ p(1)] by (auto simp: lswc_inv_def)
  consider "p = LRun" | "p = WRun" | "p \<notin> {LRun, WRun}" by auto
  then show ?thesis
  proof cases
    case 1
    then show ?thesis using p o first_data [OF assms(1), of cap u] by (simp add: lswc_main_def)
  next
    case 2
    then show ?thesis using p o second_data [OF assms(1), of u] by (simp add: lswc_main_def)
  next
    case 3
    note n = main_life [OF p 3 o _ f(1)]
    show ?thesis using main_data [OF p 3] n [of Ls] n [of Wc] by (intro data_child [OF f(2)]) auto
  qed
next
  case (Collect x c)
  then have "collect x c s = Some u" using assms(2) by (simp add: pipeline_step_def)
  then show ?thesis
  proof (cases rule: collect_Some)
    case (1 p q st)
    have "x = owner p" using assms(1) place_owner [OF _ 1(1)] by (auto simp: lswc_inv_def)
    with 1(2) have "x = Parent" by (auto elim!: after_wait.elims)
    then show ?thesis using 1 assms(1) by (cases c) (auto simp: lswc_inv_def data_ok_def life_move)
  qed
qed

lemma lswc_inv_start: "no_ends t \<Longrightarrow> lswc_inv t out (pipeline_start t out)"
  by (auto simp: lswc_inv_def places_ok_def family_ok_def data_ok_def pipeline_start_def parent_stage_def
      lswc_place_def lswc_table_def proc_ok_At intro!: procs_okI)

lemma lswc_inv_step: "lswc_inv t out s \<Longrightarrow> lswc_step cap s e = Some u \<Longrightarrow> lswc_inv t out u"
  using places_step [of t out s cap e u] family_step [of t out s cap e u] data_step [of t out s cap e u]
  by (auto simp: lswc_inv_def)


section \<open>No process waits for ever\<close>

text \<open>
  What makes a pipeline come to its end, whatever its program: a process waits only for a child,
  for room in the pipe or for bytes in it, and then it keeps no end of the pipe that somebody else
  waits for.
\<close>

definition straight :: "place \<Rightarrow> bool" where
  "straight p \<longleftrightarrow> p \<notin> {PWait1, PWait2, LRun, WRun}"

fun all_ok :: "event \<Rightarrow> bool" where
  "all_ok (Do x ok) = ok"
| "all_ok (Collect x c) = True"

lemma parent_iff:
  "parent_of c = Some Parent \<longleftrightarrow> c = Ls \<or> c = Wc"
  "parent_of c = Some Ls \<longleftrightarrow> c = Extra"
  "parent_of c \<noteq> Some Wc" "parent_of c \<noteq> Some Extra"
  by (cases c; simp)+

lemma has_childrenD: "has_children x s \<Longrightarrow> \<exists>c. parent_of c = Some x \<and> to_collect (life s c)"
  by (auto simp: has_children_def parent_iff)

locale pipeline =
  fixes program :: "role \<Rightarrow> bool \<Rightarrow> place \<Rightarrow> pipeline_state \<Rightarrow> pipeline_state option"
    and cap :: nat
    and inv :: "pipeline_state \<Rightarrow> bool"
  assumes room: "0 < cap"
    and straight_moves: "straight p \<Longrightarrow> program x True p s \<noteq> None"
    and childless_moves: "p = PWait1 \<or> p = PWait2 \<Longrightarrow> \<not> has_children x s \<Longrightarrow> program x True p s \<noteq> None"
    and program_first: "program x True LRun s = run_first cap x s"
    and program_second: "program x True WRun s = run_second x s"
    and closed_over: "inv s \<Longrightarrow> (\<And>p. life s x \<noteq> At p) \<Longrightarrow> fds s x = []"
    and first_end: "inv s \<Longrightarrow> life s x = At LRun \<Longrightarrow> \<not> has_end ReadEnd (fds s x)"
    and second_end: "inv s \<Longrightarrow> life s x = At WRun \<Longrightarrow> \<not> has_end WriteEnd (fds s x)"
    and wait_end: "inv s \<Longrightarrow> life s x = At p \<Longrightarrow> p = PWait1 \<or> p = PWait2 \<Longrightarrow> has_children x s \<Longrightarrow>
        (\<And>c st. parent_of c = Some x \<Longrightarrow> life s c \<noteq> Zombie st) \<Longrightarrow>
        \<not> has_end ReadEnd (fds s x) \<and> \<not> has_end WriteEnd (fds s x) \<or> (\<exists>c q. life s c = At q \<and> straight q)"
begin

lemma do_moves: "life s x = At p \<Longrightarrow> program x True p s \<noteq> None \<Longrightarrow> \<exists>e u. all_ok e \<and> pipeline_step program s e = Some u"
  by (intro exI [of _ "Do x True"]) (auto simp: pipeline_step_def)

lemma zombie_moves:
  "life s x = At p \<Longrightarrow> p = PWait1 \<or> p = PWait2 \<Longrightarrow> parent_of c = Some x \<Longrightarrow> life s c = Zombie st \<Longrightarrow>
     \<exists>e u. all_ok e \<and> pipeline_step program s e = Some u"
  by (intro exI [of _ "Collect x c"]) (auto simp: pipeline_step_def collect_def place_of_def)

text \<open>In a state that stands still, a process that has not ended is blocked by the pipe or a child.\<close>

lemma blocked:
  assumes "inv s" "life s x = At p" "\<And>e. all_ok e \<Longrightarrow> pipeline_step program s e = None"
  shows "p = LRun \<and> buf s \<noteq> [] \<and> ends ReadEnd s \<or> p = WRun \<and> buf s = [] \<and> ends WriteEnd s \<or>
    (p = PWait1 \<or> p = PWait2) \<and> has_children x s \<and> \<not> has_end ReadEnd (fds s x) \<and> \<not> has_end WriteEnd (fds s x)"
proof -
  have n: "program y True q s = None" if "life s y = At q" for y q
    using assms(3) do_moves [OF that] by (metis option.distinct(1))
  have "\<not> straight p" using n [OF assms(2)] straight_moves by blast
  then consider "p = LRun" | "p = WRun" | "p = PWait1 \<or> p = PWait2" by (auto simp: straight_def)
  then show ?thesis
  proof cases
    case 1
    then have "run_first cap x s = None" using n [OF assms(2)] program_first by simp
    then show ?thesis using 1 room
      by (auto simp: run_first_def split: list.splits option.splits open_file.splits if_splits)
  next
    case 2
    then have "run_second x s = None" using n [OF assms(2)] program_second by simp
    then show ?thesis using 2
      by (auto simp: run_second_def split: list.splits option.splits open_file.splits if_splits)
  next
    case 3
    then have "has_children x s" using n [OF assms(2)] childless_moves by blast
    moreover have "\<not> (\<exists>c q. life s c = At q \<and> straight q)" using n straight_moves by blast
    moreover have "life s c \<noteq> Zombie st" if "parent_of c = Some x" for c st
      using zombie_moves [OF assms(2) 3 that] assms(3) by fastforce
    ultimately show ?thesis using wait_end [OF assms(1,2) 3] 3 by blast
  qed
qed

lemma holder:
  assumes "inv s" "ends f s"
  obtains x p where "life s x = At p" "has_end f (fds s x)"
proof -
  obtain x where x: "has_end f (fds s x)" using assms(2) by (auto simp: ends_def)
  then have "fds s x \<noteq> []" by (auto simp: has_end_def)
  then show ?thesis using closed_over [OF assms(1), of x] x that by blast
qed

text \<open>
  Who waits for room has a reader who could read, who waits for bytes a writer who could write;
  and below a process that waits for a child there is one that does not.
\<close>

lemma nobody_in_pipe:
  assumes "inv s" "\<And>e. all_ok e \<Longrightarrow> pipeline_step program s e = None" "life s x = At p"
  shows "p \<noteq> LRun \<and> p \<noteq> WRun"
proof -
  note b = blocked [OF assms(1) _ assms(2)]
  have l: False if "life s y = At LRun" for y
  proof -
    have "buf s \<noteq> []" "ends ReadEnd s" using b [OF that] by auto
    then obtain z q where "life s z = At q" "has_end ReadEnd (fds s z)" using holder [OF assms(1)] by blast
    then show False using b [of z q] first_end [OF assms(1), of z] \<open>buf s \<noteq> []\<close> by auto
  qed
  have w: False if "life s y = At WRun" for y
  proof -
    have "buf s = []" "ends WriteEnd s" using b [OF that] by auto
    then obtain z q where "life s z = At q" "has_end WriteEnd (fds s z)" using holder [OF assms(1)] by blast
    then show False using b [of z q] second_end [OF assms(1), of z] \<open>buf s = []\<close> by auto
  qed
  show ?thesis using l w assms(3) by blast
qed

lemma waits_for_child:
  assumes "inv s" "\<And>e. all_ok e \<Longrightarrow> pipeline_step program s e = None" "life s x = At p"
  shows "\<exists>c. parent_of c = Some x \<and> (\<exists>q. life s c = At q)"
proof -
  have w: "p = PWait1 \<or> p = PWait2" "has_children x s"
    using blocked [OF assms(1,3,2)] nobody_in_pipe [OF assms] by auto
  then obtain c where c: "parent_of c = Some x" "to_collect (life s c)" using has_childrenD by blast
  have "life s c \<noteq> Zombie st" for st using zombie_moves [OF assms(3) w(1) c(1)] assms(2) by fastforce
  then show ?thesis using c by (cases "life s c") auto
qed

lemma pipeline_moves:
  assumes "inv s" "life s x = At p"
  shows "\<exists>e u. all_ok e \<and> pipeline_step program s e = Some u"
proof (rule ccontr)
  assume "\<not> ?thesis"
  then have n: "\<And>e. all_ok e \<Longrightarrow> pipeline_step program s e = None" by force
  have k: "\<exists>c. parent_of c = Some y \<and> (\<exists>q. life s c = At q)" if "\<exists>q. life s y = At q" for y
    using waits_for_child [OF assms(1) n] that by blast
  have leaf: "life s y \<noteq> At q" if "y = Wc \<or> y = Extra" for y q
    using k [of y] that by (auto simp: parent_iff)
  have ls: "life s Ls \<noteq> At q" for q using k [of Ls] leaf by (auto simp: parent_iff)
  have "life s Parent \<noteq> At q" for q using k [of Parent] leaf ls by (auto simp: parent_iff)
  then show False using assms(2) leaf ls by (cases x) auto
qed

end


lemma lswc_has_children:
  assumes "lswc_inv t out s" "life s x = At p" "p = PWait1 \<or> p = PWait2"
  shows "has_children x s"
proof -
  have "x = Parent" using assms place_owner [of t s x p] by (auto simp: lswc_inv_def)
  then show ?thesis using assms by (auto simp: lswc_inv_def family_ok_def parent_stage_def has_children_def)
qed

interpretation lswc: pipeline "lswc_main (Suc cap)" "Suc cap" "lswc_inv t out" for cap t out
proof
  fix s x
  assume i: "lswc_inv t out s"
  then have p: "places_ok t s" "no_ends t" by (auto simp: lswc_inv_def)
  show "fds s x = []" if "\<And>p. life s x \<noteq> At p"
    using procs_ok_over p(1) that by (auto simp: places_ok_def)
  show "\<not> has_end ReadEnd (fds s x)" if "life s x = At LRun"
    using has_end_read_place [OF p that] by (simp add: read_place_def)
  show "\<not> has_end WriteEnd (fds s x)" if "life s x = At WRun"
    using has_end_write_place [OF p that] by (simp add: write_place_def)
  show "\<not> has_end ReadEnd (fds s x) \<and> \<not> has_end WriteEnd (fds s x) \<or> (\<exists>c q. life s c = At q \<and> straight q)"
    if "life s x = At q" "q = PWait1 \<or> q = PWait2" for q
    using has_end_read_place [OF p that(1)] has_end_write_place [OF p that(1)] that(2)
    by (auto simp: read_place_def write_place_def)
next
  fix p x s
  show "lswc_main (Suc cap) x True p s \<noteq> None" if "straight p"
    using that by (cases p) (auto simp: lswc_main_def Let_def straight_def split: prod.splits)
  show "lswc_main (Suc cap) x True p s \<noteq> None" if "p = PWait1 \<or> p = PWait2" "\<not> has_children x s"
    using that by (auto simp: lswc_main_def)
qed (auto simp: lswc_main_def)

section \<open>How long a run can be\<close>

fun rank :: "place \<Rightarrow> nat" where
  "rank PPipe = 40" | "rank PFork1 = 39" | "rank PFork2 = 17" | "rank PClose1 = 6" | "rank PClose2 = 5"
| "rank PWait1 = 4" | "rank PWait2 = 3" | "rank PExit = 2"
| "rank LClose1 = 21" | "rank LDup = 20" | "rank LClose2 = 19" | "rank LExec = 18" | "rank LRun = 2"
| "rank WClose1 = 10" | "rank WDup = 9" | "rank WClose2 = 8" | "rank WExec = 7" | "rank WRun = 2"

fun life_rank :: "life \<Rightarrow> nat" where
  "life_rank (At p) = rank p"
| "life_rank (Zombie _) = 1"
| "life_rank _ = 0"

definition ranks :: "(role \<Rightarrow> life) \<Rightarrow> nat" where
  "ranks f = life_rank (f Parent) + life_rank (f Ls) + life_rank (f Wc) + life_rank (f Extra)"

definition pipeline_mu :: "pipeline_state \<Rightarrow> nat" where
  "pipeline_mu s = 2 * length (todo s) + length (buf s) + ranks (life s)"

lemma rank_pos: "2 \<le> rank p"
  by (cases p) auto

lemma ranks_upd: "ranks (f(x := l)) + life_rank (f x) = ranks f + life_rank l"
  by (cases x) (auto simp: ranks_def)

lemma mu_leave: "life s x = At p \<Longrightarrow> pipeline_mu (leave x st s) < pipeline_mu s"
  using ranks_upd [of "life s" x "Zombie st"] rank_pos [of p] by (simp add: pipeline_mu_def life_leave)

lemma mu_move: "life s x = At p \<Longrightarrow> rank q < rank p \<Longrightarrow> pipeline_mu (move x t q s) < pipeline_mu s"
  using ranks_upd [of "life s" x "At q"] by (simp add: pipeline_mu_def life_move)

lemma mu_checked: "life s x = At p \<Longrightarrow> rank q < rank p \<Longrightarrow> pipeline_mu (checked x res q s) < pipeline_mu s"
  using mu_leave mu_move by (auto simp: checked_def split: option.splits)

lemma mu_pipe: "life s x = At PPipe \<Longrightarrow> pipeline_mu (make_pipe x ok s) < pipeline_mu s"
  using mu_leave [of s x PPipe] mu_move [of "s\<lparr>pfd := rw\<rparr>" x PPipe PFork1 for rw]
  by (auto simp: make_pipe_def pipeline_mu_def split: option.splits)

lemma mu_fork:
  assumes "life s x = At p" "rank q + rank q' < rank p"
  shows "pipeline_mu (fork_child x ok c q q' s) < pipeline_mu s"
proof (cases ok)
  case True
  have "ranks ((life s)(c := At q)) \<le> ranks (life s) + rank q"
    using ranks_upd [of "life s" c "At q"] by simp
  moreover have "ranks (((life s)(c := At q))(x := At q')) + life_rank (((life s)(c := At q)) x)
      = ranks ((life s)(c := At q)) + rank q'"
    using ranks_upd [of "(life s)(c := At q)" x "At q'"] by simp
  moreover have "ranks ((life s)(x := At q')) + rank p = ranks (life s) + rank q'"
    using ranks_upd [of "life s" x "At q'"] assms(1) by simp
  ultimately show ?thesis using True assms
    by (cases "c = x") (auto simp: fork_child_def pipeline_mu_def life_move)
qed (simp add: fork_child_def mu_leave [OF assms(1)])

lemma mu_first: "life s x = At p \<Longrightarrow> run_first cap x s = Some u \<Longrightarrow> pipeline_mu u < pipeline_mu s"
  by (erule run_first_Some) (auto simp: mu_leave, auto simp: pipeline_mu_def)

lemma mu_second: "life s x = At p \<Longrightarrow> run_second x s = Some u \<Longrightarrow> pipeline_mu u < pipeline_mu s"
  using ranks_upd [of "life s" x "Zombie EXIT_SUCCESS"] rank_pos [of p]
  by (elim run_second_Some) (auto simp: mu_leave, auto simp: pipeline_mu_def life_leave)

lemma mu_collect: "collect x c s = Some u \<Longrightarrow> pipeline_mu u < pipeline_mu s"
proof (erule collect_Some)
  fix p q st
  assume a: "life s x = At p" "after_wait p = Some q" "life s c = Zombie st" "parent_of c = Some x"
    "u = move x (fds s x) q (s\<lparr>life := (life s)(c := Reaped st)\<rparr>)"
  have "rank q < rank p" using a(2) by (auto elim!: after_wait.elims)
  moreover have "c \<noteq> x" using a(1,3) by auto
  ultimately have "pipeline_mu u < pipeline_mu (s\<lparr>life := (life s)(c := Reaped st)\<rparr>)"
    using a by (auto intro!: mu_move [where p = p])
  also have "\<dots> \<le> pipeline_mu s"
    using ranks_upd [of "life s" c "Reaped st"] a(3) by (simp add: pipeline_mu_def)
  finally show "pipeline_mu u < pipeline_mu s" .
qed

lemmas mu_rules = mu_leave mu_move mu_checked mu_pipe mu_fork mu_first mu_second

lemma lswc_mu: "lswc_step cap s e = Some u \<Longrightarrow> pipeline_mu u < pipeline_mu s"
proof (cases e)
  case (Do x ok)
  moreover assume "lswc_step cap s e = Some u"
  ultimately obtain p where p: "life s x = At p" "lswc_main cap x ok p s = Some u"
    by (auto simp: pipeline_step_def split: life.splits)
  note r = mu_leave [OF p(1)] mu_move [OF p(1)] mu_checked [OF p(1)] mu_fork [OF p(1)] mu_first [OF p(1)] mu_second [OF p(1)]
  show ?thesis using p(2) mu_pipe [of s x ok] p(1)
    by (cases p) (auto simp: lswc_main_def Let_def r split: if_splits prod.splits)
qed (auto simp: pipeline_step_def mu_collect)

lemma pipeline_mu_start: "pipeline_mu (pipeline_start t out) = 2 * length out + 40"
  by (simp add: pipeline_mu_def pipeline_start_def ranks_def)

definition nobody_left :: "pipeline_state \<Rightarrow> bool" where
  "nobody_left s \<longleftrightarrow> (\<forall>x p. life s x \<noteq> At p)"

interpretation lswc_run: machine_term "lswc_step (Suc cap)" "pipeline_start t out"
  "\<lambda>s. no_ends t \<longrightarrow> lswc_inv t out s" all_ok "\<lambda>s. no_ends t \<longrightarrow> nobody_left s" pipeline_mu for cap t out
proof
  show "no_ends t \<longrightarrow> lswc_inv t out (pipeline_start t out)" using lswc_inv_start by blast
  fix s e u
  show "no_ends t \<longrightarrow> lswc_inv t out u" if "no_ends t \<longrightarrow> lswc_inv t out s" "lswc_step (Suc cap) s e = Some u"
    using that lswc_inv_step by blast
  show "pipeline_mu u < pipeline_mu s" if "lswc_step (Suc cap) s e = Some u" using that by (rule lswc_mu)
  show "\<exists>e u. all_ok e \<and> lswc_step (Suc cap) s e = Some u"
    if "no_ends t \<longrightarrow> lswc_inv t out s" "\<not> (no_ends t \<longrightarrow> nobody_left s)"
    using that lswc.pipeline_moves unfolding nobody_left_def by blast
qed


section \<open>When every call succeeds\<close>

definition all_well :: "pipeline_state \<Rightarrow> bool" where
  "all_well s \<longleftrightarrow> (\<forall>x st. ended_with st (life s x) \<longrightarrow> st = EXIT_SUCCESS)"

lemma over_iff: "over l \<longleftrightarrow> (\<exists>st. ended_with st l)"
  by (cases l) auto

lemma all_well_over:
  "all_well s \<Longrightarrow> over (life s x) \<Longrightarrow> ended_with EXIT_SUCCESS (life s x)"
  "all_well s \<Longrightarrow> life s x = Zombie st \<Longrightarrow> st = EXIT_SUCCESS"
  unfolding all_well_def over_iff by (blast, metis ended_with.simps(1))

lemma all_well_upd:
  "all_well s \<Longrightarrow> life u = (life s)(x := l) \<Longrightarrow> (\<And>st. ended_with st l \<Longrightarrow> st = EXIT_SUCCESS) \<Longrightarrow> all_well u"
  by (simp add: all_well_def)

lemma well_move: "all_well s \<Longrightarrow> all_well (move x v q s)"
  by (rule all_well_upd [OF _ life_move]) simp_all

lemma calls_succeed:
  assumes "pipe_made t r w"
  shows "close_fd r (t[r := Some ReadEnd, w := Some WriteEnd]) \<noteq> None"
    and "close_fd w (t[r := Some ReadEnd, w := Some WriteEnd]) \<noteq> None"
    and "close_fd w (t[w := Some WriteEnd]) \<noteq> None"
    and "dup2_fd w STDOUT_FILENO (t[w := Some WriteEnd]) \<noteq> None"
    and "dup2_fd r STDIN_FILENO (t[r := Some ReadEnd]) \<noteq> None"
    and "close_fd w (t[w := Some WriteEnd, Suc 0 := Some WriteEnd]) \<noteq> None"
    and "close_fd r (t[r := Some ReadEnd, 0 := Some ReadEnd]) \<noteq> None"
  using assms by (auto simp: pipe_made_def close_fd_def dup2_fd_def STDOUT_FILENO_def STDIN_FILENO_def)

lemma reader_there:
  assumes "lswc_inv t out s" "all_well s" "life s Ls = At LRun"
  shows "ends ReadEnd s"
proof -
  have i: "places_ok t s" "no_ends t" "family_ok s" "data_ok out s" using assms(1) by (auto simp: lswc_inv_def)
  show ?thesis
  proof (cases "life s Wc")
    case Absent
    have "life s Parent \<noteq> Zombie st" for st
      using all_well_over(2) [OF assms(2), of Parent st] assms(3) i(3) by (auto simp: family_ok_def)
    then obtain p where p: "life s Parent = At p" using i(3) by (cases "life s Parent") (auto simp: family_ok_def)
    then have "p = PFork2" using i(3) Absent assms(3)
      by (cases p) (auto simp: family_ok_def parent_stage_def)
    then show ?thesis using ends_ReadEnd [OF i(1,2) p] by (simp add: read_place_def)
  next
    case (At q)
    then have "Wc = owner q" by (rule place_owner [OF i(1)])
    then have "read_place q" by (cases q) (auto simp: read_place_def)
    then show ?thesis by (rule ends_ReadEnd [OF i(1,2) At])
  next
    case (Zombie st)
    then have "eof s" using all_well_over(1) [OF assms(2), of Wc] i(4) by (simp add: data_ok_def)
    then show ?thesis using i(4) assms(3) by (auto simp: data_ok_def)
  next
    case (Reaped st)
    then have "eof s" using all_well_over(1) [OF assms(2), of Wc] i(4) by (simp add: data_ok_def)
    then show ?thesis using i(4) assms(3) by (auto simp: data_ok_def)
  qed
qed

lemma main_well:
  assumes "lswc_inv t out s" "all_well s" "pipe_fds t \<noteq> None" "life s x = At p" "lswc_main cap x True p s = Some u"
  shows "all_well u"
proof -
  obtain r w where rw: "pfd s = (r, w)" by (cases "pfd s")
  have i: "places_ok t s" using assms(1) by (auto simp: lswc_inv_def)
  have o: "x = owner p" by (rule place_owner [OF i assms(4)])
  have at: "fds s x = lswc_table t r w x p" "p \<noteq> PPipe \<longrightarrow> pipe_made t r w"
    using procs_okD [OF i [unfolded places_ok_def] assms(4)] rw by auto
  note go = well_move [OF assms(2)]
  have chk: "all_well (checked x res q s)" if "res \<noteq> None" for res q
    using that go by (auto simp: checked_def)
  have ex: "all_well (leave x EXIT_SUCCESS s)" by (rule all_well_upd [OF assms(2) life_leave]) simp
  show ?thesis
  proof (cases p)
    case PPipe
    then have "life u = (life s)(x := At PFork1)"
      using at assms(3,5) by (auto simp: lswc_main_def make_pipe_def lswc_table_def life_move)
    then show ?thesis by (rule all_well_upd [OF assms(2)]) simp
  next
    case PFork1
    then show ?thesis using assms(5) well_move [OF well_move [OF assms(2)]] by (auto simp: lswc_main_def fork_child_def)
  next
    case PFork2
    then show ?thesis using assms(5) well_move [OF well_move [OF assms(2)]] by (auto simp: lswc_main_def fork_child_def)
  next
    case LRun
    then have l: "life s Ls = At LRun" "run_first cap Ls s = Some u" using o assms(4,5) by (auto simp: lswc_main_def)
    from l(2) show ?thesis by (rule run_first_Some)
      (use LRun o ex assms(2) reader_there [OF assms(1,2) l(1)] exec_ls_stdout [OF i l(1)] in \<open>auto simp: all_well_def\<close>)
  next
    case WRun
    then have l: "life s Wc = At WRun" "run_second Wc s = Some u" using o assms(4,5) by (auto simp: lswc_main_def)
    from l(2) show ?thesis by (rule run_second_Some)
      (use assms(2) exec_wc_stdin [OF i l(1)] in \<open>auto simp: all_well_def life_leave\<close>)
  next
    case PWait1
    then show ?thesis using assms(5) lswc_has_children [OF assms(1,4)] by (simp add: lswc_main_def)
  next
    case PWait2
    then show ?thesis using assms(5) lswc_has_children [OF assms(1,4)] by (simp add: lswc_main_def)
  qed (use at rw assms(5) go chk ex calls_succeed [of t r w] in
      \<open>auto simp: lswc_main_def Let_def lswc_table_def split: if_splits\<close>)
qed

lemma well_step:
  assumes "lswc_inv t out s \<and> all_well s" "all_ok e" "lswc_step cap s e = Some u" "pipe_fds t \<noteq> None"
  shows "lswc_inv t out u \<and> all_well u"
proof
  show "lswc_inv t out u" using assms lswc_inv_step by blast
  show "all_well u"
  proof (cases e)
    case (Do x ok)
    then obtain p where "life s x = At p" "lswc_main cap x True p s = Some u"
      using assms(2,3) by (auto simp: pipeline_step_def split: life.splits)
    then show ?thesis using main_well assms(1,4) by blast
  next
    case (Collect x c)
    then have "collect x c s = Some u" using assms(3) by (simp add: pipeline_step_def)
    then show ?thesis
    proof (cases rule: collect_Some)
      case (1 p q st)
      then have "st = EXIT_SUCCESS" using assms(1) all_well_over(2) by blast
      then have "all_well (s\<lparr>life := (life s)(c := Reaped st)\<rparr>)"
        by (intro all_well_upd [of s _ c "Reaped st", OF conjunct2 [OF assms(1)]]) simp_all
      then show ?thesis using 1(5) well_move by simp
    qed
  qed
qed

lemma well_end:
  assumes "lswc_inv t out s" "all_well s" "nobody_left s"
  shows "life s Parent = Zombie EXIT_SUCCESS \<and> taken s = out"
proof -
  have i: "family_ok s" "data_ok out s" using assms(1) by (auto simp: lswc_inv_def)
  obtain st where st: "life s Parent = Zombie st"
    using i(1) assms(3) by (cases "life s Parent") (auto simp: family_ok_def nobody_left_def)
  then have "st = EXIT_SUCCESS" using all_well_over(2) [OF assms(2)] by blast
  then have "reaped (life s Ls)" "reaped (life s Wc)" using i(1) st by (auto simp: family_ok_def)
  then have "ended_with EXIT_SUCCESS (life s Ls)" "ended_with EXIT_SUCCESS (life s Wc)"
    using all_well_over(1) [OF assms(2)] reaped_over by blast+
  then show ?thesis using i(2) st \<open>st = EXIT_SUCCESS\<close> by (auto simp: data_ok_def)
qed


section \<open>Properties of pipe\_ls\_wc.c\<close>

text \<open>
  C14: whatever descriptors are open when pipe\_ls\_wc.c starts, and whichever calls fail, ls is
  executed with the table of the start in which only the standard output is replaced, by the
  writing end, and wc with the one in which only the standard input is replaced, by the reading
  end. When wc sees the end of its input, ls has ended and what wc has read and what ls did not
  write make up its output; if ls ended with success, wc has read all of it.
\<close>

theorem lswc_delivers:
  assumes "no_ends t" "reach (lswc_step (Suc cap)) (pipeline_start t out) s"
  shows "(life s Ls = At LRun \<longrightarrow> fds s Ls = t[1 := Some WriteEnd]) \<and>
    (life s Wc = At WRun \<longrightarrow> fds s Wc = t[0 := Some ReadEnd]) \<and>
    (eof s \<longrightarrow> over (life s Ls) \<and> taken s @ todo s = out \<and>
       (ended_with EXIT_SUCCESS (life s Ls) \<longrightarrow> taken s = out))"
proof -
  have i: "lswc_inv t out s" using lswc_run.reach_inv [OF assms(2)] assms(1) by blast
  then have "places_ok t s" "data_ok out s" by (auto simp: lswc_inv_def)
  then show ?thesis using exec_ls_stdout(1) [of t s Ls] exec_wc_stdin(1) [of t s Wc]
    by (auto simp: data_ok_def)
qed

text \<open>
  C15: a run of pipe\_ls\_wc.c has at most 40 steps besides two for every byte that ls writes, so
  it ends, and no process is left when nothing can happen any more, whichever calls fail. When
  none fails, the parent then ends with success and wc has read the output of ls.
\<close>

theorem lswc_completes:
  assumes "no_ends t" "run (lswc_step (Suc cap)) (pipeline_start t out) es = Some s"
  shows "length es \<le> 2 * length out + 40 \<and>
    ((\<forall>e. all_ok e \<longrightarrow> lswc_step (Suc cap) s e = None) \<longrightarrow>
       nobody_left s \<and>
       (list_all all_ok es \<and> pipe_fds t \<noteq> None \<longrightarrow> life s Parent = Zombie EXIT_SUCCESS \<and> taken s = out))"
proof -
  have b: "length es \<le> 2 * length out + 40"
    using run_length [of "lswc_step (Suc cap)" pipeline_mu, OF _ assms(2)] lswc_mu pipeline_mu_start [of t out] by force
  have i: "lswc_inv t out s" using lswc_run.run_inv [OF assms(2)] assms(1) by blast
  have w: "all_well s" if "list_all all_ok es" "pipe_fds t \<noteq> None"
  proof -
    have "lswc_inv t out (pipeline_start t out) \<and> all_well (pipeline_start t out)"
      using lswc_inv_start [OF assms(1)] by (simp add: all_well_def pipeline_start_def)
    from run_all_inv [of "\<lambda>s. lswc_inv t out s \<and> all_well s", OF _ this that(1) assms(2)]
    show ?thesis using well_step that(2) by blast
  qed
  have n: "nobody_left s" if "\<forall>e. all_ok e \<longrightarrow> lswc_step (Suc cap) s e = None"
    using lswc.pipeline_moves [OF i, of _ _ cap] that unfolding nobody_left_def by (metis option.distinct(1))
  show ?thesis using b n well_end [OF i w] by blast
qed

theorem lswc_delivers_witness:
  "\<exists>s. reach (lswc_step 1) (pipeline_start [Some (Other 0), Some (Other 1), Some (Other 2), None, None] ''ab'') s \<and>
     eof s \<and> taken s = ''ab''"
proof -
  let ?t = "[Some (Other 0), Some (Other 1), Some (Other 2), None, None]"
  have n: "no_ends ?t" by (simp add: no_ends_def has_end_def)
  have "\<exists>s. reach (lswc_step 1) (pipeline_start ?t ''ab'') s \<and>
      (eof s \<and> ended_with EXIT_SUCCESS (life s Ls))"
    by (rule run_example [where es = "replicate 3 (Do Parent True) @ replicate 5 (Do Ls True) @ [Do Parent True, Do Parent True] @
          replicate 4 (Do Wc True) @ [Do Wc True, Do Ls True, Do Ls True, Do Wc True, Do Wc True]"]) code_simp
  then show ?thesis using lswc_delivers [OF n, of 0 "''ab''"] by auto
qed

lemma ended_stands_still:
  assumes "life s Parent = Zombie st" "life s Ls = Reaped st1" "life s Wc = Reaped st2" "life s Extra = Absent"
  shows "pipeline_step program s e = None"
proof (cases e)
  case (Do x ok)
  then show ?thesis using assms by (cases x) (auto simp: pipeline_step_def)
next
  case (Collect x c)
  then show ?thesis using assms by (cases x) (auto simp: pipeline_step_def collect_def place_of_def)
qed

theorem lswc_completes_witness:
  "\<exists>s. reach (lswc_step 1) (pipeline_start [Some (Other 0), Some (Other 1), Some (Other 2), None, None] ''a'') s \<and>
     life s Parent = Zombie EXIT_SUCCESS \<and> taken s = ''a''"
proof -
  let ?t = "[Some (Other 0), Some (Other 1), Some (Other 2), None, None]"
  let ?es = "replicate 3 (Do Parent True) @ replicate 5 (Do Ls True) @ [Do Parent True, Do Parent True] @
    replicate 5 (Do Wc True) @ [Do Ls True, Do Wc True, Collect Parent Ls, Collect Parent Wc, Do Parent True]"
  have n: "no_ends ?t" by (simp add: no_ends_def has_end_def)
  have "case run (lswc_step 1) (pipeline_start ?t ''a'') ?es of None \<Rightarrow> False | Some s \<Rightarrow>
      life s Parent = Zombie (Code 0) \<and> life s Ls = Reaped (Code 0) \<and> life s Wc = Reaped (Code 0) \<and> life s Extra = Absent"
    by code_simp
  then obtain s where s: "run (lswc_step (Suc 0)) (pipeline_start ?t ''a'') ?es = Some s"
    "life s Parent = Zombie (Code 0)" "life s Ls = Reaped (Code 0)" "life s Wc = Reaped (Code 0)" "life s Extra = Absent"
    by (auto split: option.splits)
  have "\<forall>e. all_ok e \<longrightarrow> lswc_step (Suc 0) s e = None" using ended_stands_still [OF s(2-5)] by blast
  moreover have "list_all all_ok ?es" by (simp add: list_all_iff)
  moreover have "pipe_fds ?t \<noteq> None" by (simp add: pipe_fds_def)
  ultimately have "life s Parent = Zombie EXIT_SUCCESS \<and> taken s = ''a''" using lswc_completes [OF n s(1)] by blast
  then show ?thesis using run_reach [OF s(1)] by (metis One_nat_def)
qed


section \<open>The tables of 2-pipes-dup.c\<close>

text \<open>
  The program is started with a standard input and output. The child whose exec has failed keeps
  its table at the places of the parent's program.
\<close>

definition std_open :: "fdtable \<Rightarrow> bool" where
  "std_open t \<longleftrightarrow> no_ends t \<and> file_of t 0 \<noteq> None \<and> file_of t 1 \<noteq> None"

definition dup_table :: "fdtable \<Rightarrow> nat \<Rightarrow> nat \<Rightarrow> role \<Rightarrow> place \<Rightarrow> fdtable" where
  "dup_table t r w x p =
     (if x = owner p then lswc_table t r w x p
      else if x = Ls \<or> x = Extra then t[1 := Some WriteEnd] else t[0 := Some ReadEnd])"

definition dup_place :: "nat \<Rightarrow> nat \<Rightarrow> role \<Rightarrow> place \<Rightarrow> bool" where
  "dup_place r w x p \<longleftrightarrow>
     x = owner p \<or> x = Ls \<and> p \<in> {PFork2, PClose1, PClose2, PWait1, PWait2, PExit} \<or>
     x = Wc \<and> p \<in> {PClose1, PClose2, PWait1, PWait2, PExit} \<or> x = Extra \<and> p \<in> {WClose1, WDup}"

definition dup_inv :: "fdtable \<Rightarrow> pipeline_state \<Rightarrow> bool" where
  "dup_inv t s \<longleftrightarrow> std_open t \<and> procs_ok (dup_table t) dup_place t s \<and>
     (life s Parent = At PPipe \<longrightarrow> (\<forall>x. x \<noteq> Parent \<longrightarrow> life s x = Absent))"

lemma std_made:
  "std_open t \<Longrightarrow> pipe_made t r w \<Longrightarrow> r \<noteq> 0 \<and> w \<noteq> 0 \<and> r \<noteq> Suc 0 \<and> w \<noteq> Suc 0 \<and> t[r := None] = t \<and> t[w := None] = t \<and>
     t[Suc 0 := Some WriteEnd, r := None] = t[Suc 0 := Some WriteEnd] \<and>
     t[Suc 0 := Some WriteEnd, w := None] = t[Suc 0 := Some WriteEnd] \<and>
     t[0 := Some ReadEnd, r := None] = t[0 := Some ReadEnd] \<and> t[0 := Some ReadEnd, w := None] = t[0 := Some ReadEnd] \<and>
     dup2_fd r 0 (t[Suc 0 := Some WriteEnd]) = None"
proof -
  assume a: "std_open t" "pipe_made t r w"
  then have "r \<noteq> 0" "w \<noteq> 0" "r \<noteq> Suc 0" "w \<noteq> Suc 0"
    by (metis One_nat_def pipe_made_def std_open_def)+
  with a show ?thesis by (simp add: pipe_made_def dup2_fd_def update_None)
qed

lemma checked_None: "checked x None p s = leave x EXIT_FAILURE s"
  by (simp add: checked_def)

lemma dup_main_table:
  assumes "dup_inv t s" "life s x = At p" "dup_main cap x ok p s = Some u" "p \<notin> {PPipe, PFork1, PFork2}"
  shows "procs_ok (dup_table t) dup_place t u"
proof -
  obtain r w where rw: "pfd s = (r, w)" by (cases "pfd s")
  have i: "procs_ok (dup_table t) dup_place t s" and t: "std_open t" using assms(1) by (auto simp: dup_inv_def)
  have at: "dup_place r w x p" "fds s x = dup_table t r w x p" "pipe_made t r w"
    using procs_okD [OF i assms(2)] assms(4) rw by auto
  note rules = procs_ok_checked procs_ok_move procs_ok_leave
  note d = close_fd_Some dup2_fd_Some
  show ?thesis
    using i assms(3,4) at rw std_made [OF t at(3)]
    by (cases p) (auto simp: dup_main_def Let_def dup_table_def lswc_table_def dup_place_def checked_None table_rules STDIN_FILENO_def
      STDOUT_FILENO_def close_quietly_def split: if_splits dest!: d intro!: rules intro: procs_ok_first procs_ok_second)
qed


lemma dup_places:
  assumes "dup_inv t s" "life s x = At p"
  shows "dup_place (fst (pfd s)) (snd (pfd s)) x p"
    "fds s x = dup_table t (fst (pfd s)) (snd (pfd s)) x p"
    "p \<noteq> PPipe \<longrightarrow> pipe_made t (fst (pfd s)) (snd (pfd s))"
  using procs_okD [of "dup_table t" dup_place t s x p] assms by (auto simp: dup_inv_def)

lemma dup_pipe:
  assumes "dup_inv t s" "life s x = At PPipe"
  shows "dup_inv t (make_pipe x ok s)"
proof -
  have x: "x = Parent" using dup_places(1) [OF assms] by (simp add: dup_place_def)
  have t: "fds s Parent = t" using dup_places(2) [OF assms] x by (simp add: dup_table_def lswc_table_def)
  have n: "no_ends t" "procs_ok (dup_table t) dup_place t s" and l: "\<forall>y. y \<noteq> Parent \<longrightarrow> life s y = Absent"
    using assms x by (auto simp: dup_inv_def std_open_def)
  have e: "fds s y = []" if "y \<noteq> Parent" for y using procs_ok_over [OF n(2), of y] l that by auto
  have "procs_ok (dup_table t) dup_place t (make_pipe x ok s)"
  proof (cases "if ok then pipe_fds t else None")
    case None
    then show ?thesis using n(2) x t by (auto simp: make_pipe_def procs_ok_leave)
  next
    case (Some a)
    obtain r w v where a: "a = (r, w, v)" by (cases a)
    have "v = t[r := Some ReadEnd, w := Some WriteEnd]" "pipe_made t r w"
      using Some a pipe_makes [OF n(1)] pipe_fds_Some [of t] by (auto split: if_splits)
    then show ?thesis using Some a x t l e
      by (auto simp: make_pipe_def move_def dup_place_def dup_table_def lswc_table_def intro!: procs_okI)
  qed
  moreover have "life (make_pipe x ok s) Parent \<noteq> At PPipe" using life_pipe [of x ok s] x by auto
  ultimately show ?thesis using assms(1) by (auto simp: dup_inv_def)
qed

lemma dup_fork1:
  assumes "dup_inv t s" "life s x = At PFork1"
  shows "procs_ok (dup_table t) dup_place t (fork_child x ok Ls LClose1 PFork2 s)"
proof -
  have x: "x = Parent" using dup_places(1) [OF assms] by (auto simp: dup_place_def)
  show ?thesis using dup_places [OF assms] assms(1) x
    by (intro procs_ok_fork) (auto simp: dup_inv_def dup_place_def dup_table_def lswc_table_def)
qed

lemma dup_fork2:
  assumes "dup_inv t s" "life s x = At PFork2"
  shows "procs_ok (dup_table t) dup_place t (fork_child x ok (if x = Parent then Wc else Extra) WClose1 PClose1 s)"
proof -
  have "x = Parent \<or> x = Ls" using dup_places(1) [OF assms] by (auto simp: dup_place_def)
  then show ?thesis using dup_places [OF assms] assms(1)
    by (intro procs_ok_fork) (auto simp: dup_inv_def dup_place_def dup_table_def lswc_table_def)
qed

lemma dup_not_start:
  assumes "dup_main cap x ok p s = Some u" "p \<noteq> PPipe" "life s x = At p" "life u Parent = At PPipe"
  shows "life s Parent = At PPipe \<and> x \<noteq> Parent"
  using assms
  by (cases p) (auto simp: dup_main_def Let_def life_simps split: if_splits prod.splits
      elim!: run_first_Some run_second_Some)

lemma dup_step_inv:
  assumes "dup_inv t s" "dup_step cap s e = Some u"
  shows "dup_inv t u"
proof (cases e)
  case (Do x ok)
  then obtain p where p: "life s x = At p" "dup_main cap x ok p s = Some u"
    using assms(2) by (auto simp: pipeline_step_def split: life.splits)
  show ?thesis
  proof (cases "p = PPipe")
    case True
    then show ?thesis using p dup_pipe [OF assms(1), of x ok] by (auto simp: dup_main_def)
  next
    case False
    have "procs_ok (dup_table t) dup_place t u"
    proof (cases "p \<in> {PFork1, PFork2}")
      case True
      then show ?thesis using p dup_fork1 [OF assms(1), of x ok] dup_fork2 [OF assms(1), of x ok]
        by (auto simp: dup_main_def)
    next
      case False
      then show ?thesis using dup_main_table [OF assms(1) p] \<open>p \<noteq> PPipe\<close> by blast
    qed
    moreover have "life u Parent \<noteq> At PPipe"
    proof
      assume "life u Parent = At PPipe"
      then have "life s Parent = At PPipe" "x \<noteq> Parent" using dup_not_start [OF p(2) False p(1)] by auto
      then show False using assms(1) p(1) by (auto simp: dup_inv_def)
    qed
    ultimately show ?thesis using assms(1) by (simp add: dup_inv_def)
  qed
next
  case (Collect x c)
  then have c: "collect x c s = Some u" using assms(2) by (simp add: pipeline_step_def)
  then obtain p q st where q: "life s x = At p" "after_wait p = Some q" "life s c = Zombie st" "parent_of c = Some x"
    "u = move x (fds s x) q (s\<lparr>life := (life s)(c := Reaped st)\<rparr>)" by (rule collect_Some)
  have i: "procs_ok (dup_table t) dup_place t s" using assms(1) by (simp add: dup_inv_def)
  have "procs_ok (dup_table t) dup_place t u"
    by (rule procs_ok_collect [OF i c])
      (use dup_places(1) [OF assms(1)] in
        \<open>force elim!: after_wait.elims simp: dup_place_def dup_table_def lswc_table_def\<close>)
  moreover have "life u Parent \<noteq> At PPipe"
    using q assms(1) by (cases x; cases c) (auto simp: life_move dup_inv_def elim!: after_wait.elims)
  ultimately show ?thesis using assms(1) by (simp add: dup_inv_def)
qed


lemma dup_inv_start: "std_open t \<Longrightarrow> dup_inv t (pipeline_start t out)"
  by (auto simp: dup_inv_def pipeline_start_def dup_place_def dup_table_def lswc_table_def proc_ok_At intro!: procs_okI)

lemma dup_ends:
  assumes "dup_inv t s" "life s x = At p" "p \<in> {LRun, WRun, PWait1, PWait2}"
  shows "fds s x = (if p = LRun then t[1 := Some WriteEnd] else if p = WRun then t[0 := Some ReadEnd]
      else if x = Parent then t else if x = Wc then t[0 := Some ReadEnd] else t[1 := Some WriteEnd])"
    and "1 < length t" "no_ends t" "x \<noteq> Extra"
  using dup_places [OF assms(1,2)] assms(1,3) made_file
  by (auto simp: dup_table_def lswc_table_def dup_place_def dup_inv_def std_open_def)

interpretation dup: pipeline "dup_main (Suc cap)" "Suc cap" "dup_inv t" for cap t
proof
  fix s x
  assume i: "dup_inv t s"
  show "fds s x = []" if "\<And>p. life s x \<noteq> At p"
    using procs_ok_over [of "dup_table t" dup_place t s x] i that by (auto simp: dup_inv_def)
  show "\<not> has_end ReadEnd (fds s x)" if "life s x = At LRun"
    using dup_ends [OF i that] no_ends_update [of ReadEnd t 1] by (simp add: no_ends_def)
  show "\<not> has_end WriteEnd (fds s x)" if "life s x = At WRun"
    using dup_ends [OF i that] no_ends_update [of WriteEnd t 0] by (simp add: no_ends_def)
  show "\<not> has_end ReadEnd (fds s x) \<and> \<not> has_end WriteEnd (fds s x) \<or> (\<exists>c q. life s c = At q \<and> straight q)"
    if "life s x = At q" "q = PWait1 \<or> q = PWait2" "has_children x s"
      "\<And>c st. parent_of c = Some x \<Longrightarrow> life s c \<noteq> Zombie st" for q
  proof -
    note h = that
    have d: "x \<noteq> Extra" "fds s x = (if x = Parent then t else if x = Wc then t[0 := Some ReadEnd] else t[1 := Some WriteEnd])"
      "no_ends t" using dup_ends [OF i that(1)] that(2) by auto
    obtain c where c: "parent_of c = Some x" "to_collect (life s c)" using has_childrenD [OF h(3)] by blast
    show ?thesis
    proof (cases "x = Parent")
      case True
      then show ?thesis using d by (simp add: no_ends_def)
    next
      case False
      then have "c = Extra" using c(1) d(1) by (cases x) (auto simp: parent_iff)
      then obtain p where p: "life s Extra = At p" using c h(4) [of c] by (cases "life s Extra") auto
      then have "p \<in> {WClose1, WDup}" using dup_places(1) [OF i p] by (cases p) (auto simp: dup_place_def)
      then show ?thesis using p by (auto simp: straight_def)
    qed
  qed
next
  fix p x s
  show "dup_main (Suc cap) x True p s \<noteq> None" if "straight p"
    using that by (cases p) (auto simp: dup_main_def Let_def straight_def split: prod.splits)
  show "dup_main (Suc cap) x True p s \<noteq> None" if "p = PWait1 \<or> p = PWait2" "\<not> has_children x s"
    using that by (auto simp: dup_main_def)
qed (auto simp: dup_main_def)

lemma dup_mu: "dup_step cap s e = Some u \<Longrightarrow> pipeline_mu u < pipeline_mu s"
proof (cases e)
  case (Do x ok)
  moreover assume "dup_step cap s e = Some u"
  ultimately obtain p where p: "life s x = At p" "dup_main cap x ok p s = Some u"
    by (auto simp: pipeline_step_def split: life.splits)
  note r = mu_leave [OF p(1)] mu_move [OF p(1)] mu_checked [OF p(1)] mu_fork [OF p(1)] mu_first [OF p(1)] mu_second [OF p(1)]
  show ?thesis using p(2) mu_pipe [of s x ok] p(1)
    by (cases p) (auto simp: dup_main_def Let_def r mu_fork split: if_splits prod.splits)
qed (auto simp: pipeline_step_def mu_collect)

interpretation dup_run: machine_term "dup_step (Suc cap)" "pipeline_start t out"
  "\<lambda>s. std_open t \<longrightarrow> dup_inv t s" all_ok "\<lambda>s. std_open t \<longrightarrow> nobody_left s" pipeline_mu for cap t out
proof
  show "std_open t \<longrightarrow> dup_inv t (pipeline_start t out)" using dup_inv_start by blast
  fix s e u
  show "std_open t \<longrightarrow> dup_inv t u" if "std_open t \<longrightarrow> dup_inv t s" "dup_step (Suc cap) s e = Some u"
    using that dup_step_inv by blast
  show "pipeline_mu u < pipeline_mu s" if "dup_step (Suc cap) s e = Some u" using that by (rule dup_mu)
  show "\<exists>e u. all_ok e \<and> dup_step (Suc cap) s e = Some u"
    if "std_open t \<longrightarrow> dup_inv t s" "\<not> (std_open t \<longrightarrow> nobody_left s)"
    using that dup.pipeline_moves unfolding nobody_left_def by blast
qed

section \<open>Properties of 2-pipes-dup.c\<close>

text \<open>
  C31: started with a standard input and output, 2-pipes-dup.c ends, whichever calls fail, although a
  child whose exec fails goes on in its parent's program: a run has at most 40 steps besides two
  for every byte that ls writes, and no process is left when nothing can happen any more. ls has
  its standard output and wc its standard input in the pipe, and no other end of it.
\<close>

theorem dup_completes:
  assumes "std_open t" "run (dup_step (Suc cap)) (pipeline_start t out) es = Some s"
  shows "length es \<le> 2 * length out + 40 \<and>
    ((\<forall>e. all_ok e \<longrightarrow> dup_step (Suc cap) s e = None) \<longrightarrow> nobody_left s) \<and>
    (\<forall>x. (life s x = At LRun \<longrightarrow> fds s x = t[1 := Some WriteEnd]) \<and>
         (life s x = At WRun \<longrightarrow> fds s x = t[0 := Some ReadEnd]))"
proof -
  have "length es \<le> 2 * length out + 40"
    using run_length [of "dup_step (Suc cap)" pipeline_mu, OF _ assms(2)] dup_mu pipeline_mu_start [of t out] by force
  moreover have i: "dup_inv t s" using dup_run.run_inv [OF assms(2)] assms(1) by blast
  have "nobody_left s" if "\<forall>e. all_ok e \<longrightarrow> dup_step (Suc cap) s e = None"
    using dup.pipeline_moves [OF i, of _ _ cap] that unfolding nobody_left_def by (metis option.distinct(1))
  ultimately show ?thesis using dup_ends(1) [OF i] by auto
qed

text \<open>
  The run of the witness is also the fault of the program: exec of ls fails, the child starts a
  process of its own for wc, which cannot find its end of the pipe, waits for it and ends with
  success, as its parent does.
\<close>

theorem dup_completes_witness:
  "\<exists>s. reach (dup_step 1) (pipeline_start [Some (Other 0), Some (Other 1), Some (Other 2), None, None] []) s \<and> nobody_left s \<and>
     life s Extra = Reaped EXIT_FAILURE \<and> life s Ls = Reaped EXIT_SUCCESS \<and> life s Parent = Zombie EXIT_SUCCESS"
proof -
  let ?t = "[Some (Other 0), Some (Other 1), Some (Other 2), None, None]"
  let ?es = "[Do Parent True, Do Parent True, Do Ls True, Do Ls True, Do Ls True, Do Ls False, Do Ls True, Do Parent True,
    Do Parent True, Do Parent True, Do Wc True, Do Wc True, Do Wc True, Do Wc True, Do Extra True, Do Extra True,
    Do Ls True, Do Ls True, Collect Ls Extra, Do Ls True, Do Ls True, Do Wc True, Collect Parent Ls, Collect Parent Wc, Do Parent True]"
  have n: "std_open ?t" by (simp add: std_open_def no_ends_def has_end_def file_of_def)
  have "case run (dup_step 1) (pipeline_start ?t []) ?es of None \<Rightarrow> False | Some s \<Rightarrow>
      life s Parent = Zombie (Code 0) \<and> life s Ls = Reaped (Code 0) \<and> life s Wc = Reaped (Code 0) \<and>
      life s Extra = Reaped (Code 1)"
    by code_simp
  then obtain s where s: "run (dup_step (Suc 0)) (pipeline_start ?t []) ?es = Some s"
    "life s Parent = Zombie (Code 0)" "life s Ls = Reaped (Code 0)" "life s Wc = Reaped (Code 0)" "life s Extra = Reaped (Code 1)"
    by (auto split: option.splits)
  have "dup_step (Suc 0) s e = None" for e
  proof (cases e)
    case (Do x ok)
    then show ?thesis using s(2-5) by (cases x) (auto simp: pipeline_step_def)
  next
    case (Collect x c)
    then show ?thesis using s(2-5) by (cases x) (auto simp: pipeline_step_def collect_def place_of_def)
  qed
  then have "nobody_left s" using dup_completes [OF n s(1)] by blast
  then show ?thesis using run_reach [OF s(1)] s(2-5) by (auto simp: EXIT_SUCCESS_def EXIT_FAILURE_def)
qed


text \<open>
  Without a standard input and output the descriptors of the pipe are 0 and 1, and the child of
  2-pipes-dup.c closes its new standard output; pipe\_ls\_wc.c compares before it closes.
\<close>

lemma dup_loses_stdout:
  "\<exists>s. reach (dup_step 1) (pipeline_start [None, None, Some (Other 2), None] ''a'') s \<and> life s Ls = At LRun \<and>
     file_of (fds s Ls) STDOUT_FILENO = None"
  by (rule run_example [where es = "[Do Parent True, Do Parent True, Do Ls True, Do Ls True, Do Ls True, Do Ls True]"]) code_simp

end
