(* ===== verification/Decimals.thy ===== *)
theory Decimals
  imports CString CInt
begin

text \<open>
  The conversion \<open>%d\<close> of printf and of scanf, and pipes/add2.c, which reads two numbers and
  writes their sum.
\<close>

section \<open>Writing numbers\<close>

definition digit :: "nat \<Rightarrow> char" where
  "digit d = char_of (48 + d)"

fun dec_nat :: "nat \<Rightarrow> string" where
  "dec_nat n = (if n < 10 then [digit n] else dec_nat (n div 10) @ [digit (n mod 10)])"

declare dec_nat.simps [simp del]

definition dec_int :: "int \<Rightarrow> string" where
  "dec_int n = (if n < 0 then CHR ''-'' # dec_nat (nat (- n)) else dec_nat (nat n))"

lemma of_char_digit:
  "d < 10 \<Longrightarrow> of_char (digit d) = 48 + d"
  "d < 10 \<Longrightarrow> of_char (digit d) = 48 + int d"
proof -
  assume d: "d < 10"
  then show n: "of_char (digit d) = 48 + d" by (simp add: digit_def)
  have "of_char (digit d) = int (of_char (digit d))" by (cases "digit d") (simp add: of_char_def)
  then show "of_char (digit d) = 48 + int d" using n by simp
qed

lemma isdigit_digit: "d < 10 \<Longrightarrow> isdigit (digit d)"
  by (simp add: isdigit_def of_char_digit)

lemma dec_nat_digits: "\<forall>c\<in>set (dec_nat n). isdigit c"
proof (induction n rule: dec_nat.induct)
  case (1 n)
  then show ?case by (subst dec_nat.simps) (auto simp: isdigit_digit)
qed

lemma dec_nat_nonempty: "dec_nat n \<noteq> []"
  by (subst dec_nat.simps) simp

lemma dec_nat_length: "n < 10 ^ Suc k \<Longrightarrow> length (dec_nat n) \<le> Suc k"
proof (induction k arbitrary: n)
  case 0
  then show ?case by (subst dec_nat.simps) simp
next
  case (Suc k)
  then have "n div 10 < 10 ^ Suc k" by (simp add: less_mult_imp_div_less)
  then show ?case using Suc.IH [of "n div 10"] by (subst dec_nat.simps) simp
qed

lemma dec_int_length: "INT_MIN \<le> n \<Longrightarrow> n \<le> INT_MAX \<Longrightarrow> length (dec_int n) \<le> 11"
  using dec_nat_length [of "nat n" 9] dec_nat_length [of "nat (- n)" 9]
  by (auto simp: dec_int_def INT_MIN_def INT_MAX_def nat_less_iff)

section \<open>Reading numbers\<close>

lemma digits_val_append:
  "\<forall>c\<in>set ds. isdigit c \<Longrightarrow> digits_val acc (ds @ r) = digits_val (digits_val acc ds) r"
  by (induction ds arbitrary: acc) auto

lemma digits_val_dec: "digits_val 0 (dec_nat n) = int n"
proof (induction n rule: dec_nat.induct)
  case (1 n)
  show ?case
  proof (cases "n < 10")
    case True
    then show ?thesis by (subst dec_nat.simps) (simp add: isdigit_digit of_char_digit)
  next
    case False
    then have "digits_val 0 (dec_nat (n div 10)) = int (n div 10)" using 1 by simp
    then have "digits_val 0 (dec_nat n) = 10 * int (n div 10) + int (n mod 10)"
      using False by (subst dec_nat.simps) (simp add: digits_val_append dec_nat_digits isdigit_digit of_char_digit)
    also have "\<dots> = int n" by (simp add: zdiv_int zmod_int)
    finally show ?thesis .
  qed
qed

text \<open>
  \<open>%d\<close> of scanf: white space, an optional sign and at least one digit. Nothing is stored when they
  are not there; a number that does not fit an int is not defined.
\<close>

definition scan_digits :: "string \<Rightarrow> (int \<times> string) option" where
  "scan_digits s =
     (let ds = takeWhile isdigit s
      in if ds = [] then None else Some (digits_val 0 ds, dropWhile isdigit s))"

definition scan_int :: "string \<Rightarrow> (int \<times> string) option" where
  "scan_int s =
     (case dropWhile isspace s of
        [] \<Rightarrow> None
      | c # r \<Rightarrow>
          if c = CHR ''-'' then map_option (\<lambda>(n, t). (- n, t)) (scan_digits r)
          else if c = CHR ''+'' then scan_digits r
          else scan_digits (c # r))"

lemma isdigit_not:
  "isdigit c \<Longrightarrow> \<not> isspace c \<and> c \<noteq> CHR ''-'' \<and> c \<noteq> CHR ''+''"
  by (auto simp: isdigit_def isspace_def)

lemma scan_dec_nat:
  assumes "r = [] \<or> \<not> isdigit (hd r)"
  shows "scan_digits (dec_nat n @ r) = Some (int n, r)"
proof -
  have "takeWhile isdigit (dec_nat n @ r) = dec_nat n" "dropWhile isdigit (dec_nat n @ r) = r"
    using assms dec_nat_digits [of n] by (cases r; auto simp: takeWhile_append takeWhile_all_eq dropWhile_append)+
  then show ?thesis by (simp add: scan_digits_def digits_val_dec dec_nat_nonempty)
qed

lemma scan_dec_int:
  assumes "r = [] \<or> \<not> isdigit (hd r)" "\<forall>c\<in>set w. isspace c"
  shows "scan_int (w @ dec_int n @ r) = Some (n, r)"
proof -
  obtain c d where c: "dec_nat (nat n) = c # d" using dec_nat_nonempty [of "nat n"] by (cases "dec_nat (nat n)") auto
  have "isdigit c" using dec_nat_digits [of "nat n"] c by simp
  then have "0 \<le> n \<Longrightarrow> scan_int (w @ dec_int n @ r) = Some (n, r)"
    using assms(2) scan_dec_nat [OF assms(1), of "nat n"] c isdigit_not [of c]
    by (simp add: scan_int_def dec_int_def dropWhile_append3 dropWhile_append)
  moreover have "n < 0 \<Longrightarrow> scan_int (w @ dec_int n @ r) = Some (n, r)"
    using assms(2) scan_dec_nat [OF assms(1), of "nat (- n)"]
    by (simp add: scan_int_def dec_int_def dropWhile_append isspace_def)
  ultimately show ?thesis by linarith
qed

section \<open>add2.c\<close>

text \<open>
  The main function between its read and its write. A number that sscanf has not stored is read
  uninitialised.
\<close>

definition add2_reply :: "string \<Rightarrow> c_error + string" where
  "add2_reply buffer =
     (case scan_int buffer of
        None \<Rightarrow> Inl BadAccess
      | Some (x, r) \<Rightarrow> ebind (int_val x) (\<lambda>number1.
          case scan_int r of
            None \<Rightarrow> Inl BadAccess
          | Some (y, _) \<Rightarrow> ebind (int_val y) (\<lambda>number2.
              ebind (iadd number1 number2) (\<lambda>s. Inr (dec_int s @ [CHR 0x0A])))))"

definition fits_int :: "int \<Rightarrow> bool" where
  "fits_int n \<longleftrightarrow> INT_MIN \<le> n \<and> n \<le> INT_MAX"

lemma add2_sum:
  assumes "fits_int a" "fits_int b"
  shows "add2_reply (dec_int a @ SPACE # dec_int b) =
    (if fits_int (a + b) then Inr (dec_int (a + b) @ [CHR 0x0A]) else Inl Overflow)"
proof -
  have "\<not> isdigit SPACE" by (simp add: isdigit_def)
  then have "scan_int (dec_int a @ SPACE # dec_int b) = Some (a, SPACE # dec_int b)"
    using scan_dec_int [of "SPACE # dec_int b" "[]" a] by simp
  moreover have "scan_int (SPACE # dec_int b) = Some (b, [])"
    using scan_dec_int [of "[]" "[SPACE]" b] by simp
  ultimately show ?thesis using assms by (simp add: add2_reply_def int_val_def iadd_def fits_int_def)
qed

end
