(* ===== verification/PipeTalk.thy ===== *)
theory PipeTalk
  imports Threads Decimals
begin

text \<open>
  A parent and a child that talk through pipes: pipes/simple\_pipe.c, 1-pipes.c of
  shackleford/src/processes/ipc, and pipes/simple\_co\_process.c with its co-process add2.c. A
  message of at most PIPE\_BUF bytes is written as a whole; a read takes what there is, waits as
  long as there is nothing and a writer, and returns 0 at the end.
\<close>

section \<open>simple\_pipe.c\<close>

definition BUF_LEN :: nat where "BUF_LEN = 256"

datatype pplace = PPipe | PFork | PCopy | PClose | PWrite | PClose2 | PWait | PPrint
  | PDone nat | PKilled | PUndefined
datatype cplace = CNone | CClose | CRead | CPrint | CDone nat | CUndefined

record talk =
  parent :: pplace
  child :: cplace
  data :: string
  buffer :: string
  lines :: "string list"

datatype event = Parent bool | Child

definition talk_start :: talk where
  "talk_start = \<lparr>parent = PPipe, child = CNone, data = [], buffer = [], lines = []\<rparr>"

definition child_over :: "talk \<Rightarrow> bool" where
  "child_over s \<longleftrightarrow> (case child s of CDone _ \<Rightarrow> True | _ \<Rightarrow> False)"

definition parent_over :: "talk \<Rightarrow> bool" where
  "parent_over s \<longleftrightarrow> (case parent s of PDone _ \<Rightarrow> True | PKilled \<Rightarrow> True | _ \<Rightarrow> False)"

definition write_pipe :: "string \<Rightarrow> pplace \<Rightarrow> talk \<Rightarrow> talk" where
  "write_pipe m p s = (if child_over s then s\<lparr>parent := PKilled\<rparr> else s\<lparr>data := data s @ m, parent := p\<rparr>)"

definition read_pipe :: "nat \<Rightarrow> bool \<Rightarrow> talk \<Rightarrow> talk option" where
  "read_pipe n writer s =
     (if data s = [] \<and> writer then None
      else Some (s\<lparr>buffer := take n (data s), data := drop n (data s), child := CPrint\<rparr>))"

text \<open>\<open>a\<close> is the argument; the program is not defined when it does not fit the buffer.\<close>

definition simple_parent :: "string \<Rightarrow> bool \<Rightarrow> talk \<Rightarrow> talk option" where
  "simple_parent a ok s =
     (case parent s of
        PPipe \<Rightarrow> Some (s\<lparr>parent := (if ok then PFork else PDone 1)\<rparr>)
      | PFork \<Rightarrow> Some (if ok then s\<lparr>parent := PCopy, child := CClose\<rparr> else s\<lparr>parent := PDone 1\<rparr>)
      | PCopy \<Rightarrow> Some (s\<lparr>parent := (if length a < BUF_LEN then PClose else PUndefined)\<rparr>)
      | PClose \<Rightarrow> Some (s\<lparr>lines := lines s @ [''PARENT: Writing '' @ dec_nat (length a) @ '' bytes to the pipe: ''], parent := PWrite\<rparr>)
      | PWrite \<Rightarrow> Some (write_pipe a PWait s)
      | PWait \<Rightarrow> if child_over s then Some (s\<lparr>parent := PPrint\<rparr>) else None
      | PPrint \<Rightarrow> Some (s\<lparr>lines := lines s @ [''PARENT: Child has terminated. ''], parent := PDone 0\<rparr>)
      | _ \<Rightarrow> None)"

definition simple_child :: "talk \<Rightarrow> talk option" where
  "simple_child s =
     (case child s of
        CClose \<Rightarrow> Some (s\<lparr>child := CRead\<rparr>)
      | CRead \<Rightarrow> read_pipe BUF_LEN (\<not> parent_over s) s
      | CPrint \<Rightarrow> Some (if length (buffer s) < BUF_LEN
          then s\<lparr>lines := lines s @ [''CHILD: '' @ buffer s @ '' ''], child := CDone 0\<rparr> else s\<lparr>child := CUndefined\<rparr>)
      | _ \<Rightarrow> None)"

definition simple_step :: "string \<Rightarrow> talk \<Rightarrow> event \<Rightarrow> talk option" where
  "simple_step a s e = (case e of Parent ok \<Rightarrow> simple_parent a ok s | Child \<Rightarrow> simple_child s)"

fun simple_usage :: "string list \<Rightarrow> string option" where
  "simple_usage (p # a # _) = Some a"
| "simple_usage _ = None"

section \<open>1-pipes.c\<close>

definition BUFFER_SIZE :: nat where "BUFFER_SIZE = 25"
definition write_msg :: string where "write_msg = ''Hello World!''"

text \<open>The message is sent with its terminator; the status that wait stores has the exit code in its second byte.\<close>

definition hello_parent :: "bool \<Rightarrow> talk \<Rightarrow> talk option" where
  "hello_parent ok s =
     (case parent s of
        PPipe \<Rightarrow> Some (s\<lparr>parent := (if ok then PFork else PDone 1)\<rparr>)
      | PFork \<Rightarrow> Some (if ok then s\<lparr>parent := PClose, child := CClose\<rparr> else s\<lparr>parent := PDone 1\<rparr>)
      | PClose \<Rightarrow> Some (s\<lparr>parent := PWrite\<rparr>)
      | PWrite \<Rightarrow> Some (write_pipe (write_msg @ [NUL]) PClose2 s)
      | PClose2 \<Rightarrow> Some (s\<lparr>parent := PWait\<rparr>)
      | PWait \<Rightarrow>
          (case child s of
             CDone n \<Rightarrow> Some (s\<lparr>lines := lines s @ [''parent -- child exited with code '' @ dec_nat (256 * n)], parent := PDone 0\<rparr>)
           | _ \<Rightarrow> None)
      | _ \<Rightarrow> None)"

text \<open>The writing side that the parent holds is closed after \<open>PClose2\<close>.\<close>

definition hello_child :: "talk \<Rightarrow> talk option" where
  "hello_child s =
     (case child s of
        CClose \<Rightarrow> Some (s\<lparr>child := CRead\<rparr>)
      | CRead \<Rightarrow> read_pipe BUFFER_SIZE (\<not> parent_over s \<and> parent s \<noteq> PWait) s
      | CPrint \<Rightarrow> Some (if buffer s = [] then s\<lparr>child := CDone 1\<rparr>
          else if NUL \<in> set (buffer s)
          then s\<lparr>lines := lines s @ [''child -- read ['' @ takeWhile (\<lambda>c. c \<noteq> NUL) (buffer s) @ ''] from the pipe.''], child := CDone 1\<rparr>
          else s\<lparr>child := CUndefined\<rparr>)
      | _ \<Rightarrow> None)"

definition hello_step :: "talk \<Rightarrow> event \<Rightarrow> talk option" where
  "hello_step s e = (case e of Parent ok \<Rightarrow> hello_parent ok s | Child \<Rightarrow> hello_child s)"

section \<open>What the two programs do\<close>

definition simple_lines :: "string \<Rightarrow> string list" where
  "simple_lines a =
     [''PARENT: Writing '' @ dec_nat (length a) @ '' bytes to the pipe: '', ''CHILD: '' @ a @ '' '',
      ''PARENT: Child has terminated. '']"

definition simple_inv :: "string \<Rightarrow> talk \<Rightarrow> bool" where
  "simple_inv a s \<longleftrightarrow>
     (case parent s of
        PPipe \<Rightarrow> child s = CNone \<and> lines s = [] \<and> data s = []
      | PFork \<Rightarrow> child s = CNone \<and> lines s = [] \<and> data s = []
      | PCopy \<Rightarrow> (child s = CClose \<or> child s = CRead) \<and> data s = [] \<and> lines s = []
      | PClose \<Rightarrow> (child s = CClose \<or> child s = CRead) \<and> data s = [] \<and> lines s = [] \<and> length a < BUF_LEN
      | PWrite \<Rightarrow> (child s = CClose \<or> child s = CRead) \<and> data s = [] \<and> lines s = take 1 (simple_lines a) \<and> length a < BUF_LEN
      | PWait \<Rightarrow> length a < BUF_LEN \<and>
          ((child s = CClose \<or> child s = CRead) \<and> data s = a \<and> lines s = take 1 (simple_lines a) \<or>
           child s = CPrint \<and> buffer s = a \<and> a \<noteq> [] \<and> lines s = take 1 (simple_lines a) \<or>
           child s = CDone 0 \<and> a \<noteq> [] \<and> lines s = take 2 (simple_lines a))
      | PPrint \<Rightarrow> child s = CDone 0 \<and> a \<noteq> [] \<and> length a < BUF_LEN \<and> lines s = take 2 (simple_lines a)
      | PDone n \<Rightarrow> n = 1 \<and> child s = CNone \<and> lines s = [] \<or>
          n = 0 \<and> child s = CDone 0 \<and> a \<noteq> [] \<and> length a < BUF_LEN \<and> lines s = simple_lines a
      | PUndefined \<Rightarrow> BUF_LEN \<le> length a \<and> (child s = CClose \<or> child s = CRead) \<and> data s = []
      | _ \<Rightarrow> False)"

lemma simple_inv_start: "simple_inv a talk_start"
  by (simp add: simple_inv_def talk_start_def)

lemma simple_inv_step:
  assumes "simple_inv a s" "simple_step a s e = Some u"
  shows "simple_inv a u"
proof (cases e)
  case (Parent ok)
  then show ?thesis using assms
    by (cases "parent s") (auto simp: simple_step_def simple_parent_def simple_inv_def write_pipe_def child_over_def
        simple_lines_def numeral_2_eq_2 split: if_splits cplace.splits)
next
  case Child
  then have "simple_child s = Some u" using assms by (simp add: simple_step_def)
  then show ?thesis using assms(1)
    by (cases "parent s"; cases "child s") (auto simp: simple_child_def simple_inv_def read_pipe_def parent_over_def
        simple_lines_def numeral_2_eq_2 split: if_splits)
qed

interpretation simple: machine_inv "simple_step a" talk_start "simple_inv a" for a
  by unfold_locales (use simple_inv_start simple_inv_step in blast)+

text \<open>
  When nothing can happen any more in simple\_pipe.c, then the pipe or the child could not be
  made, or the argument overflowed the buffer, or the argument is empty and the child waits for a
  byte while its parent, which keeps the writing side open, waits for the child; or both have
  ended and the child has printed the argument, between the two lines of the parent.
\<close>

theorem simple_pipe_outcome:
  assumes "reach (simple_step a) talk_start s" "\<forall>e. simple_step a s e = None"
  shows "parent s = PDone 1 \<and> child s = CNone \<or>
    BUF_LEN \<le> length a \<and> parent s = PUndefined \<or>
    a = [] \<and> parent s = PWait \<and> child s = CRead \<or>
    a \<noteq> [] \<and> length a < BUF_LEN \<and> parent s = PDone 0 \<and> child s = CDone 0 \<and> lines s = simple_lines a"
proof -
  have i: "simple_inv a s" by (rule simple.reach_inv [OF assms(1)])
  have p: "simple_parent a True s = None" and c: "simple_child s = None"
    using assms(2) [rule_format, of "Parent True"] assms(2) [rule_format, of Child] by (auto simp: simple_step_def)
  show ?thesis using i p c
    by (cases "parent s") (auto simp: simple_inv_def simple_parent_def simple_child_def read_pipe_def child_over_def
        parent_over_def split: if_splits)
qed

theorem simple_pipe_outcome_witness:
  "\<exists>s. reach (simple_step ''ab'') talk_start s \<and> lines s = simple_lines ''ab'' \<and> parent s = PDone 0"
proof -
  have "\<exists>s. reach (simple_step ''ab'') talk_start s \<and> (parent s = PDone 0 \<and> child s = CDone 0)"
    by (rule run_example [where es = "[Parent True, Parent True, Child] @ replicate 3 (Parent True) @
          [Child, Child, Parent True, Parent True]"]) code_simp
  then obtain s where s: "reach (simple_step ''ab'') talk_start s" "parent s = PDone 0" "child s = CDone 0" by blast
  have "\<forall>e. simple_step ''ab'' s e = None" using s(2,3)
    by (auto simp: simple_step_def simple_parent_def simple_child_def split: event.splits)
  then show ?thesis using simple_pipe_outcome [OF s(1)] s by auto
qed

text \<open>The deadlock happens.\<close>

lemma empty_argument_hangs: "\<exists>s. reach (simple_step []) talk_start s \<and> (\<forall>e. simple_step [] s e = None) \<and> parent s = PWait"
proof -
  have "\<exists>s. reach (simple_step []) talk_start s \<and> (parent s = PWait \<and> child s = CRead \<and> data s = [])"
    by (rule run_example [where es = "[Parent True, Parent True, Child] @ replicate 3 (Parent True)"]) code_simp
  then obtain s where s: "reach (simple_step []) talk_start s" "parent s = PWait" "child s = CRead" "data s = []" by blast
  have "\<forall>e. simple_step [] s e = None" using s(2-4)
    by (auto simp: simple_step_def simple_parent_def simple_child_def child_over_def read_pipe_def parent_over_def split: event.splits)
  then show ?thesis using s by blast
qed

definition hello_lines :: "string list" where
  "hello_lines = [''child -- read [Hello World!] from the pipe.'', ''parent -- child exited with code 256'']"

definition hello_inv :: "talk \<Rightarrow> bool" where
  "hello_inv s \<longleftrightarrow>
     (case parent s of
        PPipe \<Rightarrow> child s = CNone \<and> lines s = [] \<and> data s = []
      | PFork \<Rightarrow> child s = CNone \<and> lines s = [] \<and> data s = []
      | PDone n \<Rightarrow> n = 1 \<and> child s = CNone \<and> lines s = [] \<or> n = 0 \<and> child s = CDone 1 \<and> lines s = hello_lines
      | PClose \<Rightarrow> (child s = CClose \<or> child s = CRead) \<and> data s = [] \<and> lines s = []
      | PWrite \<Rightarrow> (child s = CClose \<or> child s = CRead) \<and> data s = [] \<and> lines s = []
      | p \<Rightarrow> (p = PClose2 \<or> p = PWait) \<and>
          ((child s = CClose \<or> child s = CRead) \<and> data s = write_msg @ [NUL] \<and> lines s = [] \<or>
           child s = CPrint \<and> buffer s = write_msg @ [NUL] \<and> lines s = [] \<or>
           child s = CDone 1 \<and> lines s = take 1 hello_lines))"

lemma hello_inv_step:
  assumes "hello_inv s" "hello_step s e = Some u"
  shows "hello_inv u"
proof (cases e)
  case (Parent ok)
  have "dec_nat 256 = ''256''" by code_simp
  then show ?thesis using assms Parent
    by (cases "parent s") (auto simp: hello_step_def hello_parent_def hello_inv_def write_pipe_def child_over_def
        hello_lines_def split: if_splits cplace.splits)
next
  case Child
  then have "hello_child s = Some u" using assms by (simp add: hello_step_def)
  then show ?thesis using assms(1)
    by (cases "parent s"; cases "child s") (auto simp: hello_child_def hello_inv_def read_pipe_def parent_over_def
        hello_lines_def write_msg_def BUFFER_SIZE_def split: if_splits)
qed

interpretation hello: machine_inv hello_step talk_start hello_inv
  by unfold_locales (simp add: hello_inv_def talk_start_def, use hello_inv_step in blast)

text \<open>
  1-pipes.c always ends; when the pipe and the child could be made, the child has printed the
  message, and the parent has printed the status of the child, 256, in place of its exit code.
\<close>

lemma hello_outcome:
  assumes "reach hello_step talk_start s" "\<forall>e. hello_step s e = None"
  shows "parent s = PDone 1 \<and> child s = CNone \<or> parent s = PDone 0 \<and> child s = CDone 1 \<and> lines s = hello_lines"
proof -
  have i: "hello_inv s" by (rule hello.reach_inv [OF assms(1)])
  have p: "hello_parent True s = None" and c: "hello_child s = None"
    using assms(2) [rule_format, of "Parent True"] assms(2) [rule_format, of Child] by (auto simp: hello_step_def)
  show ?thesis using i p c
    by (cases "parent s") (auto simp: hello_inv_def hello_parent_def hello_child_def read_pipe_def child_over_def
        parent_over_def write_msg_def split: if_splits)
qed

end
