(* ===== verification/CoProcess.thy ===== *)
theory CoProcess
  imports Threads Decimals
begin

text \<open>
  pipes/simple\_co\_process.c and add2.c: the parent sends its argument through one pipe to a
  child that executes add2, and reads the sum from another one.
\<close>

section \<open>The two processes\<close>

definition BUF_SIZE :: nat where "BUF_SIZE = 256"

datatype aplace = APipe | AFork | AClose | ACopy | AWrite | ARead | APrint | ADone nat | AKilled | AUndefined
datatype bplace = BNone | BConnect | BExec | BRead | BWrite string | BDone nat | BKilled | BUndefined

text \<open>
  \<open>fd0\<close> and \<open>fd1\<close> are the bytes in the two pipes. The child has the ends it does not need until
  \<open>BExec\<close>, the parent until \<open>ACopy\<close>.
\<close>

record coproc =
  aplace :: aplace
  bplace :: bplace
  fd0 :: string
  fd1 :: string
  sum_line :: "string option"

datatype event = Asks bool | Answers bool

definition coproc_start :: coproc where
  "coproc_start = \<lparr>aplace = APipe, bplace = BNone, fd0 = [], fd1 = [], sum_line = None\<rparr>"

definition a_over :: "aplace \<Rightarrow> bool" where
  "a_over p \<longleftrightarrow> (case p of ADone _ \<Rightarrow> True | AKilled \<Rightarrow> True | _ \<Rightarrow> False)"

definition b_over :: "bplace \<Rightarrow> bool" where
  "b_over p \<longleftrightarrow> (case p of BDone _ \<Rightarrow> True | BKilled \<Rightarrow> True | _ \<Rightarrow> False)"

text \<open>
  The parent: its buffer has \<open>BUF_SIZE\<close> bytes, and the terminator is written after the bytes read.
\<close>

definition coproc_main :: "string \<Rightarrow> bool \<Rightarrow> coproc \<Rightarrow> coproc option" where
  "coproc_main a ok s =
     (case aplace s of
        APipe \<Rightarrow> Some (s\<lparr>aplace := (if ok then AFork else ADone 1)\<rparr>)
      | AFork \<Rightarrow> Some (if ok then s\<lparr>aplace := AClose, bplace := BConnect\<rparr> else s\<lparr>aplace := ADone 1\<rparr>)
      | AClose \<Rightarrow> Some (s\<lparr>aplace := ACopy\<rparr>)
      | ACopy \<Rightarrow> Some (s\<lparr>aplace := (if length a < BUF_SIZE then AWrite else AUndefined)\<rparr>)
      | AWrite \<Rightarrow> Some (if b_over (bplace s) then s\<lparr>aplace := AKilled\<rparr> else s\<lparr>fd0 := fd0 s @ a, aplace := ARead\<rparr>)
      | ARead \<Rightarrow> if fd1 s = [] \<and> \<not> b_over (bplace s) then None
                else Some (let n = take BUF_SIZE (fd1 s) in
                  if length n < BUF_SIZE then s\<lparr>sum_line := Some (''Sum = '' @ n @ '' ''), fd1 := drop BUF_SIZE (fd1 s), aplace := APrint\<rparr>
                  else s\<lparr>aplace := AUndefined\<rparr>)
      | APrint \<Rightarrow> Some (s\<lparr>aplace := ADone 0\<rparr>)
      | _ \<Rightarrow> None)"

text \<open>
  The child, first in the program of its parent (its calls of close and dup2 are one step), then in
  that of add2.
\<close>

definition add2_main :: "bool \<Rightarrow> coproc \<Rightarrow> coproc option" where
  "add2_main ok s =
     (case bplace s of
        BConnect \<Rightarrow> Some (s\<lparr>bplace := BExec\<rparr>)
      | BExec \<Rightarrow> Some (s\<lparr>bplace := (if ok then BRead else BDone 1)\<rparr>)
      | BRead \<Rightarrow> if fd0 s = [] \<and> \<not> a_over (aplace s) then None
                else Some (let n = take BUF_SIZE (fd0 s) in
                  s\<lparr>fd0 := drop BUF_SIZE (fd0 s),
                    bplace := (if length n < BUF_SIZE
                      then (case add2_reply n of Inl _ \<Rightarrow> BUndefined | Inr r \<Rightarrow> BWrite r) else BUndefined)\<rparr>)
      | BWrite r \<Rightarrow> Some (if a_over (aplace s) then s\<lparr>bplace := BKilled\<rparr> else s\<lparr>fd1 := fd1 s @ r, bplace := BDone 0\<rparr>)
      | _ \<Rightarrow> None)"

definition coproc_step :: "string \<Rightarrow> coproc \<Rightarrow> event \<Rightarrow> coproc option" where
  "coproc_step a s e = (case e of Asks ok \<Rightarrow> coproc_main a ok s | Answers ok \<Rightarrow> add2_main ok s)"

section \<open>What the parent prints\<close>

text \<open>\<open>r\<close> is what add2 replies to the argument.\<close>

definition sum_text :: "string \<Rightarrow> string" where
  "sum_text r = ''Sum = '' @ r @ '' ''"

definition coproc_inv :: "string \<Rightarrow> string \<Rightarrow> coproc \<Rightarrow> bool" where
  "coproc_inv a r s \<longleftrightarrow>
     (case aplace s of
        APipe \<Rightarrow> bplace s = BNone \<and> fd0 s = [] \<and> fd1 s = [] \<and> sum_line s = None
      | AFork \<Rightarrow> bplace s = BNone \<and> fd0 s = [] \<and> fd1 s = [] \<and> sum_line s = None
      | AKilled \<Rightarrow> bplace s = BDone 1 \<and> sum_line s = None
      | ARead \<Rightarrow> sum_line s = None \<and>
          (bplace s \<in> {BConnect, BExec, BRead} \<and> fd0 s = a \<and> fd1 s = [] \<or> bplace s = BWrite r \<and> fd1 s = [] \<or>
           bplace s = BDone 0 \<and> fd1 s = r \<or> bplace s = BDone 1 \<and> fd1 s = [])
      | APrint \<Rightarrow> bplace s = BDone 0 \<and> sum_line s = Some (sum_text r) \<or> bplace s = BDone 1 \<and> sum_line s = Some (sum_text [])
      | ADone n \<Rightarrow> n = 1 \<and> bplace s = BNone \<and> sum_line s = None \<or>
          n = 0 \<and> (bplace s = BDone 0 \<and> sum_line s = Some (sum_text r) \<or> bplace s = BDone 1 \<and> sum_line s = Some (sum_text []))
      | AUndefined \<Rightarrow> False
      | _ \<Rightarrow> (bplace s \<in> {BConnect, BExec, BRead} \<or> bplace s = BDone 1) \<and> fd0 s = [] \<and> fd1 s = [] \<and> sum_line s = None)"

lemma coproc_inv_step:
  assumes "coproc_inv a r s" "coproc_step a s e = Some u"
    and r: "add2_reply a = Inr r" and "a \<noteq> []" "length a < BUF_SIZE" "r \<noteq> []" "length r < BUF_SIZE"
  shows "coproc_inv a r u"
proof (cases e)
  case (Asks ok)
  then show ?thesis using assms
    by (cases "aplace s") (auto simp: coproc_step_def coproc_main_def coproc_inv_def b_over_def sum_text_def Let_def
        split: if_splits)
next
  case (Answers ok)
  then have "add2_main ok s = Some u" using assms by (simp add: coproc_step_def)
  then show ?thesis using assms(1,3-)
    by (cases "aplace s"; cases "bplace s") (auto simp: add2_main_def coproc_inv_def a_over_def Let_def split: if_splits)
qed

lemma add2_reply_shape:
  assumes "fits_int a" "fits_int b" "fits_int (a + b)"
  defines "arg \<equiv> dec_int a @ SPACE # dec_int b" and "r \<equiv> dec_int (a + b) @ [CHR 0x0A]"
  shows "add2_reply arg = Inr r" "arg \<noteq> []" "length arg < BUF_SIZE" "r \<noteq> []" "length r < BUF_SIZE"
  using add2_sum [OF assms(1,2)] assms(3) dec_int_length [of a] dec_int_length [of b] dec_int_length [of "a + b"] assms(1,2)
  by (auto simp: arg_def r_def fits_int_def BUF_SIZE_def)

definition quiet :: "string \<Rightarrow> coproc \<Rightarrow> bool" where
  "quiet a s \<longleftrightarrow> coproc_main a True s = None \<and> add2_main True s = None"

text \<open>
  C32: simple\_co\_process.c, started with two numbers whose sum fits an int, never leaves its
  buffers and never reads a number that was not there. When nothing can happen any more, it has
  printed their sum, or a pipe or the child could not be made, or add2 could not be executed, and
  then the parent was killed by its write or has printed an empty sum.
\<close>

theorem coprocess_sums:
  assumes "fits_int x" "fits_int y" "fits_int (x + y)"
    and "reach (coproc_step (dec_int x @ SPACE # dec_int y)) coproc_start s"
  shows "aplace s \<noteq> AUndefined \<and> bplace s \<noteq> BUndefined \<and>
    (quiet (dec_int x @ SPACE # dec_int y) s \<longrightarrow>
       aplace s = ADone 0 \<and> bplace s = BDone 0 \<and> sum_line s = Some (''Sum = '' @ dec_int (x + y) @ [CHR 0x0A] @ '' '') \<or>
       aplace s = ADone 1 \<and> bplace s = BNone \<or>
       bplace s = BDone 1 \<and> (aplace s = AKilled \<or> aplace s = ADone 0 \<and> sum_line s = Some (''Sum =  '')))"
proof -
  let ?a = "dec_int x @ SPACE # dec_int y" and ?r = "dec_int (x + y) @ [CHR 0x0A]"
  note r = add2_reply_shape [OF assms(1-3)]
  have i: "coproc_inv ?a ?r s"
    using assms(4)
  proof (induction rule: reach.induct)
    case reach_start
    show ?case by (simp add: coproc_inv_def coproc_start_def)
  next
    case (reach_step t e u)
    then show ?case using coproc_inv_step [OF _ _ r] by blast
  qed
  have "aplace s \<noteq> AUndefined \<and> bplace s \<noteq> BUndefined"
    using i by (auto simp: coproc_inv_def split: aplace.splits)
  moreover have "aplace s = ADone 0 \<and> bplace s = BDone 0 \<and> sum_line s = Some (sum_text ?r) \<or>
      aplace s = ADone 1 \<and> bplace s = BNone \<or>
      bplace s = BDone 1 \<and> (aplace s = AKilled \<or> aplace s = ADone 0 \<and> sum_line s = Some (sum_text []))"
    if "quiet ?a s"
    using i that r(2,4) by (cases "aplace s"; cases "bplace s")
      (auto simp: coproc_inv_def quiet_def coproc_main_def add2_main_def a_over_def b_over_def Let_def split: if_splits)
  ultimately show ?thesis by (simp add: sum_text_def)
qed


theorem coprocess_sums_witness:
  "\<exists>s. reach (coproc_step ''3 4'') coproc_start s \<and> aplace s = ADone 0 \<and> sum_line s = Some (''Sum = 7'' @ [CHR 0x0A] @ '' '')"
proof -
  have n: "dec_int 3 @ SPACE # dec_int 4 = ''3 4''" "dec_int (3 + 4) = ''7''" by code_simp+
  have f: "fits_int 3" "fits_int 4" "fits_int (3 + 4)" by (simp_all add: fits_int_def INT_MIN_def INT_MAX_def)
  have "\<exists>s. reach (coproc_step ''3 4'') coproc_start s \<and> (aplace s = ADone 0 \<and> bplace s = BDone 0)"
    by (rule run_example [where es = "replicate 5 (Asks True) @ replicate 4 (Answers True) @ [Asks True, Asks True]"]) code_simp
  then obtain s where s: "reach (coproc_step ''3 4'') coproc_start s" "aplace s = ADone 0" "bplace s = BDone 0" by blast
  have "quiet ''3 4'' s" using s(2,3) by (simp add: quiet_def coproc_main_def add2_main_def)
  then show ?thesis using coprocess_sums [OF f, of s] s n by auto
qed

text \<open>
  Outside of these arguments: a sum that does not fit and an argument without two numbers make
  add2 undefined, and with an empty argument both processes wait for ever.
\<close>

lemma sum_overflows: "add2_reply (dec_int INT_MAX @ SPACE # dec_int 1) = Inl Overflow"
  using add2_sum [of INT_MAX 1] by (simp add: fits_int_def INT_MAX_def INT_MIN_def)

lemma one_number_undefined: "add2_reply ''12'' = Inl BadAccess"
  by code_simp

lemma empty_question_hangs:
  "\<exists>s. reach (coproc_step []) coproc_start s \<and> (\<forall>e. coproc_step [] s e = None) \<and> aplace s = ARead \<and> bplace s = BRead"
proof -
  have "\<exists>s. reach (coproc_step []) coproc_start s \<and> (aplace s = ARead \<and> bplace s = BRead \<and> fd0 s = [] \<and> fd1 s = [])"
    by (rule run_example [where es = "replicate 5 (Asks True) @ replicate 2 (Answers True)"]) code_simp
  then obtain s where s: "reach (coproc_step []) coproc_start s" "aplace s = ARead" "bplace s = BRead" "fd0 s = []" "fd1 s = []" by blast
  have "coproc_step [] s e = None" for e
    using s(2-5) by (cases e) (auto simp: coproc_step_def coproc_main_def add2_main_def a_over_def b_over_def)
  then show ?thesis using s by blast
qed

end
