(* ===== verification/Getopt.thy ===== *)
theory Getopt
  imports Decimals
begin

text \<open>
  getopt of the C library, as the tools of mq and sem/posix call it in a loop: the options that
  it gives, one after the other, and the arguments that are left. Arguments that are no options are
  moved behind the options.
\<close>

datatype optkind = NoOption | Flag | WithArgument
datatype opt = Opt char string | BadOption

text \<open>
  The letters of one argument: an option with an argument takes the rest of it, or, when there is
  none, the next argument.
\<close>

fun letters :: "(char \<Rightarrow> optkind) \<Rightarrow> string \<Rightarrow> opt list \<times> char option" where
  "letters k [] = ([], None)"
| "letters k (c # cs) =
     (case k c of
        NoOption \<Rightarrow> (let (os, p) = letters k cs in (BadOption # os, p))
      | Flag \<Rightarrow> (let (os, p) = letters k cs in (Opt c [] # os, p))
      | WithArgument \<Rightarrow> if cs = [] then ([], Some c) else ([Opt c cs], None))"

definition is_option :: "string \<Rightarrow> bool" where
  "is_option a \<longleftrightarrow> (case a of c # d # _ \<Rightarrow> c = CHR ''-'' | _ \<Rightarrow> False)"

fun getopt :: "(char \<Rightarrow> optkind) \<Rightarrow> string list \<Rightarrow> opt list \<times> string list" where
  "getopt k [] = ([], [])"
| "getopt k (a # as) =
     (if a = ''--'' then ([], as)
      else if is_option a then
        (let (os, p) = letters k (tl a) in
         case p of
           None \<Rightarrow> (let (os', rest) = getopt k as in (os @ os', rest))
         | Some c \<Rightarrow>
             (case as of
                [] \<Rightarrow> (os @ [BadOption], [])
              | b # bs \<Rightarrow> (let (os', rest) = getopt k bs in (os @ Opt c b # os', rest))))
      else (let (os, rest) = getopt k as in (os, a # rest)))"

lemma getopt_plain: "list_all (\<lambda>a. \<not> is_option a) as \<Longrightarrow> getopt k as = ([], as)"
proof (induction as)
  case (Cons a as)
  then have "a \<noteq> ''--''" by (auto simp: is_option_def)
  then show ?case using Cons by simp
qed simp

text \<open>
  A tool ends with success or failure after what it has printed, or it waits. The lines are given
  without the process number that some of them name; usage lines and the messages of \<open>perror\<close>
  are left out.
\<close>

datatype tool_end = Exits bool "string list" | Waits | Undefined

text \<open>\<open>atoi\<close> stored in an unsigned int.\<close>

definition atou :: "string \<Rightarrow> nat" where
  "atou s = nat (atoi s mod 4294967296)"

lemma atoi_dec: "atoi (dec_nat n) = int n"
proof -
  obtain c d where c: "dec_nat n = c # d" using dec_nat_nonempty [of n] by (cases "dec_nat n") auto
  then have "isdigit c" using dec_nat_digits [of n] by simp
  then show ?thesis using isdigit_not [of c] digits_val_dec [of n] c by (simp add: atoi_def)
qed

lemma atou_dec: "n < 4294967296 \<Longrightarrow> atou (dec_nat n) = n"
  by (simp add: atou_def atoi_dec)

lemma dec_nat_no_option: "\<not> is_option (dec_nat n)"
proof -
  obtain c d where c: "dec_nat n = c # d" using dec_nat_nonempty [of n] by (cases "dec_nat n") auto
  then have "isdigit c" using dec_nat_digits [of n] by simp
  then show ?thesis using isdigit_not [of c] c by (auto simp: is_option_def split: list.splits)
qed

end
