(* ===== verification/MessageQueues.thy ===== *)
theory MessageQueues
  imports Getopt "HOL-Library.Multiset"
begin

text \<open>
  The tools of src/code\_examples/mq on the message queues of the system: create\_mq.c,
  send\_msg.c, recv\_msg.c, get\_mq\_attr.c and delete\_mq.c. A queue gives its oldest message of the
  highest priority. The tools are run one after the other by the owner of the queues.
\<close>

section \<open>Queues\<close>

record mqueue =
  mq_maxmsg :: int
  mq_msgsize :: int
  messages :: "(nat \<times> string) list"

type_synonym queues = "string \<Rightarrow> mqueue option"

definition MQ_PRIO_MAX :: nat where "MQ_PRIO_MAX = 32768"

text \<open>The first message of the highest priority.\<close>

definition next_message :: "(nat \<times> string) list \<Rightarrow> nat \<times> string" where
  "next_message ms = hd (filter (\<lambda>m. \<forall>n\<in>set ms. fst n \<le> fst m) ms)"

text \<open>
  mq\_open: the flags are O\_CREAT and O\_EXCL, \<open>attr\<close> the attributes of a new queue, \<open>None\<close> for
  those of the system (\<open>sys\<close>), and \<open>allowed\<close> the sizes that the system allows.
\<close>

definition mq_open ::
  "int \<times> int \<Rightarrow> (int \<Rightarrow> int \<Rightarrow> bool) \<Rightarrow> string \<Rightarrow> bool \<Rightarrow> bool \<Rightarrow> (int \<times> int) option \<Rightarrow> queues \<Rightarrow> queues option" where
  "mq_open sys allowed name creat excl attr k =
     (case k name of
        Some q \<Rightarrow> if creat \<and> excl then None else Some k
      | None \<Rightarrow>
          if \<not> creat then None
          else (let (m, sz) = (case attr of None \<Rightarrow> sys | Some a \<Rightarrow> a) in
            if 0 < m \<and> 0 < sz \<and> allowed m sz
            then Some (k(name \<mapsto> \<lparr>mq_maxmsg = m, mq_msgsize = sz, messages = []\<rparr>)) else None))"

section \<open>The tools\<close>

fun create_kind :: "char \<Rightarrow> optkind" where
  "create_kind c =
     (if c = CHR ''c'' \<or> c = CHR ''x'' then Flag
      else if c = CHR ''m'' \<or> c = CHR ''s'' then WithArgument else NoOption)"

text \<open>The loop over the options; an unknown one ends the program.\<close>

record create_opts =
  o_creat :: bool
  o_excl :: bool
  attr_maxmsg :: int
  attr_msgsize :: int
  attr_given :: bool

fun create_options :: "opt list \<Rightarrow> create_opts \<Rightarrow> create_opts option" where
  "create_options [] c = Some c"
| "create_options (BadOption # os) c = None"
| "create_options (Opt x arg # os) c =
     create_options os
       (if x = CHR ''c'' then c\<lparr>o_creat := True\<rparr>
        else if x = CHR ''m'' then c\<lparr>attr_maxmsg := atoi arg, attr_given := True\<rparr>
        else if x = CHR ''s'' then c\<lparr>attr_msgsize := atoi arg, attr_given := True\<rparr>
        else c\<lparr>o_excl := True\<rparr>)"

definition create_mq :: "int \<times> int \<Rightarrow> (int \<Rightarrow> int \<Rightarrow> bool) \<Rightarrow> string list \<Rightarrow> queues \<Rightarrow> tool_end \<times> queues" where
  "create_mq sys allowed args k =
     (let (os, rest) = getopt create_kind args in
      case create_options os \<lparr>o_creat = False, o_excl = False, attr_maxmsg = 10, attr_msgsize = 2048, attr_given = False\<rparr> of
        None \<Rightarrow> (Exits False [], k)
      | Some c \<Rightarrow>
          (case rest of
             [] \<Rightarrow> (Exits False [], k)
           | name # _ \<Rightarrow>
               (case mq_open sys allowed name (o_creat c) (o_excl c)
                  (if attr_given c then Some (attr_maxmsg c, attr_msgsize c) else None) k of
                  None \<Rightarrow> (Exits False [], k)
                | Some k' \<Rightarrow> (Exits True [], k'))))"

fun nonblock_kind :: "char \<Rightarrow> optkind" where
  "nonblock_kind c = (if c = CHR ''n'' then Flag else NoOption)"

definition send_msg :: "string list \<Rightarrow> queues \<Rightarrow> tool_end \<times> queues" where
  "send_msg args k =
     (let (os, rest) = getopt nonblock_kind args in
      if BadOption \<in> set os then (Exits False [], k)
      else (case rest of
        name # msg # prio \<Rightarrow>
          (case k name of
             None \<Rightarrow> (Exits False [], k)
           | Some q \<Rightarrow>
               (let priority = (case prio of [] \<Rightarrow> 0 | p # _ \<Rightarrow> atou p) in
                if MQ_PRIO_MAX \<le> priority \<or> mq_msgsize q < int (length msg) then (Exits False [], k)
                else if mq_maxmsg q \<le> int (length (messages q))
                then (if os = [] then Waits else Exits False [], k)
                else (Exits True [], k(name \<mapsto> q\<lparr>messages := messages q @ [(priority, msg)]\<rparr>))))
      | _ \<Rightarrow> (Exits False [], k)))"

text \<open>recv\_msg.c allocates \<open>sizeof(attr.mq_msgsize)\<close> bytes, the size of a long.\<close>

definition SIZEOF_LONG :: nat where "SIZEOF_LONG = 8"

definition recv_msg :: "string list \<Rightarrow> queues \<Rightarrow> tool_end \<times> queues" where
  "recv_msg args k =
     (let (os, rest) = getopt nonblock_kind args in
      if BadOption \<in> set os then (Exits False [], k)
      else (case rest of
        name # _ \<Rightarrow>
          (case k name of
             None \<Rightarrow> (Exits False [], k)
           | Some q \<Rightarrow>
               if messages q = [] then (if os = [] then Waits else Exits False [], k)
               else (let m = next_message (messages q) in
                 if SIZEOF_LONG < length (snd m) then (Undefined, k)
                 else (Exits True [''Read '' @ dec_nat (length (snd m)) @ '' bytes; priority = '' @ dec_nat (fst m) @ '' '', snd m],
                       k(name \<mapsto> q\<lparr>messages := remove1 m (messages q)\<rparr>))))
      | _ \<Rightarrow> (Exits False [], k)))"

definition get_mq_attr :: "string list \<Rightarrow> queues \<Rightarrow> tool_end \<times> queues" where
  "get_mq_attr args k =
     (case args of
        [name] \<Rightarrow>
          if name = ''--help'' then (Exits False [], k)
          else (case k name of
             None \<Rightarrow> (Exits False [], k)
           | Some q \<Rightarrow> (Exits True [''Maximum # of messages on queue:    '' @ dec_int (mq_maxmsg q),
                                   ''Maximum message size:              '' @ dec_int (mq_msgsize q),
                                   ''# of messages currently in queue:  '' @ dec_nat (length (messages q))], k))
      | _ \<Rightarrow> (Exits False [], k))"

definition delete_mq :: "string list \<Rightarrow> queues \<Rightarrow> tool_end \<times> queues" where
  "delete_mq args k =
     (case args of
        [name] \<Rightarrow>
          if name = ''--help'' \<or> k name = None then (Exits False [], k) else (Exits True [], k(name := None))
      | _ \<Rightarrow> (Exits False [], k))"


section \<open>The order of the messages\<close>

definition by_priority :: "(nat \<times> string) list \<Rightarrow> (nat \<times> string) list" where
  "by_priority ms = sort_key (\<lambda>m. - int (fst m)) ms"

lemma highest_exists: "ms \<noteq> [] \<Longrightarrow> \<exists>m\<in>set ms. \<forall>n\<in>set ms. fst n \<le> (fst m :: nat)"
proof (induction ms)
  case (Cons a ms)
  show ?case
  proof (cases "ms = []")
    case False
    then obtain m where m: "m \<in> set ms" "\<forall>n\<in>set ms. fst n \<le> fst m" using Cons.IH by blast
    show ?thesis using m by (cases "fst a \<le> fst m") (auto intro: bexI [of _ m] bexI [of _ a])
  qed simp
qed simp

lemma next_message_in:
  assumes "ms \<noteq> []"
  shows "next_message ms \<in> set ms" "\<forall>n\<in>set ms. fst n \<le> fst (next_message ms)"
proof -
  have "filter (\<lambda>m. \<forall>n\<in>set ms. fst n \<le> fst m) ms \<noteq> []"
    using highest_exists [OF assms] by (auto simp: filter_empty_conv)
  then have "next_message ms \<in> set (filter (\<lambda>m. \<forall>n\<in>set ms. fst n \<le> fst m) ms)"
    unfolding next_message_def by (rule hd_in_set)
  then show "next_message ms \<in> set ms" "\<forall>n\<in>set ms. fst n \<le> fst (next_message ms)" by auto
qed

lemma next_message_filter:
  assumes "ms \<noteq> []"
  shows "filter (\<lambda>m. fst m = fst (next_message ms)) ms =
    next_message ms # remove1 (next_message ms) (filter (\<lambda>m. fst m = fst (next_message ms)) ms)"
proof -
  note n = next_message_in [OF assms]
  have e: "(\<forall>n\<in>set ms. fst n \<le> fst m) \<longleftrightarrow> fst m = fst (next_message ms)" if "m \<in> set ms" for m
    using n that by (metis order_antisym)
  then have f: "filter (\<lambda>m. \<forall>n\<in>set ms. fst n \<le> fst m) ms = filter (\<lambda>m. fst m = fst (next_message ms)) ms"
    by (simp cong: filter_cong)
  have ne: "filter (\<lambda>m. fst m = fst (next_message ms)) ms \<noteq> []" using n(1) by (auto simp: filter_empty_conv)
  moreover have "hd (filter (\<lambda>m. fst m = fst (next_message ms)) ms) = next_message ms"
    by (subst f [symmetric]) (simp add: next_message_def)
  ultimately show ?thesis by (metis list.collapse remove1.simps(2))
qed

lemma by_priority_next:
  assumes "ms \<noteq> []"
  shows "by_priority ms = next_message ms # by_priority (remove1 (next_message ms) ms)"
  unfolding by_priority_def
proof (rule properties_for_sort_key)
  let ?x = "next_message ms" and ?f = "\<lambda>m :: nat \<times> string. - int (fst m)"
  let ?r = "remove1 (next_message ms) ms"
  note n = next_message_in [OF assms]
  show "mset (?x # sort_key ?f ?r) = mset ms" using n(1) by simp
  show "sorted (map ?f (?x # sort_key ?f ?r))" using n(2) by (auto dest: notin_set_remove1)
  fix m assume "m \<in> set (?x # sort_key ?f ?r)"
  have stable: "filter (\<lambda>y. ?f m = ?f y) (sort_key ?f ?r) = filter (\<lambda>y. ?f m = ?f y) ?r"
    using sort_key_stable [of ?f "?f m" ?r] by (simp only: eq_commute)
  show "filter (\<lambda>y. ?f m = ?f y) (?x # sort_key ?f ?r) = filter (\<lambda>y. ?f m = ?f y) ms"
  proof (cases "fst m = fst ?x")
    case True
    have "filter (\<lambda>y. ?f m = ?f y) ?r = remove1 ?x (filter (\<lambda>y. fst y = fst ?x) ms)" using True by (simp add: filter_remove1 eq_commute)
    with stable show ?thesis using next_message_filter [OF assms] True by (simp add: eq_commute)
  next
    case False
    have "filter (\<lambda>y. ?f m = ?f y) ?r = remove1 ?x (filter (\<lambda>y. ?f m = ?f y) ms)" by (simp add: filter_remove1)
    also have "\<dots> = filter (\<lambda>y. ?f m = ?f y) ms" using False by (simp add: remove1_idem)
    finally show ?thesis using False stable by simp
  qed
qed

fun run_tools :: "(queues \<Rightarrow> tool_end \<times> queues) list \<Rightarrow> queues \<Rightarrow> tool_end list \<times> queues" where
  "run_tools [] k = ([], k)"
| "run_tools (t # ts) k = (let (e, k') = t k; (es, k'') = run_tools ts k' in (e # es, k''))"

lemma run_tools_append:
  "run_tools (ts @ us) k = (let (es, k') = run_tools ts k; (fs, k'') = run_tools us k' in (es @ fs, k''))"
  by (induction ts arbitrary: k) (auto split: prod.splits)

definition sendable :: "mqueue \<Rightarrow> nat \<times> string \<Rightarrow> bool" where
  "sendable q m \<longleftrightarrow> fst m < MQ_PRIO_MAX \<and> int (length (snd m)) \<le> mq_msgsize q \<and> \<not> is_option (snd m)"

definition send_tool :: "string \<Rightarrow> nat \<times> string \<Rightarrow> queues \<Rightarrow> tool_end \<times> queues" where
  "send_tool name m = send_msg [name, snd m, dec_nat (fst m)]"

definition received :: "nat \<times> string \<Rightarrow> tool_end" where
  "received m = Exits True [''Read '' @ dec_nat (length (snd m)) @ '' bytes; priority = '' @ dec_nat (fst m) @ '' '', snd m]"

lemma send_one:
  assumes "\<not> is_option name" "k name = Some q" "sendable q m" "int (length (messages q)) < mq_maxmsg q"
  shows "send_tool name m k = (Exits True [], k(name \<mapsto> q\<lparr>messages := messages q @ [m]\<rparr>))"
proof -
  have "getopt nonblock_kind [name, snd m, dec_nat (fst m)] = ([], [name, snd m, dec_nat (fst m)])"
    using assms by (intro getopt_plain) (simp add: sendable_def dec_nat_no_option)
  then show ?thesis using assms by (simp add: send_tool_def send_msg_def sendable_def atou_dec MQ_PRIO_MAX_def)
qed

lemma send_many:
  assumes "\<not> is_option name" "k name = Some q" "list_all (sendable q) ms" "int (length (messages q) + length ms) \<le> mq_maxmsg q"
  shows "run_tools (map (send_tool name) ms) k =
    (replicate (length ms) (Exits True []), k(name \<mapsto> q\<lparr>messages := messages q @ ms\<rparr>))"
  using assms(2-4)
proof (induction ms arbitrary: k q)
  case Nil
  then show ?case by (auto simp: fun_upd_idem)
next
  case (Cons m ms)
  have s: "send_tool name m k = (Exits True [], k(name \<mapsto> q\<lparr>messages := messages q @ [m]\<rparr>))"
    by (rule send_one [OF assms(1)]) (use Cons.prems in auto)
  have "list_all (sendable (q\<lparr>messages := messages q @ [m]\<rparr>)) ms" using Cons.prems by (auto simp: list_all_iff sendable_def)
  then have "run_tools (map (send_tool name) ms) (k(name \<mapsto> q\<lparr>messages := messages q @ [m]\<rparr>)) =
      (replicate (length ms) (Exits True []),
       (k(name \<mapsto> q\<lparr>messages := messages q @ [m]\<rparr>))
         (name \<mapsto> (q\<lparr>messages := messages q @ [m]\<rparr>)\<lparr>messages := messages (q\<lparr>messages := messages q @ [m]\<rparr>) @ ms\<rparr>))"
    by (intro Cons.IH) (use Cons.prems in auto)
  then show ?case by (simp add: s) (simp add: fun_eq_iff)
qed

lemma recv_many:
  assumes "\<not> is_option name" "k name = Some q" "list_all (\<lambda>m. length (snd m) \<le> SIZEOF_LONG) (messages q)"
  shows "run_tools (replicate (length (messages q)) (recv_msg [name])) k =
    (map received (by_priority (messages q)), k(name \<mapsto> q\<lparr>messages := []\<rparr>))"
  using assms(2-3)
proof (induction "length (messages q)" arbitrary: k q)
  case 0
  then show ?case by (auto simp: by_priority_def fun_upd_idem)
next
  case (Suc n)
  let ?m = "next_message (messages q)"
  have ne: "messages q \<noteq> []" using Suc(2) by auto
  note m = next_message_in [OF ne]
  have g: "getopt nonblock_kind [name] = ([], [name])" using assms(1) by (intro getopt_plain) simp
  have "length (snd ?m) \<le> SIZEOF_LONG" using Suc.prems(2) m(1) by (auto simp: list_all_iff)
  then have r: "recv_msg [name] k = (received ?m, k(name \<mapsto> q\<lparr>messages := remove1 ?m (messages q)\<rparr>))"
    using g ne Suc.prems(1) by (simp add: recv_msg_def received_def Let_def)
  let ?q = "q\<lparr>messages := remove1 ?m (messages q)\<rparr>"
  have "n = length (messages ?q)" using Suc(2) m(1) by (simp add: length_remove1)
  moreover have "list_all (\<lambda>m. length (snd m) \<le> SIZEOF_LONG) (messages ?q)"
    using Suc.prems(2) by (auto simp: list_all_iff dest: notin_set_remove1)
  ultimately have "run_tools (replicate n (recv_msg [name])) (k(name \<mapsto> ?q)) =
      (map received (by_priority (messages ?q)), (k(name \<mapsto> ?q))(name \<mapsto> ?q\<lparr>messages := []\<rparr>))"
    using Suc.hyps(1) [of ?q "k(name \<mapsto> ?q)"] by simp
  then show ?case using r by_priority_next [OF ne] by (simp add: Suc(2) [symmetric])
qed


section \<open>Properties\<close>

text \<open>
  C33: messages that are sent to an empty queue, each with a priority below the limit and a text that
  the queue, the buffer of recv\_msg.c and the option parser take, are received in the order of
  their priorities, the highest first, and in the order of their arrival within a priority; every
  text and priority is printed as it was sent, and the queue is empty again.
\<close>

theorem messages_by_priority:
  assumes "\<not> is_option name" "k name = Some q" "messages q = []" "int (length ms) \<le> mq_maxmsg q"
    and "list_all (sendable q) ms" "list_all (\<lambda>m. length (snd m) \<le> SIZEOF_LONG) ms"
  shows "run_tools (map (send_tool name) ms @ replicate (length ms) (recv_msg [name])) k =
    (replicate (length ms) (Exits True []) @ map received (by_priority ms), k)"
proof -
  have "run_tools (map (send_tool name) ms) k = (replicate (length ms) (Exits True []), k(name \<mapsto> q\<lparr>messages := ms\<rparr>))"
    using send_many [of name k q ms] assms by simp
  moreover have "run_tools (replicate (length ms) (recv_msg [name])) (k(name \<mapsto> q\<lparr>messages := ms\<rparr>)) =
      (map received (by_priority ms), (k(name \<mapsto> q\<lparr>messages := ms\<rparr>))(name \<mapsto> (q\<lparr>messages := ms\<rparr>)\<lparr>messages := []\<rparr>))"
    using recv_many [of name "k(name \<mapsto> q\<lparr>messages := ms\<rparr>)" "q\<lparr>messages := ms\<rparr>"] assms by simp
  moreover have "(k(name \<mapsto> q\<lparr>messages := ms\<rparr>))(name \<mapsto> (q\<lparr>messages := ms\<rparr>)\<lparr>messages := []\<rparr>) = k"
    using assms(2,3) by (auto simp: fun_eq_iff)
  ultimately show ?thesis by (simp add: run_tools_append)
qed

text \<open>The queue of the witness is made by create\_mq.c.\<close>

definition made_queues :: queues where
  "made_queues = snd (create_mq (10, 8192) (\<lambda>_ _. True) [''-cm'', ''3'', ''/q''] (\<lambda>_. None))"

theorem messages_by_priority_witness:
  "fst (run_tools (map (send_tool ''/q'') [(1, ''low''), (7, ''a''), (7, ''b'')] @ replicate 3 (recv_msg [''/q''])) made_queues) =
     replicate 3 (Exits True []) @ map received [(7, ''a''), (7, ''b''), (1, ''low'')]"
proof -
  let ?q = "\<lparr>mq_maxmsg = 3, mq_msgsize = 2048, messages = []\<rparr>" and ?ms = "[(1, ''low''), (7, ''a''), (7, ''b'')]"
  have "by_priority ?ms = [(7, ''a''), (7, ''b''), (1, ''low'')]" by (simp add: by_priority_def)
  moreover have "\<not> is_option ''/q''" by (simp add: is_option_def)
  moreover have "list_all (sendable ?q) ?ms" by (simp add: sendable_def MQ_PRIO_MAX_def is_option_def)
  moreover have "list_all (\<lambda>m. length (snd m) \<le> SIZEOF_LONG) ?ms" by (simp add: SIZEOF_LONG_def)
  moreover have "made_queues ''/q'' = Some ?q" by code_simp
  ultimately show ?thesis using messages_by_priority [of "''/q''" made_queues ?q ?ms] by (simp add: numeral_3_eq_3)
qed

text \<open>
  A longer message is written outside of the buffer, although the queue takes up to 2048 bytes.
\<close>

lemma long_message_undefined:
  assumes "\<not> is_option name" "k name = Some q" "messages q \<noteq> []" "8 < length (snd (next_message (messages q)))"
  shows "fst (recv_msg [name] k) = Undefined"
proof -
  have "getopt nonblock_kind [name] = ([], [name])" using assms(1) by (intro getopt_plain) simp
  then show ?thesis using assms by (simp add: recv_msg_def SIZEOF_LONG_def Let_def)
qed

text \<open>create\_mq.c takes the permissions that its usage line offers, and does not use them.\<close>

lemma perms_ignored: "create_mq sys allowed (''-c'' # name # perms) k = create_mq sys allowed [''-c'', name] k"
  if "\<not> is_option name" "list_all (\<lambda>a. \<not> is_option a) perms"
proof -
  have "getopt create_kind (name # perms) = ([], name # perms)" "getopt create_kind [name] = ([], [name])"
    using that by (intro getopt_plain; simp)+
  moreover have "getopt create_kind (''-c'' # as) = (Opt CHR ''c'' [] # fst (getopt create_kind as), snd (getopt create_kind as))"
    for as by (simp add: is_option_def split: prod.splits)
  ultimately show ?thesis unfolding create_mq_def by (simp del: getopt.simps split: option.splits)
qed

end
