(* ===== verification/SemTools.thy ===== *)
theory SemTools
  imports Getopt Threads
begin

text \<open>
  The tools of src/code\_examples/sem: sem/posix on named semaphores and sem/systemV on semaphore
  sets. They are run one after the other by a user who is not privileged, and the file mode
  creation mask of that user does not take away the permissions of the owner.
\<close>

section \<open>Named semaphores\<close>

text \<open>The value and the permissions of a semaphore.\<close>

type_synonym named_sems = "string \<Rightarrow> (nat \<times> nat) option"

definition SEM_VALUE_MAX :: nat where "SEM_VALUE_MAX = 2147483647"

definition OWNER_RW :: nat where "OWNER_RW = 384"

text \<open>Both bits of \<open>S_IRUSR | S_IWUSR\<close>, which sem\_open wants.\<close>

definition owner_rw :: "nat \<Rightarrow> bool" where
  "owner_rw perms \<longleftrightarrow> perms div 128 mod 4 = 3"

definition sem_open :: "string \<Rightarrow> named_sems \<Rightarrow> nat option" where
  "sem_open name k = (case k name of None \<Rightarrow> None | Some (v, perms) \<Rightarrow> if owner_rw perms then Some v else None)"

definition set_value :: "string \<Rightarrow> nat \<Rightarrow> named_sems \<Rightarrow> named_sems" where
  "set_value name v k = k(name := map_option (\<lambda>(_, perms). (v, perms)) (k name))"

fun psem_kind :: "char \<Rightarrow> optkind" where
  "psem_kind c = (if c = CHR ''c'' \<or> c = CHR ''x'' then Flag else NoOption)"

definition psem_create :: "string list \<Rightarrow> named_sems \<Rightarrow> tool_end \<times> named_sems" where
  "psem_create args k =
     (let (os, rest) = getopt psem_kind args;
          creat = (Opt CHR ''c'' [] \<in> set os); excl = (Opt CHR ''x'' [] \<in> set os) in
      if BadOption \<in> set os then (Exits False [], k)
      else (case rest of
        [] \<Rightarrow> (Exits False [], k)
      | name # more_args \<Rightarrow>
          (let perms = (case more_args of [] \<Rightarrow> OWNER_RW | p # _ \<Rightarrow> atou p);
               value = (case more_args of _ # v # _ \<Rightarrow> atou v | _ \<Rightarrow> 0) in
           case k name of
             Some _ \<Rightarrow> if creat \<and> excl \<or> sem_open name k = None then (Exits False [], k) else (Exits True [], k)
           | None \<Rightarrow> if creat \<and> value \<le> SEM_VALUE_MAX then (Exits True [], k(name \<mapsto> (value, perms)))
                     else (Exits False [], k))))"

text \<open>The tools that have a name as their only argument.\<close>

definition with_name :: "string list \<Rightarrow> (string \<Rightarrow> tool_end \<times> named_sems) \<Rightarrow> named_sems \<Rightarrow> tool_end \<times> named_sems" where
  "with_name args f k =
     (case args of [name] \<Rightarrow> if name = ''--help'' then (Exits False [], k) else f name | _ \<Rightarrow> (Exits False [], k))"

definition psem_post :: "string list \<Rightarrow> named_sems \<Rightarrow> tool_end \<times> named_sems" where
  "psem_post args k = with_name args (\<lambda>name.
     case sem_open name k of
       None \<Rightarrow> (Exits False [], k)
     | Some v \<Rightarrow> if v < SEM_VALUE_MAX then (Exits True ['' sem_post () succeeded ''], set_value name (sem_post v) k)
                 else (Exits False [], k)) k"

definition psem_wait :: "string list \<Rightarrow> named_sems \<Rightarrow> tool_end \<times> named_sems" where
  "psem_wait args k = with_name args (\<lambda>name.
     case sem_open name k of
       None \<Rightarrow> (Exits False [], k)
     | Some v \<Rightarrow> (case sem_wait v of
           None \<Rightarrow> (Waits, k)
         | Some w \<Rightarrow> (Exits True ['' sem_wait () succeeded ''], set_value name w k))) k"

definition psem_getvalue :: "string list \<Rightarrow> named_sems \<Rightarrow> tool_end \<times> named_sems" where
  "psem_getvalue args k = with_name args (\<lambda>name.
     case sem_open name k of
       None \<Rightarrow> (Exits False [], k)
     | Some v \<Rightarrow> (Exits True [''Semaphore value = '' @ dec_nat v @ '' ''], k)) k"

definition psem_unlink :: "string list \<Rightarrow> named_sems \<Rightarrow> tool_end \<times> named_sems" where
  "psem_unlink args k = with_name args (\<lambda>name.
     if k name = None then (Exits False [], k) else (Exits True [], k(name := None))) k"

section \<open>Semaphore sets\<close>

text \<open>
  The sets by their identifiers, the identifiers by their keys, and the next identifier that the
  system gives.
\<close>

record sem_sets =
  sets :: "int \<Rightarrow> nat list option"
  ids :: "int \<Rightarrow> int option"
  next_id :: nat

definition KEY :: int where "KEY = 2010"
definition SEMVMX :: int where "SEMVMX = 32767"
definition SEMMSL :: int where "SEMMSL = 32000"

definition semget_private :: "int \<Rightarrow> sem_sets \<Rightarrow> (int \<times> sem_sets) option" where
  "semget_private n k =
     (if n \<le> 0 \<or> SEMMSL < n then None
      else Some (int (next_id k), k\<lparr>sets := (sets k)(int (next_id k) \<mapsto> replicate (nat n) 0), next_id := next_id k + 1\<rparr>))"

definition setval :: "int \<Rightarrow> int \<Rightarrow> sem_sets \<Rightarrow> sem_sets option" where
  "setval i v k =
     (case sets k i of
        Some (_ # vs) \<Rightarrow> if v < 0 \<or> SEMVMX < v then None else Some (k\<lparr>sets := (sets k)(i \<mapsto> nat v # vs)\<rparr>)
      | _ \<Rightarrow> None)"

text \<open>semop on the first semaphore: \<open>Inl True\<close> is that it waits, \<open>Inl False\<close> that it fails.\<close>

definition semop :: "int \<Rightarrow> int \<Rightarrow> sem_sets \<Rightarrow> bool + sem_sets" where
  "semop i d k =
     (case sets k i of
        Some (v # vs) \<Rightarrow>
          if 0 < d then (if int v + d \<le> SEMVMX then Inr (k\<lparr>sets := (sets k)(i \<mapsto> nat (int v + d) # vs)\<rparr>) else Inl False)
          else if d = 0 then (if v = 0 then Inr k else Inl True)
          else if 0 \<le> int v + d then Inr (k\<lparr>sets := (sets k)(i \<mapsto> nat (int v + d) # vs)\<rparr>) else Inl True
      | _ \<Rightarrow> Inl False)"

definition create_sysv_semaphore :: "sem_sets \<Rightarrow> tool_end \<times> sem_sets" where
  "create_sysv_semaphore k =
     (let (i, k1) = (case ids k KEY of
          Some i \<Rightarrow> (i, k)
        | None \<Rightarrow> (int (next_id k), k\<lparr>sets := (sets k)(int (next_id k) \<mapsto> [0]), ids := (ids k)(KEY \<mapsto> int (next_id k)), next_id := next_id k + 1\<rparr>)) in
      case setval i 0 k1 of None \<Rightarrow> (Exits False [], k1) | Some k2 \<Rightarrow> (Exits True [''Semaphore 2010 initialized. ''], k2))"

definition sem_signal :: "sem_sets \<Rightarrow> tool_end \<times> sem_sets" where
  "sem_signal k =
     (case ids k KEY of
        None \<Rightarrow> (Exits False [], k)
      | Some i \<Rightarrow> (case semop i 1 k of
            Inl b \<Rightarrow> (if b then Waits else Exits False [], k)
          | Inr k' \<Rightarrow> (Exits True [''Successful V operation performed on semaphore 2010 by process ''], k')))"

text \<open>The loop of sem\_probe.c: \<open>fuel\<close> operations at most, and how many went through.\<close>

fun probe_loop :: "nat \<Rightarrow> int \<Rightarrow> sem_sets \<Rightarrow> tool_end \<times> nat \<times> sem_sets" where
  "probe_loop 0 i k = (Undefined, 0, k)"
| "probe_loop (Suc fuel) i k =
     (case semop i (- 1) k of
        Inl b \<Rightarrow> (if b then Waits else Exits False [], 0, k)
      | Inr k' \<Rightarrow> (let (e, n, k'') = probe_loop fuel i k' in (e, n + 1, k'')))"

definition sem_probe :: "nat \<Rightarrow> sem_sets \<Rightarrow> tool_end \<times> nat \<times> sem_sets" where
  "sem_probe fuel k = (case ids k KEY of None \<Rightarrow> (Exits False [], 0, k) | Some i \<Rightarrow> probe_loop fuel i k)"

definition create_semaphore_set :: "string list \<Rightarrow> sem_sets \<Rightarrow> tool_end \<times> sem_sets" where
  "create_semaphore_set args k =
     (case args of
        [] \<Rightarrow> (Exits True [], k)
      | a # _ \<Rightarrow>
          if a = ''--help'' \<or> length args \<noteq> 1 then (Exits True [], k)
          else (case semget_private (atoi a) k of None \<Rightarrow> (Exits False [], k) | Some (i, k') \<Rightarrow> (Exits True [], k')))"

text \<open>The initial values are stored as unsigned shorts.\<close>

definition to_ushort :: "string \<Rightarrow> nat" where
  "to_ushort s = nat (atoi s mod 65536)"

definition initialize_semaphore_set :: "string list \<Rightarrow> sem_sets \<Rightarrow> tool_end \<times> sem_sets" where
  "initialize_semaphore_set args k =
     (case args of
        a # vs \<Rightarrow>
          if vs = [] \<or> a = ''--help'' then (Exits True [], k)
          else (case sets k (atoi a) of
              None \<Rightarrow> (Exits False [], k)
            | Some old \<Rightarrow>
                if length old \<noteq> length vs then (Exits True [], k)
                else if list_ex (\<lambda>s. SEMVMX < int (to_ushort s)) vs then (Exits False [], k)
                else (Exits True [], k\<lparr>sets := (sets k)(atoi a \<mapsto> map to_ushort vs)\<rparr>))
      | [] \<Rightarrow> (Exits True [], k))"

definition svsem_demo :: "string list \<Rightarrow> sem_sets \<Rightarrow> tool_end \<times> sem_sets" where
  "svsem_demo args k =
     (case args of
        [a] \<Rightarrow>
          if a = ''--help'' then (Exits True [], k)
          else (case semget_private 1 k of
              None \<Rightarrow> (Exits False [], k)
            | Some (i, k1) \<Rightarrow> (case setval i (atoi a) k1 of
                None \<Rightarrow> (Exits False [], k1)
              | Some k2 \<Rightarrow> (Exits True [''Semaphore obtianed. ID = '' @ dec_int i], k2)))
      | [a, b] \<Rightarrow>
          if a = ''--help'' then (Exits True [], k)
          else (case semop (atoi a) (atoi b) k of
              Inl w \<Rightarrow> (if w then Waits else Exits False ['' about to semop.''], k)
            | Inr k' \<Rightarrow> (Exits True ['' about to semop.'', '': semop completed.''], k'))
      | _ \<Rightarrow> (Exits True [], k))"

section \<open>Posts and waits balance\<close>

fun run_psem :: "string \<Rightarrow> bool list \<Rightarrow> named_sems \<Rightarrow> named_sems option" where
  "run_psem name [] k = Some k"
| "run_psem name (b # bs) k =
     (case (if b then psem_post [name] k else psem_wait [name] k) of
        (Exits True _, k') \<Rightarrow> run_psem name bs k'
      | _ \<Rightarrow> None)"

lemma psem_one:
  assumes "k name = Some (v, perms)" "owner_rw perms" "name \<noteq> ''--help''"
  shows "v < SEM_VALUE_MAX \<Longrightarrow> psem_post [name] k = (Exits True ['' sem_post () succeeded ''], k(name \<mapsto> (sem_post v, perms)))"
    and "psem_wait [name] k = (case sem_wait v of None \<Rightarrow> (Waits, k)
      | Some w \<Rightarrow> (Exits True ['' sem_wait () succeeded ''], k(name \<mapsto> (w, perms))))"
    and "psem_getvalue [name] k = (Exits True [''Semaphore value = '' @ dec_nat v @ '' ''], k)"
  using assms by (auto simp: psem_post_def psem_wait_def psem_getvalue_def with_name_def sem_open_def set_value_def
      split: option.splits)

lemma run_psem_ops:
  assumes "k name = Some (v, perms)" "owner_rw perms" "name \<noteq> ''--help''" "v + length bs \<le> SEM_VALUE_MAX"
  shows "run_psem name bs k = map_option (\<lambda>w. k(name \<mapsto> (w, perms))) (posix_sem.ops_run bs v)"
  using assms(1,4)
proof (induction bs v arbitrary: k rule: posix_sem.ops_run.induct)
  case (1 v)
  then show ?case by (auto simp: fun_upd_idem)
next
  case (2 bs v)
  have "run_psem name bs (k(name \<mapsto> (sem_post v, perms))) =
      map_option (\<lambda>w. (k(name \<mapsto> (sem_post v, perms)))(name \<mapsto> (w, perms))) (posix_sem.ops_run bs (sem_post v))"
    by (rule 2(1)) (use 2(2,3) in \<open>auto simp: sem_post_def\<close>)
  then show ?case using psem_one(1) [of k name v perms] 2(2,3) assms(2,3) by (simp, simp add: fun_upd_def)
next
  case (3 bs v)
  show ?case
  proof (cases "sem_wait v")
    case None
    then show ?thesis using psem_one(2) [of k name v perms] 3(2) assms(2,3) by simp
  next
    case (Some w)
    have "run_psem name bs (k(name \<mapsto> (w, perms))) =
        map_option (\<lambda>u. (k(name \<mapsto> (w, perms)))(name \<mapsto> (u, perms))) (posix_sem.ops_run bs w)"
      by (rule 3(1) [OF Some]) (use 3(2,3) Some in \<open>auto simp: sem_wait_def split: if_splits\<close>)
    then show ?thesis using psem_one(2) [of k name v perms] Some 3(2) assms(2,3) by (simp, simp add: fun_upd_def)
  qed
qed

section \<open>Properties\<close>



text \<open>
  psem\_create.c reads the permissions as a decimal number, although its usage line calls them
  octal: with the 600 of the usual notation the owner can neither post nor wait.
\<close>

lemma octal_permissions:
  "psem_post [''/s''] (snd (psem_create [''-c'', ''/s'', ''600''] (\<lambda>_. None))) =
     (Exits False [], snd (psem_create [''-c'', ''/s'', ''600''] (\<lambda>_. None)))"
proof -
  have "snd (psem_create [''-c'', ''/s'', ''600''] (\<lambda>_. None)) = (\<lambda>_. None)(''/s'' \<mapsto> (0, 600))"
    by (simp add: psem_create_def is_option_def atou_def atoi_def isspace_def isdigit_def Let_def SEM_VALUE_MAX_def)
  then show ?thesis by (simp add: psem_post_def with_name_def sem_open_def owner_rw_def)
qed

text \<open>
  sem\_probe.c takes whatever the semaphore has, and then waits: its loop has no other end.
\<close>

lemma probe_empties:
  assumes "sets k i = Some (v # vs)" "v < fuel"
  shows "probe_loop fuel i k = (Waits, v, k\<lparr>sets := (sets k)(i \<mapsto> 0 # vs)\<rparr>)"
  using assms
proof (induction fuel arbitrary: k v)
  case (Suc fuel)
  show ?case
  proof (cases v)
    case 0
    then show ?thesis using Suc.prems by (simp add: semop_def fun_upd_idem)
  next
    case (Suc w)
    have "semop i (- 1) k = Inr (k\<lparr>sets := (sets k)(i \<mapsto> w # vs)\<rparr>)"
      using Suc.prems(1) Suc by (simp add: semop_def)
    then show ?thesis using Suc.IH [of "k\<lparr>sets := (sets k)(i \<mapsto> w # vs)\<rparr>" w] Suc.prems(2) Suc
      by (simp, simp cong: if_cong)
  qed
qed simp

lemma signals_are_probed:
  assumes "create_sysv_semaphore k = (e, k1)" "ids k KEY = None"
  shows "e = Exits True [''Semaphore 2010 initialized. ''] \<and>
    (\<exists>i. ids k1 KEY = Some i \<and> sets k1 i = Some [0] \<and> sem_probe 1 k1 = (Waits, 0, k1) \<and>
       (\<exists>k2. sem_signal k1 = (Exits True [''Successful V operation performed on semaphore 2010 by process ''], k2) \<and> sem_probe 2 k2 = (Waits, 1, k1)))"
  using assms by (auto simp: create_sysv_semaphore_def setval_def SEMVMX_def sem_probe_def sem_signal_def semop_def
      fun_upd_idem numeral_2_eq_2)

text \<open>
  initialize\_semaphore\_set.c stores every value that fits, and svsem\_demo.c adds to the one that it
  made.
\<close>

lemma initialize_stores:
  assumes "sets k i = Some old" "length vs = length old" "vs \<noteq> []" "0 \<le> i" "\<forall>v\<in>set vs. v \<le> 32767"
  shows "initialize_semaphore_set (dec_nat (nat i) # map dec_nat vs) k =
    (Exits True [], k\<lparr>sets := (sets k)(i \<mapsto> vs)\<rparr>)"
proof -
  have u: "to_ushort (dec_nat v) = v" if "v \<in> set vs" for v
  proof -
    have "v < 65536" using assms(5) that by force
    then show ?thesis by (simp add: to_ushort_def atoi_dec nat_mod_distrib)
  qed
  then have m: "map to_ushort (map dec_nat vs) = vs" by (simp add: map_idI)
  have "\<not> list_ex (\<lambda>s. SEMVMX < int (to_ushort s)) (map dec_nat vs)"
    using u assms(5) by (auto simp: list_ex_iff SEMVMX_def)
  moreover have "dec_nat (nat i) \<noteq> ''--help''" using dec_nat_digits [of "nat i"] by (auto simp: isdigit_def)
  ultimately show ?thesis using assms m by (simp add: initialize_semaphore_set_def atoi_dec)
qed

end
