(* ===== verification/LineInput.thy ===== *)
theory LineInput
  imports Decimals
begin

text \<open>
  fgets, and processes/simple\_interpreter.c, which runs every line of its input as a command.
\<close>

section \<open>fgets\<close>

abbreviation newline :: char where "newline \<equiv> CHR 0x0A"

fun upto_newline :: "nat \<Rightarrow> string \<Rightarrow> string \<times> string" where
  "upto_newline 0 s = ([], s)"
| "upto_newline (Suc k) [] = ([], [])"
| "upto_newline (Suc k) (c # s) =
     (if c = newline then ([c], s) else (let (a, b) = upto_newline k s in (c # a, b)))"

definition fgets :: "nat \<Rightarrow> string \<Rightarrow> (string \<times> string) option" where
  "fgets n s = (if s = [] then None else Some (upto_newline (n - 1) s))"

lemma upto_newline_split: "upto_newline k s = (a, b) \<Longrightarrow> s = a @ b \<and> length a \<le> k"
  by (induction k s arbitrary: a b rule: upto_newline.induct) (auto split: if_splits prod.splits)

lemma upto_newline_less: "upto_newline k s = (a, b) \<Longrightarrow> 0 < k \<Longrightarrow> s \<noteq> [] \<Longrightarrow> length b < length s"
  by (cases k; cases s) (auto split: if_splits prod.splits dest: upto_newline_split)

lemma fgets_less: "fgets n s = Some (a, b) \<Longrightarrow> 2 \<le> n \<Longrightarrow> length b < length s"
  using upto_newline_less [of "n - 1" s a b] by (auto simp: fgets_def split: if_splits)

lemma upto_newline_line:
  "newline \<notin> set l \<Longrightarrow> length l < k \<Longrightarrow> upto_newline k (l @ newline # s) = (l @ [newline], s)"
proof (induction l arbitrary: k)
  case Nil
  then show ?case by (cases k) auto
next
  case (Cons c l)
  then show ?case by (cases k) auto
qed

lemma fgets_line:
  "newline \<notin> set l \<Longrightarrow> length l + 2 \<le> n \<Longrightarrow> fgets n (l @ newline # s) = Some (l @ [newline], s)"
  by (simp add: fgets_def upto_newline_line)

section \<open>simple\_interpreter.c\<close>

definition BUF_LEN :: nat where "BUF_LEN = 256"

text \<open>\<open>fork_ok i\<close> is whether the \<open>i\<close>th fork succeeds.\<close>

datatype action = Executes string | ForkFails | SaysBye

definition c_strlen :: "string \<Rightarrow> nat" where
  "c_strlen s = length (takeWhile (\<lambda>c. c \<noteq> NUL) s)"

function interpreter :: "(nat \<Rightarrow> bool) \<Rightarrow> nat \<Rightarrow> string \<Rightarrow> ub + action list" where
  "interpreter fork_ok i input =
     (case fgets BUF_LEN input of
        None \<Rightarrow> Inr []
      | Some (buffer, rest) \<Rightarrow>
          if c_strlen buffer = 0 then Inl OOBWrite
          else (let cmd = take (c_strlen buffer - 1) buffer in
            if cmd = ''quit'' then Inr [SaysBye]
            else if \<not> fork_ok i then Inr [ForkFails]
            else ebind (interpreter fork_ok (i + 1) rest) (\<lambda>as. Inr (Executes cmd # as))))"
  by pat_completeness auto

termination
  by (relation "measure (\<lambda>(f, i, s). length s)") (auto simp: BUF_LEN_def dest: fgets_less)

declare interpreter.simps [simp del]

definition short_line :: "string \<Rightarrow> bool" where
  "short_line l \<longleftrightarrow> newline \<notin> set l \<and> NUL \<notin> set l \<and> length l < BUF_LEN - 1"

lemma interpreter_line:
  assumes "short_line l" "l \<noteq> ''quit''" "fork_ok i"
  shows "interpreter fork_ok i (l @ newline # s) =
    ebind (interpreter fork_ok (i + 1) s) (\<lambda>as. Inr (Executes l # as))"
proof -
  have "fgets BUF_LEN (l @ newline # s) = Some (l @ [newline], s)"
    using assms(1) by (intro fgets_line) (auto simp: short_line_def BUF_LEN_def)
  moreover have "takeWhile (\<lambda>c. c \<noteq> NUL) (l @ [newline]) = l @ [newline]"
    using assms(1) by (intro takeWhile_all_eq) (auto simp: short_line_def)
  then have "c_strlen (l @ [newline]) = Suc (length l)" by (simp add: c_strlen_def)
  ultimately show ?thesis using assms(2,3) by (subst interpreter.simps) (simp add: Let_def)
qed

lemma interpreter_end: "interpreter fork_ok i [] = Inr []"
  by (subst interpreter.simps) (simp add: fgets_def)

lemma interpreter_quit: "interpreter fork_ok i (''quit'' @ newline # s) = Inr [SaysBye]"
proof -
  have "fgets BUF_LEN (''quit'' @ newline # s) = Some (''quit'' @ [newline], s)"
    by (rule fgets_line) (auto simp: BUF_LEN_def)
  then show ?thesis by (subst interpreter.simps) (simp add: c_strlen_def)
qed

definition text_of :: "string list \<Rightarrow> string" where
  "text_of ls = concat (map (\<lambda>l. l @ [newline]) ls)"



text \<open>
  A last line without a newline loses its last character, a longer line is cut into several
  commands, each without the last of its characters, and a NUL at the start of a line makes the
  program write before its buffer.
\<close>

lemma last_character_lost: "interpreter (\<lambda>_. True) 0 ''date'' = Inr [Executes ''dat'']"
  by (subst interpreter.simps) (simp add: fgets_def BUF_LEN_def c_strlen_def numeral_eq_Suc interpreter_end)

lemma nul_line_undefined: "interpreter fork_ok i (NUL # s) = Inl OOBWrite"
  by (subst interpreter.simps) (auto simp: fgets_def BUF_LEN_def c_strlen_def numeral_eq_Suc split: prod.splits)

lemma long_line_cut:
  assumes "newline \<notin> set l" "NUL \<notin> set l" "length l = 255" "fork_ok i"
  shows "interpreter fork_ok i (l @ s) = ebind (interpreter fork_ok (i + 1) s) (\<lambda>as. Inr (Executes (butlast l) # as))"
proof -
  have u: "upto_newline (length l) (l @ s) = (l, s)" using assms(1) by (induction l) auto
  have ne: "l \<noteq> []" using assms(3) by auto
  have "takeWhile (\<lambda>c. c \<noteq> NUL) l = l" using assms(2) by (intro takeWhile_all_eq) auto
  then have c: "c_strlen l = 255" unfolding c_strlen_def using assms(3) by (simp only:)
  have "butlast l \<noteq> ''quit''"
  proof
    assume "butlast l = ''quit''"
    then have "length (butlast l) = 4" by simp
    then show False using assms(3) by simp
  qed
  moreover have "fgets BUF_LEN (l @ s) = Some (l, s)" using u ne assms(3) by (simp add: fgets_def BUF_LEN_def)
  ultimately show ?thesis using assms(3,4) ne by (subst interpreter.simps) (simp add: c butlast_conv_take Let_def)
qed

end
