(* ===== verification/OwnedBlocks.thy ===== *)
theory OwnedBlocks
  imports Main
begin

text \<open>
  A heap whose blocks in use are exactly those of some threads, one each: \<open>b\<close> gives the block of a
  thread of \<open>L\<close> and \<open>c\<close> what it holds. No two threads share a block and no block is lost.
\<close>

definition owned :: "('b \<Rightarrow> 'a option) \<Rightarrow> 'i set \<Rightarrow> ('i \<Rightarrow> 'b) \<Rightarrow> ('i \<Rightarrow> 'a) \<Rightarrow> bool" where
  "owned h L b c \<longleftrightarrow> (\<forall>i\<in>L. h (b i) = Some (c i)) \<and> inj_on b L \<and> dom h = b ` L"

lemma owned_empty: "owned (\<lambda>_. None) {} b c"
  by (simp add: owned_def)

lemma owned_cong:
  "L = L' \<Longrightarrow> (\<And>i. i \<in> L' \<Longrightarrow> b i = b' i \<and> c i = c' i) \<Longrightarrow> owned h L b c = owned h L' b' c'"
  unfolding owned_def by (metis image_cong inj_on_cong)

lemma owned_content: "owned h L b c \<Longrightarrow> i \<in> L \<Longrightarrow> h (b i) = Some (c i)"
  by (simp add: owned_def)

lemma owned_dom: "owned h L b c \<Longrightarrow> dom h = b ` L"
  by (simp add: owned_def)

lemma owned_none: "owned h L b c \<Longrightarrow> L = {} \<Longrightarrow> h = (\<lambda>_. None)"
  by (simp add: owned_def dom_def fun_eq_iff)

lemma owned_free:
  assumes "owned h L b c" "i \<in> L"
  shows "owned (h(b i := None)) (L - {i}) b c"
proof -
  have "b j \<noteq> b i" if "j \<in> L" "j \<noteq> i" for j using assms that by (auto simp: owned_def dest: inj_onD)
  then show ?thesis using assms by (auto simp: owned_def inj_on_diff)
qed

lemma owned_alloc:
  assumes "owned h L b c" "h (b' i) = None" "i \<notin> L" "\<And>j. j \<in> L \<Longrightarrow> b' j = b j \<and> c' j = c j"
  shows "owned (h(b' i \<mapsto> c' i)) (insert i L) b' c'"
proof -
  note O = assms(1) [unfolded owned_def]
  have new: "b' i \<noteq> b j" if "j \<in> L" for j using O assms(2) that by auto
  have im: "b' ` L = b ` L" using assms(4) by (intro image_cong) auto
  show ?thesis
    unfolding owned_def
  proof (intro conjI)
    show "\<forall>j\<in>insert i L. (h(b' i \<mapsto> c' i)) (b' j) = Some (c' j)"
    proof
      fix j assume "j \<in> insert i L"
      then show "(h(b' i \<mapsto> c' i)) (b' j) = Some (c' j)"
        using O new [of j] assms(4) [of j] by (cases "j = i") auto
    qed
    have "inj_on b' L" using O assms(4) by (auto simp: inj_on_def)
    then show "inj_on b' (insert i L)" using im new assms(3) by (auto simp: inj_on_insert)
    show "dom (h(b' i \<mapsto> c' i)) = b' ` insert i L" using O im by simp
  qed
qed

end
