(* ===== verification/AlarmThread.thy ===== *)
theory AlarmThread
  imports LineInput Threads OwnedBlocks "HOL-Library.Multiset"
begin

text \<open>
  threads/thread creation and management/alarm\_thread.c: every line of the input asks for an
  alarm, a number of seconds and a message; a detached thread of its own sleeps, prints the message
  and frees the block of the alarm.
\<close>

section \<open>The program\<close>

definition MAX_LENGTH :: nat where "MAX_LENGTH = 256"

record alarm_t =
  seconds :: int
  message :: string

text \<open>\<open>sscanf(line, "%d %s", ...)\<close>: fewer than two fields, both, or a number that is no int.\<close>

datatype scanned = BadInput | NoInt | Alarm alarm_t

definition scan_alarm :: "string \<Rightarrow> scanned" where
  "scan_alarm line =
     (case scan_int (takeWhile (\<lambda>c. c \<noteq> NUL) line) of
        None \<Rightarrow> BadInput
      | Some (n, r) \<Rightarrow>
          if n < INT_MIN \<or> INT_MAX < n then NoInt
          else (let w = takeWhile (\<lambda>c. \<not> isspace c) (dropWhile isspace r) in
            if w = [] then BadInput else Alarm \<lparr>seconds = n, message = w\<rparr>))"

text \<open>The argument of \<open>sleep\<close> is an unsigned int.\<close>

definition sleep_time :: "alarm_t \<Rightarrow> nat" where
  "sleep_time a = nat (seconds a mod 4294967296)"

text \<open>
  \<open>block\<close> is the argument of the thread. \<open>asked\<close> and \<open>born\<close> are history: what the block held when
  the thread was created, and the time of that.
\<close>

datatype place = ADetach | ASleep nat | APrint | AFree | AOver

record athread =
  place :: place
  block :: nat
  asked :: alarm_t
  born :: nat

datatype process = Running | Exited | Failed | Undefined | Crashed

text \<open>
  \<open>said\<close> are the messages that were printed, with the thread and the time, and \<open>bad\<close> is the number
  of complaints about the input.
\<close>

record alarms =
  input :: string
  clock :: nat
  heap :: "nat \<Rightarrow> alarm_t option"
  threads :: "athread list"
  said :: "(nat \<times> alarm_t \<times> nat) list"
  bad :: nat
  proc :: process

definition alarms_start :: "string \<Rightarrow> alarms" where
  "alarms_start inp = \<lparr>input = inp, clock = 0, heap = (\<lambda>_. None), threads = [], said = [], bad = 0, proc = Running\<rparr>"

text \<open>
  One round of the main loop. \<open>blk\<close> is the block that malloc gives, and \<open>created\<close> the success of
  pthread\_create. When main ends, all threads end with it.
\<close>

definition alarm_main :: "nat option \<Rightarrow> bool \<Rightarrow> alarms \<Rightarrow> alarms option" where
  "alarm_main blk created s =
     (case fgets MAX_LENGTH (input s) of
        None \<Rightarrow> Some (s\<lparr>proc := Exited\<rparr>)
      | Some (line, rest) \<Rightarrow>
          if c_strlen line \<le> 1 then Some (s\<lparr>input := rest\<rparr>)
          else (case blk of
              None \<Rightarrow> Some (s\<lparr>input := rest, proc := Failed\<rparr>)
            | Some b \<Rightarrow>
                if heap s b \<noteq> None then None
                else (case scan_alarm line of
                    BadInput \<Rightarrow> Some (s\<lparr>input := rest, bad := bad s + 1\<rparr>)
                  | NoInt \<Rightarrow> Some (s\<lparr>input := rest, proc := Undefined\<rparr>)
                  | Alarm a \<Rightarrow>
                      if created
                      then Some (s\<lparr>input := rest, heap := (heap s)(b \<mapsto> a),
                             threads := threads s @ [\<lparr>place = ADetach, block = b, asked = a, born = clock s\<rparr>]\<rparr>)
                      else Some (s\<lparr>input := rest, proc := Failed\<rparr>))))"

text \<open>
  The thread of an alarm; it stands still while it sleeps. Its block is looked at before the sleep,
  after it, and when it is freed.
\<close>

definition set_place :: "nat \<Rightarrow> place \<Rightarrow> alarms \<Rightarrow> alarms" where
  "set_place i p s = s\<lparr>threads := (threads s)[i := (threads s ! i)\<lparr>place := p\<rparr>]\<rparr>"

definition alarm_thread :: "nat \<Rightarrow> alarms \<Rightarrow> alarms option" where
  "alarm_thread i s =
     (if length (threads s) \<le> i then None
      else (let t = threads s ! i in
        case place t of
          ADetach \<Rightarrow> (case heap s (block t) of
              None \<Rightarrow> Some (s\<lparr>proc := Crashed\<rparr>)
            | Some a \<Rightarrow> Some (set_place i (ASleep (clock s + sleep_time a)) s))
        | ASleep w \<Rightarrow> if w \<le> clock s then Some (set_place i APrint s) else None
        | APrint \<Rightarrow> (case heap s (block t) of
              None \<Rightarrow> Some (s\<lparr>proc := Crashed\<rparr>)
            | Some a \<Rightarrow> Some (set_place i AFree (s\<lparr>said := said s @ [(i, a, clock s)]\<rparr>)))
        | AFree \<Rightarrow> (case heap s (block t) of
              None \<Rightarrow> Some (s\<lparr>proc := Crashed\<rparr>)
            | Some a \<Rightarrow> Some (set_place i AOver (s\<lparr>heap := (heap s)(block t := None)\<rparr>)))
        | AOver \<Rightarrow> None))"

datatype event = Main "nat option" bool | Thread nat | Tick

definition alarms_step :: "alarms \<Rightarrow> event \<Rightarrow> alarms option" where
  "alarms_step s e =
     (if proc s \<noteq> Running then None
      else (case e of
          Main blk created \<Rightarrow> alarm_main blk created s
        | Thread i \<Rightarrow> alarm_thread i s
        | Tick \<Rightarrow> Some (s\<lparr>clock := clock s + 1\<rparr>)))"

section \<open>The alarms that an input asks for\<close>

definition line_alarms :: "string \<Rightarrow> alarm_t list" where
  "line_alarms line = (if c_strlen line \<le> 1 then [] else (case scan_alarm line of Alarm a \<Rightarrow> [a] | _ \<Rightarrow> []))"

function alarms_of :: "string \<Rightarrow> alarm_t list" where
  "alarms_of inp = (case fgets MAX_LENGTH inp of None \<Rightarrow> [] | Some (line, rest) \<Rightarrow> line_alarms line @ alarms_of rest)"
  by pat_completeness auto

termination
  by (relation "measure length") (auto simp: MAX_LENGTH_def dest: fgets_less)

declare alarms_of.simps [simp del]

lemma alarms_of_fgets: "fgets MAX_LENGTH inp = Some (line, rest) \<Longrightarrow> alarms_of inp = line_alarms line @ alarms_of rest"
  by (subst alarms_of.simps) simp

lemma alarms_of_end: "alarms_of [] = []"
  by (subst alarms_of.simps) (simp add: fgets_def)

text \<open>A line that the program takes: a number that is an int, and a word.\<close>

definition alarm_line :: "alarm_t \<Rightarrow> string" where
  "alarm_line a = dec_int (seconds a) @ SPACE # message a"

definition plain_alarm :: "alarm_t \<Rightarrow> bool" where
  "plain_alarm a \<longleftrightarrow> INT_MIN \<le> seconds a \<and> seconds a \<le> INT_MAX \<and> message a \<noteq> [] \<and>
     list_all (\<lambda>c. \<not> isspace c \<and> c \<noteq> NUL) (message a) \<and> length (message a) \<le> 242"


lemma dec_int_chars: "c \<in> set (dec_int n) \<Longrightarrow> isdigit c \<or> c = CHR ''-''"
  using dec_nat_digits [of "nat n"] dec_nat_digits [of "nat (- n)"] by (auto simp: dec_int_def split: if_splits)

lemma alarm_line_chars:
  assumes "plain_alarm a" "c \<in> set (alarm_line a)"
  shows "c \<noteq> newline" "c \<noteq> NUL"
proof -
  have "\<not> isspace newline" if "newline \<in> set (message a)" using assms(1) that by (auto simp: plain_alarm_def list_all_iff)
  moreover have "NUL \<notin> set (message a)" using assms(1) by (auto simp: plain_alarm_def list_all_iff)
  moreover have "\<not> isdigit newline" "\<not> isdigit NUL" by (simp_all add: isdigit_def)
  ultimately show "c \<noteq> newline" "c \<noteq> NUL" using assms(2) dec_int_chars [of c "seconds a"]
    by (auto simp: alarm_line_def isspace_def)
qed

lemma alarm_line_length: "plain_alarm a \<Longrightarrow> length (alarm_line a) \<le> 254"
  using dec_int_length [of "seconds a"] by (auto simp: plain_alarm_def alarm_line_def)

lemma plain_line_alarms:
  assumes "plain_alarm a"
  shows "line_alarms (alarm_line a @ [newline]) = [a]"
proof -
  have full: "takeWhile (\<lambda>c. c \<noteq> NUL) (alarm_line a @ [newline]) = alarm_line a @ [newline]"
    using alarm_line_chars(2) [OF assms] by (intro takeWhile_all_eq) auto
  have "alarm_line a \<noteq> []" by (simp add: alarm_line_def)
  then have long: "\<not> c_strlen (alarm_line a @ [newline]) \<le> 1" unfolding c_strlen_def full by (cases "alarm_line a") auto
  have sp: "isspace newline" by (simp add: isspace_def)
  have ns: "\<forall>c\<in>set (message a). \<not> isspace c" using assms by (auto simp: plain_alarm_def list_all_iff)
  have "\<not> isdigit SPACE" by (simp add: isdigit_def)
  then have scan: "scan_int (alarm_line a @ [newline]) = Some (seconds a, SPACE # message a @ [newline])"
    using scan_dec_int [of "SPACE # message a @ [newline]" "[]" "seconds a"] by (simp add: alarm_line_def)
  have m: "message a \<noteq> []" using assms by (simp add: plain_alarm_def)
  have "dropWhile isspace (SPACE # message a @ [newline]) = message a @ [newline]"
    using ns m by (cases "message a") auto
  moreover have "takeWhile (\<lambda>c. \<not> isspace c) (message a @ [newline]) = message a"
    using ns sp by (simp add: takeWhile_append)
  ultimately have "scan_alarm (alarm_line a @ [newline]) = Alarm a"
    using scan m assms unfolding scan_alarm_def full by (simp add: plain_alarm_def Let_def del: dropWhile.simps)
  then show ?thesis using long by (simp add: line_alarms_def)
qed

lemma alarms_of_lines: "list_all plain_alarm as \<Longrightarrow> alarms_of (text_of (map alarm_line as)) = as"
proof (induction as)
  case Nil
  then show ?case by (simp add: text_of_def alarms_of_end)
next
  case (Cons a as)
  then have a: "plain_alarm a" by simp
  have t: "text_of (map alarm_line (a # as)) = alarm_line a @ newline # text_of (map alarm_line as)"
    by (simp add: text_of_def)
  have "newline \<notin> set (alarm_line a)" using alarm_line_chars(1) [OF a, of newline] by blast
  then have "fgets MAX_LENGTH (text_of (map alarm_line (a # as))) = Some (alarm_line a @ [newline], text_of (map alarm_line as))"
    unfolding t using alarm_line_length [OF a] by (intro fgets_line) (auto simp: MAX_LENGTH_def)
  then show ?case using Cons plain_line_alarms [OF a] by (simp add: alarms_of_fgets)
qed

section \<open>The invariant\<close>

text \<open>\<open>on_time d c p\<close>: a thread whose message is due at \<open>d\<close> may be at \<open>p\<close> at the time \<open>c\<close>.\<close>

fun on_time :: "nat \<Rightarrow> nat \<Rightarrow> place \<Rightarrow> bool" where
  "on_time d c ADetach = True"
| "on_time d c (ASleep w) = (d \<le> w)"
| "on_time d c p = (d \<le> c)"

fun shown :: "place \<Rightarrow> bool" where
  "shown AFree = True"
| "shown AOver = True"
| "shown p = False"

definition due :: "athread \<Rightarrow> nat" where
  "due t = born t + sleep_time (asked t)"

definition live :: "alarms \<Rightarrow> nat \<Rightarrow> bool" where
  "live s i \<longleftrightarrow> i < length (threads s) \<and> place (threads s ! i) \<noteq> AOver"

definition lines_inv :: "string \<Rightarrow> alarms \<Rightarrow> bool" where
  "lines_inv inp s \<longleftrightarrow> map asked (threads s) = take (length (threads s)) (alarms_of inp) \<and>
     (proc s \<in> {Running, Exited} \<longrightarrow> map asked (threads s) @ alarms_of (input s) = alarms_of inp)"

definition blocks_inv :: "alarms \<Rightarrow> bool" where
  "blocks_inv s \<longleftrightarrow>
     owned (heap s) {i. live s i} (\<lambda>i. block (threads s ! i)) (\<lambda>i. asked (threads s ! i))"

definition clock_inv :: "alarms \<Rightarrow> bool" where
  "clock_inv s \<longleftrightarrow> (\<forall>i<length (threads s). born (threads s ! i) \<le> clock s \<and>
     on_time (due (threads s ! i)) (clock s) (place (threads s ! i)))"

definition said_inv :: "alarms \<Rightarrow> bool" where
  "said_inv s \<longleftrightarrow> distinct (map fst (said s)) \<and>
     fst ` set (said s) = {i. i < length (threads s) \<and> shown (place (threads s ! i))} \<and>
     (\<forall>(i, a, t)\<in>set (said s). a = asked (threads s ! i) \<and> due (threads s ! i) \<le> t \<and> t \<le> clock s)"

definition alarms_inv :: "string \<Rightarrow> alarms \<Rightarrow> bool" where
  "alarms_inv inp s \<longleftrightarrow> proc s \<noteq> Crashed \<and> lines_inv inp s \<and> blocks_inv s \<and> clock_inv s \<and> said_inv s"

lemma lines_read:
  "alarms_inv inp s \<Longrightarrow> proc s \<in> {Running, Exited} \<Longrightarrow> map asked (threads s) @ alarms_of (input s) = alarms_of inp"
  unfolding alarms_inv_def lines_inv_def by blast

lemma on_time_later: "on_time d c p \<Longrightarrow> on_time d (Suc c) p"
  by (cases p) auto

text \<open>What a step of a thread does, once its block is there.\<close>

inductive moves :: "alarms \<Rightarrow> nat \<Rightarrow> alarms \<Rightarrow> bool" for s i where
  m_detach: "place (threads s ! i) = ADetach \<Longrightarrow> moves s i (set_place i (ASleep (clock s + sleep_time (asked (threads s ! i)))) s)"
| m_wake: "place (threads s ! i) = ASleep w \<Longrightarrow> w \<le> clock s \<Longrightarrow> moves s i (set_place i APrint s)"
| m_print: "place (threads s ! i) = APrint \<Longrightarrow>
    moves s i (set_place i AFree (s\<lparr>said := said s @ [(i, asked (threads s ! i), clock s)]\<rparr>))"
| m_free: "place (threads s ! i) = AFree \<Longrightarrow>
    moves s i (set_place i AOver (s\<lparr>heap := (heap s)(block (threads s ! i) := None)\<rparr>))"

lemma alarm_thread_moves:
  assumes "blocks_inv s" "alarm_thread i s = Some t"
  shows "live s i \<and> moves s i t"
proof -
  have "heap s (block (threads s ! i)) = Some (asked (threads s ! i))" if "live s i"
    using owned_content [OF assms(1) [unfolded blocks_inv_def], of i] that by simp
  then show ?thesis using assms(2)
    by (auto simp: alarm_thread_def live_def Let_def split: if_splits place.splits
        intro: moves.intros m_wake)
qed

lemma alarm_live_place:
  "i < length (threads s) \<Longrightarrow> live (set_place i p s) j \<longleftrightarrow> (if j = i then p \<noteq> AOver else live s j)"
  by (auto simp: live_def set_place_def nth_list_update)

lemma alarm_place_simps [simp]:
  "heap (set_place i p s) = heap s" "clock (set_place i p s) = clock s" "said (set_place i p s) = said s"
  "input (set_place i p s) = input s" "proc (set_place i p s) = proc s" "bad (set_place i p s) = bad s"
  "length (threads (set_place i p s)) = length (threads s)"
  by (simp_all add: set_place_def)

lemma alarm_place_nth:
  "i < length (threads s) \<Longrightarrow> threads (set_place i p s) ! j = (if j = i then (threads s ! i)\<lparr>place := p\<rparr> else threads s ! j)"
  by (simp add: set_place_def nth_list_update)

lemma live_simps [simp]:
  "live (s\<lparr>said := x\<rparr>) j = live s j" "live (s\<lparr>heap := h\<rparr>) j = live s j" "live (s\<lparr>clock := c\<rparr>) j = live s j"
  by (simp_all add: live_def)


subsection \<open>It holds at the start and after every step\<close>

lemma alarms_inv_start: "alarms_inv inp (alarms_start inp)"
  by (simp add: alarms_inv_def alarms_start_def lines_inv_def blocks_inv_def clock_inv_def said_inv_def live_def owned_empty)

lemma moves_blocks:
  assumes "blocks_inv s" "live s i" "moves s i t"
  shows "blocks_inv t"
proof -
  have l: "i < length (threads s)" using assms(2) by (simp add: live_def)
  have same: "blocks_inv (set_place i p u)" if "p \<noteq> AOver" "threads u = threads s" "heap u = heap s" for p u
  proof -
    have "{j. live (set_place i p u) j} = {j. live s j}"
      using that(1,2) l assms(2) alarm_live_place [of i u p] by (auto simp: live_def [of u] live_def [of s])
    then show ?thesis using assms(1) l that(2,3)
      unfolding blocks_inv_def by (subst owned_cong [where L' = "{j. live s j}"]) (auto simp: alarm_place_nth)
  qed
  show ?thesis using assms(3)
  proof cases
    case m_free
    have "{j. live t j} = {j. live s j} - {i}" using l by (auto simp: m_free alarm_live_place)
    moreover have "block (threads t ! j) = block (threads s ! j) \<and> asked (threads t ! j) = asked (threads s ! j)" for j
      using l by (simp add: m_free alarm_place_nth)
    ultimately show ?thesis using owned_free [OF assms(1) [unfolded blocks_inv_def], of i] assms(2)
      by (simp add: blocks_inv_def m_free)
  qed (simp_all add: same)
qed

lemma moves_clock:
  assumes "clock_inv s" "live s i" "moves s i t"
  shows "clock_inv t"
proof -
  have l: "i < length (threads s)" using assms(2) by (simp add: live_def)
  then have "born (threads s ! i) \<le> clock s" "on_time (due (threads s ! i)) (clock s) (place (threads s ! i))"
    using assms(1) by (auto simp: clock_inv_def)
  with assms(3) show ?thesis using assms(1) l
    by cases (auto simp: clock_inv_def alarm_place_nth due_def)
qed

lemma moves_said:
  assumes "said_inv s" "clock_inv s" "live s i" "moves s i t"
  shows "said_inv t"
proof -
  have l: "i < length (threads s)" using assms(3) by (simp add: live_def)
  have o: "on_time (due (threads s ! i)) (clock s) (place (threads s ! i))" using assms(2) l by (auto simp: clock_inv_def)
  note S = assms(1) [unfolded said_inv_def]
  from assms(4) show ?thesis
  proof cases
    case m_print
    then have "i \<notin> fst ` set (said s)" using S by auto
    then show ?thesis using S l o m_print(2) unfolding m_print(1) said_inv_def
      by (auto simp: alarm_place_nth due_def)
  qed (use S l in \<open>auto simp: said_inv_def alarm_place_nth due_def\<close>)
qed

lemma moves_lines:
  assumes "lines_inv inp s" "live s i" "moves s i t"
  shows "lines_inv inp t"
proof -
  have "map asked (threads (set_place i p u)) = map asked (threads u)" if "threads u = threads s" for p u
    using that assms(2) by (auto simp: set_place_def live_def intro!: nth_equalityI simp: nth_list_update)
  with assms(3) have e: "map asked (threads t) = map asked (threads s)" by cases simp_all
  have f: "length (threads t) = length (threads s)" "input t = input s" "proc t = proc s" using assms(3) by (cases, simp_all)+
  show ?thesis using assms(1) unfolding lines_inv_def e f .
qed

lemma moves_proc: "moves s i t \<Longrightarrow> proc t = proc s"
  by (induction rule: moves.induct) simp_all

lemma thread_inv: "alarms_inv inp s \<Longrightarrow> alarm_thread i s = Some t \<Longrightarrow> alarms_inv inp t"
  using alarm_thread_moves [of s i t] moves_blocks [of s i t] moves_clock [of s i t] moves_said [of s i t]
    moves_lines [of inp s i t] moves_proc [of s i t]
  by (auto simp: alarms_inv_def)

lemma create_inv:
  assumes "alarms_inv inp s" "heap s b = None"
    and "alarms_of (input s) = a # alarms_of rest" "proc s = Running"
  shows "alarms_inv inp (s\<lparr>input := rest, heap := (heap s)(b \<mapsto> a),
    threads := threads s @ [\<lparr>place = ADetach, block = b, asked = a, born = clock s\<rparr>]\<rparr>)" (is "alarms_inv inp ?t")
proof -
  note I = assms(1) [unfolded alarms_inv_def]
  have n: "threads ?t ! i = (if i = length (threads s) then \<lparr>place = ADetach, block = b, asked = a, born = clock s\<rparr> else threads s ! i)"
    if "i \<le> length (threads s)" for i using that by (auto simp: nth_append)
  have e: "map asked (threads s) @ a # alarms_of rest = alarms_of inp" using lines_read [OF assms(1)] assms(3,4) by simp
  have "lines_inv inp ?t" unfolding lines_inv_def e [symmetric] by simp
  moreover have "blocks_inv ?t"
  proof -
    have "{i. live ?t i} = insert (length (threads s)) {i. live s i}" by (auto simp: live_def nth_append)
    moreover have "threads ?t ! j = threads s ! j" if "j \<in> {i. live s i}" for j
      using that by (simp add: live_def nth_append)
    moreover have "length (threads s) \<notin> {i. live s i}" by (simp add: live_def)
    ultimately show ?thesis
      using owned_alloc [of "heap s" "{i. live s i}" "\<lambda>i. block (threads s ! i)" "\<lambda>i. asked (threads s ! i)"
          "\<lambda>i. block (threads ?t ! i)" "length (threads s)" "\<lambda>i. asked (threads ?t ! i)"] I assms(2)
      by (simp add: blocks_inv_def)
  qed
  moreover have "clock_inv ?t" using I by (auto simp: clock_inv_def nth_append due_def)
  moreover have "said_inv ?t"
  proof -
    have S: "said_inv s" using I by simp
    have "{i. i < length (threads ?t) \<and> shown (place (threads ?t ! i))} = {i. i < length (threads s) \<and> shown (place (threads s ! i))}"
      by (auto simp: nth_append less_Suc_eq)
    moreover have "threads ?t ! fst r = threads s ! fst r" if "r \<in> set (said s)" for r
    proof -
      have "fst r \<in> fst ` set (said s)" using that by simp
      then have "fst r < length (threads s)" using S unfolding said_inv_def by blast
      then show ?thesis by (simp add: nth_append)
    qed
    ultimately show ?thesis using S unfolding said_inv_def by (simp add: case_prod_beta)
  qed
  ultimately show ?thesis using I by (simp add: alarms_inv_def)
qed

lemma skip_inv:
  assumes "alarms_inv inp s" "proc s = Running" "alarms_of (input s) = alarms_of (input t) \<or> proc t \<in> {Failed, Undefined}"
    and "heap t = heap s" "threads t = threads s" "said t = said s" "clock t = clock s" "proc t \<noteq> Crashed"
  shows "alarms_inv inp t"
proof -
  have "live t = live s" using assms(5) by (simp add: live_def fun_eq_iff)
  then have "blocks_inv t = blocks_inv s" "clock_inv t = clock_inv s" "said_inv t = said_inv s"
    unfolding blocks_inv_def clock_inv_def said_inv_def assms(4-7) by simp_all
  moreover have "lines_inv inp t"
    using assms(1-3,5) lines_read [OF assms(1)] unfolding alarms_inv_def lines_inv_def by auto
  ultimately show ?thesis using assms(1,8) by (simp add: alarms_inv_def)
qed

lemma alarm_main_inv:
  assumes "alarms_inv inp s" "proc s = Running" "alarm_main blk created s = Some t"
  shows "alarms_inv inp t"
proof (cases "fgets MAX_LENGTH (input s)")
  case None
  show ?thesis by (rule skip_inv [OF assms(1,2)]) (use None assms(3) in \<open>auto simp: alarm_main_def\<close>)
next
  case (Some lr)
  obtain line rest where lr: "fgets MAX_LENGTH (input s) = Some (line, rest)" using Some by (cases lr) auto
  note A = alarms_of_fgets [OF lr]
  note M = assms(3) [unfolded alarm_main_def lr option.case prod.case]
  note skip = skip_inv [OF assms(1,2), of t]
  consider (short) "c_strlen line \<le> 1" | (nomem) "\<not> c_strlen line \<le> 1" "blk = None"
    | (mem) b where "\<not> c_strlen line \<le> 1" "blk = Some b" "heap s b = None"
    using M by (cases blk) (auto split: if_splits)
  then show ?thesis
  proof cases
    case short
    show ?thesis by (rule skip) (use short M A assms(2) in \<open>auto simp: line_alarms_def\<close>)
  next
    case nomem
    show ?thesis by (rule skip) (use nomem M in auto)
  next
    case (mem b)
    show ?thesis
    proof (cases "scan_alarm line")
      case BadInput
      show ?thesis by (rule skip) (use mem BadInput M A assms(2) in \<open>auto simp: line_alarms_def\<close>)
    next
      case NoInt
      show ?thesis by (rule skip) (use mem NoInt M in auto)
    next
      case (Alarm a)
      show ?thesis
      proof (cases created)
        case True
        have "alarms_of (input s) = a # alarms_of rest" using A mem(1) Alarm by (simp add: line_alarms_def)
        then show ?thesis using create_inv [OF assms(1) mem(3) _ assms(2), of a rest] mem Alarm True M by simp
      next
        case False
        show ?thesis by (rule skip) (use mem Alarm False M in auto)
      qed
    qed
  qed
qed

lemma tick_inv:
  assumes "alarms_inv inp s"
  shows "alarms_inv inp (s\<lparr>clock := clock s + 1\<rparr>)" (is "alarms_inv inp ?t")
proof -
  note I = assms [unfolded alarms_inv_def]
  have "blocks_inv ?t = blocks_inv s" by (simp add: blocks_inv_def)
  moreover have "lines_inv inp ?t = lines_inv inp s" by (simp add: lines_inv_def)
  moreover have "clock_inv ?t" using I by (auto simp: clock_inv_def on_time_later le_SucI)
  moreover have "said_inv ?t" using I by (auto simp: said_inv_def intro: le_SucI)
  ultimately show ?thesis using I by (simp add: alarms_inv_def)
qed

lemma step_inv: "alarms_inv inp s \<Longrightarrow> alarms_step s e = Some t \<Longrightarrow> alarms_inv inp t"
  by (cases e) (auto simp: alarms_step_def intro: alarm_main_inv thread_inv split: if_splits dest: tick_inv)

interpretation alarm_machine: machine_inv alarms_step "alarms_start inp" "alarms_inv inp" for inp
  by unfold_locales (auto intro: alarms_inv_start step_inv)


section \<open>Every alarm rings\<close>

fun rank :: "alarms \<Rightarrow> athread \<Rightarrow> place \<Rightarrow> nat" where
  "rank s t ADetach = 4 + sleep_time (asked t)"
| "rank s t (ASleep w) = 3 + (w - clock s)"
| "rank s t APrint = 2"
| "rank s t AFree = 1"
| "rank s t AOver = 0"

definition ranks :: "alarms \<Rightarrow> nat" where
  "ranks s = (\<Sum>i<length (threads s). rank s (threads s ! i) (place (threads s ! i)))"

lemma rank_clock: "clock u = clock s \<Longrightarrow> asked t' = asked t \<Longrightarrow> rank u t' p = rank s t p"
  by (cases p) simp_all

lemma ranks_place:
  assumes "i < length (threads s)" "threads u = threads s" "clock u = clock s"
    and "rank s (threads s ! i) p < rank s (threads s ! i) (place (threads s ! i))"
  shows "ranks (set_place i p u) < ranks s"
proof -
  have r: "rank (set_place i p u) (threads (set_place i p u) ! j) (place (threads (set_place i p u) ! j)) =
      (if j = i then rank s (threads s ! i) p else rank s (threads s ! j) (place (threads s ! j)))" for j
    using assms(1-3) by (auto simp: alarm_place_nth intro: rank_clock)
  show ?thesis unfolding ranks_def r alarm_place_simps assms(2)
    by (rule sum_strict_mono_ex1) (use assms(1,4) in auto)
qed

lemma ranks_tick:
  assumes "i < length (threads s)" "place (threads s ! i) = ASleep w" "clock s < w"
  shows "ranks (s\<lparr>clock := clock s + 1\<rparr>) < ranks s"
proof -
  have "rank (s\<lparr>clock := clock s + 1\<rparr>) t p \<le> rank s t p" for t p by (cases p) auto
  moreover have "rank (s\<lparr>clock := clock s + 1\<rparr>) (threads s ! i) (ASleep w) < rank s (threads s ! i) (ASleep w)"
    using assms(3) by simp
  moreover have "threads (s\<lparr>clock := clock s + 1\<rparr>) = threads s" by simp
  ultimately show ?thesis unfolding ranks_def
    by (metis (no_types, lifting) assms(1,2) finite_lessThan lessThan_iff sum_strict_mono_ex1)
qed

definition no_main :: "event \<Rightarrow> bool" where
  "no_main e \<longleftrightarrow> (\<forall>blk created. e \<noteq> Main blk created)"

lemma one_advances:
  assumes "alarms_inv inp s" "proc s = Running" "live s i"
  shows "\<exists>e t. no_main e \<and> alarms_step s e = Some t \<and> ranks t < ranks s \<and> proc t = Running \<and> input t = input s"
proof (cases "\<exists>w. place (threads s ! i) = ASleep w \<and> clock s < w")
  case True
  then obtain w where "place (threads s ! i) = ASleep w" "clock s < w" by blast
  then show ?thesis using ranks_tick [of i s w] assms(2,3)
    by (intro exI [of _ Tick] exI [of _ "s\<lparr>clock := clock s + 1\<rparr>"]) (simp add: alarms_step_def no_main_def live_def)
next
  case False
  have l: "i < length (threads s)" using assms(3) by (simp add: live_def)
  have h: "heap s (block (threads s ! i)) = Some (asked (threads s ! i))"
    using assms(1,3) by (auto simp: alarms_inv_def blocks_inv_def dest: owned_content)
  note place = ranks_place [OF l]
  have "\<exists>t. alarm_thread i s = Some t \<and> ranks t < ranks s \<and> proc t = Running \<and> input t = input s"
  proof (cases "place (threads s ! i)")
    case ADetach
    then show ?thesis using l h assms(2) place [of s] by (simp add: alarm_thread_def Let_def)
  next
    case (ASleep w)
    then show ?thesis using l h False assms(2) place [of s] by (simp add: alarm_thread_def Let_def)
  next
    case APrint
    then show ?thesis using l h assms(2) place by (simp add: alarm_thread_def Let_def)
  next
    case AFree
    then show ?thesis using l h assms(2) place by (simp add: alarm_thread_def Let_def)
  next
    case AOver
    then show ?thesis using assms(3) by (simp add: live_def)
  qed
  then show ?thesis using assms(2)
    by (auto simp: alarms_step_def no_main_def intro!: exI [of _ "Thread i"])
qed

lemma all_advance:
  assumes "alarms_inv inp s" "proc s = Running"
  shows "\<exists>es t. list_all no_main es \<and> run alarms_step s es = Some t \<and> alarms_inv inp t \<and>
    proc t = Running \<and> input t = input s \<and> (\<forall>i. \<not> live t i)"
  using assms
proof (induction "ranks s" arbitrary: s rule: less_induct)
  case less
  show ?case
  proof (cases "\<exists>i. live s i")
    case False
    then show ?thesis using less.prems by (intro exI [of _ "[]"]) simp
  next
    case True
    then obtain i where "live s i" ..
    then obtain e u where u: "no_main e" "alarms_step s e = Some u" "ranks u < ranks s" "proc u = Running" "input u = input s"
      using one_advances [OF less.prems] by blast
    obtain es t where "list_all no_main es" "run alarms_step u es = Some t" "alarms_inv inp t"
        "proc t = Running" "input t = input u" "\<forall>i. \<not> live t i"
      using less.hyps [OF u(3) step_inv [OF less.prems(1) u(2)] u(4)] by blast
    then show ?thesis using u by (intro exI [of _ "e # es"]) auto
  qed
qed

lemma over_says_all:
  assumes "alarms_inv inp s" "\<forall>i. \<not> live s i"
  shows "mset (map (fst \<circ> snd) (said s)) = mset (map asked (threads s))" "heap s = (\<lambda>_. None)"
proof -
  have S: "said_inv s" using assms(1) by (simp add: alarms_inv_def)
  have "{i. i < length (threads s) \<and> shown (place (threads s ! i))} = {i. i < length (threads s)}"
    using assms(2) by (auto simp: live_def)
  then have "set (map fst (said s)) = set [0..<length (threads s)]" using S by (auto simp: said_inv_def)
  then have "mset (map fst (said s)) = mset [0..<length (threads s)]"
    using S by (subst set_eq_iff_mset_eq_distinct [symmetric]) (auto simp: said_inv_def)
  then have "mset (map (\<lambda>i. asked (threads s ! i)) (map fst (said s))) = mset (map (\<lambda>i. asked (threads s ! i)) [0..<length (threads s)])"
    by (metis mset_map)
  moreover have "map (\<lambda>i. asked (threads s ! i)) (map fst (said s)) = map (fst \<circ> snd) (said s)"
    using S by (auto simp: said_inv_def)
  moreover have "map (\<lambda>i. asked (threads s ! i)) [0..<length (threads s)] = map asked (threads s)"
    by (intro nth_equalityI) simp_all
  ultimately show "mset (map (fst \<circ> snd) (said s)) = mset (map asked (threads s))" by (simp only:)
  show "heap s = (\<lambda>_. None)" using assms by (auto simp: alarms_inv_def blocks_inv_def dest: owned_none)
qed

section \<open>Properties\<close>

text \<open>
  C12: when the lines of the input each hold an int and a word, the \<open>i\<close>th thread has the alarm of the
  \<open>i\<close>th line; every message that is printed is that of its thread, printed once and not before the
  seconds of its alarm have passed since the thread was created; no thread uses a block that was
  freed, and the blocks in use are those of the threads that have not freed theirs.
\<close>

theorem alarms_on_time:
  assumes "list_all plain_alarm as" "reach alarms_step (alarms_start (text_of (map alarm_line as))) s"
  shows "proc s \<noteq> Crashed \<and> map asked (threads s) = take (length (threads s)) as \<and> distinct (map fst (said s)) \<and>
    (\<forall>(i, a, t)\<in>set (said s). i < length (threads s) \<and> a = asked (threads s ! i) \<and>
       born (threads s ! i) + sleep_time a \<le> t \<and> t \<le> clock s) \<and>
    dom (heap s) = block ` {x\<in>set (threads s). place x \<noteq> AOver}"
proof -
  note I = alarm_machine.reach_inv [OF assms(2), unfolded alarms_inv_def lines_inv_def alarms_of_lines [OF assms(1)]]
  have said: "said_inv s" using I by blast
  have "a = asked (threads s ! i) \<and> due (threads s ! i) \<le> t \<and> t \<le> clock s" if "(i, a, t) \<in> set (said s)" for i a t
    using said that unfolding said_inv_def by blast
  moreover have "i < length (threads s)" if "(i, a, t) \<in> set (said s)" for i a t
  proof -
    have "i \<in> fst ` set (said s)" using that by force
    then show ?thesis using said unfolding said_inv_def by blast
  qed
  ultimately have "\<forall>(i, a, t)\<in>set (said s). i < length (threads s) \<and> a = asked (threads s ! i) \<and>
      born (threads s ! i) + sleep_time a \<le> t \<and> t \<le> clock s"
    unfolding due_def by blast
  moreover have "dom (heap s) = block ` {x\<in>set (threads s). place x \<noteq> AOver}"
  proof -
    have "(\<lambda>i. block (threads s ! i)) ` {i. live s i} = block ` {x\<in>set (threads s). place x \<noteq> AOver}"
      by (auto simp: live_def in_set_conv_nth image_iff)
    then show ?thesis using I owned_dom unfolding blocks_inv_def by metis
  qed
  ultimately show ?thesis using I by (simp add: said_inv_def)
qed

definition wake :: alarm_t where "wake = \<lparr>seconds = 2, message = ''wake''\<rparr>"
definition tea :: alarm_t where "tea = \<lparr>seconds = 1, message = ''tea''\<rparr>"

lemma both_plain: "list_all plain_alarm [wake, tea]"
  by (simp add: plain_alarm_def wake_def tea_def INT_MIN_def INT_MAX_def isspace_def)

theorem alarms_on_time_witness:
  "\<exists>s. reach alarms_step (alarms_start (text_of (map alarm_line [wake, tea]))) s \<and>
     said s = [(1, tea, 1), (0, wake, 2)] \<and> map asked (threads s) = take (length (threads s)) [wake, tea]"
proof -
  have "\<exists>s. reach alarms_step (alarms_start (text_of (map alarm_line [wake, tea]))) s \<and> said s = [(1, tea, 1), (0, wake, 2)]"
    by (rule run_example [where es = "[Main (Some 7) True, Thread 0, Main (Some 8) True, Thread 1, Tick,
      Thread 1, Thread 1, Thread 1, Tick, Thread 0, Thread 0]"]) code_simp
  then show ?thesis using alarms_on_time [OF both_plain] by blast
qed

text \<open>
  C13: from every moment at which main has read all its lines and waits for the next one, the threads
  can come to their ends without it: then the messages that were printed are those of all lines,
  each as often as it was asked for, and every block is freed.
\<close>

theorem alarms_all_ring:
  assumes "list_all plain_alarm as" "reach alarms_step (alarms_start (text_of (map alarm_line as))) s"
    and "proc s = Running" "input s = []"
  shows "\<exists>es t. list_all no_main es \<and> run alarms_step s es = Some t \<and>
    mset (map (fst \<circ> snd) (said t)) = mset as \<and> heap t = (\<lambda>_. None)"
proof -
  obtain es t where t: "list_all no_main es" "run alarms_step s es = Some t"
      "alarms_inv (text_of (map alarm_line as)) t" "proc t = Running" "input t = []" "\<forall>i. \<not> live t i"
    using all_advance [OF alarm_machine.reach_inv [OF assms(2)] assms(3)] assms(4) by auto
  have "map asked (threads t) = as"
    using lines_read [OF t(3)] t(4,5) by (simp add: alarms_of_lines [OF assms(1)] alarms_of_end)
  then show ?thesis using t(1,2) over_says_all [OF t(3,6)] by auto
qed


theorem alarms_all_ring_witness:
  "\<exists>s. reach alarms_step (alarms_start (text_of (map alarm_line [wake, tea]))) s \<and> said s = [] \<and>
     (\<exists>es t. list_all no_main es \<and> run alarms_step s es = Some t \<and>
        mset (map (fst \<circ> snd) (said t)) = {#wake, tea#} \<and> heap t = (\<lambda>_. None))"
proof -
  have "\<exists>s. reach alarms_step (alarms_start (text_of (map alarm_line [wake, tea]))) s \<and>
      (said s = [] \<and> proc s = Running \<and> input s = [])"
    by (rule run_example [where es = "[Main (Some 7) True, Main (Some 8) True]"]) code_simp
  then show ?thesis using alarms_all_ring [OF both_plain] by fastforce
qed

text \<open>
  The end of the input ends the process with every alarm that has not rung, and only the first word
  of a message is kept.
\<close>

lemma end_of_input_loses_alarms:
  "\<exists>s. reach alarms_step (alarms_start (text_of (map alarm_line [wake]))) s \<and>
     (proc s = Exited \<and> said s = [] \<and> map asked (threads s) = [wake])"
  by (rule run_example [where es = "[Main (Some 7) True, Thread 0, Main None True]"]) code_simp

lemma rest_of_message_lost:
  "line_alarms (''2 wake up'' @ [newline]) = [wake]"
  by code_simp

end
