(* ===== verification/ThreadArgs.thy ===== *)
theory ThreadArgs
  imports Getopt Threads OwnedBlocks
begin

text \<open>
  thr/multiple\_threads.c: main gives every worker a structure of its own on the heap, the worker
  prints from it, sleeps and frees it, and main waits for all of them.
\<close>

section \<open>The program\<close>

text \<open>\<open>arg2\<close> is the float 2.5, given in halves.\<close>

record args_for_thread =
  tid :: int
  arg1 :: int
  arg2_halves :: int
  processing_time :: int

datatype wplace = WStart | WSleep int | WDone | WFree | WOver
datatype mplace = MAlloc | MCreate nat | MJoin nat | MExit | MOver | MFailed | MCrashed
datatype line = Using int int int | IsDone int

record worker_rec =
  place :: wplace
  block :: nat

text \<open>\<open>table\<close> is whether the array of the thread identifiers is allocated.\<close>

record team =
  table :: bool
  heap :: "nat \<Rightarrow> args_for_thread option"
  workers :: "worker_rec list"
  out :: "(nat \<times> line) list"
  mpc :: mplace

definition team_start :: team where
  "team_start = \<lparr>table = False, heap = (\<lambda>_. None), workers = [], out = [], mpc = MAlloc\<rparr>"

definition num_threads :: "string list \<Rightarrow> nat option" where
  "num_threads args = (case args of [a] \<Rightarrow> Some (atou a) | _ \<Rightarrow> None)"

text \<open>
  The environment chooses what malloc gives, the random processing time and whether the thread is
  created. The program does not look at the result of malloc.
\<close>

datatype event = Main "nat option" int bool | Worker nat

definition team_main :: "nat \<Rightarrow> nat option \<Rightarrow> int \<Rightarrow> bool \<Rightarrow> team \<Rightarrow> team option" where
  "team_main n blk ptime created s =
     (case mpc s of
        MAlloc \<Rightarrow> Some (s\<lparr>table := (blk \<noteq> None), mpc := MCreate 0\<rparr>)
      | MCreate i \<Rightarrow>
          if i < n then
            (case blk of
               None \<Rightarrow> Some (s\<lparr>mpc := MCrashed\<rparr>)
             | Some b \<Rightarrow>
                 if heap s b \<noteq> None \<or> ptime < 0 \<or> 10 < ptime then None
                 else if \<not> table s then Some (s\<lparr>mpc := MCrashed\<rparr>)
                 else if created then
                   Some (s\<lparr>heap := (heap s)(b \<mapsto> \<lparr>tid = int i, arg1 = 5, arg2_halves = 5, processing_time = ptime\<rparr>),
                     workers := workers s @ [\<lparr>place = WStart, block = b\<rparr>], mpc := MCreate (i + 1)\<rparr>)
                 else Some (s\<lparr>mpc := MFailed\<rparr>))
          else Some (s\<lparr>mpc := MJoin 0\<rparr>)
      | MJoin i \<Rightarrow>
          if i < n then (if place (workers s ! i) = WOver then Some (s\<lparr>mpc := MJoin (i + 1)\<rparr>) else None)
          else Some (s\<lparr>mpc := MExit\<rparr>)
      | MExit \<Rightarrow> Some (s\<lparr>table := False, mpc := MOver\<rparr>)
      | _ \<Rightarrow> None)"

definition set_place :: "nat \<Rightarrow> wplace \<Rightarrow> team \<Rightarrow> team" where
  "set_place i p s = s\<lparr>workers := (workers s)[i := (workers s ! i)\<lparr>place := p\<rparr>]\<rparr>"

definition my_func :: "nat \<Rightarrow> team \<Rightarrow> team option" where
  "my_func i s =
     (if length (workers s) \<le> i then None
      else (let w = workers s ! i in
        case heap s (block w) of
          None \<Rightarrow> if place w = WOver then None else Some (s\<lparr>mpc := MCrashed\<rparr>)
        | Some a \<Rightarrow>
            (case place w of
               WStart \<Rightarrow> Some (set_place i (WSleep (processing_time a)) (s\<lparr>out := out s @ [(i, Using (tid a) (arg1 a) (arg2_halves a))]\<rparr>))
             | WSleep t \<Rightarrow> Some (set_place i WDone s)
             | WDone \<Rightarrow> Some (set_place i WFree (s\<lparr>out := out s @ [(i, IsDone (tid a))]\<rparr>))
             | WFree \<Rightarrow> Some (set_place i WOver (s\<lparr>heap := (heap s)(block w := None)\<rparr>))
             | WOver \<Rightarrow> None)))"

definition team_step :: "nat \<Rightarrow> team \<Rightarrow> event \<Rightarrow> team option" where
  "team_step n s e =
     (if mpc s = MFailed \<or> mpc s = MCrashed then None
      else (case e of Main blk ptime created \<Rightarrow> team_main n blk ptime created s | Worker i \<Rightarrow> my_func i s))"

text \<open>The events in which malloc and pthread\_create succeed.\<close>

fun good :: "event \<Rightarrow> bool" where
  "good (Main blk ptime created) = (blk \<noteq> None \<and> created)"
| "good (Worker i) = True"

section \<open>The invariant\<close>

definition own_args :: "nat \<Rightarrow> args_for_thread \<Rightarrow> bool" where
  "own_args i a \<longleftrightarrow> tid a = int i \<and> arg1 a = 5 \<and> arg2_halves a = 5 \<and> 0 \<le> processing_time a \<and> processing_time a \<le> 10"

fun lines_at :: "nat \<Rightarrow> wplace \<Rightarrow> line list" where
  "lines_at i WStart = []"
| "lines_at i (WSleep t) = [Using (int i) 5 5]"
| "lines_at i WDone = [Using (int i) 5 5]"
| "lines_at i WFree = [Using (int i) 5 5, IsDone (int i)]"
| "lines_at i WOver = [Using (int i) 5 5, IsDone (int i)]"

definition lines_of :: "nat \<Rightarrow> team \<Rightarrow> line list" where
  "lines_of i s = map snd (filter (\<lambda>(j, _). j = i) (out s))"

definition live :: "team \<Rightarrow> nat set" where
  "live s = {i. i < length (workers s) \<and> place (workers s ! i) \<noteq> WOver}"

definition blocks_inv :: "team \<Rightarrow> bool" where
  "blocks_inv s \<longleftrightarrow>
     (\<exists>c. owned (heap s) (live s) (\<lambda>i. block (workers s ! i)) c \<and> (\<forall>i\<in>live s. own_args i (c i)))"

definition out_inv :: "team \<Rightarrow> bool" where
  "out_inv s \<longleftrightarrow> (\<forall>i. lines_of i s = (if i < length (workers s) then lines_at i (place (workers s ! i)) else []))"

fun main_inv :: "nat \<Rightarrow> team \<Rightarrow> mplace \<Rightarrow> bool" where
  "main_inv n s MAlloc = (workers s = [])"
| "main_inv n s (MCreate i) = (i \<le> n \<and> length (workers s) = i \<and> table s)"
| "main_inv n s (MJoin i) = (i \<le> n \<and> length (workers s) = n \<and> (\<forall>j<i. place (workers s ! j) = WOver))"
| "main_inv n s MExit = (length (workers s) = n \<and> (\<forall>j<n. place (workers s ! j) = WOver))"
| "main_inv n s MOver = (length (workers s) = n \<and> \<not> table s \<and> (\<forall>j<n. place (workers s ! j) = WOver))"
| "main_inv n s _ = False"

definition team_inv :: "nat \<Rightarrow> team \<Rightarrow> bool" where
  "team_inv n s \<longleftrightarrow> blocks_inv s \<and> out_inv s \<and> main_inv n s (mpc s)"

lemma team_inv_start: "team_inv n team_start"
proof -
  have "live team_start = {}" by (simp add: live_def team_start_def)
  moreover have "heap team_start = (\<lambda>_. None)" "mpc team_start = MAlloc" by (simp_all add: team_start_def)
  ultimately show ?thesis
    by (simp add: team_inv_def blocks_inv_def owned_empty out_inv_def) (simp add: lines_of_def team_start_def)
qed

lemma team_place_simps [simp]:
  "heap (set_place i p s) = heap s" "out (set_place i p s) = out s" "mpc (set_place i p s) = mpc s"
  "table (set_place i p s) = table s" "length (workers (set_place i p s)) = length (workers s)"
  "lines_of j (set_place i p s) = lines_of j s"
  by (simp_all add: set_place_def lines_of_def)

lemma team_place_nth:
  "i < length (workers s) \<Longrightarrow> workers (set_place i p s) ! j = (if j = i then (workers s ! i)\<lparr>place := p\<rparr> else workers s ! j)"
  by (simp add: set_place_def nth_list_update)

text \<open>A worker that has not ended finds its own structure.\<close>

lemma live_args:
  assumes "blocks_inv s" "i \<in> live s"
  obtains a where "heap s (block (workers s ! i)) = Some a" "own_args i a"
  using assms by (auto simp: blocks_inv_def dest: owned_content)

lemma team_live_place:
  "i < length (workers s) \<Longrightarrow> live (set_place i p s) = (if p = WOver then live s - {i} else insert i (live s))"
  by (auto simp: live_def team_place_nth split: if_splits)

lemma team_place_blocks:
  assumes "blocks_inv s" "i \<in> live s" "p \<noteq> WOver"
  shows "blocks_inv (set_place i p s)"
proof -
  have l: "i < length (workers s)" using assms(2) by (simp add: live_def)
  have "live (set_place i p s) = live s" using team_live_place [OF l] assms(2,3) by auto
  moreover have "block (workers (set_place i p s) ! j) = block (workers s ! j)" for j using l by (simp add: team_place_nth)
  ultimately show ?thesis using assms(1) by (simp add: blocks_inv_def)
qed

lemma free_blocks:
  assumes "blocks_inv s" "i \<in> live s"
  shows "blocks_inv (set_place i WOver (s\<lparr>heap := (heap s)(block (workers s ! i) := None)\<rparr>))" (is "blocks_inv ?t")
proof -
  obtain c where c: "owned (heap s) (live s) (\<lambda>i. block (workers s ! i)) c" "\<forall>i\<in>live s. own_args i (c i)"
    using assms(1) by (auto simp: blocks_inv_def)
  have l: "i < length (workers s)" using assms(2) by (simp add: live_def)
  have "live ?t = live s - {i}" using l by (auto simp: live_def team_place_nth split: if_splits)
  moreover have "block (workers ?t ! j) = block (workers s ! j)" for j using l by (simp add: team_place_nth)
  ultimately show ?thesis using owned_free [OF c(1) assms(2)] c(2)
    by (auto simp: blocks_inv_def intro!: exI [of _ c])
qed

lemma alloc_blocks:
  assumes "blocks_inv s" "heap s b = None" "own_args (length (workers s)) a"
  shows "blocks_inv (s\<lparr>heap := (heap s)(b \<mapsto> a), workers := workers s @ [\<lparr>place = WStart, block = b\<rparr>], mpc := m\<rparr>)"
    (is "blocks_inv ?t")
proof -
  obtain c where c: "owned (heap s) (live s) (\<lambda>i. block (workers s ! i)) c" "\<forall>i\<in>live s. own_args i (c i)"
    using assms(1) by (auto simp: blocks_inv_def)
  let ?n = "length (workers s)" and ?c = "c(length (workers s) := a)"
  have n: "?n \<notin> live s" by (simp add: live_def)
  have L: "live ?t = insert ?n (live s)" by (auto simp: live_def nth_append)
  have "workers ?t ! j = workers s ! j" if "j \<in> live s" for j using that by (simp add: live_def nth_append)
  then have "owned ((heap s)(block (workers ?t ! ?n) \<mapsto> ?c ?n)) (insert ?n (live s)) (\<lambda>i. block (workers ?t ! i)) ?c"
    using assms(2) n by (intro owned_alloc [OF c(1)]) auto
  then show ?thesis using c(2) assms(3) n unfolding blocks_inv_def L by (intro exI [of _ ?c]) auto
qed

section \<open>The invariant is kept\<close>

lemma said_one:
  "lines_of j (s\<lparr>out := out s @ [(i, x)]\<rparr>) = (if j = i then lines_of j s @ [x] else lines_of j s)"
  by (simp add: lines_of_def)

lemma main_inv_worker:
  assumes "main_inv n s m" "place (workers s ! i) \<noteq> WOver" "i < length (workers s)" "workers u = workers s" "table u = table s"
  shows "main_inv n (set_place i p u) m"
  using assms by (cases m) (auto simp: team_place_nth)

lemma my_func_inv:
  assumes "team_inv n s" "my_func i s = Some t"
  shows "team_inv n t \<and> mpc t = mpc s"
proof -
  have l: "i < length (workers s)" using assms(2) by (auto simp: my_func_def split: if_splits)
  have I: "blocks_inv s" "out_inv s" "main_inv n s (mpc s)" using assms(1) by (simp_all add: team_inv_def)
  have live: "i \<in> live s"
  proof (rule ccontr)
    assume "i \<notin> live s"
    then have "place (workers s ! i) = WOver" using l by (simp add: live_def)
    then show False using assms(2) l by (auto simp: my_func_def Let_def split: option.splits)
  qed
  then have p: "place (workers s ! i) \<noteq> WOver" by (simp add: live_def)
  obtain a where a: "heap s (block (workers s ! i)) = Some a" "own_args i a" using live_args [OF I(1) live] .
  note step = assms(2) [unfolded my_func_def Let_def a(1) option.case]
  note main = main_inv_worker [OF I(3) p l]
  have o: "lines_of i s = lines_at i (place (workers s ! i))" using I(2) l by (simp add: out_inv_def)
  have out: "out_inv (set_place i q (s\<lparr>out := out s @ map (Pair i) xs\<rparr>))"
    if "lines_at i q = lines_at i (place (workers s ! i)) @ xs" for q xs
  proof -
    have "lines_of j (s\<lparr>out := out s @ map (Pair i) xs\<rparr>) = lines_of j s @ (if j = i then xs else [])" for j
      by (induction xs rule: rev_induct) (auto simp: lines_of_def)
    then show ?thesis using I(2) l that o by (auto simp: out_inv_def team_place_nth)
  qed
  have same: "blocks_inv (u\<lparr>out := x\<rparr>) = blocks_inv u" for u x by (simp add: blocks_inv_def live_def)
  have args: "tid a = int i" "arg1 a = 5" "arg2_halves a = 5" using a(2) by (auto simp: own_args_def)
  show ?thesis
  proof (cases "place (workers s ! i)")
    case WStart
    then have t: "t = set_place i (WSleep (processing_time a)) (s\<lparr>out := out s @ map (Pair i) [Using (int i) 5 5]\<rparr>)"
      using step l args by simp
    have "blocks_inv t" unfolding t by (rule team_place_blocks) (use I(1) live same in \<open>auto simp: live_def\<close>)
    then show ?thesis using out [of "WSleep (processing_time a)" "[Using (int i) 5 5]"] WStart main unfolding t team_inv_def by simp
  next
    case (WSleep x)
    then have t: "t = set_place i WDone s" using step l by simp
    then show ?thesis using out [of WDone "[]"] team_place_blocks [OF I(1) live, of WDone] WSleep main
      by (simp add: team_inv_def)
  next
    case WDone
    then have t: "t = set_place i WFree (s\<lparr>out := out s @ map (Pair i) [IsDone (int i)]\<rparr>)" using step l args by simp
    have "blocks_inv t" unfolding t by (rule team_place_blocks) (use I(1) live same in \<open>auto simp: live_def\<close>)
    then show ?thesis using out [of WFree "[IsDone (int i)]"] WDone main unfolding t team_inv_def by simp
  next
    case WFree
    then have t: "t = set_place i WOver (s\<lparr>heap := (heap s)(block (workers s ! i) := None)\<rparr>)" using step l by simp
    have "out_inv t" using I(2) l WFree unfolding t by (auto simp: out_inv_def team_place_nth lines_of_def)
    then show ?thesis using free_blocks [OF I(1) live] main unfolding t team_inv_def by simp
  next
    case WOver
    then show ?thesis using p by simp
  qed
qed


lemma team_main_inv:
  assumes "team_inv n s" "team_main n blk ptime created s = Some t" "good (Main blk ptime created)"
  shows "team_inv n t"
proof -
  have I: "blocks_inv s" "out_inv s" "main_inv n s (mpc s)" using assms(1) by (simp_all add: team_inv_def)
  have kept: "team_inv n t" if "workers t = workers s" "heap t = heap s" "out t = out s" "main_inv n t (mpc t)"
    using I that by (simp add: team_inv_def blocks_inv_def out_inv_def live_def lines_of_def)
  note step = assms(2) [unfolded team_main_def]
  show ?thesis
  proof (cases "mpc s")
    case MAlloc
    then show ?thesis using step I(3) assms(3) by (intro kept) auto
  next
    case (MCreate i)
    show ?thesis
    proof (cases "i < n")
      case False
      then show ?thesis using step I(3) MCreate by (intro kept) auto
    next
      case True
      then obtain b where b: "blk = Some b" "heap s b = None" "0 \<le> ptime" "ptime \<le> 10"
        using step MCreate assms(3) by (auto split: if_splits)
      have i: "length (workers s) = i" "table s" using I(3) MCreate by auto
      let ?a = "\<lparr>tid = int i, arg1 = 5, arg2_halves = 5, processing_time = ptime\<rparr>"
      have t: "t = s\<lparr>heap := (heap s)(b \<mapsto> ?a), workers := workers s @ [\<lparr>place = WStart, block = b\<rparr>], mpc := MCreate (i + 1)\<rparr>"
        using step MCreate True b i assms(3) by simp
      have "blocks_inv t" unfolding t by (rule alloc_blocks [OF I(1) b(2)]) (use b i in \<open>simp add: own_args_def\<close>)
      moreover have "out_inv t" using I(2) unfolding out_inv_def t
        by (auto simp: lines_of_def nth_append less_Suc_eq)
      ultimately show ?thesis using True i unfolding team_inv_def by (simp add: t)
    qed
  next
    case (MJoin i)
    then show ?thesis using step I(3) by (intro kept) (auto simp: less_Suc_eq split: if_splits)
  next
    case MExit
    then show ?thesis using step I(3) by (intro kept) auto
  qed (use step in auto)
qed

lemma team_step_inv:
  assumes "team_inv n s" "good e" "team_step n s e = Some t"
  shows "team_inv n t"
  using assms(2,3) team_main_inv [OF assms(1)] my_func_inv [OF assms(1)]
  by (cases e) (auto simp: team_step_def split: if_splits)

section \<open>Its end\<close>

fun w_rank :: "wplace \<Rightarrow> nat" where
  "w_rank WStart = 4"
| "w_rank (WSleep t) = 3"
| "w_rank WDone = 2"
| "w_rank WFree = 1"
| "w_rank WOver = 0"

fun m_rank :: "nat \<Rightarrow> mplace \<Rightarrow> nat" where
  "m_rank n MAlloc = 6 * n + 4"
| "m_rank n (MCreate i) = 5 * (n - i) + n + 3"
| "m_rank n (MJoin i) = n - i + 2"
| "m_rank n MExit = 1"
| "m_rank n _ = 0"

definition team_mu :: "nat \<Rightarrow> team \<Rightarrow> nat" where
  "team_mu n s = m_rank n (mpc s) + sum_list (map (w_rank \<circ> place) (workers s))"

lemma mu_place:
  assumes "i < length (workers s)" "w_rank p < w_rank (place (workers s ! i))" "workers u = workers s" "mpc u = mpc s"
  shows "team_mu n (set_place i p u) < team_mu n s"
proof -
  have "w_rank (place (workers s ! i)) \<le> sum_list (map (w_rank \<circ> place) (workers s))"
    using assms(1) by (intro member_le_sum_list) auto
  moreover have "sum_list (map (w_rank \<circ> place) (workers (set_place i p u))) =
      sum_list (map (w_rank \<circ> place) (workers s)) + w_rank p - w_rank (place (workers s ! i))"
    using assms(1,3) by (simp add: set_place_def map_update sum_list_update)
  ultimately show ?thesis using assms(2,4) by (simp add: team_mu_def)
qed

lemma my_func_moves:
  assumes "blocks_inv s" "i \<in> live s" "mpc s \<noteq> MFailed" "mpc s \<noteq> MCrashed"
  shows "\<exists>t. my_func i s = Some t \<and> team_mu n t < team_mu n s"
proof -
  obtain a where a: "heap s (block (workers s ! i)) = Some a" using live_args [OF assms(1,2)] by blast
  have "i < length (workers s)" "place (workers s ! i) \<noteq> WOver" using assms(2) by (auto simp: live_def)
  then show ?thesis using a
    by (cases "place (workers s ! i)") (auto simp: my_func_def Let_def intro!: mu_place)
qed

lemma my_func_live: "my_func i s = Some t \<Longrightarrow> blocks_inv s \<Longrightarrow> i \<in> live s"
  by (auto simp: my_func_def live_def Let_def split: if_splits option.splits wplace.splits)

lemma team_step_mu:
  assumes "team_inv n s" "good e" "team_step n s e = Some t"
  shows "team_mu n t < team_mu n s"
proof (cases e)
  case (Worker i)
  have B: "blocks_inv s" using assms(1) by (simp add: team_inv_def)
  have m: "mpc s \<noteq> MFailed" "mpc s \<noteq> MCrashed" "my_func i s = Some t"
    using assms(3) Worker by (auto simp: team_step_def split: if_splits)
  show ?thesis using my_func_moves [OF B my_func_live [OF m(3) B] m(1,2), of n] m(3) by simp
next
  case (Main blk ptime created)
  have I: "main_inv n s (mpc s)" using assms(1) by (simp add: team_inv_def)
  have "team_main n blk ptime created s = Some t" using assms(3) Main by (auto simp: team_step_def split: if_splits)
  then show ?thesis using I Main assms(2)
    by (cases "mpc s") (auto simp: team_main_def team_mu_def split: if_splits)
qed

lemma team_progress:
  assumes "team_inv n s" "mpc s \<noteq> MOver"
  shows "\<exists>e. good e \<and> team_step n s e \<noteq> None"
proof -
  have I: "blocks_inv s" "main_inv n s (mpc s)" using assms(1) by (simp_all add: team_inv_def)
  obtain c where "owned (heap s) (live s) (\<lambda>i. block (workers s ! i)) c" using I(1) by (auto simp: blocks_inv_def)
  then have "dom (heap s) = (\<lambda>i. block (workers s ! i)) ` live s" by (rule owned_dom)
  then have "finite (dom (heap s))" by (simp add: live_def)
  then obtain b where "b \<notin> dom (heap s)" using ex_new_if_finite infinite_UNIV_nat by blast
  then have b: "heap s b = None" by auto
  have m: "mpc s \<noteq> MFailed" "mpc s \<noteq> MCrashed" using I(2) by auto
  show ?thesis
  proof (cases "\<exists>i. i \<in> live s")
    case True
    then obtain i where "i \<in> live s" ..
    then show ?thesis using my_func_moves [OF I(1) _ m, of i] m by (intro exI [of _ "Worker i"]) (auto simp: team_step_def)
  next
    case False
    then have "place (workers s ! i) = WOver" if "i < length (workers s)" for i using that by (auto simp: live_def)
    then have "team_main n (Some b) 0 True s \<noteq> None" using I(2) b assms(2) m
      by (cases "mpc s") (auto simp: team_main_def)
    then show ?thesis using m by (intro exI [of _ "Main (Some b) 0 True"]) (simp add: team_step_def)
  qed
qed

section \<open>Properties\<close>

text \<open>
  C36: as long as malloc and pthread\_create succeed, each worker prints first the number and the
  arguments that main gave to it and then that it is done, whatever the order of the threads; and
  after at most \<open>6 n + 4\<close> steps main has ended, all workers have printed both lines, every
  structure and the table of the threads is freed.
\<close>

theorem team_outcome:
  assumes "run (team_step n) team_start es = Some s" "list_all good es"
  shows "length es \<le> 6 * n + 4 \<and>
    (\<forall>i<length (workers s). lines_of i s = lines_at i (place (workers s ! i))) \<and>
    ((\<forall>e. good e \<longrightarrow> team_step n s e = None) \<longrightarrow>
       mpc s = MOver \<and> heap s = (\<lambda>_. None) \<and> \<not> table s \<and>
       (\<forall>i. lines_of i s = (if i < n then [Using (int i) 5 5, IsDone (int i)] else [])))"
proof -
  have I: "team_inv n s"
    by (rule run_all_inv [where I = "team_inv n" and P = good]) (use assms team_inv_start team_step_inv in auto)
  have "team_mu n s + length es \<le> team_mu n team_start"
    by (rule run_all_length [where I = "team_inv n" and P = good])
      (use assms team_inv_start team_step_inv team_step_mu in auto)
  then have "length es \<le> 6 * n + 4" by (simp add: team_mu_def team_start_def)
  moreover have "\<forall>i<length (workers s). lines_of i s = lines_at i (place (workers s ! i))"
    using I by (simp add: team_inv_def out_inv_def)
  moreover have "mpc s = MOver \<and> heap s = (\<lambda>_. None) \<and> \<not> table s \<and>
      (\<forall>i. lines_of i s = (if i < n then [Using (int i) 5 5, IsDone (int i)] else []))"
    if "\<forall>e. good e \<longrightarrow> team_step n s e = None"
  proof -
    have m: "mpc s = MOver"
    proof (rule ccontr)
      assume "mpc s \<noteq> MOver"
      then obtain e where "good e" "team_step n s e \<noteq> None" using team_progress [OF I] by auto
      then show False using that by simp
    qed
    then have e: "length (workers s) = n" "\<not> table s" "\<forall>j<n. place (workers s ! j) = WOver"
      using I by (simp_all add: team_inv_def)
    then have "live s = {}" by (auto simp: live_def)
    then have "heap s = (\<lambda>_. None)" using I unfolding team_inv_def blocks_inv_def by (blast intro: owned_none)
    then show ?thesis using m e I by (simp add: team_inv_def out_inv_def)
  qed
  ultimately show ?thesis by blast
qed

definition two_workers :: "event list" where
  "two_workers = [Main (Some 9) 0 True, Main (Some 4) 3 True, Worker 0, Main (Some 5) 7 True, Worker 1, Worker 1,
     Worker 1, Worker 1, Main (Some 0) 0 True, Worker 0, Worker 0, Worker 0] @ replicate 4 (Main (Some 0) 0 True)"

theorem team_outcome_witness:
  "\<exists>s. run (team_step 2) team_start two_workers = Some s \<and> mpc s = MOver \<and>
     out s = [(0, Using 0 5 5), (1, Using 1 5 5), (1, IsDone 1), (0, IsDone 0)] \<and> length two_workers \<le> 6 * 2 + 4"
proof -
  have r: "case run (team_step 2) team_start two_workers of None \<Rightarrow> False | Some s \<Rightarrow> mpc s = MOver \<and>
      out s = [(0, Using 0 5 5), (1, Using 1 5 5), (1, IsDone 1), (0, IsDone 0)]" by code_simp
  then obtain s where s: "run (team_step 2) team_start two_workers = Some s" "mpc s = MOver"
      "out s = [(0, Using 0 5 5), (1, Using 1 5 5), (1, IsDone 1), (0, IsDone 0)]"
    by (auto split: option.splits)
  have "list_all good two_workers" by (simp add: two_workers_def numeral_eq_Suc)
  then show ?thesis using team_outcome [OF s(1)] s by blast
qed

text \<open>The program does not look at what malloc returns, and follows a null pointer.\<close>

lemma no_memory_crashes: "run (team_step 2) team_start [Main (Some 0) 0 True, Main None 0 True] = Some (team_start\<lparr>table := True, mpc := MCrashed\<rparr>)"
  by (simp add: team_step_def team_main_def team_start_def)

end
