(* ===== verification/SigwaitThread.thy ===== *)
theory SigwaitThread
  imports Threads
begin

text \<open>
  shackleford/src/signals/7-thread.c and thr/signal\_handler\_thread.c: all threads block every
  signal, and one of them takes the signals with sigwait. The programs differ in what that thread
  does when sigwait fails.
\<close>

section \<open>The programs\<close>

definition SIGINT :: nat where "SIGINT = 2"
definition SIGKILL :: nat where "SIGKILL = 9"
definition SIGUSR1 :: nat where "SIGUSR1 = 10"
definition SIGUSR2 :: nat where "SIGUSR2 = 12"
definition SIGSTOP :: nat where "SIGSTOP = 19"

text \<open>
  The signals 1 to 31 whose default action ends a process; that of the others is to ignore them, to
  stop the process or to let it go on.
\<close>

definition ends_process :: "nat \<Rightarrow> bool" where
  "ends_process x \<longleftrightarrow> 1 \<le> x \<and> x \<le> 31 \<and> x \<notin> {17, 18, 19, 20, 21, 22, 23, 28}"

datatype mplace = MStart | MCreate | MBusy
datatype hplace = HNone | HWait | HGot nat | HReturned
datatype fate = Lives | Exits nat | KilledBy nat
datatype notice = CtrlC | Usr1 | Usr2 | Other

text \<open>\<open>reported\<close> are the signals that were reported, and \<open>out\<close> is what was printed for them.\<close>

record watch =
  blocked :: bool
  pending :: "nat set"
  mpc :: mplace
  hpc :: hplace
  reported :: "nat list"
  out :: "notice list"
  fate :: fate

definition watch_start :: watch where
  "watch_start = \<lparr>blocked = False, pending = {}, mpc = MStart, hpc = HNone, reported = [], out = [], fate = Lives\<rparr>"

definition report_of :: "nat \<Rightarrow> notice" where
  "report_of x = (if x = SIGINT then CtrlC else if x = SIGUSR1 then Usr1 else if x = SIGUSR2 then Usr2 else Other)"

text \<open>Main blocks all signals, creates the thread, and then works for ever.\<close>

definition watch_main :: "bool \<Rightarrow> watch \<Rightarrow> watch" where
  "watch_main created s =
     (case mpc s of
        MStart \<Rightarrow> s\<lparr>blocked := True, mpc := MCreate\<rparr>
      | MCreate \<Rightarrow> if created then s\<lparr>hpc := HWait, mpc := MBusy\<rparr> else s\<lparr>fate := Exits 1\<rparr>
      | MBusy \<Rightarrow> s)"

text \<open>
  The thread. \<open>taken\<close> is the pending signal that sigwait takes, \<open>None\<close> that sigwait fails;
  \<open>returns\<close> is whether the thread then returns, as in signal\_handler\_thread.c, or ends the
  process, as in 7-thread.c.
\<close>

definition signal_handler :: "bool \<Rightarrow> nat option \<Rightarrow> watch \<Rightarrow> watch option" where
  "signal_handler returns taken s =
     (case hpc s of
        HWait \<Rightarrow>
          (case taken of
             None \<Rightarrow> Some (if returns then s\<lparr>hpc := HReturned\<rparr> else s\<lparr>fate := Exits 1\<rparr>)
           | Some x \<Rightarrow> if x \<in> pending s then Some (s\<lparr>pending := pending s - {x}, hpc := HGot x\<rparr>) else None)
      | HGot x \<Rightarrow>
          (let u = s\<lparr>reported := reported s @ [x], out := out s @ [report_of x], hpc := HWait\<rparr> in
           Some (if x = SIGINT then u\<lparr>fate := Exits 0\<rparr> else u))
      | _ \<Rightarrow> None)"

text \<open>A signal for the process; a signal that is pending already is not kept twice.\<close>

definition arrive :: "nat \<Rightarrow> watch \<Rightarrow> watch" where
  "arrive x s =
     (if x = SIGKILL then s\<lparr>fate := KilledBy x\<rparr>
      else if x = SIGSTOP then s
      else if blocked s then s\<lparr>pending := insert x (pending s)\<rparr>
      else if ends_process x then s\<lparr>fate := KilledBy x\<rparr>
      else s)"

datatype event = Main bool | Handler "nat option" | Signal nat

definition watch_step :: "bool \<Rightarrow> watch \<Rightarrow> event \<Rightarrow> watch option" where
  "watch_step returns s e =
     (if fate s \<noteq> Lives then None
      else (case e of
          Main created \<Rightarrow> Some (watch_main created s)
        | Handler taken \<Rightarrow> signal_handler returns taken s
        | Signal x \<Rightarrow> if 1 \<le> x \<and> x \<le> 31 then Some (arrive x s) else None))"

section \<open>What becomes of a signal\<close>

definition sent :: "event list \<Rightarrow> nat list" where
  "sent es = concat (map (\<lambda>e. case e of Signal x \<Rightarrow> [x] | _ \<Rightarrow> []) es)"

lemma sent_snoc [simp]:
  "sent (es @ [Main c]) = sent es" "sent (es @ [Handler t]) = sent es" "sent (es @ [Signal x]) = sent es @ [x]"
  by (simp_all add: sent_def)

definition held :: "watch \<Rightarrow> nat \<Rightarrow> nat" where
  "held s x = (if x \<in> pending s then 1 else 0) + (if hpc s = HGot x then 1 else 0)"

definition watch_inv :: "event list \<Rightarrow> watch \<Rightarrow> bool" where
  "watch_inv es s \<longleftrightarrow>
     (\<forall>x. count_list (reported s) x + held s x \<le> count_list (sent es) x) \<and>
     (\<forall>x. ends_process x \<and> x \<in> set (sent es) \<longrightarrow> fate s \<noteq> Lives \<or> x \<in> set (reported s) \<or> 0 < held s x) \<and>
     (blocked s \<longleftrightarrow> mpc s \<noteq> MStart) \<and> (hpc s = HNone \<longleftrightarrow> mpc s \<noteq> MBusy) \<and>
     out s = map report_of (reported s) \<and>
     (\<forall>x. fate s = KilledBy x \<longrightarrow> x = SIGKILL \<or> mpc s = MStart) \<and>
     (fate s = Exits 0 \<longleftrightarrow> SIGINT \<in> set (reported s))"


lemma ends_range: "ends_process x \<Longrightarrow> x \<noteq> SIGSTOP"
  by (simp add: ends_process_def SIGSTOP_def)

lemma watch_counts: "watch_inv es s \<Longrightarrow> count_list (reported s) y + held s y \<le> count_list (sent es) y"
  by (simp add: watch_inv_def)

lemma watch_kept:
  "watch_inv es s \<Longrightarrow> fate s = Lives \<Longrightarrow> ends_process y \<Longrightarrow> y \<in> set (sent es) \<Longrightarrow> y \<in> set (reported s) \<or> 0 < held s y"
  by (simp add: watch_inv_def)

lemma watch_rest:
  "watch_inv es s \<Longrightarrow> fate s = Lives \<Longrightarrow> (blocked s \<longleftrightarrow> mpc s \<noteq> MStart) \<and> (hpc s = HNone \<longleftrightarrow> mpc s \<noteq> MBusy) \<and>
     out s = map report_of (reported s) \<and> SIGINT \<notin> set (reported s)"
  by (simp add: watch_inv_def)

lemma watch_main_inv:
  assumes "watch_inv es s" "fate s = Lives"
  shows "watch_inv (es @ [Main created]) (watch_main created s)"
proof -
  have h: "held (watch_main created s) x = held s x" for x
    using assms by (cases "mpc s") (auto simp: watch_main_def held_def watch_inv_def)
  have "watch_inv es s \<longleftrightarrow> watch_inv (es @ [Main created]) s" by (simp add: watch_inv_def)
  then show ?thesis using assms h
    by (cases "mpc s") (auto simp: watch_inv_def watch_main_def simp del: sent_snoc)
qed

lemma watch_handler_inv:
  assumes "watch_inv es s" "fate s = Lives" "signal_handler returns taken s = Some t"
  shows "watch_inv (es @ [Handler taken]) t"
proof (cases "hpc s")
  case HWait
  then have m: "mpc s = MBusy" using assms(1) by (auto simp: watch_inv_def)
  show ?thesis
  proof (cases taken)
    case None
    then have "t = (if returns then s\<lparr>hpc := HReturned\<rparr> else s\<lparr>fate := Exits 1\<rparr>)" using assms(3) HWait by (simp add: signal_handler_def)
    then show ?thesis using assms(1,2) HWait m by (auto simp: watch_inv_def held_def)
  next
    case (Some x)
    then have t: "t = s\<lparr>pending := pending s - {x}, hpc := HGot x\<rparr>" "x \<in> pending s"
      using assms(3) HWait by (auto simp: signal_handler_def split: if_splits)
    have "held t y = held s y" for y using HWait t by (auto simp: held_def)
    then show ?thesis using assms(1,2) HWait t(1) by (simp add: watch_inv_def)
  qed
next
  case (HGot x)
  then have m: "mpc s = MBusy" using assms(1) by (auto simp: watch_inv_def)
  let ?u = "s\<lparr>reported := reported s @ [x], out := out s @ [report_of x], hpc := HWait\<rparr>"
  have t: "t = (if x = SIGINT then ?u\<lparr>fate := Exits 0\<rparr> else ?u)" using assms(3) HGot by (simp add: signal_handler_def Let_def)
  have r: "reported t = reported s @ [x]" "hpc t = HWait" "mpc t = MBusy" "blocked t = blocked s" "pending t = pending s"
      "out t = out s @ [report_of x]" using t m by simp_all
  have h: "held s y = held t y + (if y = x then 1 else 0)" for y using HGot r by (simp add: held_def)
  have f: "fate t = (if x = SIGINT then Exits 0 else Lives)" using t assms(2) by simp
  show ?thesis
    unfolding watch_inv_def sent_snoc
  proof (intro conjI allI impI)
    fix y
    show "count_list (reported t) y + held t y \<le> count_list (sent es) y" using watch_counts [OF assms(1), of y] r(1) h [of y] by (cases "x = y") auto
  next
    fix y assume "ends_process y \<and> y \<in> set (sent es)"
    then have "y \<in> set (reported s) \<or> 0 < held s y" using watch_kept [OF assms(1,2), of y] by simp
    then show "fate t \<noteq> Lives \<or> y \<in> set (reported t) \<or> 0 < held t y" using r(1) h [of y] by (cases "y = x") simp_all
  next
    note R = watch_rest [OF assms(1,2)]
    show "blocked t = (mpc t \<noteq> MStart)" "(hpc t = HNone) = (mpc t \<noteq> MBusy)" using R r m by simp_all
    show "out t = map report_of (reported t)" using R r by simp
    show "(fate t = Exits 0) = (SIGINT \<in> set (reported t))" using R r(1) f by auto
    fix y assume "fate t = KilledBy y"
    then show "y = SIGKILL \<or> mpc t = MStart" using f by (simp split: if_splits)
  qed
qed (use assms(3) in \<open>simp_all add: signal_handler_def\<close>)

lemma arrive_inv:
  assumes "watch_inv es s" "fate s = Lives"
  shows "watch_inv (es @ [Signal x]) (arrive x s)"
proof -
  have "x = SIGSTOP \<or> \<not> ends_process x \<Longrightarrow> \<not> blocked s \<or> x = SIGSTOP \<Longrightarrow> x \<noteq> SIGKILL \<Longrightarrow> ?thesis"
    using assms ends_range [of x] by (auto simp: watch_inv_def arrive_def held_def trans_le_add1)
  moreover have "x = SIGKILL \<or> (\<not> blocked s \<and> x \<noteq> SIGSTOP \<and> ends_process x) \<Longrightarrow> ?thesis"
    using assms by (auto simp: watch_inv_def arrive_def held_def trans_le_add1)
  moreover have "x \<noteq> SIGKILL \<Longrightarrow> x \<noteq> SIGSTOP \<Longrightarrow> blocked s \<Longrightarrow> ?thesis"
  proof -
    assume x: "x \<noteq> SIGKILL" "x \<noteq> SIGSTOP" "blocked s"
    then have t: "arrive x s = s\<lparr>pending := insert x (pending s)\<rparr>" by (simp add: arrive_def)
    have h: "held s y \<le> held (arrive x s) y" "held (arrive x s) y \<le> held s y + (if y = x then 1 else 0)" for y
      by (auto simp: t held_def)
    have new: "0 < held (arrive x s) x" by (simp add: t held_def)
    show ?thesis
      unfolding watch_inv_def sent_snoc
    proof (intro conjI allI impI)
      fix y show "count_list (reported (arrive x s)) y + held (arrive x s) y \<le> count_list (sent es @ [x]) y"
        using watch_counts [OF assms(1), of y] h(2) [of y] t by (cases "x = y") auto
    next
      fix y assume y: "ends_process y \<and> y \<in> set (sent es @ [x])"
      show "fate (arrive x s) \<noteq> Lives \<or> y \<in> set (reported (arrive x s)) \<or> 0 < held (arrive x s) y"
      proof (cases "y = x")
        case False
        then have "y \<in> set (reported s) \<or> 0 < held s y" using watch_kept [OF assms] y by auto
        then show ?thesis using h(1) [of y] t by auto
      qed (use new in simp)
    qed (use watch_rest [OF assms] assms(2) t in auto)
  qed
  ultimately show ?thesis by blast
qed

lemma run_watch_inv: "run (watch_step returns) watch_start es = Some s \<Longrightarrow> watch_inv es s"
proof (induction es arbitrary: s rule: rev_induct)
  case Nil
  then show ?case by (auto simp: watch_inv_def watch_start_def held_def sent_def)
next
  case (snoc e es)
  then obtain u where u: "run (watch_step returns) watch_start es = Some u" "watch_step returns u e = Some s"
    by (auto simp: run_append split: option.splits)
  note I = snoc.IH [OF u(1)]
  show ?case using u(2) I watch_main_inv [OF I] watch_handler_inv [OF I] arrive_inv [OF I]
    by (cases e) (auto simp: watch_step_def split: if_splits)
qed

section \<open>Properties\<close>

text \<open>
  C37: every report is printed for a signal of its own; a signal whose default action would end the
  process has been reported or is kept for the thread as long as the process lives; once main has
  blocked the signals, only SIGKILL kills the process, and it ends with status 0 exactly when the
  thread has taken a SIGINT.
\<close>

theorem signals_reported:
  assumes "run (watch_step returns) watch_start es = Some s"
  shows "out s = map report_of (reported s) \<and>
    (\<forall>x. count_list (reported s) x \<le> count_list (sent es) x) \<and>
    (\<forall>x. ends_process x \<and> x \<in> set (sent es) \<and> fate s = Lives \<longrightarrow> x \<in> set (reported s) \<or> x \<in> pending s \<or> hpc s = HGot x) \<and>
    (\<forall>x. fate s = KilledBy x \<longrightarrow> x = SIGKILL \<or> mpc s = MStart) \<and>
    (fate s = Exits 0 \<longleftrightarrow> SIGINT \<in> set (reported s))"
proof -
  note I = run_watch_inv [OF assms, unfolded watch_inv_def]
  have "count_list (reported s) x \<le> count_list (sent es) x" for x
  proof -
    have "count_list (reported s) x + held s x \<le> count_list (sent es) x" using I by blast
    then show ?thesis by simp
  qed
  moreover have "x \<in> pending s \<or> hpc s = HGot x" if "0 < held s x" for x using that by (auto simp: held_def split: if_splits)
  ultimately show ?thesis using I by blast
qed

theorem signals_reported_witness:
  "\<exists>s. run (watch_step False) watch_start
      [Main True, Signal 15, Main True, Signal SIGUSR1, Signal SIGUSR1, Handler (Some SIGUSR1), Handler None, Signal SIGINT] = Some s \<and>
     fate s = Lives \<and> reported s = [10] \<and> out s = [Usr1] \<and> (15 \<in> pending s \<or> hpc s = HGot 15) \<and> count_list (reported s) 10 \<le> 2"
proof -
  let ?es = "[Main True, Signal 15, Main True, Signal SIGUSR1, Signal SIGUSR1, Handler (Some SIGUSR1), Handler None, Signal SIGINT]"
  have "case run (watch_step False) watch_start ?es of None \<Rightarrow> False | Some s \<Rightarrow> fate s = Lives \<and> reported s = [10]" by code_simp
  then obtain s where s: "run (watch_step False) watch_start ?es = Some s" "fate s = Lives" "reported s = [10]"
    by (auto split: option.splits)
  have e: "ends_process 15" "15 \<in> set (sent ?es)" "count_list (sent ?es) 10 = 2" by code_simp+
  have "report_of 10 = Usr1" by code_simp
  then show ?thesis using signals_reported [OF s(1)] s e by (intro exI [of _ s]) force
qed

text \<open>
  With the thread still there, a SIGINT that is pending can always be taken, and then the process
  ends. When sigwait has failed in signal\_handler\_thread.c, nothing but SIGKILL ends it.
\<close>

lemma interrupt_ends:
  assumes "fate s = Lives" "hpc s = HWait" "SIGINT \<in> pending s"
  shows "\<exists>t. run (watch_step returns) s [Handler (Some SIGINT), Handler None] = Some t \<and> fate t = Exits 0"
  using assms by (simp add: watch_step_def signal_handler_def Let_def)

lemma returned_is_deaf:
  assumes "fate s = Lives" "hpc s = HReturned" "blocked s" "mpc s = MBusy" "watch_step returns s e = Some t"
  shows "e = Signal SIGKILL \<or> fate t = Lives \<and> hpc t = HReturned \<and> blocked t \<and> mpc t = MBusy"
  using assms by (cases e) (auto simp: watch_step_def signal_handler_def watch_main_def arrive_def split: if_splits)

end
