(* ===== verification/AlarmLoop.thy ===== *)
theory AlarmLoop
  imports Threads
begin

text \<open>
  signals/simple\_alarm.c: a loop that sets an alarm, sleeps in pause until a signal comes, and ends
  after a SIGINT, which the handler notes in a flag.
\<close>

section \<open>The program\<close>

datatype place = SetAlarm | SetInt | Arm | BeforePause | InPause | Test | Over | Killed

record loop =
  place :: place
  int_flag :: bool
  timer :: bool
  rung :: nat

definition loop_start :: loop where
  "loop_start = \<lparr>place = SetAlarm, int_flag = False, timer = False, rung = 0\<rparr>"

definition pause_main :: "loop \<Rightarrow> loop option" where
  "pause_main s =
     (case place s of
        SetAlarm \<Rightarrow> Some (s\<lparr>place := SetInt\<rparr>)
      | SetInt \<Rightarrow> Some (s\<lparr>place := Arm\<rparr>)
      | Arm \<Rightarrow> Some (s\<lparr>timer := True, place := BeforePause\<rparr>)
      | BeforePause \<Rightarrow> Some (s\<lparr>place := InPause\<rparr>)
      | Test \<Rightarrow> Some (s\<lparr>place := (if int_flag s then Over else Arm)\<rparr>)
      | _ \<Rightarrow> None)"

text \<open>A handler returns to where the program was; from pause it goes on to the test.\<close>

definition after_signal :: "loop \<Rightarrow> loop" where
  "after_signal s = (if place s = InPause then s\<lparr>place := Test\<rparr> else s)"

definition alarm_handler :: "loop \<Rightarrow> loop" where
  "alarm_handler s = after_signal (s\<lparr>rung := rung s + 1\<rparr>)"

definition ctrl_c_handler :: "loop \<Rightarrow> loop" where
  "ctrl_c_handler s = after_signal (s\<lparr>int_flag := True\<rparr>)"

text \<open>
  \<open>late\<close> is whether the two seconds can pass before the program has reached pause. Until the handler
  of SIGINT is set, the signal kills the program.
\<close>

datatype event = Main | Ring | Interrupt

definition loop_step :: "bool \<Rightarrow> loop \<Rightarrow> event \<Rightarrow> loop option" where
  "loop_step late s e =
     (if place s = Over \<or> place s = Killed then None
      else (case e of
          Main \<Rightarrow> pause_main s
        | Ring \<Rightarrow> if timer s \<and> (late \<or> place s = InPause) then Some (alarm_handler (s\<lparr>timer := False\<rparr>)) else None
        | Interrupt \<Rightarrow> Some (if place s = SetAlarm \<or> place s = SetInt then s\<lparr>place := Killed\<rparr> else ctrl_c_handler s)))"

section \<open>The end of the program\<close>

definition loop_inv :: "loop \<Rightarrow> bool" where
  "loop_inv s \<longleftrightarrow> (place s = BeforePause \<or> place s = InPause \<longrightarrow> timer s) \<and>
     (int_flag s \<longrightarrow> place s \<noteq> SetAlarm \<and> place s \<noteq> SetInt \<and> place s \<noteq> Killed) \<and> (place s = Over \<longrightarrow> int_flag s)"

lemmas loop_defs = loop_step_def pause_main_def alarm_handler_def ctrl_c_handler_def after_signal_def

interpretation loop_machine: machine_inv "loop_step False" loop_start loop_inv
proof
  show "loop_inv loop_start" by (simp add: loop_inv_def loop_start_def)
next
  fix s t e assume "loop_inv s" "loop_step False s e = Some t"
  then show "loop_inv t"
    by (cases e; cases "place s") (auto simp: loop_inv_def loop_defs split: if_splits)
qed

fun rounds :: "place \<Rightarrow> nat" where
  "rounds Test = 1"
| "rounds InPause = 2"
| "rounds BeforePause = 3"
| "rounds Arm = 4"
| "rounds _ = 0"

definition quiet :: "event \<Rightarrow> bool" where "quiet e \<longleftrightarrow> e \<noteq> Interrupt"

definition told :: "loop \<Rightarrow> bool" where "told s \<longleftrightarrow> loop_inv s \<and> int_flag s"

lemma told_step:
  assumes "told s" "quiet e" "loop_step False s e = Some t"
  shows "told t \<and> rounds (place t) < rounds (place s)"
  using assms by (cases e; cases "place s") (auto simp: told_def quiet_def loop_inv_def loop_defs split: if_splits)

lemma told_moves: "told s \<Longrightarrow> \<forall>e. quiet e \<longrightarrow> loop_step False s e = None \<Longrightarrow> place s = Over"
  by (cases "place s = InPause"; cases "place s")
    (auto simp: told_def loop_inv_def loop_defs quiet_def dest: spec [of _ Main] spec [of _ Ring])

section \<open>Properties\<close>

text \<open>
  C39: when every alarm rings after the program has reached pause, the program ends at most four
  steps after a SIGINT that it has caught, wherever it was then, and it ends for no other reason.
\<close>

theorem interrupt_shuts_down:
  assumes "reach (loop_step False) loop_start s"
  shows "(place s = Over \<longrightarrow> int_flag s) \<and>
    (\<forall>es t. int_flag s \<and> list_all quiet es \<and> run (loop_step False) s es = Some t \<longrightarrow>
       length es \<le> 4 \<and> ((\<forall>e. quiet e \<longrightarrow> loop_step False t e = None) \<longrightarrow> place t = Over))"
proof -
  have I: "loop_inv s" using loop_machine.reach_inv [OF assms] .
  have "length es \<le> 4 \<and> ((\<forall>e. quiet e \<longrightarrow> loop_step False t e = None) \<longrightarrow> place t = Over)"
    if "int_flag s" "list_all quiet es" "run (loop_step False) s es = Some t" for es t
  proof -
    have "told s" using I that(1) by (simp add: told_def)
    moreover have "rounds (place s) \<le> 4" by (cases "place s") simp_all
    ultimately have "length es \<le> 4"
      using run_all_length [of told quiet "loop_step False" "\<lambda>s. rounds (place s)"] told_step that(2,3) by fastforce
    moreover have "told t"
      by (rule run_all_inv [where I = told and P = quiet]) (use \<open>told s\<close> told_step that in auto)
    ultimately show ?thesis using told_moves [of t] by auto
  qed
  moreover have "place s = Over \<longrightarrow> int_flag s" using I by (simp add: loop_inv_def)
  ultimately show ?thesis by blast
qed

theorem interrupt_shuts_down_witness:
  "\<exists>s. reach (loop_step False) loop_start s \<and> place s = BeforePause \<and> int_flag s \<and>
     (\<forall>es t. list_all quiet es \<and> run (loop_step False) s es = Some t \<longrightarrow> length es \<le> 4)"
proof -
  have "\<exists>s. reach (loop_step False) loop_start s \<and> (place s = BeforePause \<and> int_flag s)"
    by (rule run_example [where es = "[Main, Main, Main, Main, Ring, Main, Main, Interrupt]"]) code_simp
  then show ?thesis using interrupt_shuts_down by blast
qed

text \<open>
  An alarm that rings before pause is lost, and so is a SIGINT between the test and pause: the
  program then sleeps in pause with its flag set and no alarm to come.
\<close>

lemma both_signals_missed:
  "\<exists>s. reach (loop_step True) loop_start s \<and> (int_flag s \<and> place s = InPause \<and> (loop_step True s Main, loop_step True s Ring) = (None, None))"
  by (rule run_example [where es = "[Main, Main, Main, Ring, Interrupt, Main]"]) code_simp

end
