(* ===== verification/Mailboxes.thy ===== *)
theory Mailboxes
  imports Getopt Services
begin

text \<open>
  Two programs that leave a message for another one: shm/posix/sv\_xfr.c and cl\_xfr.c, through an
  object in shared memory, and ipc/server\_code.c and client\_code.c, through a named pipe.
\<close>

section \<open>A shared memory object\<close>

definition BUF_LEN :: nat where "BUF_LEN = 50"
definition MESSAGE_TYPES :: nat where "MESSAGE_TYPES = 8"

record msg =
  type_of :: nat
  buf :: string

definition snprintf :: "nat \<Rightarrow> string \<Rightarrow> string" where
  "snprintf n s = take (n - 1) s"

definition message_text :: "nat \<Rightarrow> string" where
  "message_text r = ''My message, type '' @ dec_nat (r mod MESSAGE_TYPES) @ '', num '' @ dec_nat r"

text \<open>
  The object is there or not. \<open>map_ok\<close> is the success of mmap, which the programs compare with the
  wrong value: when it fails they follow the pointer. \<open>r\<close> is the random number. The programs run one
  after the other.
\<close>

definition sv_xfr :: "bool \<Rightarrow> nat \<Rightarrow> msg option \<Rightarrow> tool_end \<times> msg option" where
  "sv_xfr map_ok r k =
     (case k of
        Some _ \<Rightarrow> (Exits False [], k)
      | None \<Rightarrow>
          if \<not> map_ok then (Undefined, Some \<lparr>type_of = 0, buf = []\<rparr>)
          else (let t = r mod MESSAGE_TYPES in
            (Exits True [''Writing message of type '' @ dec_nat t @ '' with number '' @ dec_nat r @ '' in shared memory ''],
             Some \<lparr>type_of = t, buf = snprintf BUF_LEN (message_text r)\<rparr>)))"

definition shown_text :: "msg \<Rightarrow> string" where
  "shown_text m = ''Message type is '' @ dec_nat (type_of m) @ '', content is: '' @ buf m"

definition SEGMENT_SIZE :: nat where "SEGMENT_SIZE = 56"

definition cl_xfr :: "bool \<Rightarrow> msg option \<Rightarrow> tool_end \<times> msg option" where
  "cl_xfr map_ok k =
     (case k of
        None \<Rightarrow> (Exits False [], k)
      | Some m \<Rightarrow>
          if \<not> map_ok then (Undefined, k)
          else (Exits True [''Opened shared memory object /sv_shm'',
                  ''Shared memory segment allocated correctly ('' @ dec_nat SEGMENT_SIZE @ '' bytes).'', shown_text m], None))"

text \<open>A sequence of servers, with their numbers, and of clients.\<close>

datatype box_op = Server nat | Client

fun run_box :: "box_op list \<Rightarrow> msg option \<Rightarrow> tool_end list \<times> msg option" where
  "run_box [] k = ([], k)"
| "run_box (op # ops) k =
     (let (e, k') = (case op of Server r \<Rightarrow> sv_xfr True r k | Client \<Rightarrow> cl_xfr True k);
          (es, k'') = run_box ops k' in (e # es, k''))"

definition posted :: "box_op list \<Rightarrow> tool_end list \<Rightarrow> nat list" where
  "posted ops es = concat (map (\<lambda>(op, e). case (op, e) of (Server r, Exits True _) \<Rightarrow> [r] | _ \<Rightarrow> []) (zip ops es))"

definition shown :: "box_op list \<Rightarrow> tool_end list \<Rightarrow> string list" where
  "shown ops es = concat (map (\<lambda>(op, e). case (op, e) of (Client, Exits True out) \<Rightarrow> [last out] | _ \<Rightarrow> []) (zip ops es))"

definition left_text :: "msg option \<Rightarrow> string list" where
  "left_text k = (case k of None \<Rightarrow> [] | Some m \<Rightarrow> [shown_text m])"

text \<open>The whole text of a message, with no character cut off.\<close>

definition full_text :: "nat \<Rightarrow> string" where
  "full_text r = ''Message type is '' @ dec_nat (r mod 8) @ '', content is: My message, type '' @ dec_nat (r mod 8) @ '', num '' @ dec_nat r"

lemma message_fits:
  assumes "r < 2147483648"
  shows "snprintf BUF_LEN (message_text r) = message_text r"
proof -
  have "length (dec_nat r) \<le> Suc 9" using assms by (intro dec_nat_length) simp
  moreover have "length (dec_nat (r mod 8)) \<le> Suc 0" by (intro dec_nat_length) simp
  ultimately have "length (message_text r) \<le> BUF_LEN - 1" by (simp add: message_text_def BUF_LEN_def MESSAGE_TYPES_def)
  then show ?thesis by (simp add: snprintf_def)
qed

lemma run_box_messages:
  "(\<forall>r. Server r \<in> set ops \<longrightarrow> r < 2147483648) \<Longrightarrow> run_box ops k = (es, k') \<Longrightarrow>
   shown ops es @ left_text k' = left_text k @ map full_text (posted ops es)"
proof (induction ops arbitrary: k es)
  case Nil
  then show ?case by (simp add: shown_def posted_def)
next
  case (Cons op ops)
  define e u where "e = fst (case op of Server r \<Rightarrow> sv_xfr True r k | Client \<Rightarrow> cl_xfr True k)"
    and "u = snd (case op of Server r \<Rightarrow> sv_xfr True r k | Client \<Rightarrow> cl_xfr True k)"
  obtain es' where es: "es = e # es'" "run_box ops u = (es', k')"
    using Cons.prems(2) by (auto simp: e_def u_def split: prod.splits)
  have IH: "shown ops es' @ left_text k' = left_text u @ map full_text (posted ops es')"
    using Cons.IH [OF _ es(2)] Cons.prems(1) by simp
  have full: "shown_text \<lparr>type_of = r mod MESSAGE_TYPES, buf = snprintf BUF_LEN (message_text r)\<rparr> = full_text r"
    if "op = Server r" for r
    using Cons.prems(1) that message_fits [of r]
    by (simp add: shown_text_def full_text_def message_text_def MESSAGE_TYPES_def)
  show ?case
  proof (cases op)
    case (Server r)
    then show ?thesis using IH es(1) full [OF Server]
      by (cases k) (auto simp: e_def u_def sv_xfr_def shown_def posted_def left_text_def Let_def)
  next
    case Client
    then show ?thesis using IH es(1)
      by (cases k) (auto simp: e_def u_def cl_xfr_def shown_def posted_def left_text_def)
  qed
qed

section \<open>A named pipe\<close>

definition MAX_BUFFER_SIZE :: nat where "MAX_BUFFER_SIZE = 256"

text \<open>What \<open>printf\<close> shows of a buffer: the characters before the first NUL.\<close>

definition shown_string :: "string \<Rightarrow> string" where
  "shown_string s = takeWhile (\<lambda>c. c \<noteq> NUL) s"

text \<open>\<open>got\<close> is what read gives, \<open>None\<close> that it fails.\<close>

definition fifo_server :: "bool \<Rightarrow> string option \<Rightarrow> tool_end" where
  "fifo_server mkfifo_ok got =
     (if \<not> mkfifo_ok then Exits False [''Error creating FIFO. Exiting. '']
      else (case got of
          None \<Rightarrow> Undefined
        | Some bytes \<Rightarrow>
            if MAX_BUFFER_SIZE \<le> length bytes then Undefined
            else Exits True [''Server: Read '' @ dec_nat (length bytes) @ '' bytes from the FIFO: '' @ shown_string bytes @ ''. '',
                             ''Server: The converted string is '' @ shown_string (map toupper bytes) @ ''. '']))"

text \<open>The client gives the bytes that it writes, or only its usage.\<close>

definition fifo_client :: "string list \<Rightarrow> string option \<times> tool_end" where
  "fifo_client args =
     (case args of
        [] \<Rightarrow> (None, Exits True [''Usage: client <string> ''])
      | a # _ \<Rightarrow> (Some a, Exits True [''Client: Writing '' @ dec_nat (length a) @ '' bytes to the FIFO. '']))"

text \<open>One read gives what the one write of a client has put in, up to the size of the buffer.\<close>

definition fifo_session :: "string list \<Rightarrow> tool_end" where
  "fifo_session args = (case fst (fifo_client args) of None \<Rightarrow> Waits | Some a \<Rightarrow> fifo_server True (Some (take MAX_BUFFER_SIZE a)))"

lemma toupper_NUL: "toupper c = NUL \<longleftrightarrow> c = NUL"
proof -
  let ?n = "of_char c :: nat"
  have "char_of (?n - 32) \<noteq> NUL" if "97 \<le> ?n" "?n \<le> 122"
  proof
    assume "char_of (?n - 32) = NUL"
    then have "(of_char (char_of (?n - 32) :: char) :: nat) = of_char NUL" by (simp only:)
    then have "(?n - 32) mod 256 = 0" by simp
    then show False using that by simp
  qed
  then show ?thesis by (auto simp: toupper_def)
qed

section \<open>Properties\<close>



text \<open>
  The FIFO server shows the string of the client and its upper-case form when the string is shorter
  than the buffer; otherwise it writes the terminator after the end of the buffer.
\<close>

lemma fifo_upper_case:
  assumes "NUL \<notin> set a"
  shows "fifo_session (a # as) =
    (if length a < MAX_BUFFER_SIZE
     then Exits True [''Server: Read '' @ dec_nat (length a) @ '' bytes from the FIFO: '' @ a @ ''. '',
                      ''Server: The converted string is '' @ map toupper a @ ''. '']
     else Undefined)"
proof -
  have "shown_string a = a" "shown_string (map toupper a) = map toupper a"
    using assms by (auto simp: shown_string_def toupper_NUL intro!: takeWhile_all_eq)
  then show ?thesis by (simp add: fifo_session_def fifo_client_def fifo_server_def)
qed

end
