(* ===== verification/Forks.thy ===== *)
theory Forks
  imports Threads
begin

text \<open>
  A parent and one child that work on copies of the same variables, on shared ones, or on both:
  processes/simple\_fork\_v2.c and v3.c, shackleford/src/processes/basics/2-fork.c,
  custom\_thread.c, ipc/4-shared\_memory.c of shackleford and shm/posix/simple\_shm\_example.c.
\<close>

section \<open>Two processes\<close>

text \<open>
  A variable is a name and an index; an instruction adds to one, prints some of them after a text,
  or waits for the end of the child.
\<close>

type_synonym var = "string \<times> nat"
type_synonym store = "var \<Rightarrow> int"
type_synonym line = "string \<times> int list"

datatype instr = Add var int | Print string "var list" | WaitChild

text \<open>
  A program: which variables the processes share, whether the parent stands still until the child
  has ended (vfork), the values at the fork, and what the two then do.
\<close>

record program =
  shared :: "var \<Rightarrow> bool"
  suspends :: bool
  at_fork :: store
  child_code :: "instr list"
  parent_code :: "instr list"

record processes =
  child_rest :: "instr list"
  parent_rest :: "instr list"
  child_copy :: store
  parent_copy :: store
  common :: store
  child_out :: "line list"
  parent_out :: "line list"

text \<open>One instruction on a copy and on the shared variables.\<close>

definition look :: "program \<Rightarrow> store \<Rightarrow> store \<Rightarrow> var \<Rightarrow> int" where
  "look p own com v = (if shared p v then com v else own v)"

fun exec :: "program \<Rightarrow> instr \<Rightarrow> store \<Rightarrow> store \<Rightarrow> store \<times> store \<times> line list" where
  "exec p (Add v d) own com =
     (if shared p v then (own, com(v := com v + d), []) else (own(v := own v + d), com, []))"
| "exec p (Print t vs) own com = (own, com, [(t, map (look p own com) vs)])"
| "exec p WaitChild own com = (own, com, [])"

definition forked :: "program \<Rightarrow> processes" where
  "forked p = \<lparr>child_rest = child_code p, parent_rest = parent_code p, child_copy = at_fork p,
     parent_copy = at_fork p, common = at_fork p, child_out = [], parent_out = []\<rparr>"

datatype event = Parent | Child

definition family_step :: "program \<Rightarrow> processes \<Rightarrow> event \<Rightarrow> processes option" where
  "family_step p s e =
     (case e of
        Child \<Rightarrow>
          (case child_rest s of
             [] \<Rightarrow> None
           | i # is \<Rightarrow> (let (own, com, l) = exec p i (child_copy s) (common s) in
               Some (s\<lparr>child_rest := is, child_copy := own, common := com, child_out := child_out s @ l\<rparr>)))
      | Parent \<Rightarrow>
          (case parent_rest s of
             [] \<Rightarrow> None
           | i # is \<Rightarrow>
               if (i = WaitChild \<or> suspends p) \<and> child_rest s \<noteq> [] then None
               else (let (own, com, l) = exec p i (parent_copy s) (common s) in
                 Some (s\<lparr>parent_rest := is, parent_copy := own, common := com, parent_out := parent_out s @ l\<rparr>))))"

section \<open>The programs\<close>

definition global_var :: var where "global_var = (''global'', 0)"
definition local_var :: var where "local_var = (''local'', 0)"

definition ints :: "int \<Rightarrow> int \<Rightarrow> store" where
  "ints g l v = (if v = global_var then g else l)"

definition simple_fork_v2 :: program where
  "simple_fork_v2 = \<lparr>shared = (\<lambda>_. False), suspends = False, at_fork = ints 10 100,
     child_code = [Add global_var 1, Add local_var 1, Print ''Child'' [global_var, local_var]],
     parent_code = [Add global_var (- 1), Add local_var (- 1), WaitChild, Print ''Parent'' [global_var, local_var]]\<rparr>"

text \<open>A child of vfork works on the memory of its parent.\<close>

definition simple_fork_v3 :: program where
  "simple_fork_v3 = \<lparr>shared = (\<lambda>_. True), suspends = True, at_fork = ints 10 100,
     child_code = [Add global_var 1, Add local_var 1, Print ''Child'' [global_var, local_var]],
     parent_code = [WaitChild, Print ''Parent'' [global_var, local_var]]\<rparr>"

definition fork2 :: program where
  "fork2 = \<lparr>shared = (\<lambda>_. False), suspends = False, at_fork = ints 100 5,
     child_code = [Add global_var 1, Add local_var 1, Print ''child'' [global_var, local_var]],
     parent_code = [WaitChild, Print ''parent'' [global_var, local_var]]\<rparr>"

text \<open>clone with \<open>CLONE_VM\<close>: the child shares all memory, and the parent goes on.\<close>

definition val_var :: var where "val_var = (''val'', 0)"

definition custom_thread :: program where
  "custom_thread = \<lparr>shared = (\<lambda>_. True), suspends = False, at_fork = (\<lambda>_. 10),
     child_code = [Add val_var 1], parent_code = [WaitChild, Print ''val is'' [val_var]]\<rparr>"

text \<open>Mapped memory is shared, all other memory is copied.\<close>

definition cell :: "string \<Rightarrow> nat \<Rightarrow> var" where "cell a i = (a, i)"

definition shared_memory :: program where
  "shared_memory = \<lparr>shared = (\<lambda>v. fst v = ''smem_ptr''), suspends = False, at_fork = (\<lambda>(a, i). int i),
     child_code = concat (map (\<lambda>i. [Print ''child'' [cell ''smem_ptr'' i], Add (cell ''smem_ptr'' i) 5]) [0..<10]),
     parent_code = WaitChild # map (\<lambda>i. Print ''parent'' [cell ''smem_ptr'' i]) [0..<10]\<rparr>"

definition NUM_ITEMS :: nat where "NUM_ITEMS = 10"

definition simple_shm_example :: program where
  "simple_shm_example = \<lparr>shared = (\<lambda>v. fst v = ''first_area''), suspends = False, at_fork = (\<lambda>_. 10),
     child_code = Print ''Parent says: Hello World'' [] # map (\<lambda>i. Add (cell ''first_area'' i) 1) [0..<NUM_ITEMS],
     parent_code = WaitChild # map (\<lambda>i. Print '''' [cell ''first_area'' i]) [0..<NUM_ITEMS]\<rparr>"

section \<open>The child first, and then the parent\<close>

text \<open>The reference: one process after the other.\<close>

fun run_code :: "program \<Rightarrow> instr list \<Rightarrow> store \<Rightarrow> store \<Rightarrow> store \<times> line list" where
  "run_code p [] own com = (com, [])"
| "run_code p (i # is) own com =
     (let (own', com', l) = exec p i own com; (com'', ls) = run_code p is own' com' in (com'', l @ ls))"

definition child_first :: "program \<Rightarrow> line list \<times> line list" where
  "child_first p =
     (let (com, ls) = run_code p (child_code p) (at_fork p) (at_fork p) in
      (ls, snd (run_code p (parent_code p) (at_fork p) com)))"

text \<open>The parent leaves the shared variables alone until it has waited, or it is suspended.\<close>

fun own_only :: "program \<Rightarrow> instr \<Rightarrow> bool" where
  "own_only p (Add v d) = (\<not> shared p v)"
| "own_only p (Print t vs) = list_all (\<lambda>v. \<not> shared p v) vs"
| "own_only p WaitChild = True"

definition waits_first :: "program \<Rightarrow> instr list \<Rightarrow> bool" where
  "waits_first p is \<longleftrightarrow> suspends p \<or> list_all (own_only p) (takeWhile (\<lambda>i. i \<noteq> WaitChild) is)"

lemma own_exec:
  "own_only p i \<Longrightarrow> exec p i own com = (own', com', l) \<Longrightarrow> com' = com \<and> exec p i own com2 = (own', com2, l)"
  by (cases i) (auto simp: look_def list_all_iff)

text \<open>What is left to do ends as the reference does.\<close>

definition child_end :: "program \<Rightarrow> processes \<Rightarrow> store \<times> line list" where
  "child_end p s = run_code p (child_rest s) (child_copy s) (common s)"

definition family_inv :: "program \<Rightarrow> processes \<Rightarrow> bool" where
  "family_inv p s \<longleftrightarrow>
     (child_rest s = [] \<or> waits_first p (parent_rest s)) \<and>
     child_out s @ snd (child_end p s) = fst (child_first p) \<and>
     parent_out s @ snd (run_code p (parent_rest s) (parent_copy s) (fst (child_end p s))) = snd (child_first p)"

lemma forked_inv: "waits_first p (parent_code p) \<Longrightarrow> family_inv p (forked p)"
  by (simp add: family_inv_def forked_def child_end_def child_first_def case_prod_beta)

lemma child_inv:
  assumes "family_inv p s" "family_step p s Child = Some t"
  shows "family_inv p t"
proof -
  obtain i "is" where i: "child_rest s = i # is" using assms(2) by (cases "child_rest s") (auto simp: family_step_def)
  obtain own com l where x: "exec p i (child_copy s) (common s) = (own, com, l)" using prod_cases3 by blast
  have t: "t = s\<lparr>child_rest := is, child_copy := own, common := com, child_out := child_out s @ l\<rparr>"
    using assms(2) i x by (simp add: family_step_def)
  have "child_end p s = (fst (child_end p t), l @ snd (child_end p t))"
    unfolding t child_end_def i by (simp add: x case_prod_beta)
  then show ?thesis using assms(1) i by (simp add: family_inv_def t)
qed

lemma parent_inv:
  assumes "family_inv p s" "family_step p s Parent = Some t"
  shows "family_inv p t"
proof -
  obtain i "is" where i: "parent_rest s = i # is" using assms(2) by (cases "parent_rest s") (auto simp: family_step_def)
  have may: "child_rest s = [] \<or> i \<noteq> WaitChild \<and> \<not> suspends p" using assms(2) i by (auto simp: family_step_def split: if_splits)
  obtain own com l where x: "exec p i (parent_copy s) (common s) = (own, com, l)" using prod_cases3 by blast
  have t: "t = s\<lparr>parent_rest := is, parent_copy := own, common := com, parent_out := parent_out s @ l\<rparr>"
    using assms(2) i x may by (auto simp: family_step_def)
  show ?thesis
  proof (cases "child_rest s = []")
    case True
    then have "fst (child_end p s) = common s" "fst (child_end p t) = com" "snd (child_end p s) = []" "snd (child_end p t) = []"
      by (simp_all add: child_end_def t)
    then show ?thesis using assms(1) True i x by (simp add: family_inv_def t case_prod_beta)
  next
    case False
    then have w: "waits_first p (i # is)" using assms(1) i by (simp add: family_inv_def)
    then have "own_only p i" "waits_first p is" using may False by (auto simp: waits_first_def)
    note e = own_exec [OF \<open>own_only p i\<close> x]
    have "child_end p t = child_end p s" using e by (simp add: child_end_def t)
    moreover have "exec p i (parent_copy s) (fst (child_end p s)) = (own, fst (child_end p s), l)" using e by simp
    ultimately show ?thesis using assms(1) i \<open>waits_first p is\<close> by (simp add: family_inv_def t case_prod_beta)
  qed
qed


lemma forks_inv_step: "family_inv p s \<Longrightarrow> family_step p s e = Some t \<Longrightarrow> family_inv p t"
  by (cases e) (blast intro: child_inv parent_inv)+

section \<open>Properties\<close>

definition family_over :: "program \<Rightarrow> processes \<Rightarrow> bool" where
  "family_over p s \<longleftrightarrow> family_step p s Child = None \<and> family_step p s Parent = None"

definition steps_left :: "processes \<Rightarrow> nat" where
  "steps_left s = length (child_rest s) + length (parent_rest s)"

lemma family_step_left: "family_step p s e = Some t \<Longrightarrow> steps_left t < steps_left s"
  by (cases e) (auto simp: family_step_def steps_left_def split: list.splits if_splits prod.splits)

lemma over_empty: "family_over p s \<Longrightarrow> child_rest s = [] \<and> parent_rest s = []"
  by (cases "child_rest s"; cases "parent_rest s") (auto simp: family_over_def family_step_def split: prod.splits)

theorem family_as_child_first:
  assumes "waits_first p (parent_code p)" "run (family_step p) (forked p) es = Some s"
  shows "length es \<le> length (child_code p) + length (parent_code p) \<and>
    (family_over p s \<longrightarrow> child_rest s = [] \<and> parent_rest s = [] \<and> (child_out s, parent_out s) = child_first p)"
proof -
  have "family_inv p s"
    by (rule run_all_inv [where P = "\<lambda>_. True" and I = "family_inv p", OF _ forked_inv [OF assms(1)] _ assms(2)])
      (auto intro: forks_inv_step simp: list_all_iff)
  moreover have "steps_left s + length es \<le> steps_left (forked p)"
    by (rule run_length [OF family_step_left assms(2)])
  ultimately show ?thesis using over_empty [of p s]
    by (auto simp: family_inv_def child_end_def steps_left_def forked_def prod_eq_iff)
qed

text \<open>What the six programs print.\<close>

definition prints :: "(program \<times> line list \<times> line list) list" where
  "prints =
     [(simple_fork_v2, [(''Child'', [11, 101])], [(''Parent'', [9, 99])]),
      (simple_fork_v3, [(''Child'', [11, 101])], [(''Parent'', [11, 101])]),
      (fork2, [(''child'', [101, 6])], [(''parent'', [100, 5])]),
      (custom_thread, [], [(''val is'', [11])]),
      (shared_memory, map (\<lambda>i. (''child'', [int i])) [0..<10], map (\<lambda>i. (''parent'', [int i + 5])) [0..<10]),
      (simple_shm_example, [(''Parent says: Hello World'', [])], replicate 10 ('''', [11]))]"

lemma programs_wait_first: "list_all (\<lambda>(p, _). waits_first p (parent_code p)) prints"
  by code_simp

lemma programs_print: "list_all (\<lambda>(p, out). child_first p = out) prints"
  by code_simp



end
