(* ===== verification/Spec2Isabelle.thy ===== *)
theory Spec2Isabelle
  imports Pssh_Main ProdCons Crew Barber Philosophers Barriers Primes ArrayOps DotProduct SharedXfr
    StreamCopy Services Workers PipeQueue Signalling Handshakes Counters DeferredCancel CleanupStack CleanupTeam Contractor AsyncMatrix MessageBoard SignalHandlers Foreground PipeFilter PipeTalk CoProcess MessageQueues SemTools LineInput AlarmThread ThreadArgs SigwaitThread AlarmLoop Mailboxes Forks
begin

text \<open>
  The course code of ECEC 353: a Unix shell and the programs of the lectures on threads,
  synchronisation and interprocess communication (src/code\_examples). The development models
  the programs that have a state and an algorithm of their own.

  How a C program is modelled. Structures are records, enumerations datatypes. A function is a
  HOL function; where it may leave an array, dereference a null pointer or overflow a signed
  integer its result is a sum whose \<open>Inl\<close> names the undefined behaviour (\<open>ub\<close> in Prelude,
  \<open>c_error\<close> in CInt), so a theorem that gives an \<open>Inr\<close> shows that none of this happens.
  Unsigned integers are 32-bit words where they can wrap around. What a system call returns is
  an argument, an environment record, or a choice of an event. A program with threads or
  processes is a machine (Threads): the state holds the shared variables and each thread's
  place, one step is one access to shared memory or one call of the library, and a thread that
  blocks has no step. Memory is sequentially consistent, and a spurious wake-up is an event
  where the program uses condition variables.

  Theories, with their sources.

  Prelude, CString, CInt: error composition, counting over threads, the string functions of
  the C library, signed arithmetic.

  The shell, projects/pssh/pssh\_v2. Parse models parse.c and parse.h; Parse\_Props,
  Parse\_Roundtrip and Parse\_Safety hold what the parser guarantees: a line printed from a
  parse by the documented grammar parses back to it, the task array is never left, the
  allocated argument vector is big enough exactly when the words are spaced in a certain
  way, and a parse is freed without an error. Jobs models jobs.c, the table of 100 jobs, and
  Builtin models builtin.c. Pssh models pssh.c: the checks before a line runs, the pipes and
  redirections of its processes on a table of descriptors, the SIGCHLD handler, and the
  main loop. Pssh\_Props shows that each process of a pipeline reads from the one before it
  and writes to the one after it with no descriptor left open, that the handler keeps the
  table well formed and reports a stop once; Pssh\_Main follows a job from its line to the end
  of its last process, through stop and \<open>fg\<close>, and holds the lines that bring the shell down.
  The contract of the job table is the locale \<open>job_table\<close>, which \<open>jt\<close> instantiates with
  the code's table.

  Threads: machines, their invariants (\<open>machine_inv\<close>) and their termination (\<open>machine_term\<close>:
  a measure that each step of the program lowers, and a step from every state that is not
  final), semaphores (\<open>counting_sem\<close>) and mutexes. Each machine below is an instance.
  Queues: the contract of a queue, which the circular buffer and the linked list satisfy.
  ProdCons: thr/producer\_consumer.c, the bounded buffer. Crew: thr\_sync/work\_queue.c, the
  work crew with a linked list on a heap and the cancellation of the workers. Barber:
  thr/sleeping\_barber.c and sync/sem/02-sleeping\_barber.c, two instances of the locale
  \<open>barber_shop\<close>. Philosophers: thr/dining\_philosophers.c. Barriers:
  thr/barrier\_synchronization\_with\_condition\_variables.c, its older version, and
  thr/barrier\_synchronization\_with\_semaphores.c. Workers: sync/mutex/homework/solution.c.
  PipeQueue: sync/mutex/04-pc\_bad.c and 05-pc\_cv.c. DotProduct: thr/vector\_dot\_product\_v2.c
  and thr\_sync/vector\_dot\_product\_v1.c. SharedXfr: shm/reader\_writer\_systemV, the transfer
  through a shared segment. The lemmas of these theories are an invariant and its
  preservation, the measure and the progress of the machine; their properties say what the
  program computes in every interleaving, that it does not deadlock, and how many steps it
  takes at most.
  Signalling: thr/signalling\_using\_condition\_variables\_v1.c and v2.c and
  sync/mutex/03-simple\_cv.c, one machine with a record that says in what the programs differ.
  Handshakes: thr/signalling\_using\_semaphores.c, sync/sem/01-signaling\_semaphore.c,
  pipes/sync\_with\_pipes.c and pipes/barrier\_sync\_with\_pipes.c; those with few states are
  explored by evaluation (\<open>explore\<close> in Threads). Counters: pthread\_add.c,
  sync/mutex/01-threads\_mutex.c and 01-threads\_nomutex.c, and 02-deadlock.c.
  ThreadCancel: the cancellation of threads (state, type, cancellation points, the stack of
  handlers) and the main thread of the examples, with the contract of a thread that keeps an
  invariant under cancellation (locale \<open>cancellable\<close>) and of one that answers a request within
  a bound (\<open>prompt\<close>). Its instances: DeferredCancel, thr/deferred\_cancellation\_v1.c and v2.c
  and shackleford/src/threads/3-cancel\_deferred.c and 4-cancel-async.c; CleanupStack,
  5-cancel\_cleanup.c; Contractor, cleanup\_v2.c; AsyncMatrix, async\_cancellation.c (the last two
  in threads/thread creation and management). CleanupTeam: cleanup\_v1.c of that directory.
  MessageBoard: shm/SystemV, a server that prints what clients leave in a shared segment.
  SignalHandlers: 4-sigprocmask.c, 5-sigchld.c and 6-sigsetjmp.c of shackleford/src/signals, and
  signals/simple\_signal\_handler.c. Foreground: shackleford/src/pgroups, the terminal that a
  parent gives to its child and takes back.
  Descriptors: the descriptor table of a process. PipeFilter: ls | wc as pipes/pipe\_ls\_wc.c and
  2-pipes-dup.c start it, two instances of the locale \<open>pipeline\<close>. PipeTalk: pipes/simple\_pipe.c and
  1-pipes.c. Decimals and CoProcess: pipes/simple\_co\_process.c with add2.c.
  Getopt: the option loop of the C library and the end of a tool. MessageQueues: mq, the tools on
  message queues. SemTools: sem/posix and sem/systemV, the tools on semaphores. LineInput: fgets
  and processes/simple\_interpreter.c.
  OwnedBlocks: a heap with one block for each thread. AlarmThread: alarm\_thread.c, and ThreadArgs:
  thr/multiple\_threads.c, whose threads own and free a block each. SigwaitThread:
  shackleford/src/signals/7-thread.c and thr/signal\_handler\_thread.c, a thread that takes the signals
  of the process. AlarmLoop: signals/simple\_alarm.c. Mailboxes: shm/posix/sv\_xfr.c and cl\_xfr.c,
  which leave a message in an object of shared memory, and ipc/server\_code.c and client\_code.c.
  Forks: processes/simple\_fork\_v2.c and v3.c, basics/2-fork.c, custom\_thread.c, 4-shared\_memory.c and
  simple\_shm\_example.c, programs of a parent and a child on copied and shared variables, compared
  with the child running first.
  Primes: signals/sol/primes.c, the search for primes that an alarm interrupts. ArrayOps:
  C/function\_pointers, arrays built with an operation that may fail, on a heap. StreamCopy:
  file\_io/copy.c and the stream sockets us\_xfr\_client.c and us\_xfr\_server.c. Services: the
  sequence number server over FIFOs and the upper-case server over datagrams.

  Bounds. The machines are parametric in the number of threads, items and units, except where
  the program's arrays fix it; the only fuel is that of \<open>explore\<close>, whose result the
  proofs check to be closed under all steps, and that of \<open>probe_loop\<close>, the loop of sem\_probe.c,
  which waits in the end (\<open>probe_empties\<close> says how much is enough): other loops are recursive functions with their
  termination proved, and the steps of a machine are bounded by its measure. The program's own
  constants (MAX\_JOBS, QUEUE\_SIZE, NUM\_THREADS and others) are definitions.

  Not modelled. The demonstrations of a single system call or library function, which have
  no algorithm of their own (most of processes, the other programs of signals,
  syscalls, asm, and the examples of creation and detaching in threads and
  shackleford/threads): their effect is the system's. The copies: the files of
  threads/thread synchronization and most of thr\_sync are earlier or identical versions of
  those of thr, and C/function\_pointers.c is array\_ops.c and its program in one file. The
  error exits after a failed \<open>malloc\<close>, \<open>pthread_create\<close> or \<open>semget\<close>, which end the
  program, and what the programs print to trace their progress.
\<close>

end
